(* ===== verification/Prelude.thy ===== *)
theory Prelude
  imports Complex_Main "HOL-Library.AList" "HOL-Library.Sublist"
begin

text \<open>
  Shared vocabulary of the development: instants and durations, Python's floats as far as
  comparisons see them, the string methods the sources call, database tables as lists of
  rows with a primary key, and the two interfaces every stateful component instantiates:
  a machine with an invariant, and a row update that leaves the primary key alone.
\<close>

subsection \<open>Proof collections\<close>

named_theorems cb_simps \<open>unfolding facts of the components' operations\<close>
named_theorems row_simps \<open>primary keys survive row updates\<close>

subsection \<open>Instants and durations\<close>

text \<open>
  A Python \<open>datetime\<close> has microsecond resolution, so an instant is an integer number of
  microseconds; \<open>timedelta(seconds=n)\<close> is \<open>seconds n\<close>, and
  \<open>(a - b).total_seconds() > n\<close> is \<open>a - b > seconds n\<close>.
\<close>

type_synonym instant = int

definition seconds :: "int \<Rightarrow> int" where
  "seconds n = n * 1000000"

lemma seconds_mono: "m \<le> n \<Longrightarrow> seconds m \<le> seconds n"
  by (simp add: seconds_def)

lemma seconds_le_iff [simp]: "seconds m \<le> seconds n \<longleftrightarrow> m \<le> n"
  by (simp add: seconds_def)

lemma seconds_nonneg [simp]: "0 \<le> seconds n \<longleftrightarrow> 0 \<le> n"
  by (simp add: seconds_def)

lemma seconds_pos [simp]: "0 < seconds n \<longleftrightarrow> 0 < n"
  by (simp add: seconds_def)

lemma seconds_add: "seconds (m + n) = seconds m + seconds n"
  by (simp add: seconds_def)

subsection \<open>Floats\<close>

text \<open>
  A Python float is finite (and then an exact rational), infinite, or NaN. Only comparisons
  and \<open>math.isfinite\<close> are used where this type occurs; a comparison with NaN is false.
\<close>

datatype pyfloat = Fin rat | PosInf | NegInf | NaN

fun isfinite :: "pyfloat \<Rightarrow> bool" where
  "isfinite (Fin _) = True"
| "isfinite _ = False"

fun flt_le :: "pyfloat \<Rightarrow> pyfloat \<Rightarrow> bool" where
  "flt_le NaN _ = False"
| "flt_le _ NaN = False"
| "flt_le NegInf _ = True"
| "flt_le _ PosInf = True"
| "flt_le (Fin a) (Fin b) = (a \<le> b)"
| "flt_le _ _ = False"

fun flt_lt :: "pyfloat \<Rightarrow> pyfloat \<Rightarrow> bool" where
  "flt_lt NaN _ = False"
| "flt_lt _ NaN = False"
| "flt_lt (Fin a) (Fin b) = (a < b)"
| "flt_lt NegInf NegInf = False"
| "flt_lt NegInf _ = True"
| "flt_lt PosInf _ = False"
| "flt_lt _ PosInf = True"
| "flt_lt _ NegInf = False"

lemma flt_lt_imp_le: "flt_lt a b \<Longrightarrow> flt_le a b"
  by (cases a; cases b) auto

lemma flt_not_lt: "isfinite a \<Longrightarrow> isfinite b \<Longrightarrow> \<not> flt_lt a b \<longleftrightarrow> flt_le b a"
  by (cases a; cases b) auto

subsection \<open>Strings\<close>

text \<open>
  Strings are lists of \<^typ>\<open>char\<close>; the sources' inputs that are inspected character by
  character (scopes, severities, roles, addresses) are ASCII, and the methods below are
  Python's on ASCII text.
\<close>

definition py_space :: "char \<Rightarrow> bool" where
  "py_space c = (c \<in> {CHR '' '', CHR 0x09, CHR 0x0A, CHR 0x0B, CHR 0x0C, CHR 0x0D,
                      CHR 0x1C, CHR 0x1D, CHR 0x1E, CHR 0x1F})"

definition py_strip :: "string \<Rightarrow> string" where
  "py_strip s = rev (dropWhile py_space (rev (dropWhile py_space s)))"

definition lower_char :: "char \<Rightarrow> char" where
  "lower_char c = (let n = (of_char c :: nat) in if 65 \<le> n \<and> n \<le> 90 then char_of (n + 32) else c)"

definition py_lower :: "string \<Rightarrow> string" where
  "py_lower = map lower_char"

definition py_startswith :: "string \<Rightarrow> string \<Rightarrow> bool" where
  "py_startswith s p = prefix p s"

text \<open>\<open>s.split(c)\<close> for a one-character separator.\<close>

fun py_split :: "char \<Rightarrow> string \<Rightarrow> string list" where
  "py_split c [] = [[]]"
| "py_split c (x # xs) =
     (if x = c then [] # py_split c xs
      else (case py_split c xs of [] \<Rightarrow> [[x]] | w # ws \<Rightarrow> (x # w) # ws))"

lemma py_split_not_Nil [simp]: "py_split c s \<noteq> []"
  by (induction s) (auto split: list.splits)

lemma py_split_no_sep: "c \<notin> set s \<Longrightarrow> py_split c s = [s]"
  by (induction s) auto

lemma lower_char_idem [simp]: "lower_char (lower_char c) = lower_char c"
proof -
  have "of_char (char_of (n + 32) :: char) = n + 32" if "65 \<le> n" "n \<le> 90" for n :: nat
    using that by (simp add: of_char_of)
  then show ?thesis by (auto simp: lower_char_def Let_def)
qed

lemma py_lower_idem [simp]: "py_lower (py_lower s) = py_lower s"
  by (simp add: py_lower_def)

lemma py_lower_append: "py_lower (a @ b) = py_lower a @ py_lower b"
  by (simp add: py_lower_def)

lemma py_strip_no_space:
  assumes "s = [] \<or> (\<not> py_space (hd s) \<and> \<not> py_space (last s))"
  shows "py_strip s = s"
proof -
  have "dropWhile py_space s = s" "dropWhile py_space (rev s) = rev s"
    using assms by (auto simp: dropWhile_eq_self_iff hd_rev)
  then show ?thesis by (simp add: py_strip_def)
qed

lemma dropWhile_idem: "dropWhile P (dropWhile P xs) = dropWhile P xs"
  by (induction xs) auto

lemma py_strip_idem: "py_strip (py_strip s) = py_strip s"
proof -
  let ?u = "dropWhile py_space s" and ?t = "rev (dropWhile py_space (rev (dropWhile py_space s)))"
  obtain w where w: "?u = ?t @ w" by (metis rev_append rev_rev_ident takeWhile_dropWhile_id)
  have "dropWhile py_space ?t = ?t"
    unfolding dropWhile_eq_self_iff using w hd_dropWhile [of py_space s] by (metis append_is_Nil_conv hd_append2)
  then show ?thesis by (simp add: py_strip_def dropWhile_idem)
qed

subsection \<open>Tables\<close>

text \<open>
  A table is the list of its rows in primary-key order of insertion. \<open>tbl_get key k\<close> is
  \<open>session.get(Model, k)\<close> (or a query filtered on the key with \<open>one_or_none\<close>), and
  \<open>tbl_upd key k f\<close> is the attribute assignment of a loaded instance, flushed.
\<close>

definition tbl_get :: "('r \<Rightarrow> 'k) \<Rightarrow> 'k \<Rightarrow> 'r list \<Rightarrow> 'r option" where
  "tbl_get key k rows = find (\<lambda>r. key r = k) rows"

definition tbl_upd :: "('r \<Rightarrow> 'k) \<Rightarrow> 'k \<Rightarrow> ('r \<Rightarrow> 'r) \<Rightarrow> 'r list \<Rightarrow> 'r list" where
  "tbl_upd key k f rows = map (\<lambda>r. if key r = k then f r else r) rows"

definition keys_distinct :: "('r \<Rightarrow> 'k) \<Rightarrow> 'r list \<Rightarrow> bool" where
  "keys_distinct key rows = distinct (map key rows)"

lemma tbl_get_Nil [simp]: "tbl_get key k [] = None"
  by (simp add: tbl_get_def)

lemma tbl_get_Cons: "tbl_get key k (r # rows) = (if key r = k then Some r else tbl_get key k rows)"
  by (simp add: tbl_get_def)

lemma tbl_get_Some: "tbl_get key k rows = Some r \<Longrightarrow> r \<in> set rows \<and> key r = k"
  by (induction rows) (auto simp: tbl_get_Cons split: if_splits)

lemma tbl_get_None: "tbl_get key k rows = None \<longleftrightarrow> k \<notin> key ` set rows"
  by (induction rows) (auto simp: tbl_get_Cons)

lemma tbl_get_in: "keys_distinct key rows \<Longrightarrow> r \<in> set rows \<Longrightarrow> tbl_get key (key r) rows = Some r"
  by (induction rows) (auto simp: tbl_get_Cons keys_distinct_def)

lemma tbl_get_append:
  "tbl_get key k (xs @ ys) = (case tbl_get key k xs of Some r \<Rightarrow> Some r | None \<Rightarrow> tbl_get key k ys)"
  by (induction xs) (auto simp: tbl_get_Cons)

lemma length_tbl_upd [simp]: "length (tbl_upd key k f rows) = length rows"
  by (simp add: tbl_upd_def)

lemma tbl_upd_Nil [simp]: "tbl_upd key k f [] = []"
  by (simp add: tbl_upd_def)

lemma tbl_upd_Cons [simp]:
  "tbl_upd key k f (r # rows) = (if key r = k then f r else r) # tbl_upd key k f rows"
  by (simp add: tbl_upd_def)

lemma tbl_upd_absent: "tbl_get key k rows = None \<Longrightarrow> tbl_upd key k f rows = rows"
  by (induction rows) (auto simp: tbl_get_Cons split: if_splits)

lemma in_tbl_updE:
  assumes "r \<in> set (tbl_upd key k f rows)"
  obtains r0 where "r0 \<in> set rows" "r = (if key r0 = k then f r0 else r0)"
  using assms by (auto simp: tbl_upd_def)

text \<open>The contract of an in-place row update: it does not touch the primary key.\<close>

locale row_update =
  fixes key :: "'r \<Rightarrow> 'k" and f :: "'r \<Rightarrow> 'r"
  assumes key_kept: "key (f r) = key r"
begin

lemma map_key_upd [simp]: "map key (tbl_upd key k f rows) = map key rows"
  by (auto simp: tbl_upd_def key_kept)

lemma keys_distinct_upd: "keys_distinct key rows \<Longrightarrow> keys_distinct key (tbl_upd key k f rows)"
  by (simp add: keys_distinct_def)

lemma tbl_get_upd_same: "tbl_get key k (tbl_upd key k f rows) = map_option f (tbl_get key k rows)"
  by (induction rows) (auto simp: tbl_get_Cons key_kept)

lemma tbl_get_upd_other: "j \<noteq> k \<Longrightarrow> tbl_get key j (tbl_upd key k f rows) = tbl_get key j rows"
  by (induction rows) (auto simp: tbl_get_Cons key_kept)

end

subsection \<open>Machines with an invariant\<close>

text \<open>
  Every stateful component is a machine: a step function from an event and a state to a state,
  run over a sequence of events. The contract is that a step keeps the invariant; the clients'
  lemma is that a run does.
\<close>

locale invariant_machine =
  fixes step :: "'e \<Rightarrow> 's \<Rightarrow> 's" and inv :: "'s \<Rightarrow> bool"
  assumes step_inv: "inv s \<Longrightarrow> inv (step e s)"
begin

lemma run_inv: "inv s \<Longrightarrow> inv (fold step es s)"
  by (induction es arbitrary: s) (auto intro: step_inv)

lemma prefix_inv: "inv s \<Longrightarrow> prefix ds es \<Longrightarrow> inv (fold step ds s)"
  by (rule run_inv)

end

subsection \<open>Lists\<close>

text \<open>What every step of a fold keeps, the fold keeps.\<close>

lemma fold_keeps: "(\<And>x a. g (f x a) = g a) \<Longrightarrow> g (fold f xs a) = g a"
  by (induction xs arbitrary: a) simp_all

lemma find_Some_conv: "find P xs = Some x \<Longrightarrow> x \<in> set xs \<and> P x"
  by (induction xs) (auto split: if_splits)

lemma find_None_conv: "find P xs = None \<longleftrightarrow> (\<forall>x \<in> set xs. \<not> P x)"
  by (induction xs) auto

lemma sorted_key_last_max:
  "xs \<noteq> [] \<Longrightarrow> sorted (map f xs) \<Longrightarrow> x \<in> set xs \<Longrightarrow> f x \<le> (f (last xs) :: 'a::linorder)"
  by (induction xs) (auto split: if_splits)

lemma takeWhile_rev_suffix: "suffix (rev (takeWhile P (rev xs))) xs"
  by (metis rev_rev_ident suffix_to_prefix takeWhile_is_prefix)

lemma find_sorted_min:
  "sorted (map f ms) \<Longrightarrow> find P ms = Some m \<Longrightarrow> x \<in> set ms \<Longrightarrow> P x \<Longrightarrow> f m \<le> (f x :: 'b::linorder)"
  by (induction ms) (auto split: if_splits)

text \<open>In a sorted list a downward-closed property holds exactly of an initial segment.\<close>

lemma sorted_split:
  assumes "sorted (map f xs)" "\<And>x y. f x \<le> f y \<Longrightarrow> P y \<Longrightarrow> P x"
  shows "xs = filter P xs @ filter (\<lambda>x. \<not> P x) xs"
  using assms
proof (induction xs)
  case (Cons x xs)
  show ?case
  proof (cases "P x")
    case False
    with Cons.prems have "filter P xs = []" by (auto simp: filter_empty_conv)
    with False Cons show ?thesis by simp
  qed (use Cons in simp)
qed simp

lemma sorted_take_initial:
  assumes "sorted (map f xs)" "\<And>x y. f x \<le> f y \<Longrightarrow> P y \<Longrightarrow> P x"
    "length (filter P xs) \<le> n" "x \<in> set xs" "P x"
  shows "x \<in> set (take n xs)"
proof -
  have "take n xs = take n (filter P xs @ filter (\<lambda>x. \<not> P x) xs)"
    by (rule arg_cong [where f = "take n"]) (rule sorted_split [OF assms(1,2)])
  also have "\<dots> = filter P xs @ take (n - length (filter P xs)) (filter (\<lambda>x. \<not> P x) xs)"
    using assms(3) by simp
  finally show ?thesis using assms(4,5) by simp
qed

lemma length_filter_take: "length (filter P (take n xs)) \<le> length (filter P xs)"
  by (metis append_take_drop_id filter_append le_add1 length_append)

lemma sorted_take_all:
  assumes "sorted (map f xs)" "\<And>x y. f x \<le> f y \<Longrightarrow> P y \<Longrightarrow> P x" "n \<le> length (filter P xs)" "x \<in> set (take n xs)"
  shows "P x"
proof -
  have "take n xs = take n (filter P xs @ filter (\<lambda>x. \<not> P x) xs)"
    by (rule arg_cong [where f = "take n"]) (rule sorted_split [OF assms(1,2)])
  also have "\<dots> = take n (filter P xs)" using assms(3) by simp
  finally show ?thesis using assms(4) by (auto dest!: in_set_takeD)
qed

lemma length_filter_strict:
  "(\<And>x. P x \<Longrightarrow> Q x) \<Longrightarrow> x \<in> set xs \<Longrightarrow> Q x \<Longrightarrow> \<not> P x \<Longrightarrow> length (filter P xs) < length (filter Q xs)"
proof (induction xs)
  case (Cons y ys)
  have "length (filter P ys) \<le> length (filter Q ys)" using Cons.prems(1) by (induction ys) auto
  with Cons show ?case by (cases "y = x") auto
qed simp

lemma in_map_filter: "f x = Some y \<Longrightarrow> x \<in> set xs \<Longrightarrow> y \<in> set (List.map_filter f xs)"
  by (force simp: map_filter_def)

lemma map_filter_iff: "y \<in> set (List.map_filter f xs) \<longleftrightarrow> (\<exists>x\<in>set xs. f x = Some y)"
  by (force simp: map_filter_def)

subsection \<open>Results that may be errors\<close>

definition bind_sum :: "'e + 'a \<Rightarrow> ('a \<Rightarrow> 'e + 'b) \<Rightarrow> 'e + 'b" where
  "bind_sum m f = (case m of Inl e \<Rightarrow> Inl e | Inr a \<Rightarrow> f a)"

lemma bind_sum_Inr: "bind_sum m f = Inr b \<longleftrightarrow> (\<exists>a. m = Inr a \<and> f a = Inr b)"
  by (cases m) (auto simp: bind_sum_def)

lemma bind_sum_simps [simp]: "bind_sum (Inl e) f = Inl e" "bind_sum (Inr a) f = f a"
  by (simp_all add: bind_sum_def)

end
