(* ===== verification/Circuit_Breaker.thy ===== *)
theory Circuit_Breaker
  imports Prelude
begin

text \<open>
  The circuit breaker of \<open>core/circuit_breaker.py\<close>: the \<open>CircuitBreaker\<close> class (every
  method runs under the instance lock, so each is one atomic step), the module registry
  \<open>get_breaker\<close> over a \<open>cachetools.TTLCache\<close> (third-party code, hence a parameter with
  a clock reading per operation), and \<open>call_with_circuit_breaker\<close>.
  \<open>time.monotonic()\<close> readings are rationals and arguments of the steps.
\<close>

subsection \<open>The breaker\<close>

datatype cb_state = Closed | Open | Half_open

record breaker =
  bkey :: string
  failure_threshold :: int
  failure_window_sec :: int
  open_duration_sec :: int
  failures :: int
  first_failure_time :: rat
  bstate :: cb_state
  open_until :: rat

definition DEFAULT_FAILURE_THRESHOLD :: int where "DEFAULT_FAILURE_THRESHOLD = 3"
definition DEFAULT_FAILURE_WINDOW_SEC :: int where "DEFAULT_FAILURE_WINDOW_SEC = 60"
definition DEFAULT_OPEN_DURATION_SEC :: int where "DEFAULT_OPEN_DURATION_SEC = 90"

definition new_breaker :: "string \<Rightarrow> int \<Rightarrow> int \<Rightarrow> int \<Rightarrow> breaker" where
  "new_breaker k threshold window duration =
     \<lparr> bkey = k, failure_threshold = threshold, failure_window_sec = window,
       open_duration_sec = duration, failures = 0, first_failure_time = 0,
       bstate = Closed, open_until = 0 \<rparr>"

definition is_open :: "rat \<Rightarrow> breaker \<Rightarrow> bool \<times> breaker" where
  "is_open now b =
     (if bstate b = Closed then (False, b)
      else if bstate b = Open then
        (if open_until b \<le> now then (False, b\<lparr>bstate := Half_open\<rparr>) else (True, b))
      else (False, b))"

definition record_success :: "breaker \<Rightarrow> breaker" where
  "record_success b = b\<lparr>failures := 0, bstate := Closed\<rparr>"

definition record_failure :: "rat \<Rightarrow> breaker \<Rightarrow> breaker" where
  "record_failure now b =
     (if bstate b = Half_open then
        b\<lparr>bstate := Open, open_until := now + of_int (open_duration_sec b)\<rparr>
      else
        let b1 = (if failures b = 0 then b\<lparr>first_failure_time := now\<rparr> else b);
            b2 = b1\<lparr>failures := failures b1 + 1\<rparr>
        in if failure_threshold b2 \<le> failures b2 then
             (if now - first_failure_time b2 \<le> of_int (failure_window_sec b2)
              then b2\<lparr>bstate := Open, open_until := now + of_int (open_duration_sec b2)\<rparr>
              else b2\<lparr>failures := 1, first_failure_time := now\<rparr>)
           else b2)"

text \<open>The three atomic steps as events, for runs.\<close>

datatype cb_event = Check rat | Success | Failure rat

fun cb_step :: "cb_event \<Rightarrow> breaker \<Rightarrow> breaker" where
  "cb_step (Check now) b = snd (is_open now b)"
| "cb_step Success b = record_success b"
| "cb_step (Failure now) b = record_failure now b"

subsection \<open>The registry and the guarded call\<close>

text \<open>
  \<open>TTLCache\<close> is a parameter: membership, item assignment and item lookup, each with the
  clock reading the cache takes when the operation runs. Lookup is \<open>None\<close> where the cache
  raises \<open>KeyError\<close>. Breaker objects are shared by reference, so the cache holds
  addresses into an object store and a breaker that is evicted while a call is in flight stays
  alive in the store.
\<close>

record 'c ttl_cache =
  cache_contains :: "rat \<Rightarrow> 'c \<Rightarrow> string \<Rightarrow> bool"
  cache_setitem :: "rat \<Rightarrow> 'c \<Rightarrow> string \<Rightarrow> nat \<Rightarrow> 'c"
  cache_getitem :: "rat \<Rightarrow> 'c \<Rightarrow> string \<Rightarrow> nat option"

record 'c registry =
  breakers :: 'c
  store :: "nat \<Rightarrow> breaker"
  next_addr :: nat

datatype cb_error = CacheKeyError string

definition get_breaker ::
  "'c ttl_cache \<Rightarrow> rat \<times> rat \<times> rat \<Rightarrow> string \<Rightarrow> int \<Rightarrow> int \<Rightarrow> int \<Rightarrow> 'c registry
   \<Rightarrow> cb_error + nat \<times> 'c registry" where
  "get_breaker cops clocks k threshold window duration reg =
     (case clocks of (t1, t2, t3) \<Rightarrow>
       let reg1 = (if \<not> cache_contains cops t1 (breakers reg) k
                   then \<lparr> breakers = cache_setitem cops t2 (breakers reg) k (next_addr reg),
                          store = (store reg)(next_addr reg := new_breaker k threshold window duration),
                          next_addr = next_addr reg + 1 \<rparr>
                   else reg)
       in case cache_getitem cops t3 (breakers reg1) k of
            None \<Rightarrow> Inl (CacheKeyError k)
          | Some a \<Rightarrow> Inr (a, reg1))"

text \<open>
  The coroutine is \<open>coro :: 'e + 'v\<close> (its result or the exception it raised) and
  \<open>between\<close> is whatever other tasks do to the object store while it is awaited. The result
  pairs the returned value with whether the coroutine was started at all.
\<close>

definition call_with_circuit_breaker ::
  "'c ttl_cache \<Rightarrow> rat \<times> rat \<times> rat \<Rightarrow> rat \<Rightarrow> rat \<Rightarrow> string \<Rightarrow> ('e + 'v) \<Rightarrow> 'v \<Rightarrow> int \<Rightarrow> int \<Rightarrow> int
   \<Rightarrow> ((nat \<Rightarrow> breaker) \<Rightarrow> nat \<Rightarrow> breaker) \<Rightarrow> 'c registry
   \<Rightarrow> cb_error + ('v \<times> bool \<times> 'c registry)" where
  "call_with_circuit_breaker cops clocks t_check t_fail k coro fallback threshold window duration
       between reg =
     (case get_breaker cops clocks k threshold window duration reg of
        Inl e \<Rightarrow> Inl e
      | Inr (a, reg1) \<Rightarrow>
          (case is_open t_check (store reg1 a) of
             (op, b) \<Rightarrow>
               let st = (store reg1)(a := b) in
               if op then Inr (fallback, False, reg1\<lparr>store := st\<rparr>)
               else
                 let st1 = between st in
                 (case coro of
                    Inr v \<Rightarrow> Inr (v, True, reg1\<lparr>store := st1(a := record_success (st1 a))\<rparr>)
                  | Inl exc \<Rightarrow> Inr (fallback, True,
                       reg1\<lparr>store := st1(a := record_failure t_fail (st1 a))\<rparr>))))"

subsection \<open>The invariant\<close>

text \<open>
  Configuration is sane (at least one failure, a non-negative window), the failure count is
  never negative, and a closed breaker is strictly below its threshold. That last clause is what
  makes the count of a closed breaker meaningful: it opens exactly when the count reaches it.
\<close>

definition cb_inv :: "breaker \<Rightarrow> bool" where
  "cb_inv b \<longleftrightarrow> 1 \<le> failure_threshold b \<and> 0 \<le> failure_window_sec b \<and> 0 \<le> failures b
     \<and> (bstate b = Closed \<longrightarrow> failures b < failure_threshold b)"

definition cb_config :: "breaker \<Rightarrow> string \<times> int \<times> int \<times> int" where
  "cb_config b = (bkey b, failure_threshold b, failure_window_sec b, open_duration_sec b)"

lemmas cb_defs [cb_simps] = is_open_def record_success_def record_failure_def

lemma cb_step_config [simp]: "cb_config (cb_step e b) = cb_config b"
  by (cases e) (auto simp: cb_config_def cb_simps Let_def)

lemma cb_inv_new: "1 \<le> threshold \<Longrightarrow> 0 \<le> window \<Longrightarrow> cb_inv (new_breaker k threshold window duration)"
  by (simp add: cb_inv_def new_breaker_def)

lemma cb_inv_check: "cb_inv b \<Longrightarrow> cb_inv (snd (is_open now b))"
  by (auto simp: cb_inv_def is_open_def)

lemma cb_inv_success: "cb_inv b \<Longrightarrow> cb_inv (record_success b)"
  by (auto simp: cb_inv_def record_success_def)

lemma cb_inv_failure: "cb_inv b \<Longrightarrow> cb_inv (record_failure now b)"
  by (cases "bstate b"; cases "failures b = 0") (auto simp: cb_inv_def record_failure_def Let_def)

lemma cb_inv_step: "cb_inv b \<Longrightarrow> cb_inv (cb_step e b)"
  by (cases e) (auto intro: cb_inv_check cb_inv_success cb_inv_failure)

interpretation cbm: invariant_machine cb_step cb_inv
  by unfold_locales (rule cb_inv_step)

lemma cb_run_config [simp]: "cb_config (fold cb_step es b) = cb_config b"
  by (induction es arbitrary: b) auto

subsection \<open>Opening\<close>

text \<open>Below the threshold a breaker whose count started at zero just counts.\<close>

lemma counting_failure:
  "bstate b \<noteq> Half_open \<Longrightarrow> failures b + 1 < failure_threshold b \<Longrightarrow>
   record_failure t b = b\<lparr>first_failure_time := (if failures b = 0 then t else first_failure_time b),
                          failures := failures b + 1\<rparr>"
  by (simp add: record_failure_def Let_def)

lemma failures_counting:
  assumes "bstate b = Closed" "failures b = 0" "int (length ts) < failure_threshold b"
  shows "fold record_failure ts b =
     b\<lparr>failures := int (length ts),
       first_failure_time := (if ts = [] then first_failure_time b else hd ts)\<rparr>"
  using assms(3)
proof (induction ts rule: rev_induct)
  case Nil
  then show ?case using assms by simp
next
  case (snoc t ts)
  then have IH: "fold record_failure ts b =
     b\<lparr>failures := int (length ts),
       first_failure_time := (if ts = [] then first_failure_time b else hd ts)\<rparr>"
    by simp
  have "fold record_failure (ts @ [t]) b = record_failure t (fold record_failure ts b)" by simp
  also have "\<dots> = b\<lparr>failures := int (length (ts @ [t])), first_failure_time := hd (ts @ [t])\<rparr>"
    unfolding IH using assms(1,2) snoc.prems by (cases ts) (simp_all add: counting_failure)
  finally show ?case by simp
qed

lemma opening_failure:
  assumes "bstate b = Closed" "failure_threshold b \<le> failures b + 1"
    and "failures b = 0 \<longrightarrow> 0 \<le> failure_window_sec b"
    and "failures b \<noteq> 0 \<longrightarrow> t - first_failure_time b \<le> of_int (failure_window_sec b)"
  shows "bstate (record_failure t b) = Open"
    and "open_until (record_failure t b) = t + of_int (open_duration_sec b)"
  using assms by (auto simp: record_failure_def Let_def)

text \<open>
  C33. \<^bold>\<open>The breaker opens at its threshold and refuses callers until its time is up.\<close> After a success, \<open>failure_threshold\<close>
  recorded failures whose last one falls within \<open>failure_window_sec\<close> of the first open the circuit, and no fewer of them do:
  before the last one every caller is let through. Once open, a check before \<open>open_duration_sec\<close> from the last failure have
  passed refuses the caller and changes nothing; a check at that time or later lets the caller through and makes the breaker half-open.
\<close>

theorem threshold_failures_open:
  assumes "int (length ts) = failure_threshold b" "1 \<le> failure_threshold b"
    and "last ts - hd ts \<le> of_int (failure_window_sec b)" "0 \<le> failure_window_sec b"
  shows "let opened = fold record_failure ts (record_success b) in
    bstate opened = Open \<and> open_until opened = last ts + of_int (open_duration_sec b) \<and>
    (\<forall>k < length ts. \<forall>now. fst (is_open now (fold record_failure (take k ts) (record_success b))) = False) \<and>
    (\<forall>now. is_open now opened = (if now < last ts + of_int (open_duration_sec b) then (True, opened) else (False, opened\<lparr>bstate := Half_open\<rparr>)))"
proof -
  have count: "fold record_failure us (record_success b) = (record_success b)\<lparr>failures := int (length us),
      first_failure_time := (if us = [] then first_failure_time (record_success b) else hd us)\<rparr>" if "length us < length ts" for us
    using assms(1) that by (intro failures_counting) (auto simp: record_success_def)
  have early: "fst (is_open now (fold record_failure (take k ts) (record_success b))) = False" if "k < length ts" for k now
    using that by (subst count) (simp_all add: is_open_def record_success_def)
  obtain us t where ts: "ts = us @ [t]"
    using assms(1,2) by (cases ts rule: rev_cases) auto
  let ?b = "fold record_failure us (record_success b)"
  have fields: "bstate ?b = Closed" "failures ?b = int (length us)"
    "failure_threshold ?b = failure_threshold b" "failure_window_sec ?b = failure_window_sec b"
    "open_duration_sec ?b = open_duration_sec b" "us \<noteq> [] \<Longrightarrow> first_failure_time ?b = hd us"
    using count [of us] ts by (simp_all add: record_success_def)
  have "bstate (record_failure t ?b) = Open"
    "open_until (record_failure t ?b) = t + of_int (open_duration_sec ?b)"
    by (rule opening_failure; use assms ts fields in \<open>auto simp: hd_append\<close>)+
  then show ?thesis using early ts fields by (simp add: Let_def is_open_def)
qed

theorem threshold_failures_open_witness:
  "(let opened = fold record_failure [10, 30, 55] (record_success (new_breaker ''proxmox:42'' 3 60 90)) in
     bstate opened = Open \<and> is_open 100 opened = (True, opened) \<and> is_open 145 opened = (False, opened\<lparr>bstate := Half_open\<rparr>))"
  using threshold_failures_open [of "[10, 30, 55]" "new_breaker ''proxmox:42'' 3 60 90"]
  by (simp add: new_breaker_def Let_def)

text \<open>Fewer failures than the threshold since the last success never open it.\<close>

fun is_failure :: "cb_event \<Rightarrow> bool" where
  "is_failure (Failure _) = True"
| "is_failure _ = False"

lemma below_threshold_stays_closed:
  assumes "bstate b = Closed" "0 \<le> failures b" "Success \<notin> set es"
    and "failures b + int (length (filter is_failure es)) < failure_threshold b"
  shows "bstate (fold cb_step es b) = Closed
    \<and> failures (fold cb_step es b) = failures b + int (length (filter is_failure es))"
  using assms
proof (induction es arbitrary: b)
  case (Cons e es)
  show ?case
  proof (cases e)
    case (Check t)
    with Cons show ?thesis by (simp add: is_open_def)
  next
    case (Failure t)
    have "bstate (record_failure t b) = Closed" "failures (record_failure t b) = failures b + 1"
      "failure_threshold (record_failure t b) = failure_threshold b"
      using Cons.prems Failure by (auto simp: counting_failure)
    with Cons Failure show ?thesis by simp
  qed (use Cons.prems in simp)
qed simp

subsection \<open>Failing fast, and the way back\<close>

lemma is_open_iff: "fst (is_open now b) \<longleftrightarrow> bstate b = Open \<and> now < open_until b"
  by (cases "bstate b") (auto simp: is_open_def)

lemma is_open_blocked: "bstate b = Open \<Longrightarrow> now < open_until b \<Longrightarrow> is_open now b = (True, b)"
  by (auto simp: is_open_def)

fun event_time :: "cb_event \<Rightarrow> rat option" where
  "event_time (Check t) = Some t"
| "event_time (Failure t) = Some t"
| "event_time Success = None"

definition timely :: "rat \<Rightarrow> rat \<Rightarrow> cb_event \<Rightarrow> bool" where
  "timely lo hi e = (case event_time e of None \<Rightarrow> False | Some t \<Rightarrow> lo \<le> t \<and> t < hi)"

lemma open_failure_extends:
  assumes "bstate b = Open" "open_until b \<le> t + of_int (open_duration_sec b)"
  shows "bstate (record_failure t b) = Open \<and> open_until b \<le> open_until (record_failure t b)"
  using assms by (auto simp: record_failure_def Let_def)

text \<open>
  An open circuit stays open and rejects every caller until \<open>open_until\<close>: from the
  failure at \<open>t0\<close> that opened it, no check and no late failure recorded before
  \<open>open_until\<close> by a call that was already in flight closes it or brings the end of the
  open period forward (only a recorded success can).
\<close>

theorem open_stays_open:
  assumes "bstate b = Open" "open_until b = t0 + of_int (open_duration_sec b)"
    and "list_all (timely t0 (open_until b)) es" "now < open_until b"
  shows "bstate (fold cb_step es b) = Open \<and> open_until b \<le> open_until (fold cb_step es b)
    \<and> fst (is_open now (fold cb_step es b))"
proof -
  have "bstate c = Open \<Longrightarrow> open_until b \<le> open_until c \<Longrightarrow>
      list_all (timely t0 (open_until b)) es \<Longrightarrow> open_duration_sec c = open_duration_sec b \<Longrightarrow>
      bstate (fold cb_step es c) = Open \<and> open_until b \<le> open_until (fold cb_step es c)" for c
  proof (induction es arbitrary: c)
    case (Cons e es)
    show ?case
    proof (cases e)
      case (Check t)
      with Cons show ?thesis by (auto simp: is_open_def timely_def)
    next
      case (Failure t)
      from Cons.prems Failure have t: "t0 \<le> t" "t < open_until b" by (auto simp: timely_def)
      have "bstate (record_failure t c) = Open"
        "open_duration_sec (record_failure t c) = open_duration_sec b"
        "open_until (record_failure t c) = open_until c
         \<or> open_until (record_failure t c) = t + of_int (open_duration_sec b)"
        using Cons.prems by (auto simp: record_failure_def Let_def)
      then have "bstate (fold cb_step es (record_failure t c)) = Open
          \<and> open_until b \<le> open_until (fold cb_step es (record_failure t c))"
        using Cons.prems t assms(2) by (intro Cons.IH) auto
      then show ?thesis using Failure by simp
    next
      case Success
      with Cons.prems show ?thesis by (simp add: timely_def)
    qed
  qed simp
  from this [of b] assms have "bstate (fold cb_step es b) = Open
      \<and> open_until b \<le> open_until (fold cb_step es b)" by simp
  with assms(4) show ?thesis by (simp add: is_open_iff)
qed

theorem open_stays_open_witness:
  "fst (is_open 144 (fold cb_step [Failure 60, Check 100, Failure 120]
     (fold record_failure [10, 30, 55] (new_breaker ''proxmox:42'' 3 60 90))))"
proof -
  let ?b = "fold record_failure [10, 30, 55] (new_breaker ''proxmox:42'' 3 60 90)"
  have "bstate ?b = Open" "open_until ?b = 55 + of_int (open_duration_sec ?b)" "open_until ?b = 145"
    by (simp_all add: new_breaker_def record_failure_def)
  with open_stays_open [of ?b 55 "[Failure 60, Check 100, Failure 120]" 144]
  show ?thesis by (simp add: timely_def)
qed

lemma trial_after_cooldown:
  assumes "bstate b = Open" "open_until b \<le> now"
  shows "is_open now b = (False, b\<lparr>bstate := Half_open\<rparr>)"
    and "bstate (record_success (snd (is_open now b))) = Closed"
    and "bstate (record_failure t (snd (is_open now b))) = Open"
    and "open_until (record_failure t (snd (is_open now b))) = t + of_int (open_duration_sec b)"
  using assms by (auto simp: is_open_def record_success_def record_failure_def)

text \<open>A half-open breaker turns no caller away, so several trials can be in flight at once.\<close>

lemma half_open_admits_every_caller:
  "bstate b = Half_open \<Longrightarrow> fold (\<lambda>t c. snd (is_open t c)) ts b = b \<and> \<not> fst (is_open now b)"
  by (induction ts) (auto simp: is_open_def)

subsection \<open>The guarded call\<close>

definition blocked :: "rat \<Rightarrow> breaker \<Rightarrow> bool" where
  "blocked now b \<longleftrightarrow> bstate b = Open \<and> now < open_until b"

text \<open>
  A guarded call whose breaker lookup succeeds never raises: it returns the fallback
  without starting the coroutine exactly when the breaker is open and its period has not
  elapsed, and then leaves the breaker untouched; otherwise it returns the coroutine's value, or
  the fallback when the coroutine raised, and records the outcome on the same breaker object
  whatever other tasks did to the store while it was awaited.
\<close>

theorem call_outcome:
  fixes coro :: "'e + 'v"
  assumes "get_breaker cops clocks k threshold window duration reg = Inr (a, reg1)"
  shows "\<exists>reg2. call_with_circuit_breaker cops clocks t_check t_fail k coro fallback
            threshold window duration between reg
        = Inr (if blocked t_check (store reg1 a) then fallback
               else case coro of Inr v \<Rightarrow> v | Inl _ \<Rightarrow> fallback,
               \<not> blocked t_check (store reg1 a), reg2)
      \<and> store reg2 a =
          (if blocked t_check (store reg1 a) then store reg1 a
           else let b = between ((store reg1)(a := snd (is_open t_check (store reg1 a)))) a
                in case coro of Inr _ \<Rightarrow> record_success b | Inl _ \<Rightarrow> record_failure t_fail b)"
proof -
  have fst: "fst (is_open t_check (store reg1 a)) = blocked t_check (store reg1 a)"
    by (simp add: is_open_iff blocked_def)
  show ?thesis
  proof (cases "blocked t_check (store reg1 a)")
    case True
    then have "is_open t_check (store reg1 a) = (True, store reg1 a)"
      by (auto simp: blocked_def intro: is_open_blocked)
    with True assms show ?thesis by (simp add: call_with_circuit_breaker_def)
  next
    case False
    then have "\<not> fst (is_open t_check (store reg1 a))" using fst by simp
    with False assms show ?thesis
      by (cases coro) (auto simp: call_with_circuit_breaker_def Let_def split: prod.splits)
  qed
qed

text \<open>A cache that keeps its last entry, to exercise the registry on concrete inputs.\<close>

definition one_slot_cache :: "(string \<times> nat) option ttl_cache" where
  "one_slot_cache =
     \<lparr> cache_contains = (\<lambda>_ c k. case c of None \<Rightarrow> False | Some (j, _) \<Rightarrow> j = k),
       cache_setitem = (\<lambda>_ _ k a. Some (k, a)),
       cache_getitem = (\<lambda>_ c k. case c of None \<Rightarrow> None | Some (j, a) \<Rightarrow> if j = k then Some a else None) \<rparr>"

definition empty_registry :: "(string \<times> nat) option registry" where
  "empty_registry = \<lparr> breakers = None, store = (\<lambda>_. new_breaker [] 1 0 0), next_addr = 0 \<rparr>"

theorem call_outcome_witness:
  "\<exists>reg2. call_with_circuit_breaker one_slot_cache (0, 0, 0) 1 2 ''ilo:7'' (Inl () :: unit + int) 0
      3 60 90 id empty_registry = Inr (0, True, reg2)
    \<and> store reg2 0 = record_failure 2 (new_breaker ''ilo:7'' 3 60 90)"
proof -
  let ?b = "new_breaker ''ilo:7'' 3 60 90"
  let ?reg1 = "\<lparr> breakers = Some (''ilo:7'', 0), store = (store empty_registry)(0 := ?b), next_addr = 1 \<rparr>"
  have "get_breaker one_slot_cache (0, 0, 0) ''ilo:7'' 3 60 90 empty_registry = Inr (0, ?reg1)"
    by (simp add: get_breaker_def one_slot_cache_def empty_registry_def)
  from call_outcome [OF this, of 1 2 "Inl () :: unit + int" 0 id]
  show ?thesis by (simp add: blocked_def new_breaker_def is_open_def)
qed

subsection \<open>The failure window is anchored\<close>

text \<open>
  The window is not a sliding one: it is anchored at the first failure after a reset, so a
  burst that satisfies the documented condition (\<open>failure_threshold\<close> failures within
  \<open>failure_window_sec\<close>) does not open the circuit when an older failure still anchors the
  window. With the defaults, failures at 0, 50, 70 and 75 seconds leave the circuit closed
  although the last three fall within 25 seconds.
\<close>

theorem anchored_window_misses_burst:
  "let b = new_breaker k DEFAULT_FAILURE_THRESHOLD DEFAULT_FAILURE_WINDOW_SEC DEFAULT_OPEN_DURATION_SEC;
       burst = [50, 70, 75]
   in int (length burst) = failure_threshold b
      \<and> last burst - hd burst \<le> of_int (failure_window_sec b)
      \<and> bstate (fold record_failure burst b) = Open
      \<and> bstate (fold record_failure (0 # burst) b) = Closed"
  by (simp add: record_failure_def new_breaker_def DEFAULT_FAILURE_THRESHOLD_def
      DEFAULT_FAILURE_WINDOW_SEC_def DEFAULT_OPEN_DURATION_SEC_def)

end
