(* ===== verification/Monitor_Db.thy ===== *)
theory Monitor_Db
  imports Prelude
begin

text \<open>
  The tables the monitoring engine shares (\<open>db/models/monitors.py\<close>): monitors, their
  transition history, the durable leases of remote probe runs, and the availability samples in
  \<open>telemetry_timeseries\<close>. String columns with a closed vocabulary are datatypes; the
  database's own clock and the event sequence are part of the state.
\<close>

subsection \<open>Free-form JSON columns\<close>

datatype json =
    JNull
  | JBool bool
  | JInt int
  | JFloat rat
  | JStr string
  | JList "json list"
  | JObj "(string \<times> json) list"

definition json_get :: "(string \<times> json) list \<Rightarrow> string \<Rightarrow> json \<Rightarrow> json" where
  "json_get d k dflt = (case map_of d k of None \<Rightarrow> dflt | Some v \<Rightarrow> v)"

fun json_truthy :: "json \<Rightarrow> bool" where
  "json_truthy JNull = False"
| "json_truthy (JBool b) = b"
| "json_truthy (JInt n) = (n \<noteq> 0)"
| "json_truthy (JFloat x) = (x \<noteq> 0)"
| "json_truthy (JStr s) = (s \<noteq> [])"
| "json_truthy (JList l) = (l \<noteq> [])"
| "json_truthy (JObj d) = (d \<noteq> [])"

text \<open>All string leaves of a JSON value, and all keys of its objects.\<close>

fun leaves :: "json \<Rightarrow> string list"
  and leaves_list :: "json list \<Rightarrow> string list"
  and leaves_obj :: "(string \<times> json) list \<Rightarrow> string list" where
  "leaves (JObj d) = leaves_obj d"
| "leaves (JList l) = leaves_list l"
| "leaves (JStr s) = [s]"
| "leaves _ = []"
| "leaves_list [] = []"
| "leaves_list (v # vs) = leaves v @ leaves_list vs"
| "leaves_obj [] = []"
| "leaves_obj ((k, v) # d) = leaves v @ leaves_obj d"

fun all_keys :: "json \<Rightarrow> string list"
  and all_keys_list :: "json list \<Rightarrow> string list"
  and all_keys_obj :: "(string \<times> json) list \<Rightarrow> string list" where
  "all_keys (JObj d) = all_keys_obj d"
| "all_keys (JList l) = all_keys_list l"
| "all_keys (JStr s) = []"
| "all_keys _ = []"
| "all_keys_list [] = []"
| "all_keys_list (v # vs) = all_keys v @ all_keys_list vs"
| "all_keys_obj [] = []"
| "all_keys_obj ((k, v) # d) = k # all_keys v @ all_keys_obj d"

subsection \<open>Rows\<close>

datatype monitor_status = UP | DOWN | PENDING | MAINTENANCE

datatype exec_status = EX_ready | EX_queued | EX_running | EX_unavailable | EX_stale

datatype event_type =
  Ev_up | Ev_down | Ev_pending | Ev_maintenance | Ev_paused | Ev_resumed | Ev_execution

datatype run_status =
  RS_queued | RS_dispatched | RS_completed | RS_execution_error | RS_expired | RS_cancelled

datatype probe_outcome = OUTCOME_COMPLETED | OUTCOME_EXECUTION_ERROR | OUTCOME_CANCELLED | OUTCOME_REJECTED

record monitor_item =
  mi_id :: int
  mi_name :: string
  mi_target_type :: "string option"
  mi_target_id :: "int option"
  mi_host :: string
  mi_check_type :: string
  mi_params :: "(string \<times> json) list"
  mi_interval_secs :: int
  mi_max_retries :: int
  mi_retry_interval_secs :: "int option"
  mi_enabled :: bool
  mi_next_due_at :: instant
  mi_last_polled_at :: "instant option"
  mi_last_status :: "monitor_status option"
  mi_consecutive_failures :: int
  mi_last_status_change_at :: "instant option"
  mi_probe_agent_id :: "int option"
  mi_exec_status :: "exec_status option"
  mi_exec_reason :: "string option"
  mi_probe_last_dispatched_at :: "instant option"
  mi_probe_last_result_at :: "instant option"

record monitor_event =
  me_id :: nat
  me_item_id :: int
  me_type :: event_type
  me_status_from :: "monitor_status option"
  me_status_to :: monitor_status
  me_msg :: string
  me_duration_secs :: "rat option"
  me_created_at :: instant

record probe_run =
  pr_run_id :: string
  pr_monitor_id :: int
  pr_agent_id :: int
  pr_status :: run_status
  pr_scheduled_at :: instant
  pr_dispatched_at :: "instant option"
  pr_deadline_at :: "instant option"
  pr_started_at :: "instant option"
  pr_completed_at :: "instant option"
  pr_outcome :: "probe_outcome option"
  pr_msg :: "string option"
  pr_error_code :: "string option"
  pr_result_metadata :: "json option"
  pr_attempt_count :: int
  pr_created_at :: instant

record sample =
  sm_metric :: string
  sm_value :: pyfloat
  sm_error_reason :: "string option"

record timeseries_row =
  ts_entity_type :: string
  ts_entity_id :: int
  ts_item_id :: int
  ts_metric :: string
  ts_value :: pyfloat
  ts_source :: string
  ts_ts :: instant

record monitor_db =
  mitems :: "monitor_item list"
  mevents :: "monitor_event list"
  mruns :: "probe_run list"
  mseries :: "timeseries_row list"
  mnext_event :: nat
  mclock :: instant

subsection \<open>Access\<close>

definition get_item :: "int \<Rightarrow> monitor_db \<Rightarrow> monitor_item option" where
  "get_item i db = tbl_get mi_id i (mitems db)"

definition upd_item :: "int \<Rightarrow> (monitor_item \<Rightarrow> monitor_item) \<Rightarrow> monitor_db \<Rightarrow> monitor_db" where
  "upd_item i f db = db\<lparr>mitems := tbl_upd mi_id i f (mitems db)\<rparr>"

definition get_run :: "string \<Rightarrow> monitor_db \<Rightarrow> probe_run option" where
  "get_run r db = tbl_get pr_run_id r (mruns db)"

definition upd_run :: "string \<Rightarrow> (probe_run \<Rightarrow> probe_run) \<Rightarrow> monitor_db \<Rightarrow> monitor_db" where
  "upd_run r f db = db\<lparr>mruns := tbl_upd pr_run_id r f (mruns db)\<rparr>"

text \<open>\<open>db.add(MonitorEvent(...))\<close>: the next id, stamped with the database clock.\<close>

definition add_event ::
  "int \<Rightarrow> event_type \<Rightarrow> monitor_status option \<Rightarrow> monitor_status \<Rightarrow> string \<Rightarrow> rat option
   \<Rightarrow> monitor_db \<Rightarrow> monitor_db" where
  "add_event i ty sfrom sto msg dur db =
     db\<lparr>mevents := mevents db @ [\<lparr> me_id = mnext_event db, me_item_id = i, me_type = ty,
            me_status_from = sfrom, me_status_to = sto, me_msg = msg, me_duration_secs = dur,
            me_created_at = mclock db \<rparr>],
        mnext_event := mnext_event db + 1\<rparr>"

text \<open>
  The partial unique index \<open>uq_monitor_probe_runs_active\<close>: a run in \<open>queued\<close> or
  \<open>dispatched\<close> holds its monitor's slot.
\<close>

definition active_status :: "run_status \<Rightarrow> bool" where
  "active_status s \<longleftrightarrow> s \<in> {RS_queued, RS_dispatched}"

definition active_runs :: "int \<Rightarrow> monitor_db \<Rightarrow> probe_run list" where
  "active_runs i db = filter (\<lambda>r. pr_monitor_id r = i \<and> active_status (pr_status r)) (mruns db)"

lemma get_item_upd_same:
  assumes "\<And>r. mi_id (f r) = mi_id r"
  shows "get_item i (upd_item i f db) = map_option f (get_item i db)"
  using row_update.tbl_get_upd_same [OF row_update.intro, of mi_id f] assms
  by (simp add: get_item_def upd_item_def)

lemma get_item_upd_other:
  assumes "\<And>r. mi_id (f r) = mi_id r" "j \<noteq> i"
  shows "get_item j (upd_item i f db) = get_item j db"
  using row_update.tbl_get_upd_other [OF row_update.intro, of mi_id f j i] assms
  by (simp add: get_item_def upd_item_def)

lemma get_run_upd_same:
  assumes "\<And>r. pr_run_id (f r) = pr_run_id r"
  shows "get_run i (upd_run i f db) = map_option f (get_run i db)"
  using row_update.tbl_get_upd_same [OF row_update.intro, of pr_run_id f] assms
  by (simp add: get_run_def upd_run_def)

lemma get_run_upd_other:
  assumes "\<And>r. pr_run_id (f r) = pr_run_id r" "j \<noteq> i"
  shows "get_run j (upd_run i f db) = get_run j db"
  using row_update.tbl_get_upd_other [OF row_update.intro, of pr_run_id f j i] assms
  by (simp add: get_run_def upd_run_def)

text \<open>What each primitive leaves alone.\<close>

lemma upd_item_frame [simp]:
  "mevents (upd_item i f db) = mevents db" "mruns (upd_item i f db) = mruns db"
  "mseries (upd_item i f db) = mseries db" "mnext_event (upd_item i f db) = mnext_event db"
  "mclock (upd_item i f db) = mclock db" "get_run r (upd_item i f db) = get_run r db"
  by (simp_all add: upd_item_def get_run_def)

lemma upd_run_frame [simp]:
  "mitems (upd_run i f db) = mitems db" "mevents (upd_run i f db) = mevents db"
  "mseries (upd_run i f db) = mseries db" "mnext_event (upd_run i f db) = mnext_event db"
  "mclock (upd_run i f db) = mclock db" "get_item r (upd_run i f db) = get_item r db"
  by (simp_all add: upd_run_def get_item_def)

lemma add_event_frame [simp]:
  "mitems (add_event i ty a b m d db) = mitems db" "mruns (add_event i ty a b m d db) = mruns db"
  "mseries (add_event i ty a b m d db) = mseries db" "mclock (add_event i ty a b m d db) = mclock db"
  "get_item r (add_event i ty a b m d db) = get_item r db"
  "get_run q (add_event i ty a b m d db) = get_run q db"
  by (simp_all add: add_event_def get_item_def get_run_def)

end
