(* ===== verification/Monitor_State.thy ===== *)
theory Monitor_State
  imports Monitor_Db
begin

text \<open>
  The monitor state machine of \<open>services/monitoring/state.py\<close>: the pure transition function
  \<open>decide\<close>, and \<open>apply_result\<close>, which applies it to a locked monitor row, pulls a
  retry in and appends the transition event.
\<close>

subsection \<open>Operations\<close>

datatype notify = Notify_down | Notify_recovered

record state_decision =
  sd_new_status :: monitor_status
  sd_retries :: int
  sd_event_type :: "event_type option"
  sd_notify :: "notify option"

record applied_transition =
  at_item_id :: int
  at_name :: string
  at_status_from :: "monitor_status option"
  at_status_to :: monitor_status
  at_msg :: string
  at_notify :: "notify option"
  at_occurred_at :: instant

definition StateDecision ::
  "monitor_status \<Rightarrow> int \<Rightarrow> event_type option \<Rightarrow> notify option \<Rightarrow> state_decision" where
  "StateDecision s r e n = \<lparr> sd_new_status = s, sd_retries = r, sd_event_type = e, sd_notify = n \<rparr>"

definition decide :: "monitor_status option \<Rightarrow> int \<Rightarrow> bool \<Rightarrow> int \<Rightarrow> state_decision" where
  "decide prev_status prev_retries up max_retries =
     (if up then
        (if prev_status = Some UP then StateDecision UP 0 None None
         else StateDecision UP 0 (Some Ev_up)
                (if prev_status = Some DOWN then Some Notify_recovered else None))
      else
        let retries = prev_retries + 1 in
        if prev_status \<noteq> Some DOWN \<and> retries \<le> max_retries then
          StateDecision PENDING retries
            (if prev_status \<noteq> Some PENDING then Some Ev_pending else None) None
        else if prev_status = Some DOWN then StateDecision DOWN retries None None
        else StateDecision DOWN retries (Some Ev_down) (Some Notify_down))"

text \<open>
  \<open>round(x, 1)\<close> of a number of microseconds, in seconds: the nearest tenth, an exact tie
  going to the even tenth.
\<close>

definition round_tenth :: "int \<Rightarrow> rat" where
  "round_tenth us =
     (let q = us div 100000; r = us mod 100000 in
      Fract (if r < 50000 \<or> (r = 50000 \<and> even q) then q else q + 1) 10)"

text \<open>The attribute assignments every answer makes, and those of a transition.\<close>

definition retry_in :: "monitor_item \<Rightarrow> int" where
  "retry_in item =
     (case mi_retry_interval_secs item of
        Some n \<Rightarrow> if n \<noteq> 0 then n else mi_interval_secs item
      | None \<Rightarrow> mi_interval_secs item)"

definition polled :: "state_decision \<Rightarrow> instant \<Rightarrow> monitor_item \<Rightarrow> monitor_item" where
  "polled decision checked_at item =
     item\<lparr>mi_last_polled_at := Some checked_at,
          mi_consecutive_failures := sd_retries decision,
          mi_next_due_at := (if sd_new_status decision = PENDING
                             then checked_at + seconds (retry_in item) else mi_next_due_at item),
          mi_last_status := Some (sd_new_status decision)\<rparr>"

definition changed :: "state_decision \<Rightarrow> instant \<Rightarrow> monitor_item \<Rightarrow> monitor_item" where
  "changed decision checked_at item =
     (polled decision checked_at item)\<lparr>mi_last_status_change_at := Some checked_at\<rparr>"

definition apply_result ::
  "int \<Rightarrow> bool \<Rightarrow> string \<Rightarrow> instant \<Rightarrow> monitor_db \<Rightarrow> applied_transition option \<times> monitor_db" where
  "apply_result item_id up msg checked_at db =
     (case get_item item_id db of
        None \<Rightarrow> (None, db)
      | Some item \<Rightarrow>
          let decision = decide (mi_last_status item) (mi_consecutive_failures item) up
                                (mi_max_retries item);
              prev_status = mi_last_status item
          in case sd_event_type decision of
               None \<Rightarrow> (None, upd_item item_id (polled decision checked_at) db)
             | Some ty \<Rightarrow>
                 let duration_secs = map_option (\<lambda>t. round_tenth (checked_at - t))
                                                (mi_last_status_change_at item)
                 in (Some \<lparr> at_item_id = item_id, at_name = mi_name item,
                            at_status_from = prev_status, at_status_to = sd_new_status decision,
                            at_msg = msg, at_notify = sd_notify decision,
                            at_occurred_at = checked_at \<rparr>,
                     add_event item_id ty prev_status (sd_new_status decision)
                       (take 2000 msg) duration_secs
                       (upd_item item_id (changed decision checked_at) db)))"

subsection \<open>Runs of the pure machine\<close>

text \<open>A run of \<open>decide\<close> over a list of answers, collecting the decisions.\<close>

fun decide_run :: "monitor_status option \<Rightarrow> int \<Rightarrow> int \<Rightarrow> bool list \<Rightarrow> state_decision list" where
  "decide_run st retries max_retries [] = []"
| "decide_run st retries max_retries (u # us) =
     (let d = decide st retries u max_retries
      in d # decide_run (Some (sd_new_status d)) (sd_retries d) max_retries us)"

definition alerts :: "state_decision list \<Rightarrow> notify list" where
  "alerts ds = List.map_filter sd_notify ds"

text \<open>Alternation, starting with a given alert.\<close>

fun alternating :: "notify \<Rightarrow> notify list \<Rightarrow> bool" where
  "alternating _ [] = True"
| "alternating n (m # ms) = (m = n \<and> alternating (if n = Notify_down then Notify_recovered else Notify_down) ms)"

lemma decide_simps [cb_simps]:
  "sd_new_status (StateDecision s r e n) = s" "sd_retries (StateDecision s r e n) = r"
  "sd_event_type (StateDecision s r e n) = e" "sd_notify (StateDecision s r e n) = n"
  by (simp_all add: StateDecision_def)

lemma polled_simps [row_simps]:
  "mi_id (polled d c r) = mi_id r" "mi_last_status (polled d c r) = Some (sd_new_status d)"
  "mi_enabled (polled d c r) = mi_enabled r" "mi_id (changed d c r) = mi_id r"
  "mi_last_status (changed d c r) = Some (sd_new_status d)" "mi_enabled (changed d c r) = mi_enabled r"
  by (simp_all add: polled_def changed_def)

interpretation polled_row: row_update mi_id "polled d c" for d c
  by unfold_locales (simp add: row_simps)

interpretation changed_row: row_update mi_id "changed d c" for d c
  by unfold_locales (simp add: row_simps)

lemma apply_result_keys:
  "keys_distinct mi_id (mitems db) \<Longrightarrow> keys_distinct mi_id (mitems (snd (apply_result i u m c db)))"
  by (auto simp: apply_result_def upd_item_def Let_def polled_row.keys_distinct_upd changed_row.keys_distinct_upd
      split: option.splits)

text \<open>An event is recorded exactly when the status changes, and it is that status' event.\<close>

lemma decide_event_iff_change:
  "sd_event_type (decide st r u m) = None \<longleftrightarrow> st = Some (sd_new_status (decide st r u m))"
  by (auto simp: decide_def cb_simps Let_def)

fun event_of :: "monitor_status \<Rightarrow> event_type" where
  "event_of UP = Ev_up"
| "event_of DOWN = Ev_down"
| "event_of PENDING = Ev_pending"
| "event_of MAINTENANCE = Ev_maintenance"

lemma decide_event_kind:
  "sd_event_type (decide st r u m) = Some e \<Longrightarrow> e = event_of (sd_new_status (decide st r u m))"
  by (auto simp: decide_def cb_simps Let_def split: if_splits)

lemma decide_notify:
  "sd_notify (decide st r u m) =
     (if st \<noteq> Some DOWN \<and> sd_new_status (decide st r u m) = DOWN then Some Notify_down
      else if st = Some DOWN \<and> sd_new_status (decide st r u m) = UP then Some Notify_recovered
      else None)"
  by (auto simp: decide_def cb_simps Let_def)

lemma decide_from_down: "sd_new_status (decide (Some DOWN) r u m) = (if u then UP else DOWN)"
  by (simp add: decide_def cb_simps Let_def)

lemma alerts_Nil [simp]: "alerts [] = []"
  by (simp add: alerts_def map_filter_def)

lemma alerts_Cons: "alerts (d # ds) = (case sd_notify d of None \<Rightarrow> [] | Some n \<Rightarrow> [n]) @ alerts ds"
  by (simp add: alerts_def map_filter_def split: option.splits)

text \<open>
  C15. Alerts alternate: over any sequence of check answers, from any state, two down alerts are
  separated by exactly one recovered alert, and the first alert is a down alert unless the
  monitor was already down.
\<close>

theorem alerts_alternate:
  "alternating (if st = Some DOWN then Notify_recovered else Notify_down)
     (alerts (decide_run st retries max_retries answers))"
proof (induction answers arbitrary: st retries)
  case Nil
  then show ?case by simp
next
  case (Cons u us)
  let ?d = "decide st retries u max_retries"
  have IH: "alternating (if sd_new_status ?d = DOWN then Notify_recovered else Notify_down)
     (alerts (decide_run (Some (sd_new_status ?d)) (sd_retries ?d) max_retries us))"
    using Cons.IH [of "Some (sd_new_status ?d)" "sd_retries ?d"] by simp
  show ?case
    using IH decide_from_down [of retries u max_retries]
    by (auto simp: Let_def alerts_Cons decide_notify [of st] split: if_splits)
qed

subsection \<open>How many failures it takes\<close>

lemma decide_run_Nil_iff [simp]: "decide_run st r m us = [] \<longleftrightarrow> us = []"
  by (cases us) (auto simp: Let_def)

lemma decide_down: "decide (Some DOWN) r False m = StateDecision DOWN (r + 1) None None"
  by (simp add: decide_def Let_def)

lemma down_run:
  "alerts (decide_run (Some DOWN) retries max_retries (replicate n False)) = []
   \<and> (0 < n \<longrightarrow> sd_new_status (last (decide_run (Some DOWN) retries max_retries (replicate n False))) = DOWN)"
proof (induction n arbitrary: retries)
  case (Suc n)
  from Suc.IH [of "retries + 1"] show ?case
    by (auto simp: Let_def alerts_Cons decide_down cb_simps)
qed simp

lemma decide_fail_step:
  "st \<noteq> Some DOWN \<Longrightarrow> decide st retries False max_retries =
     (if retries + 1 \<le> max_retries
      then StateDecision PENDING (retries + 1) (if st \<noteq> Some PENDING then Some Ev_pending else None) None
      else StateDecision DOWN (retries + 1) (Some Ev_down) (Some Notify_down))"
  by (simp add: decide_def Let_def)

text \<open>
  A monitor that is not down tolerates failures up to its retry budget: after \<open>n\<close>
  consecutive failures it is pending with no alert while the counter is within
  \<open>max_retries\<close>, and down with exactly one down alert as soon as it is not, however long
  the outage then lasts.
\<close>

theorem failing_run:
  assumes "st \<noteq> Some DOWN" "0 < n"
  shows "sd_new_status (last (decide_run st retries max_retries (replicate n False)))
           = (if retries + int n \<le> max_retries then PENDING else DOWN)
       \<and> alerts (decide_run st retries max_retries (replicate n False))
           = (if retries + int n \<le> max_retries then [] else [Notify_down])"
  using assms
proof (induction n arbitrary: st retries)
  case (Suc n)
  show ?case
  proof (cases "retries + 1 \<le> max_retries")
    case True
    then have "decide_run st retries max_retries (replicate (Suc n) False) =
       StateDecision PENDING (retries + 1) (if st \<noteq> Some PENDING then Some Ev_pending else None) None
       # decide_run (Some PENDING) (retries + 1) max_retries (replicate n False)"
      using Suc.prems by (simp add: Let_def decide_fail_step cb_simps)
    with True Suc.IH [of "Some PENDING" "retries + 1"] show ?thesis
      by (cases "n = 0") (simp_all add: alerts_Cons cb_simps)
  next
    case False
    then have "decide_run st retries max_retries (replicate (Suc n) False) =
       StateDecision DOWN (retries + 1) (Some Ev_down) (Some Notify_down)
       # decide_run (Some DOWN) (retries + 1) max_retries (replicate n False)"
      using Suc.prems by (simp add: Let_def decide_fail_step cb_simps)
    with False down_run [of "retries + 1" max_retries n] show ?thesis
      by (cases "n = 0") (simp_all add: alerts_Cons cb_simps)
  qed
qed simp

theorem failing_run_witness:
  "sd_new_status (last (decide_run (Some UP) 0 2 (replicate 2 False))) = PENDING
   \<and> sd_new_status (last (decide_run (Some UP) 0 2 (replicate 5 False))) = DOWN
   \<and> alerts (decide_run (Some UP) 0 2 (replicate 5 False)) = [Notify_down]"
  using failing_run [of "Some UP" 2 0 2] failing_run [of "Some UP" 5 0 2] by simp

subsection \<open>The persisted history\<close>

text \<open>One check answer as an event of the persisted machine.\<close>

record check_answer =
  ca_item :: int
  ca_up :: bool
  ca_msg :: string
  ca_checked_at :: instant

definition apply_answer :: "check_answer \<Rightarrow> monitor_db \<Rightarrow> monitor_db" where
  "apply_answer a db = snd (apply_result (ca_item a) (ca_up a) (ca_msg a) (ca_checked_at a) db)"

definition status_of :: "int \<Rightarrow> monitor_db \<Rightarrow> monitor_status option" where
  "status_of i db = Option.bind (get_item i db) mi_last_status"

text \<open>A list of events leads from one status to another, each event recording a real change.\<close>

fun linked :: "monitor_status option \<Rightarrow> monitor_event list \<Rightarrow> monitor_status option \<Rightarrow> bool" where
  "linked s [] t = (s = t)"
| "linked s (e # es) t =
     (me_status_from e = s \<and> s \<noteq> Some (me_status_to e) \<and> linked (Some (me_status_to e)) es t)"

lemma linked_append: "linked s es t \<Longrightarrow> linked t fs u \<Longrightarrow> linked s (es @ fs) u"
  by (induction es arbitrary: s) auto

lemma apply_result_absent: "get_item i db = None \<Longrightarrow> apply_result i u m c db = (None, db)"
  by (simp add: apply_result_def)

lemma apply_answer_cases:
  obtains (absent) "get_item (ca_item a) db = None" "apply_answer a db = db"
  | (quiet) item f where "get_item (ca_item a) db = Some item"
      "apply_answer a db = upd_item (ca_item a) f db" "\<And>r. mi_id (f r) = mi_id r"
      "mi_last_status (f item) = mi_last_status item" "\<And>r. mi_enabled (f r) = mi_enabled r"
  | (change) item f s dur where "get_item (ca_item a) db = Some item"
      "apply_answer a db = add_event (ca_item a) (event_of s) (mi_last_status item) s
          (take 2000 (ca_msg a)) dur (upd_item (ca_item a) f db)" "\<And>r. mi_id (f r) = mi_id r"
      "mi_last_status (f item) = Some s" "mi_last_status item \<noteq> Some s"
      "\<And>r. mi_enabled (f r) = mi_enabled r"
proof (cases "get_item (ca_item a) db")
  case None
  then show thesis using absent by (simp add: apply_answer_def apply_result_absent)
next
  case (Some item)
  let ?d = "decide (mi_last_status item) (mi_consecutive_failures item) (ca_up a) (mi_max_retries item)"
  let ?f = "polled ?d (ca_checked_at a)" and ?g = "changed ?d (ca_checked_at a)"
  show thesis
  proof (cases "sd_event_type ?d")
    case None
    then have "mi_last_status item = Some (sd_new_status ?d)" by (simp add: decide_event_iff_change)
    with None Some show thesis
      by (intro quiet [of item ?f]) (simp_all add: apply_answer_def apply_result_def row_simps)
  next
    case ev: (Some ty)
    have "ty = event_of (sd_new_status ?d)" using ev by (rule decide_event_kind)
    moreover have "mi_last_status item \<noteq> Some (sd_new_status ?d)"
      using ev decide_event_iff_change by (metis option.distinct(1))
    ultimately show thesis using ev Some
      by (intro change [of item "sd_new_status ?d"
            "map_option (\<lambda>t. round_tenth (ca_checked_at a - t)) (mi_last_status_change_at item)" ?g])
        (simp_all add: apply_answer_def apply_result_def row_simps Let_def)
  qed
qed

lemma apply_answer_step:
  "\<exists>new. mevents (apply_answer a db) = mevents db @ new
     \<and> linked (status_of i db) (filter (\<lambda>e. me_item_id e = i) new) (status_of i (apply_answer a db))"
proof (cases a db rule: apply_answer_cases)
  case absent
  then show ?thesis by simp
next
  case (quiet item f)
  then show ?thesis
    by (cases "i = ca_item a") (auto simp: status_of_def get_item_upd_same get_item_upd_other)
next
  case (change item f s dur)
  from change(2) obtain e where e: "mevents (apply_answer a db) = mevents db @ [e]"
    "me_item_id e = ca_item a" "me_status_from e = mi_last_status item" "me_status_to e = s"
    by (auto simp: add_event_def)
  have "status_of i (apply_answer a db) = (if i = ca_item a then Some s else status_of i db)"
    using change by (simp add: status_of_def get_item_upd_same get_item_upd_other)
  with e change show ?thesis
    by (intro exI [of _ "[e]"]) (auto simp: status_of_def)
qed

text \<open>
  The event log is the monitor's history: over any sequence of check answers for any
  monitors, the events appended for one monitor lead from its status before to its status after,
  each one starting where the previous one ended and recording a change of status; the log is
  only ever appended to.
\<close>

theorem event_history_links_statuses:
  "\<exists>new. mevents (fold apply_answer answers db) = mevents db @ new
     \<and> linked (status_of i db) (filter (\<lambda>e. me_item_id e = i) new)
              (status_of i (fold apply_answer answers db))"
proof (induction answers arbitrary: db)
  case Nil
  then show ?case by simp
next
  case (Cons a answers)
  from apply_answer_step [of a db i] obtain n1 where n1:
    "mevents (apply_answer a db) = mevents db @ n1"
    "linked (status_of i db) (filter (\<lambda>e. me_item_id e = i) n1) (status_of i (apply_answer a db))"
    by blast
  from Cons.IH [of "apply_answer a db"] obtain n2 where n2:
    "mevents (fold apply_answer answers (apply_answer a db)) = mevents (apply_answer a db) @ n2"
    "linked (status_of i (apply_answer a db)) (filter (\<lambda>e. me_item_id e = i) n2)
       (status_of i (fold apply_answer answers (apply_answer a db)))"
    by blast
  show ?case
    using n1 n2 by (intro exI [of _ "n1 @ n2"]) (auto intro: linked_append)
qed

text \<open>A check answer touches its own monitor only, and no probe run and no sample.\<close>

lemma apply_answer_frame:
  "j \<noteq> ca_item a \<Longrightarrow> get_item j (apply_answer a db) = get_item j db"
  "mruns (apply_answer a db) = mruns db" "mseries (apply_answer a db) = mseries db"
  by (cases a db rule: apply_answer_cases; simp add: get_item_upd_other)+

end
