(* ===== verification/Proxmox_Override.thy ===== *)
theory Proxmox_Override
  imports Monitor_Db
begin

text \<open>
  \<open>services/monitoring/writer.py\<close> and \<open>services/monitoring/proxmox_override.py\<close>:
  the bulk write of availability samples, and the rule by which a fresh hypervisor opinion
  replaces a raw ICMP or TCP answer before either the samples or the state machine see it. The
  hypervisor's opinion comes from two inventory tables, given here as an argument.
\<close>

subsection \<open>Writing samples\<close>

type_synonym sample_row = "int \<times> string option \<times> int option \<times> sample list \<times> instant"

definition STANDALONE_ENTITY_TYPE :: string where
  "STANDALONE_ENTITY_TYPE = ''monitor''"

definition sample_mapping ::
  "int \<Rightarrow> string option \<Rightarrow> int option \<Rightarrow> instant \<Rightarrow> sample \<Rightarrow> timeseries_row" where
  "sample_mapping item_id entity_type entity_id ts s =
     \<lparr> ts_entity_type = (case entity_type of
                           Some t \<Rightarrow> if t \<noteq> [] then t else STANDALONE_ENTITY_TYPE
                         | None \<Rightarrow> STANDALONE_ENTITY_TYPE),
       ts_entity_id = (case entity_id of Some i \<Rightarrow> i | None \<Rightarrow> 0),
       ts_item_id = item_id,
       ts_metric = sm_metric s,
       ts_value = sm_value s,
       ts_source = ''monitor'',
       ts_ts = ts \<rparr>"

fun row_mappings :: "sample_row \<Rightarrow> timeseries_row list" where
  "row_mappings (item_id, entity_type, entity_id, samples, ts) =
     map (sample_mapping item_id entity_type entity_id ts) samples"

definition write_samples :: "sample_row list \<Rightarrow> monitor_db \<Rightarrow> nat \<times> monitor_db" where
  "write_samples rows db =
     (let mappings = concat (map row_mappings rows)
      in (length mappings, db\<lparr>mseries := mseries db @ mappings\<rparr>))"

subsection \<open>The inventory the hypervisor writes\<close>

record hardware_row =
  hw_id :: int
  hw_proxmox_node_name :: "string option"
  hw_telemetry_last_polled :: "instant option"
  hw_telemetry_status :: "string option"

record compute_row =
  cu_id :: int
  cu_proxmox_vmid :: "int option"
  cu_telemetry_last_polled :: "instant option"
  cu_kind :: string
  cu_status :: "string option"

record inventory =
  inv_hardware :: "hardware_row list"
  inv_compute :: "compute_row list"

definition NON_LIVE_STATUSES :: "string list" where
  "NON_LIVE_STATUSES = [''unknown'', ''unreachable'', ''error'', ''unconfigured'']"

definition FRESHNESS_WINDOW :: int where
  "FRESHNESS_WINDOW = seconds (5 * 60)"

definition OVERRIDABLE_CHECK_TYPES :: "string list" where
  "OVERRIDABLE_CHECK_TYPES = [''icmp'', ''tcp'']"

subsection \<open>The override\<close>

record override_item =
  oi_item_id :: int
  oi_target_type :: "string option"
  oi_target_id :: "int option"
  oi_check_type :: "string option"

type_synonym outcome = "sample_row \<times> bool \<times> string"

text \<open>The dictionaries the batch prefetches, keyed by row id; a later row wins.\<close>

definition dict_of :: "('r \<Rightarrow> int) \<Rightarrow> 'r list \<Rightarrow> int \<Rightarrow> 'r option" where
  "dict_of key rows k = map_of (rev (map (\<lambda>r. (key r, r)) rows)) k"

definition fresh :: "instant option \<Rightarrow> instant \<Rightarrow> bool" where
  "fresh polled cutoff = (case polled of Some t \<Rightarrow> cutoff \<le> t | None \<Rightarrow> False)"

definition proxmox_opinion ::
  "override_item \<Rightarrow> (int \<Rightarrow> hardware_row option) \<Rightarrow> (int \<Rightarrow> compute_row option) \<Rightarrow> instant
   \<Rightarrow> bool option \<times> string" where
  "proxmox_opinion item hw_map cu_map cutoff =
     (case oi_target_id item of
        None \<Rightarrow> (None, '''')
      | Some target_id \<Rightarrow>
          if oi_target_type item = Some ''hardware'' then
            (case hw_map target_id of
               None \<Rightarrow> (None, ''node'')
             | Some hw \<Rightarrow>
                 let is_fresh = (case hw_proxmox_node_name hw of Some n \<Rightarrow> n \<noteq> [] | None \<Rightarrow> False)
                                \<and> fresh (hw_telemetry_last_polled hw) cutoff;
                     is_live = is_fresh \<and> hw_telemetry_status hw \<notin> Some ` set NON_LIVE_STATUSES
                 in (if is_live then Some True else None, ''node''))
          else if oi_target_type item = Some ''compute_unit'' then
            (case cu_map target_id of
               None \<Rightarrow> (None, '''')
             | Some cu \<Rightarrow>
                 if \<not> (cu_proxmox_vmid cu \<noteq> None \<and> fresh (cu_telemetry_last_polled cu) cutoff)
                 then (None, '''')
                 else (Some (cu_status cu = Some ''active''),
                       if cu_kind cu = ''vm'' then ''VM'' else ''container''))
          else (None, ''''))"

definition override_sample :: "bool \<Rightarrow> sample \<Rightarrow> sample" where
  "override_sample proxmox_up s =
     (if sm_metric s = ''avail''
      then \<lparr> sm_metric = ''avail'', sm_value = Fin (if proxmox_up then 1 else 0),
             sm_error_reason = None \<rparr>
      else s)"

definition override_msg :: "string \<Rightarrow> string \<Rightarrow> bool \<Rightarrow> string" where
  "override_msg msg label proxmox_up =
     py_strip (msg @ '' (overridden: Proxmox reports '' @ label @ '' ''
               @ (if proxmox_up then ''running'' else ''stopped'') @ '')'')"

fun apply_one ::
  "outcome \<Rightarrow> (int \<Rightarrow> override_item option) \<Rightarrow> (int \<Rightarrow> hardware_row option)
   \<Rightarrow> (int \<Rightarrow> compute_row option) \<Rightarrow> instant \<Rightarrow> outcome" where
  "apply_one ((item_id, target_type, target_id, samples, ts), up, msg) targets_by_item hw_map cu_map cutoff =
     (let outcome = ((item_id, target_type, target_id, samples, ts), up, msg) in
      case targets_by_item item_id of
        None \<Rightarrow> outcome
      | Some item \<Rightarrow>
          if oi_check_type item \<notin> Some ` set OVERRIDABLE_CHECK_TYPES then outcome
          else case proxmox_opinion item hw_map cu_map cutoff of
                 (None, _) \<Rightarrow> outcome
               | (Some proxmox_up, label) \<Rightarrow>
                   if proxmox_up = up then outcome
                   else ((item_id, target_type, target_id,
                          map (override_sample proxmox_up) samples, ts),
                         proxmox_up, override_msg msg label proxmox_up))"

definition apply_proxmox_overrides ::
  "inventory \<Rightarrow> instant \<Rightarrow> override_item list \<Rightarrow> outcome list \<Rightarrow> outcome list" where
  "apply_proxmox_overrides ivt now items outcomes =
     (let targets_by_item = dict_of oi_item_id items;
          cutoff = now - FRESHNESS_WINDOW;
          hardware_ids = List.map_filter (\<lambda>i. if oi_target_type i = Some ''hardware''
                                             then oi_target_id i else None) items;
          compute_ids = List.map_filter (\<lambda>i. if oi_target_type i = Some ''compute_unit''
                                            then oi_target_id i else None) items;
          hw_map = dict_of hw_id (filter (\<lambda>hw. hw_id hw \<in> set hardware_ids) (inv_hardware ivt));
          cu_map = dict_of cu_id (filter (\<lambda>cu. cu_id cu \<in> set compute_ids) (inv_compute ivt))
      in map (\<lambda>outcome. apply_one outcome targets_by_item hw_map cu_map cutoff) outcomes)"

subsection \<open>What the override may and may not do\<close>

lemma write_samples_db [cb_simps]:
  "snd (write_samples rows db) = db\<lparr>mseries := mseries db @ concat (map row_mappings rows)\<rparr>"
  "fst (write_samples rows db) = length (concat (map row_mappings rows))"
  by (simp_all add: write_samples_def Let_def)

lemma row_mappings_source: "r \<in> set (row_mappings row) \<Longrightarrow> ts_source r = ''monitor''"
  by (cases row) (auto simp: sample_mapping_def)

lemma dict_of_Some: "dict_of key rows k = Some r \<Longrightarrow> r \<in> set rows \<and> key r = k"
  by (auto simp: dict_of_def dest!: map_of_SomeD)

lemma length_overrides [simp]: "length (apply_proxmox_overrides ivt now items outs) = length outs"
  by (simp add: apply_proxmox_overrides_def Let_def)

text \<open>The evidence the hypervisor's opinion rests on.\<close>

definition evidence :: "inventory \<Rightarrow> instant \<Rightarrow> override_item \<Rightarrow> bool \<Rightarrow> bool" where
  "evidence ivt now item up \<longleftrightarrow>
     (\<exists>hw \<in> set (inv_hardware ivt). oi_target_type item = Some ''hardware''
        \<and> oi_target_id item = Some (hw_id hw) \<and> fresh (hw_telemetry_last_polled hw) (now - seconds 300)
        \<and> hw_telemetry_status hw \<notin> Some ` set NON_LIVE_STATUSES \<and> up)
   \<or> (\<exists>cu \<in> set (inv_compute ivt). oi_target_type item = Some ''compute_unit''
        \<and> oi_target_id item = Some (cu_id cu) \<and> fresh (cu_telemetry_last_polled cu) (now - seconds 300)
        \<and> up = (cu_status cu = Some ''active''))"

lemma opinion_evidence:
  assumes "proxmox_opinion item (dict_of hw_id (filter P (inv_hardware ivt)))
             (dict_of cu_id (filter Q (inv_compute ivt))) (now - FRESHNESS_WINDOW) = (Some up, label)"
  shows "evidence ivt now item up"
proof (cases "oi_target_type item = Some ''hardware''")
  case True
  with assms show ?thesis
    by (auto simp: proxmox_opinion_def evidence_def FRESHNESS_WINDOW_def Let_def
        split: option.splits if_splits dest!: dict_of_Some)
next
  case False
  with assms obtain cu where "cu \<in> set (inv_compute ivt)" "oi_target_id item = Some (cu_id cu)"
    "oi_target_type item = Some ''compute_unit''" "up = (cu_status cu = Some ''active'')"
    "fresh (cu_telemetry_last_polled cu) (now - seconds 300)"
    by (cases "oi_target_id item"; cases "dict_of cu_id (filter Q (inv_compute ivt)) (the (oi_target_id item))")
      (auto simp: proxmox_opinion_def FRESHNESS_WINDOW_def split: if_splits dest!: dict_of_Some)
  then show ?thesis unfolding evidence_def by blast
qed

lemma apply_one_cases:
  obtains (raw) "apply_one (row, up, msg) tb hm cm cutoff = (row, up, msg)"
  | (flip) item label where "tb (fst row) = Some item"
      "oi_check_type item \<in> Some ` set OVERRIDABLE_CHECK_TYPES"
      "proxmox_opinion item hm cm cutoff = (Some (\<not> up), label)"
      "apply_one (row, up, msg) tb hm cm cutoff =
         ((\<lambda>(i, t, k, ss, ts). (i, t, k, map (override_sample (\<not> up)) ss, ts)) row,
          \<not> up, override_msg msg label (\<not> up))"
proof -
  obtain i t k ss ts where row: "row = (i, t, k, ss, ts)" by (cases row)
  show thesis
  proof (cases "apply_one (row, up, msg) tb hm cm cutoff = (row, up, msg)")
    case False
    then obtain item where item: "tb i = Some item"
      "oi_check_type item \<in> Some ` set OVERRIDABLE_CHECK_TYPES"
      by (auto simp: row Let_def split: option.splits if_splits)
    obtain op label where op: "proxmox_opinion item hm cm cutoff = (op, label)"
      by (cases "proxmox_opinion item hm cm cutoff")
    from False item op have "op = Some (\<not> up)"
      by (cases op) (auto simp: row Let_def split: if_splits)
    with item op show thesis
      by (intro flip [of item label]) (simp_all add: row Let_def)
  qed (rule raw)
qed

end
