(* ===== verification/Result_Service.thy ===== *)
theory Result_Service
  imports Monitor_State Proxmox_Override
begin

text \<open>
  \<open>services/monitoring/result_service.py\<close>: the one path from a normalized check outcome to
  monitor state, samples, events and run completion. The transaction is a function from the
  database before to the database after; what is published after the commit is its other result.
\<close>

subsection \<open>Records\<close>

record monitor_result =
  mr_item_id :: int
  mr_target_type :: "string option"
  mr_target_id :: "int option"
  mr_check_type :: "string option"
  mr_samples :: "sample list"
  mr_up :: bool
  mr_msg :: string
  mr_checked_at :: instant
  mr_outcome :: probe_outcome
  mr_details :: "(string \<times> json) list option"
  mr_source :: string
  mr_agent_id :: "int option"
  mr_run_id :: "string option"
  mr_execution_reason :: "string option"

text \<open>The two shapes of a live-status entry: with the target's status, or with the vantage's.\<close>

datatype live_entry =
    Live_status int bool string instant
  | Live_execution int exec_status "string option" instant

record persisted_results =
  ps_written :: nat
  ps_transitions :: "applied_transition list"
  ps_live_status :: "live_entry list"

fun outcome_str :: "probe_outcome \<Rightarrow> string" where
  "outcome_str OUTCOME_COMPLETED = ''completed''"
| "outcome_str OUTCOME_EXECUTION_ERROR = ''execution_error''"
| "outcome_str OUTCOME_CANCELLED = ''cancelled''"
| "outcome_str OUTCOME_REJECTED = ''rejected''"

definition completed :: "monitor_result \<Rightarrow> bool" where
  "completed r \<longleftrightarrow> mr_outcome r = OUTCOME_COMPLETED"

text \<open>\<open>x or None\<close> for a string.\<close>

definition or_none :: "string \<Rightarrow> string option" where
  "or_none s = (if s = [] then None else Some s)"

subsection \<open>The proxmox override in this module's vocabulary\<close>

definition sample_row :: "monitor_result \<Rightarrow> sample_row" where
  "sample_row r = (mr_item_id r, mr_target_type r, mr_target_id r, mr_samples r, mr_checked_at r)"

text \<open>
  The source compares the sample lists by identity; a list the override did not rebuild is the
  same object, and one it rebuilt comes with the opposite \<open>up\<close>, so equality decides the same.
\<close>

definition with_outcome :: "monitor_result \<Rightarrow> outcome \<Rightarrow> monitor_result" where
  "with_outcome r out =
     (case out of ((_, _, _, samples, _), up, msg) \<Rightarrow>
        if up = mr_up r \<and> msg = mr_msg r \<and> samples = mr_samples r then r
        else \<lparr> mr_item_id = mr_item_id r, mr_target_type = mr_target_type r,
               mr_target_id = mr_target_id r, mr_check_type = mr_check_type r,
               mr_samples = samples, mr_up = up, mr_msg = msg, mr_checked_at = mr_checked_at r,
               mr_outcome = mr_outcome r, mr_details = mr_details r, mr_source = mr_source r,
               mr_agent_id = mr_agent_id r, mr_run_id = mr_run_id r, mr_execution_reason = None \<rparr>)"

definition override_item_of :: "monitor_result \<Rightarrow> override_item" where
  "override_item_of r = \<lparr> oi_item_id = mr_item_id r, oi_target_type = mr_target_type r,
                          oi_target_id = mr_target_id r, oi_check_type = mr_check_type r \<rparr>"

definition result_overrides :: "inventory \<Rightarrow> instant \<Rightarrow> monitor_result list \<Rightarrow> monitor_result list" where
  "result_overrides ivt now results =
     (let items = map override_item_of results;
          outcomes = map (\<lambda>r. (sample_row r, mr_up r, mr_msg r)) results;
          overridden = apply_proxmox_overrides ivt now items outcomes
      in if length overridden \<noteq> length results then results
         else map2 with_outcome results overridden)"

subsection \<open>Execution conditions\<close>

text \<open>The newest event of a monitor: \<open>ORDER BY created_at DESC, id DESC LIMIT 1\<close>.\<close>

definition newer_event :: "monitor_event \<Rightarrow> monitor_event \<Rightarrow> monitor_event" where
  "newer_event e best =
     (if me_created_at best < me_created_at e
         \<or> (me_created_at best = me_created_at e \<and> me_id best < me_id e) then e else best)"

definition latest_event :: "int \<Rightarrow> monitor_db \<Rightarrow> monitor_event option" where
  "latest_event i db =
     (case filter (\<lambda>e. me_item_id e = i) (mevents db) of
        [] \<Rightarrow> None
      | e # es \<Rightarrow> Some (fold newer_event es e))"

definition or_pending :: "monitor_status option \<Rightarrow> monitor_status" where
  "or_pending st = (case st of Some s \<Rightarrow> s | None \<Rightarrow> PENDING)"

definition record_execution_event :: "monitor_item \<Rightarrow> string option \<Rightarrow> monitor_db \<Rightarrow> monitor_db" where
  "record_execution_event monitor reason db =
     (case reason of
        None \<Rightarrow> db
      | Some r \<Rightarrow>
          (case latest_event (mi_id monitor) db of
             Some latest \<Rightarrow>
               if me_type latest = Ev_execution \<and> me_msg latest = r then db
               else add_event (mi_id monitor) Ev_execution (mi_last_status monitor)
                      (or_pending (mi_last_status monitor)) r None db
           | None \<Rightarrow> add_event (mi_id monitor) Ev_execution (mi_last_status monitor)
                       (or_pending (mi_last_status monitor)) r None db))"

definition set_execution :: "exec_status option \<Rightarrow> string option \<Rightarrow> monitor_item \<Rightarrow> monitor_item" where
  "set_execution st reason m = m\<lparr>mi_exec_status := st, mi_exec_reason := reason\<rparr>"

definition record_execution_condition ::
  "int \<Rightarrow> exec_status \<Rightarrow> string option \<Rightarrow> instant \<Rightarrow> monitor_db \<Rightarrow> live_entry option \<times> monitor_db" where
  "record_execution_condition item_id status reason occurred_at db =
     (case get_item item_id db of
        None \<Rightarrow> (None, db)
      | Some monitor \<Rightarrow>
          let trimmed = (case reason of Some r \<Rightarrow> if r = [] then None else Some (take 128 r) | None \<Rightarrow> None);
              db1 = record_execution_event monitor trimmed db;
              db2 = upd_item item_id (set_execution (Some status) trimmed) db1
          in (Some (Live_execution (mi_id monitor) status trimmed occurred_at), db2))"

subsection \<open>Closing the run a result answers\<close>

definition result_metadata :: "monitor_result \<Rightarrow> json option" where
  "result_metadata r =
     (let details = (case mr_details r of Some d \<Rightarrow> if d = [] then [] else [(''details'', JObj d)] | None \<Rightarrow> []);
          reasons = List.map_filter (\<lambda>s. case sm_error_reason s of
                       Some e \<Rightarrow> if e = [] then None
                                 else Some (JObj [(''metric'', JStr (sm_metric s)), (''error_reason'', JStr e)])
                     | None \<Rightarrow> None) (mr_samples r);
          metadata = details @ (if reasons = [] then [] else [(''error_reasons'', JList reasons)])
      in if metadata = [] then None else Some (JObj metadata))"

definition failed_run :: "monitor_result \<Rightarrow> string \<Rightarrow> probe_run \<Rightarrow> probe_run" where
  "failed_run r reason run =
     run\<lparr>pr_status := RS_execution_error, pr_outcome := Some (mr_outcome r),
         pr_error_code := Some (take 64 reason), pr_completed_at := Some (mr_checked_at r),
         pr_msg := or_none (take 2000 (mr_msg r)), pr_result_metadata := result_metadata r\<rparr>"

definition close_failed_run :: "monitor_result \<Rightarrow> string \<Rightarrow> monitor_db \<Rightarrow> monitor_db" where
  "close_failed_run r reason db =
     (case mr_run_id r of
        None \<Rightarrow> db
      | Some run_id \<Rightarrow>
          (case get_run run_id db of
             None \<Rightarrow> db
           | Some _ \<Rightarrow> upd_run run_id (failed_run r reason) db))"

definition apply_execution_error :: "monitor_result \<Rightarrow> monitor_db \<Rightarrow> live_entry option \<times> monitor_db" where
  "apply_execution_error r db =
     (let reason = (case mr_execution_reason r of
                      Some e \<Rightarrow> if e = [] then outcome_str (mr_outcome r) else e
                    | None \<Rightarrow> outcome_str (mr_outcome r))
      in record_execution_condition (mr_item_id r) EX_unavailable (Some reason) (mr_checked_at r)
           (close_failed_run r reason db))"

definition completed_run :: "monitor_result \<Rightarrow> probe_run \<Rightarrow> probe_run" where
  "completed_run r run =
     run\<lparr>pr_status := RS_completed, pr_outcome := Some (mr_outcome r),
         pr_completed_at := Some (mr_checked_at r), pr_msg := Some (take 2000 (mr_msg r)),
         pr_result_metadata := result_metadata r\<rparr>"

definition result_ready :: "monitor_result \<Rightarrow> monitor_item \<Rightarrow> monitor_item" where
  "result_ready r m = m\<lparr>mi_probe_last_result_at := Some (mr_checked_at r),
                        mi_exec_status := Some EX_ready, mi_exec_reason := None\<rparr>"

definition complete_run :: "monitor_result \<Rightarrow> monitor_db \<Rightarrow> monitor_db" where
  "complete_run r db =
     (case mr_run_id r of
        None \<Rightarrow> db
      | Some run_id \<Rightarrow>
          (case get_run run_id db of
             None \<Rightarrow> db
           | Some _ \<Rightarrow> upd_item (mr_item_id r) (result_ready r) (upd_run run_id (completed_run r) db)))"

subsection \<open>The transaction\<close>

type_synonym persist_acc = "applied_transition list \<times> live_entry list \<times> monitor_db"

fun persist_one :: "monitor_result \<Rightarrow> persist_acc \<Rightarrow> persist_acc" where
  "persist_one r (transitions, live, db) =
     (if \<not> completed r then
        (case apply_execution_error r db of
           (Some entry, db') \<Rightarrow> (transitions, live @ [entry], db')
         | (None, db') \<Rightarrow> (transitions, live, db'))
      else
        (case apply_result (mr_item_id r) (mr_up r) (mr_msg r) (mr_checked_at r) db of
           (transition, db') \<Rightarrow>
             (transitions @ (case transition of Some t \<Rightarrow> [t] | None \<Rightarrow> []),
              live @ [Live_status (mr_item_id r) (mr_up r) (mr_msg r) (mr_checked_at r)],
              complete_run r db')))"

text \<open>The adjusted results take the places the completed ones had in the batch.\<close>

fun put_back :: "monitor_result list \<Rightarrow> monitor_result list \<Rightarrow> monitor_result list" where
  "put_back (r # rs) (a # as) = (if completed r then a # put_back rs as else r # put_back rs (a # as))"
| "put_back rs [] = rs"
| "put_back [] as = []"

definition persist_results ::
  "inventory \<Rightarrow> instant \<Rightarrow> monitor_result list \<Rightarrow> monitor_db \<Rightarrow> persisted_results \<times> monitor_db" where
  "persist_results ivt now results db =
     (if results = [] then (\<lparr> ps_written = 0, ps_transitions = [], ps_live_status = [] \<rparr>, db)
      else
        let adjusted = result_overrides ivt now (filter completed results);
            results' = put_back results adjusted;
            (written, db1) = write_samples (map sample_row (filter completed results')) db;
            (transitions, live, db2) = fold persist_one results' ([], [], db1)
        in (\<lparr> ps_written = written, ps_transitions = transitions, ps_live_status = live \<rparr>, db2))"

subsection \<open>Publishing after the commit\<close>

datatype alert_subject = MONITOR_ALERT_DOWN int | MONITOR_ALERT_RECOVERED int

record alert_payload =
  ap_title :: string
  ap_severity :: string
  ap_monitor_id :: int
  ap_monitor_name :: string
  ap_status :: monitor_status
  ap_message :: string
  ap_occurred_at :: instant

fun status_upper :: "monitor_status \<Rightarrow> string" where
  "status_upper UP = ''UP''"
| "status_upper DOWN = ''DOWN''"
| "status_upper PENDING = ''PENDING''"
| "status_upper MAINTENANCE = ''MAINTENANCE''"

definition monitor_alert_payload ::
  "int \<Rightarrow> string \<Rightarrow> monitor_status \<Rightarrow> string \<Rightarrow> instant \<Rightarrow> alert_payload" where
  "monitor_alert_payload item_id name status message occurred_at =
     \<lparr> ap_title = ''Monitor '' @ name @ '' is '' @ status_upper status,
       ap_severity = (if status = DOWN then ''critical'' else ''info''), ap_monitor_id = item_id,
       ap_monitor_name = name, ap_status = status, ap_message = message, ap_occurred_at = occurred_at \<rparr>"

definition publish_transitions :: "applied_transition list \<Rightarrow> (alert_subject \<times> alert_payload) list" where
  "publish_transitions ts =
     List.map_filter (\<lambda>t.
        let payload = monitor_alert_payload (at_item_id t) (at_name t) (at_status_to t) (at_msg t) (at_occurred_at t)
        in case at_notify t of
             Some Notify_down \<Rightarrow> Some (MONITOR_ALERT_DOWN (at_item_id t), payload)
           | Some Notify_recovered \<Rightarrow> Some (MONITOR_ALERT_RECOVERED (at_item_id t), payload)
           | None \<Rightarrow> None) ts"

text \<open>The live pushes that go out: none without Redis, and none after the first failed publish.\<close>

definition publish_live_status :: "bool \<Rightarrow> (live_entry \<Rightarrow> bool) \<Rightarrow> live_entry list \<Rightarrow> live_entry list" where
  "publish_live_status redis publishes live = (if \<not> redis then [] else takeWhile publishes live)"

subsection \<open>Execution errors say nothing about the target\<close>

text \<open>
  The target's part of the database: monitors without the two execution columns, transition
  events without the execution events (and without row ids, which number both kinds), samples,
  and which runs exist.
\<close>

definition strip_item :: "monitor_item \<Rightarrow> monitor_item" where
  "strip_item m = m\<lparr>mi_exec_status := None, mi_exec_reason := None\<rparr>"

definition strip_run :: "probe_run \<Rightarrow> probe_run" where
  "strip_run r = r\<lparr>pr_status := RS_queued, pr_outcome := None, pr_completed_at := None, pr_msg := None,
                   pr_error_code := None, pr_result_metadata := None\<rparr>"

definition target_view :: "monitor_db \<Rightarrow> monitor_db" where
  "target_view db =
     db\<lparr>mitems := map strip_item (mitems db),
        mevents := map (\<lambda>e. e\<lparr>me_id := 0\<rparr>) (filter (\<lambda>e. me_type e \<noteq> Ev_execution) (mevents db)),
        mruns := map strip_run (mruns db), mnext_event := 0\<rparr>"

lemma strip_simps [row_simps]:
  "mi_id (strip_item m) = mi_id m" "pr_run_id (strip_run r) = pr_run_id r"
  "strip_item (strip_item m) = strip_item m" "strip_run (strip_run r) = strip_run r"
  "strip_item (set_execution s e m) = strip_item m" "strip_run (failed_run q x r) = strip_run r"
  "mi_id (set_execution s e m) = mi_id m" "pr_run_id (failed_run q x r) = pr_run_id r"
  "pr_run_id (completed_run q r) = pr_run_id r" "mi_id (result_ready q m) = mi_id m"
  "mi_last_status (strip_item m) = mi_last_status m"
  "mi_consecutive_failures (strip_item m) = mi_consecutive_failures m"
  "mi_max_retries (strip_item m) = mi_max_retries m" "mi_name (strip_item m) = mi_name m"
  "mi_last_status_change_at (strip_item m) = mi_last_status_change_at m"
  "strip_item (polled d c (strip_item m)) = strip_item (polled d c m)"
  "strip_item (changed d c (strip_item m)) = strip_item (changed d c m)"
  "strip_item (result_ready q (strip_item m)) = strip_item (result_ready q m)"
  "strip_run (completed_run q (strip_run r)) = strip_run (completed_run q r)"
  by (simp_all add: strip_item_def strip_run_def set_execution_def failed_run_def completed_run_def
      result_ready_def polled_def changed_def retry_in_def split: option.splits)

text \<open>A row update seen through a projection of the rows.\<close>

lemma map_tbl_upd_idem:
  assumes "\<And>r. h (f r) = h r"
  shows "map h (tbl_upd key k f rows) = map h rows"
  using assms by (induction rows) auto

lemma map_tbl_upd_through:
  assumes "\<And>r. h (f (h r)) = h (f r)" "\<And>r. h (h r) = h r" "\<And>r. key (h r) = key r"
  shows "map h (tbl_upd key k f (map h rows)) = map h (tbl_upd key k f rows)"
  using assms by (induction rows) auto

lemma tbl_get_map:
  assumes "\<And>r. key (h r) = key r"
  shows "tbl_get key k (map h rows) = map_option h (tbl_get key k rows)"
  using assms by (induction rows) (auto simp: tbl_get_Cons)

lemma target_view_upd_item_idem:
  "(\<And>m. strip_item (f m) = strip_item m) \<Longrightarrow> target_view (upd_item i f db) = target_view db"
  by (simp add: target_view_def upd_item_def map_tbl_upd_idem)

lemma target_view_upd_run_idem:
  "(\<And>m. strip_run (f m) = strip_run m) \<Longrightarrow> target_view (upd_run i f db) = target_view db"
  by (simp add: target_view_def upd_run_def map_tbl_upd_idem)

lemma target_view_execution_event:
  "target_view (add_event i Ev_execution a b m d db) = target_view db"
  by (simp add: target_view_def add_event_def)

lemma target_view_idem [simp]: "target_view (target_view db) = target_view db"
  by (simp add: target_view_def comp_def row_simps filter_map)

lemma target_view_upd_item:
  assumes "\<And>m. strip_item (f (strip_item m)) = strip_item (f m)"
  shows "target_view (upd_item i f (target_view db)) = target_view (upd_item i f db)"
  by (simp add: target_view_def upd_item_def map_tbl_upd_through assms row_simps comp_def filter_map)

lemma target_view_upd_run:
  assumes "\<And>m. strip_run (f (strip_run m)) = strip_run (f m)"
  shows "target_view (upd_run i f (target_view db)) = target_view (upd_run i f db)"
  by (simp add: target_view_def upd_run_def map_tbl_upd_through assms row_simps comp_def filter_map)

lemma target_view_add_event:
  "target_view (add_event i ty a b m d (target_view db)) = target_view (add_event i ty a b m d db)"
  by (simp add: target_view_def add_event_def comp_def row_simps filter_map)

lemma get_item_view: "get_item i (target_view db) = map_option strip_item (get_item i db)"
  by (simp add: get_item_def target_view_def tbl_get_map row_simps)

lemma get_run_view: "get_run i (target_view db) = map_option strip_run (get_run i db)"
  by (simp add: get_run_def target_view_def tbl_get_map row_simps)

lemma execution_error_view: "target_view (snd (apply_execution_error r db)) = target_view db"
  by (simp add: apply_execution_error_def record_execution_condition_def record_execution_event_def
      close_failed_run_def Let_def target_view_upd_item_idem target_view_upd_run_idem row_simps
      target_view_execution_event split: option.splits)

lemma apply_result_view:
  "fst (apply_result i u m c (target_view db)) = fst (apply_result i u m c db)
   \<and> target_view (snd (apply_result i u m c (target_view db))) = target_view (snd (apply_result i u m c db))"
proof (cases "get_item i db")
  case None
  then show ?thesis by (simp add: apply_result_def get_item_view)
next
  case (Some item)
  have ev: "target_view (add_event i ty a b e d (upd_item i (changed dd c) (target_view db)))
        = target_view (add_event i ty a b e d (upd_item i (changed dd c) db))" for ty a b e d dd
    by (metis target_view_add_event target_view_upd_item strip_simps(17))
  have po: "target_view (upd_item i (polled dd c) (target_view db)) = target_view (upd_item i (polled dd c) db)" for dd
    by (rule target_view_upd_item) (simp add: row_simps)
  from Some show ?thesis
    by (auto simp: apply_result_def get_item_view row_simps Let_def po ev split: option.splits)
qed

lemma complete_run_view: "target_view (complete_run r (target_view db)) = target_view (complete_run r db)"
proof -
  have "target_view (upd_item i (result_ready r) (upd_run q (completed_run r) (target_view db)))
      = target_view (upd_item i (result_ready r) (upd_run q (completed_run r) db))" for i q
    by (metis (no_types, lifting) strip_simps(18,19) target_view_upd_item target_view_upd_run)
  then show ?thesis
    by (auto simp: complete_run_def get_run_view split: option.splits)
qed

fun is_status :: "live_entry \<Rightarrow> bool" where
  "is_status (Live_status _ _ _ _) = True"
| "is_status (Live_execution _ _ _ _) = False"

text \<open>Two accumulators that agree on everything but the vantage's condition.\<close>

fun same_target :: "persist_acc \<Rightarrow> persist_acc \<Rightarrow> bool" where
  "same_target (t1, l1, d1) (t2, l2, d2) \<longleftrightarrow>
     t1 = t2 \<and> filter is_status l1 = filter is_status l2 \<and> target_view d1 = target_view d2"

lemma execution_entry: "fst (apply_execution_error r db) = Some e \<Longrightarrow> \<not> is_status e"
  by (auto simp: apply_execution_error_def record_execution_condition_def Let_def split: option.splits)

lemma persist_one_error:
  assumes "\<not> completed r"
  shows "same_target (persist_one r acc) acc"
proof -
  obtain t l d where acc: "acc = (t, l, d)" by (cases acc)
  have "target_view (snd (apply_execution_error r d)) = target_view d" by (rule execution_error_view)
  with assms execution_entry [of r d] show ?thesis
    by (auto simp: acc split: prod.splits option.splits)
qed

lemma persist_one_completed:
  assumes "completed r" "same_target acc acc'"
  shows "same_target (persist_one r acc) (persist_one r acc')"
proof -
  obtain t l d where acc: "acc = (t, l, d)" by (cases acc)
  obtain t' l' d' where acc': "acc' = (t', l', d')" by (cases acc')
  let ?f = "apply_result (mr_item_id r) (mr_up r) (mr_msg r) (mr_checked_at r)"
  have eqs: "fst (?f d) = fst (?f d')" "target_view (snd (?f d)) = target_view (snd (?f d'))"
    using assms(2) apply_result_view
    by (metis acc acc' same_target.simps)+
  have "target_view (complete_run r (snd (?f d))) = target_view (complete_run r (snd (?f d')))"
    by (metis complete_run_view eqs(2))
  with eqs(1) assms show ?thesis by (auto simp: acc acc' split: prod.splits)
qed

lemma same_target_trans: "same_target a b \<Longrightarrow> same_target b c \<Longrightarrow> same_target a c"
  by (cases a; cases b; cases c) auto

lemma persist_fold:
  "same_target acc acc' \<Longrightarrow> same_target (fold persist_one rs acc) (fold persist_one (filter completed rs) acc')"
proof (induction rs arbitrary: acc acc')
  case (Cons r rs)
  show ?case
  proof (cases "completed r")
    case True
    with Cons show ?thesis by (simp add: persist_one_completed)
  next
    case False
    then have "same_target (persist_one r acc) acc'"
      using Cons.prems persist_one_error same_target_trans by blast
    with False Cons.IH show ?thesis by simp
  qed
qed simp

lemma with_outcome_outcome [simp]: "mr_outcome (with_outcome r out) = mr_outcome r"
  by (auto simp: with_outcome_def split: prod.splits)

lemma result_overrides_length [simp]: "length (result_overrides ivt now rs) = length rs"
  by (simp add: result_overrides_def Let_def)

lemma result_overrides_completed:
  assumes "list_all completed rs"
  shows "list_all completed (result_overrides ivt now rs)"
  using assms by (auto simp: result_overrides_def Let_def list_all_iff completed_def dest!: set_zip_leftD)

lemma put_back_completed:
  "list_all completed as \<Longrightarrow> length as = length (filter completed rs)
   \<Longrightarrow> filter completed (put_back rs as) = as"
  by (induction rs as rule: put_back.induct) (auto simp: filter_empty_conv)

lemma put_back_all:
  "list_all completed rs \<Longrightarrow> length as = length rs \<Longrightarrow> put_back rs as = as"
  by (induction rs as rule: put_back.induct) auto

lemma put_back_overrides:
  "filter completed (put_back rs (result_overrides ivt now (filter completed rs)))
     = result_overrides ivt now (filter completed rs)"
  by (intro put_back_completed result_overrides_completed) (simp_all add: list_all_iff)

text \<open>
  C10. An execution error says nothing about the target: persisting a batch leaves the monitors'
  status, retry counters and schedules, the transition events, the samples, the transitions that
  raise alerts and the live status pushes exactly as persisting its completed results alone
  would.
\<close>

theorem execution_errors_inert:
  "target_view (snd (persist_results ivt now results db))
     = target_view (snd (persist_results ivt now (filter completed results) db))
   \<and> ps_transitions (fst (persist_results ivt now results db))
     = ps_transitions (fst (persist_results ivt now (filter completed results) db))
   \<and> ps_written (fst (persist_results ivt now results db))
     = ps_written (fst (persist_results ivt now (filter completed results) db))
   \<and> filter is_status (ps_live_status (fst (persist_results ivt now results db)))
     = filter is_status (ps_live_status (fst (persist_results ivt now (filter completed results) db)))"
proof -
  define adj where "adj = result_overrides ivt now (filter completed results)"
  define db1 where "db1 = snd (write_samples (map sample_row adj) db)"
  have fil: "filter completed (put_back results adj) = adj"
    unfolding adj_def by (rule put_back_overrides)
  have pb: "put_back (filter completed results) adj = adj"
    unfolding adj_def by (rule put_back_all) (simp_all add: list_all_iff)
  have "list_all completed adj"
    unfolding adj_def by (rule result_overrides_completed) (simp add: list_all_iff)
  then have adjc: "filter completed adj = adj" by (simp add: list_all_iff)
  have emp: "filter completed results = [] \<Longrightarrow> adj = []"
    unfolding adj_def by (simp add: result_overrides_def Let_def)
  have "same_target (fold persist_one (put_back results adj) ([], [], db1))
                    (fold persist_one (filter completed (put_back results adj)) ([], [], db1))"
    by (rule persist_fold) simp
  then have main: "same_target (fold persist_one (put_back results adj) ([], [], db1))
                    (fold persist_one adj ([], [], db1))" by (simp add: fil)
  have full: "persist_results ivt now results db =
      (case fold persist_one (put_back results adj) ([], [], db1) of (t, l, d) \<Rightarrow>
        (\<lparr>ps_written = fst (write_samples (map sample_row adj) db), ps_transitions = t, ps_live_status = l\<rparr>, d))"
    if "results \<noteq> []"
    using that by (simp add: persist_results_def Let_def adj_def [symmetric] fil db1_def split: prod.splits)
  have part: "persist_results ivt now (filter completed results) db =
      (case fold persist_one adj ([], [], db1) of (t, l, d) \<Rightarrow>
        (\<lparr>ps_written = fst (write_samples (map sample_row adj) db), ps_transitions = t, ps_live_status = l\<rparr>, d))"
  proof (cases "filter completed results = []")
    case True
    with emp have "adj = []" by simp
    then show ?thesis unfolding persist_results_def True by (simp add: db1_def write_samples_def)
  next
    case False
    then show ?thesis
      by (simp add: persist_results_def Let_def adj_def [symmetric] pb adjc db1_def split: prod.splits)
  qed
  show ?thesis
  proof (cases "results = []")
    case False
    from main show ?thesis unfolding full [OF False] part
      by (cases "fold persist_one (put_back results adj) ([], [], db1)";
          cases "fold persist_one adj ([], [], db1)") auto
  qed simp
qed

subsection \<open>The override is justified and consistent\<close>

definition sample_overridden :: "bool \<Rightarrow> sample \<Rightarrow> sample \<Rightarrow> bool" where
  "sample_overridden up s s' \<longleftrightarrow>
     (if sm_metric s = ''avail'' then sm_metric s' = ''avail'' \<and> sm_value s' = Fin (if up then 1 else 0)
      else s' = s)"

definition override_ok :: "inventory \<Rightarrow> instant \<Rightarrow> monitor_result list \<Rightarrow> monitor_result \<Rightarrow> monitor_result \<Rightarrow> bool" where
  "override_ok ivt now results r r' \<longleftrightarrow>
     r' = r
   \<or> ((\<exists>q \<in> set results. mr_item_id q = mr_item_id r \<and> mr_check_type q \<in> {Some ''icmp'', Some ''tcp''}
          \<and> evidence ivt now (override_item_of q) (mr_up r'))
      \<and> mr_up r' = (\<not> mr_up r)
      \<and> list_all2 (sample_overridden (mr_up r')) (mr_samples r) (mr_samples r')
      \<and> mr_item_id r' = mr_item_id r \<and> mr_checked_at r' = mr_checked_at r
      \<and> mr_outcome r' = mr_outcome r \<and> mr_run_id r' = mr_run_id r \<and> mr_details r' = mr_details r)"

lemma override_sample_rel: "list_all2 (sample_overridden up) ss (map (override_sample up) ss)"
  by (induction ss) (auto simp: sample_overridden_def override_sample_def)

lemma with_outcome_raw [simp]: "with_outcome r (sample_row r, mr_up r, mr_msg r) = r"
  by (simp add: with_outcome_def sample_row_def)

lemma with_outcome_apply_one:
  fixes results P Q ivt now
  defines "tb \<equiv> dict_of oi_item_id (map override_item_of results)"
    and "hm \<equiv> dict_of hw_id (filter P (inv_hardware ivt))"
    and "cm \<equiv> dict_of cu_id (filter Q (inv_compute ivt))"
  shows "override_ok ivt now results r
           (with_outcome r (apply_one (sample_row r, mr_up r, mr_msg r) tb hm cm (now - FRESHNESS_WINDOW)))"
proof (cases rule: apply_one_cases [where row = "sample_row r" and up = "mr_up r" and msg = "mr_msg r"
      and tb = tb and hm = hm and cm = cm and cutoff = "now - FRESHNESS_WINDOW"])
  case raw
  then show ?thesis by (simp add: override_ok_def)
next
  case (flip item label)
  let ?r' = "with_outcome r (apply_one (sample_row r, mr_up r, mr_msg r) tb hm cm (now - FRESHNESS_WINDOW))"
  have up: "mr_up ?r' = (\<not> mr_up r)"
    "mr_samples ?r' = map (override_sample (\<not> mr_up r)) (mr_samples r)"
    "mr_item_id ?r' = mr_item_id r" "mr_checked_at ?r' = mr_checked_at r" "mr_run_id ?r' = mr_run_id r"
    "mr_details ?r' = mr_details r"
    unfolding flip(4) by (simp_all add: with_outcome_def sample_row_def)
  from flip(1) obtain q where q: "q \<in> set results" "item = override_item_of q" "mr_item_id q = mr_item_id r"
    unfolding tb_def by (auto dest!: dict_of_Some simp: sample_row_def override_item_of_def)
  have "evidence ivt now item (\<not> mr_up r)"
    using flip(3) unfolding hm_def cm_def by (rule opinion_evidence)
  with q flip(2) have "\<exists>q \<in> set results. mr_item_id q = mr_item_id r \<and> mr_check_type q \<in> {Some ''icmp'', Some ''tcp''}
          \<and> evidence ivt now (override_item_of q) (\<not> mr_up r)"
    by (intro bexI [of _ q]) (auto simp: override_item_of_def OVERRIDABLE_CHECK_TYPES_def)
  with up show ?thesis by (simp add: override_ok_def override_sample_rel)
qed

lemma list_all2_map2: "(\<And>x. x \<in> set xs \<Longrightarrow> P x (f x (g x))) \<Longrightarrow> list_all2 P xs (map2 f xs (map g xs))"
  by (induction xs) auto

lemma overrides_ok:
  "list_all2 (override_ok ivt now results) results (result_overrides ivt now results)"
proof -
  let ?f = "\<lambda>r. apply_one (sample_row r, mr_up r, mr_msg r)
      (dict_of oi_item_id (map override_item_of results))
      (dict_of hw_id (filter (\<lambda>hw. hw_id hw \<in> set (List.map_filter (\<lambda>i. if oi_target_type i = Some ''hardware''
           then oi_target_id i else None) (map override_item_of results))) (inv_hardware ivt)))
      (dict_of cu_id (filter (\<lambda>cu. cu_id cu \<in> set (List.map_filter (\<lambda>i. if oi_target_type i = Some ''compute_unit''
           then oi_target_id i else None) (map override_item_of results))) (inv_compute ivt)))
      (now - FRESHNESS_WINDOW)"
  have "result_overrides ivt now results = map2 with_outcome results (map ?f results)"
    by (simp add: result_overrides_def apply_proxmox_overrides_def Let_def comp_def)
  moreover have "list_all2 (override_ok ivt now results) results (map2 with_outcome results (map ?f results))"
    by (rule list_all2_map2) (rule with_outcome_apply_one)
  ultimately show ?thesis by simp
qed

text \<open>
  A hypervisor's opinion replaces a raw answer only for an ICMP or TCP check of the same
  monitor, only on evidence at most five minutes old, and then consistently: the answer the
  state machine sees and every availability sample say the opposite of the raw answer, all other
  samples and the identity of the result are kept. Every other result passes unchanged.
\<close>

theorem override_justified:
  "list_all2 (override_ok ivt now results) results (result_overrides ivt now results)"
  by (rule overrides_ok)

subsection \<open>One execution event per change of reason\<close>

text \<open>Time passing, check answers and execution conditions, in any order and for any monitors.\<close>

datatype condition_event =
    Clock nat
  | Answer check_answer
  | Condition int exec_status "string option" instant

fun condition_step :: "condition_event \<Rightarrow> monitor_db \<Rightarrow> monitor_db" where
  "condition_step (Clock d) db = db\<lparr>mclock := mclock db + int d\<rparr>"
| "condition_step (Answer a) db = apply_answer a db"
| "condition_step (Condition i st reason t) db = snd (record_execution_condition i st reason t db)"

definition repeats :: "monitor_event \<Rightarrow> monitor_event \<Rightarrow> bool" where
  "repeats a b \<longleftrightarrow> me_type a = Ev_execution \<and> me_type b = Ev_execution \<and> me_msg a = me_msg b"

fun no_repeat :: "monitor_event list \<Rightarrow> bool" where
  "no_repeat (a # b # es) \<longleftrightarrow> \<not> repeats a b \<and> no_repeat (b # es)"
| "no_repeat _ = True"

definition events_of :: "int \<Rightarrow> monitor_db \<Rightarrow> monitor_event list" where
  "events_of i db = filter (\<lambda>e. me_item_id e = i) (mevents db)"

definition log_inv :: "monitor_db \<Rightarrow> bool" where
  "log_inv db \<longleftrightarrow>
     sorted_wrt (\<lambda>a b. me_created_at a \<le> me_created_at b \<and> me_id a < me_id b) (mevents db)
   \<and> list_all (\<lambda>e. me_created_at e \<le> mclock db \<and> me_id e < mnext_event db) (mevents db)
   \<and> (\<forall>i. no_repeat (events_of i db))"

lemma no_repeat_snoc: "no_repeat (xs @ [y]) \<longleftrightarrow> no_repeat xs \<and> (xs = [] \<or> \<not> repeats (last xs) y)"
  by (induction xs rule: no_repeat.induct) auto

lemma fold_newer_sorted:
  "sorted_wrt (\<lambda>a b. me_created_at a \<le> me_created_at b \<and> me_id a < me_id b) (e # es)
   \<Longrightarrow> fold newer_event es e = last (e # es)"
proof (induction es arbitrary: e)
  case (Cons x es)
  then have "newer_event x e = x" by (auto simp: newer_event_def)
  with Cons show ?case by simp
qed simp

lemma latest_event_last:
  assumes "log_inv db"
  shows "latest_event i db = (if events_of i db = [] then None else Some (last (events_of i db)))"
proof -
  have sorted: "sorted_wrt (\<lambda>a b. me_created_at a \<le> me_created_at b \<and> me_id a < me_id b) (events_of i db)"
    using assms by (auto simp: log_inv_def events_of_def sorted_wrt_filter)
  show ?thesis
  proof (cases "events_of i db")
    case (Cons e es)
    with sorted have "fold newer_event es e = last (e # es)" by (intro fold_newer_sorted) simp
    with Cons show ?thesis by (simp add: latest_event_def events_of_def)
  qed (simp add: latest_event_def events_of_def)
qed

lemma log_inv_upd_item [simp]: "log_inv (upd_item i f db) \<longleftrightarrow> log_inv db"
  by (simp add: log_inv_def events_of_def)

lemma log_inv_upd_run [simp]: "log_inv (upd_run i f db) \<longleftrightarrow> log_inv db"
  by (simp add: log_inv_def events_of_def)

text \<open>A new event keeps the log in order, provided it does not repeat the monitor's last one.\<close>

lemma log_inv_add_event:
  assumes "log_inv db"
    and "ty = Ev_execution \<Longrightarrow> events_of i db \<noteq> [] \<Longrightarrow>
           \<not> (me_type (last (events_of i db)) = Ev_execution \<and> me_msg (last (events_of i db)) = m)"
  shows "log_inv (add_event i ty a b m d db)"
proof -
  define e where "e = \<lparr> me_id = mnext_event db, me_item_id = i, me_type = ty,
            me_status_from = a, me_status_to = b, me_msg = m, me_duration_secs = d,
            me_created_at = mclock db \<rparr>"
  have ev: "events_of j (add_event i ty a b m d db) = events_of j db @ (if j = i then [e] else [])" for j
    by (simp add: events_of_def add_event_def e_def)
  have "no_repeat (events_of j (add_event i ty a b m d db))" for j
    using assms unfolding ev by (auto simp: no_repeat_snoc log_inv_def repeats_def e_def)
  then show ?thesis
    using assms(1) by (auto simp: log_inv_def add_event_def sorted_wrt_append list_all_iff)
qed

lemma get_item_id: "get_item i db = Some m \<Longrightarrow> mi_id m = i"
  by (auto simp: get_item_def dest: tbl_get_Some)

lemma log_inv_execution_event: "log_inv db \<Longrightarrow> log_inv (record_execution_event m reason db)"
  by (auto simp: record_execution_event_def latest_event_last split: option.splits
      intro!: log_inv_add_event)

lemma log_inv_condition: "log_inv db \<Longrightarrow> log_inv (snd (record_execution_condition i st reason c db))"
  by (auto simp: record_execution_condition_def Let_def log_inv_execution_event split: option.splits)

lemma log_inv_answer: "log_inv db \<Longrightarrow> log_inv (apply_answer a db)"
proof (cases a db rule: apply_answer_cases)
  case (change item f s dur)
  assume "log_inv db"
  then show ?thesis unfolding change(2)
    by (intro log_inv_add_event) (simp, cases s, simp_all)
qed auto

lemma condition_step_inv: "log_inv db \<Longrightarrow> log_inv (condition_step e db)"
proof (cases e)
  case (Clock d)
  assume "log_inv db"
  with Clock show ?thesis by (fastforce simp: log_inv_def events_of_def list_all_iff)
qed (auto simp: log_inv_condition log_inv_answer)

interpretation log: invariant_machine condition_step log_inv
  by unfold_locales (rule condition_step_inv)

text \<open>
  One execution event per change of reason: starting from an empty history, after any
  interleaving of check answers, execution conditions and passing time, no monitor has two
  consecutive events that report the same execution reason, however often the condition
  was reported.
\<close>

theorem execution_events_deduplicated:
  assumes "mevents db = []"
  shows "no_repeat (events_of i (fold condition_step es db))"
proof -
  have "log_inv db" using assms by (simp add: log_inv_def events_of_def)
  from log.run_inv [OF this] show ?thesis by (simp add: log_inv_def)
qed

definition idle_monitor :: monitor_item where
  "idle_monitor = \<lparr> mi_id = 7, mi_name = ''gw'', mi_target_type = None, mi_target_id = None,
     mi_host = ''h'', mi_check_type = ''icmp'', mi_params = [], mi_interval_secs = 60, mi_max_retries = 0,
     mi_retry_interval_secs = None, mi_enabled = True, mi_next_due_at = 0, mi_last_polled_at = None,
     mi_last_status = None, mi_consecutive_failures = 0, mi_last_status_change_at = None,
     mi_probe_agent_id = Some 3, mi_exec_status = None, mi_exec_reason = None,
     mi_probe_last_dispatched_at = None, mi_probe_last_result_at = None \<rparr>"

definition idle_db :: monitor_db where
  "idle_db = \<lparr> mitems = [idle_monitor], mevents = [], mruns = [], mseries = [], mnext_event = 0, mclock = 0 \<rparr>"

theorem execution_events_deduplicated_witness:
  "no_repeat (events_of 7 (fold condition_step
     [Condition 7 EX_unavailable (Some ''offline'') 1, Clock 60, Condition 7 EX_unavailable (Some ''offline'') 2] idle_db))
   \<and> length (mevents (fold condition_step
     [Condition 7 EX_unavailable (Some ''offline'') 1, Clock 60, Condition 7 EX_unavailable (Some ''offline'') 2] idle_db)) = 1"
proof
  show "no_repeat (events_of 7 (fold condition_step
     [Condition 7 EX_unavailable (Some ''offline'') 1, Clock 60, Condition 7 EX_unavailable (Some ''offline'') 2] idle_db))"
    by (rule execution_events_deduplicated) (simp add: idle_db_def)
qed code_simp

subsection \<open>What one result touches\<close>

lemma apply_result_frame:
  "mruns (snd (apply_result i u m c db)) = mruns db" "mseries (snd (apply_result i u m c db)) = mseries db"
  "j \<noteq> i \<Longrightarrow> get_item j (snd (apply_result i u m c db)) = get_item j db"
  using apply_answer_frame [where a = "\<lparr>ca_item = i, ca_up = u, ca_msg = m, ca_checked_at = c\<rparr>" and db = db]
  by (simp_all add: apply_answer_def)

lemma upd_item_ids: "(\<And>m. mi_id (f m) = mi_id m) \<Longrightarrow> map mi_id (mitems (upd_item i f db)) = map mi_id (mitems db)"
  by (auto simp: upd_item_def tbl_upd_def)

lemma apply_answer_ids: "map mi_id (mitems (apply_answer a db)) = map mi_id (mitems db)"
  by (cases a db rule: apply_answer_cases) (simp_all add: upd_item_ids)

lemma apply_result_ids: "map mi_id (mitems (snd (apply_result i u m c db))) = map mi_id (mitems db)"
  using apply_answer_ids [of "\<lparr>ca_item = i, ca_up = u, ca_msg = m, ca_checked_at = c\<rparr>" db]
  by (simp add: apply_answer_def)

lemma record_execution_event_frame [simp]:
  "mitems (record_execution_event m reason db) = mitems db" "mruns (record_execution_event m reason db) = mruns db"
  "mseries (record_execution_event m reason db) = mseries db" "mclock (record_execution_event m reason db) = mclock db"
  "get_item i (record_execution_event m reason db) = get_item i db"
  by (simp_all add: record_execution_event_def get_item_def split: option.splits)

lemma condition_frame:
  "mruns (snd (record_execution_condition i st reason c db)) = mruns db"
  "mseries (snd (record_execution_condition i st reason c db)) = mseries db"
  "mclock (snd (record_execution_condition i st reason c db)) = mclock db"
  "map mi_id (mitems (snd (record_execution_condition i st reason c db))) = map mi_id (mitems db)"
  "j \<noteq> i \<Longrightarrow> get_item j (snd (record_execution_condition i st reason c db)) = get_item j db"
  by (simp_all add: record_execution_condition_def Let_def get_item_upd_other upd_item_ids row_simps split: option.splits)

text \<open>The run row a result leaves behind.\<close>

definition answered_run :: "monitor_result \<Rightarrow> probe_run \<Rightarrow> probe_run" where
  "answered_run r =
     (if completed r then completed_run r
      else failed_run r (case mr_execution_reason r of
              Some e \<Rightarrow> if e = [] then outcome_str (mr_outcome r) else e
            | None \<Rightarrow> outcome_str (mr_outcome r)))"

lemma answered_run_simps [row_simps]:
  "pr_run_id (answered_run r run) = pr_run_id run" "pr_monitor_id (answered_run r run) = pr_monitor_id run"
  "pr_agent_id (answered_run r run) = pr_agent_id run" "\<not> active_status (pr_status (answered_run r run))"
  by (auto simp: answered_run_def completed_run_def failed_run_def active_status_def)

lemma persist_one_db:
  "snd (snd (persist_one r (t, l, db))) =
     (if completed r
      then complete_run r (snd (apply_result (mr_item_id r) (mr_up r) (mr_msg r) (mr_checked_at r) db))
      else snd (apply_execution_error r db))"
  by (simp split: prod.splits option.splits)

lemma persist_one_runs:
  "mruns (snd (snd (persist_one r (t, l, db)))) =
     (case mr_run_id r of None \<Rightarrow> mruns db | Some q \<Rightarrow> tbl_upd pr_run_id q (answered_run r) (mruns db))"
proof (cases "completed r")
  case True
  then show ?thesis unfolding persist_one_db
    by (auto simp: complete_run_def answered_run_def apply_result_frame upd_run_def get_run_def tbl_upd_absent
        split: option.splits)
next
  case False
  then show ?thesis unfolding persist_one_db
    by (auto simp: apply_execution_error_def close_failed_run_def answered_run_def Let_def condition_frame upd_run_def
        get_run_def tbl_upd_absent split: option.splits)
qed

lemma persist_one_items:
  "j \<noteq> mr_item_id r \<Longrightarrow> get_item j (snd (snd (persist_one r (t, l, db)))) = get_item j db"
  "map mi_id (mitems (snd (snd (persist_one r (t, l, db))))) = map mi_id (mitems db)"
proof -
  have C: "get_item j (complete_run r d) = get_item j d" if "j \<noteq> mr_item_id r" for d
    using that by (simp add: complete_run_def get_item_upd_other row_simps split: option.splits)
  have D: "map mi_id (mitems (complete_run r d)) = map mi_id (mitems d)" for d
    by (simp add: complete_run_def upd_item_ids row_simps split: option.splits)
  have E: "mitems (close_failed_run r reason d) = mitems d" "get_item j (close_failed_run r reason d) = get_item j d" for reason d
    by (simp_all add: close_failed_run_def split: option.splits)
  have X: "get_item j (snd (apply_execution_error r db)) = get_item j db" if "j \<noteq> mr_item_id r"
    using that by (simp add: apply_execution_error_def Let_def condition_frame E)
  have Y: "map mi_id (mitems (snd (apply_execution_error r db))) = map mi_id (mitems db)"
    by (simp add: apply_execution_error_def Let_def condition_frame E)
  show "j \<noteq> mr_item_id r \<Longrightarrow> get_item j (snd (snd (persist_one r (t, l, db)))) = get_item j db"
    unfolding persist_one_db using C X apply_result_frame(3) [of j "mr_item_id r"] by simp
  show "map mi_id (mitems (snd (snd (persist_one r (t, l, db))))) = map mi_id (mitems db)"
    unfolding persist_one_db using D Y apply_result_ids by simp
qed

end
