(* ===== verification/Probe_Scheduler.thy ===== *)
theory Probe_Scheduler
  imports Result_Service "HOL-Library.Product_Lexorder"
begin

text \<open>
  \<open>services/monitoring/scheduler.py\<close>: the deadline a remote check gets, the claim of due
  monitors with its two limits, and the creation of a run. Doubles are exact rationals; the
  conversions \<open>float(s)\<close> and \<open>int(s)\<close> of a string are arguments, as are the
  random numbers of the SQL statements and the rows other schedulers hold locked.
\<close>

subsection \<open>The run deadline\<close>

record deadline_config =
  PROBE_DEADLINE_HEADROOM_S :: rat
  PROBE_DEADLINE_MIN_S :: rat
  PROBE_BUDGET_MAX_S :: rat

definition default_deadline_config :: deadline_config where
  "default_deadline_config =
     \<lparr> PROBE_DEADLINE_HEADROOM_S = 10, PROBE_DEADLINE_MIN_S = 20, PROBE_BUDGET_MAX_S = 600 \<rparr>"

definition TCP_ADDRESS_FANOUT :: rat where "TCP_ADDRESS_FANOUT = 2"

record str_conv =
  str_float :: "string \<Rightarrow> rat option"
  str_int :: "string \<Rightarrow> int option"

text \<open>\<open>float(v)\<close> and \<open>int(v)\<close> of a JSON value; None where they raise.\<close>

fun py_float :: "str_conv \<Rightarrow> json \<Rightarrow> rat option" where
  "py_float cv (JInt n) = Some (of_int n)"
| "py_float cv (JFloat x) = Some x"
| "py_float cv (JBool b) = Some (if b then 1 else 0)"
| "py_float cv (JStr s) = str_float cv s"
| "py_float cv _ = None"

fun py_int :: "str_conv \<Rightarrow> json \<Rightarrow> int option" where
  "py_int cv (JInt n) = Some n"
| "py_int cv (JFloat x) = Some (if 0 \<le> x then \<lfloor>x\<rfloor> else \<lceil>x\<rceil>)"
| "py_int cv (JBool b) = Some (if b then 1 else 0)"
| "py_int cv (JStr s) = str_int cv s"
| "py_int cv _ = None"

definition positive_float :: "str_conv \<Rightarrow> (string \<times> json) list \<Rightarrow> string \<Rightarrow> rat \<Rightarrow> rat" where
  "positive_float cv params key dflt =
     (case py_float cv (json_get params key (JFloat dflt)) of
        None \<Rightarrow> dflt
      | Some v \<Rightarrow> if v > 0 then v else dflt)"

definition positive_int :: "str_conv \<Rightarrow> (string \<times> json) list \<Rightarrow> string \<Rightarrow> int \<Rightarrow> int" where
  "positive_int cv params key dflt =
     (case py_int cv (json_get params key (JInt dflt)) of
        None \<Rightarrow> dflt
      | Some v \<Rightarrow> if v > 0 then v else dflt)"

text \<open>\<open>params.get("ports") or [params.get("port", 80)]\<close>, and how many dials it stands for.\<close>

definition tcp_attempts :: "(string \<times> json) list \<Rightarrow> nat" where
  "tcp_attempts params =
     (let raw = json_get params ''ports'' JNull;
          ports = (if json_truthy raw then raw else JList [json_get params ''port'' (JInt 80)])
      in case ports of JList l \<Rightarrow> if l \<noteq> [] then length l else 1 | _ \<Rightarrow> 1)"

definition check_budget_seconds :: "str_conv \<Rightarrow> string \<Rightarrow> (string \<times> json) list \<Rightarrow> rat" where
  "check_budget_seconds cv check_type params =
     (if check_type = ''icmp'' then
        of_int (positive_int cv params ''packet_count'' 5) * positive_float cv params ''timeout'' (3 / 2)
      else if check_type = ''tcp'' then
        of_nat (tcp_attempts params) * TCP_ADDRESS_FANOUT * positive_float cv params ''timeout'' 1
      else if check_type = ''http'' then 2 * positive_float cv params ''timeout'' 10
      else if check_type = ''dns'' then positive_float cv params ''timeout'' 5
      else 0)"

definition probe_deadline_seconds :: "deadline_config \<Rightarrow> str_conv \<Rightarrow> string \<Rightarrow> (string \<times> json) list \<Rightarrow> rat" where
  "probe_deadline_seconds cfg cv check_type params =
     (let budget = check_budget_seconds cv check_type params;
          budget' = (if budget > PROBE_BUDGET_MAX_S cfg then PROBE_BUDGET_MAX_S cfg else budget)
      in max (budget' + PROBE_DEADLINE_HEADROOM_S cfg) (PROBE_DEADLINE_MIN_S cfg))"

lemma positive_float_pos: "0 < d \<Longrightarrow> 0 < positive_float cv p k d"
  by (auto simp: positive_float_def split: option.splits)

lemma positive_int_pos: "0 < d \<Longrightarrow> 0 < positive_int cv p k d"
  by (auto simp: positive_int_def split: option.splits)

lemma check_budget_nonneg: "0 \<le> check_budget_seconds cv t p"
  using positive_float_pos [of "3/2" cv p "''timeout''"] positive_float_pos [of 1 cv p "''timeout''"]
    positive_float_pos [of 10 cv p "''timeout''"] positive_float_pos [of 5 cv p "''timeout''"]
    positive_int_pos [of 5 cv p "''packet_count''"]
  by (auto simp: check_budget_seconds_def TCP_ADDRESS_FANOUT_def less_imp_le intro!: mult_nonneg_nonneg)

text \<open>
  The deadline is derived from the check's own budget: whatever the free-form parameters
  hold, an agent gets the full budget of the check plus the headroom unless the budget exceeds
  the configured maximum (then the maximum plus the headroom), never less than the floor, and
  never more than the larger of the floor and the maximum plus the headroom.
\<close>

theorem deadline_covers_budget:
  "min (check_budget_seconds cv check_type params) (PROBE_BUDGET_MAX_S cfg) + PROBE_DEADLINE_HEADROOM_S cfg
     \<le> probe_deadline_seconds cfg cv check_type params
   \<and> PROBE_DEADLINE_MIN_S cfg \<le> probe_deadline_seconds cfg cv check_type params
   \<and> probe_deadline_seconds cfg cv check_type params
       \<le> max (PROBE_BUDGET_MAX_S cfg + PROBE_DEADLINE_HEADROOM_S cfg) (PROBE_DEADLINE_MIN_S cfg)
   \<and> 0 \<le> check_budget_seconds cv check_type params"
  by (auto simp: probe_deadline_seconds_def Let_def check_budget_nonneg max_def)

subsection \<open>The claim\<close>

text \<open>PostgreSQL's \<open>make_interval(secs => x)\<close>, in microseconds, rounding half to even.\<close>

definition interval_us :: "rat \<Rightarrow> int" where
  "interval_us x =
     (let y = x * 1000000; q = \<lfloor>y\<rfloor>; r = y - of_int q
      in if r < 1/2 \<or> (r = 1/2 \<and> even q) then q else q + 1)"

definition vantage :: "monitor_item \<Rightarrow> int" where
  "vantage m = (case mi_probe_agent_id m of Some a \<Rightarrow> a | None \<Rightarrow> 0)"

definition locked_rows :: "int list \<Rightarrow> nat \<Rightarrow> monitor_db \<Rightarrow> monitor_item list" where
  "locked_rows held oversample db =
     take oversample (sort_key mi_next_due_at
       (filter (\<lambda>m. mi_enabled m \<and> mi_next_due_at m \<le> mclock db \<and> mi_id m \<notin> set held) (mitems db)))"

text \<open>\<open>row_number() OVER (PARTITION BY coalesce(probe_agent_id, 0) ORDER BY next_due_at)\<close>.\<close>

fun rank_rows :: "(int \<Rightarrow> nat) \<Rightarrow> monitor_item list \<Rightarrow> (nat \<times> monitor_item) list" where
  "rank_rows seen [] = []"
| "rank_rows seen (m # ms) =
     (let rn = seen (vantage m) + 1 in (rn, m) # rank_rows (seen(vantage m := rn)) ms)"

definition claim_selection :: "nat \<Rightarrow> nat \<Rightarrow> monitor_item list \<Rightarrow> (nat \<times> monitor_item) list" where
  "claim_selection batch per_vantage locked =
     take batch (sort_key (\<lambda>(rn, m). (rn, mi_next_due_at m))
       (filter (\<lambda>(rn, m). rn \<le> per_vantage) (rank_rows (\<lambda>_. 0) locked)))"

definition advance :: "instant \<Rightarrow> (int \<Rightarrow> rat) \<Rightarrow> monitor_item \<Rightarrow> monitor_item" where
  "advance now rnd m =
     m\<lparr>mi_next_due_at := now + seconds (mi_interval_secs m)
          + interval_us (rnd (mi_id m) * of_int (min (mi_interval_secs m) 5))\<rparr>"

definition claim_due_items ::
  "nat \<Rightarrow> nat \<Rightarrow> nat \<Rightarrow> int list \<Rightarrow> (int \<Rightarrow> rat) \<Rightarrow> monitor_db \<Rightarrow> monitor_item list \<times> monitor_db" where
  "claim_due_items batch per_vantage oversample held rnd db =
     (let ids = map (\<lambda>(rn, m). mi_id m) (claim_selection batch per_vantage (locked_rows held oversample db));
          db' = db\<lparr>mitems := map (\<lambda>m. if mi_id m \<in> set ids then advance (mclock db) rnd m else m) (mitems db)\<rparr>
      in (filter (\<lambda>m. mi_id m \<in> set ids) (mitems db'), db'))"

subsection \<open>Opening a run\<close>

definition new_run :: "string \<Rightarrow> int \<Rightarrow> int \<Rightarrow> rat \<Rightarrow> instant \<Rightarrow> probe_run" where
  "new_run run_id monitor_id agent_id deadline_s now =
     \<lparr> pr_run_id = run_id, pr_monitor_id = monitor_id, pr_agent_id = agent_id, pr_status = RS_queued,
       pr_scheduled_at = now, pr_dispatched_at = None, pr_deadline_at = Some (now + interval_us deadline_s),
       pr_started_at = None, pr_completed_at = None, pr_outcome = None, pr_msg = None, pr_error_code = None,
       pr_result_metadata = None, pr_attempt_count = 0, pr_created_at = now \<rparr>"

text \<open>
  \<open>INSERT INTO monitor_probe_runs\<close>: None is the IntegrityError of the unique run id, of the
  partial unique index on active runs, or of the foreign key on the monitor.
\<close>

definition insert_run :: "probe_run \<Rightarrow> monitor_db \<Rightarrow> monitor_db option" where
  "insert_run run db =
     (if get_run (pr_run_id run) db \<noteq> None \<or> active_runs (pr_monitor_id run) db \<noteq> []
         \<or> get_item (pr_monitor_id run) db = None
      then None else Some (db\<lparr>mruns := mruns db @ [run]\<rparr>))"

definition mark_in_flight :: "int \<Rightarrow> monitor_db \<Rightarrow> monitor_db" where
  "mark_in_flight monitor_id =
     upd_item monitor_id (set_execution (Some EX_running) (Some ''previous_run_in_flight''))"

definition open_run :: "deadline_config \<Rightarrow> str_conv \<Rightarrow> string \<Rightarrow> monitor_item \<Rightarrow> monitor_db \<Rightarrow> string option \<times> monitor_db" where
  "open_run cfg cv run_id item db =
     (case insert_run (new_run run_id (mi_id item) (case mi_probe_agent_id item of Some a \<Rightarrow> a | None \<Rightarrow> 0)
             (probe_deadline_seconds cfg cv (mi_check_type item) (mi_params item)) (mclock db)) db of
        None \<Rightarrow> (None, mark_in_flight (mi_id item) db)
      | Some db' \<Rightarrow> (Some run_id, upd_item (mi_id item) (set_execution (Some EX_queued) None) db'))"

definition create_probe_run ::
  "deadline_config \<Rightarrow> str_conv \<Rightarrow> string \<Rightarrow> monitor_item \<Rightarrow> monitor_db \<Rightarrow> string option \<times> monitor_db" where
  "create_probe_run cfg cv run_id item db =
     (if active_runs (mi_id item) db \<noteq> [] then (None, mark_in_flight (mi_id item) db)
      else open_run cfg cv run_id item db)"

definition dispatch_failed_item :: "instant \<Rightarrow> (int \<Rightarrow> rat) \<Rightarrow> monitor_item \<Rightarrow> monitor_item" where
  "dispatch_failed_item now rnd m =
     m\<lparr>mi_next_due_at := now + interval_us (rnd (mi_id m) * of_int (min (mi_interval_secs m) 5)),
       mi_exec_status := Some EX_unavailable, mi_exec_reason := Some ''dispatch_failed''\<rparr>"

definition record_dispatch_failure :: "(int \<Rightarrow> rat) \<Rightarrow> monitor_item \<Rightarrow> string \<Rightarrow> monitor_db \<Rightarrow> monitor_db" where
  "record_dispatch_failure rnd item run_id db =
     upd_item (mi_id item) (dispatch_failed_item (mclock db) rnd)
       (upd_run run_id (\<lambda>r. r\<lparr>pr_status := RS_execution_error, pr_error_code := Some ''dispatch_failed'',
                                 pr_completed_at := Some (mclock db)\<rparr>) db)"

datatype queue_message = MONITOR_POLL_ITEM monitor_item | MONITOR_PROBE_REMOTE string

text \<open>
  One claimed item: \<open>publish\<close> says whether the broker took the message, \<open>run_id\<close> is
  the fresh token of this item.
\<close>

definition enqueue_item ::
  "deadline_config \<Rightarrow> str_conv \<Rightarrow> (queue_message \<Rightarrow> bool) \<Rightarrow> (int \<Rightarrow> rat) \<Rightarrow> (int \<Rightarrow> string)
   \<Rightarrow> monitor_item \<Rightarrow> nat \<times> monitor_db \<Rightarrow> nat \<times> monitor_db" where
  "enqueue_item cfg cv publish rnd token item acc =
     (case acc of (enqueued, db) \<Rightarrow>
       if mi_probe_agent_id item = None then
         (if publish (MONITOR_POLL_ITEM item) then enqueued + 1 else enqueued, db)
       else case create_probe_run cfg cv (token (mi_id item)) item db of
              (None, db') \<Rightarrow> (enqueued, db')
            | (Some run_id, db') \<Rightarrow>
                if publish (MONITOR_PROBE_REMOTE run_id) then (enqueued + 1, db')
                else (enqueued, record_dispatch_failure rnd item run_id db'))"

definition enqueue_due ::
  "deadline_config \<Rightarrow> str_conv \<Rightarrow> (queue_message \<Rightarrow> bool) \<Rightarrow> (int \<Rightarrow> rat) \<Rightarrow> (int \<Rightarrow> string)
   \<Rightarrow> nat \<Rightarrow> nat \<Rightarrow> nat \<Rightarrow> int list \<Rightarrow> monitor_db \<Rightarrow> nat \<times> monitor_db" where
  "enqueue_due cfg cv publish rnd token batch per_vantage oversample held db =
     (case claim_due_items batch per_vantage oversample held rnd db of
        (items, db') \<Rightarrow> fold (enqueue_item cfg cv publish rnd token) items (0, db'))"

subsection \<open>Ranks\<close>

lemma map_snd_rank_rows [simp]: "map snd (rank_rows seen ms) = ms"
  by (induction ms arbitrary: seen) (auto simp: Let_def)

lemma rank_above_seen: "(rn, m) \<in> set (rank_rows seen ms) \<Longrightarrow> seen (vantage m) < rn"
  by (induction ms arbitrary: seen) (fastforce simp: Let_def split: if_splits)+

text \<open>At most \<open>p\<close> rows of a vantage have a rank of at most \<open>p\<close>.\<close>

lemma rank_count:
  "length (filter (\<lambda>(rn, m). vantage m = v \<and> rn \<le> p) (rank_rows seen ms)) \<le> p - seen v"
proof (induction ms arbitrary: seen)
  case (Cons m ms)
  define s' where "s' = seen(vantage m := seen (vantage m) + 1)"
  have s': "s' (vantage m) = seen (vantage m) + 1" "v \<noteq> vantage m \<Longrightarrow> s' v = seen v"
    by (simp_all add: s'_def)
  from Cons.IH [of s'] s' show ?case
    unfolding rank_rows.simps Let_def s'_def [symmetric] by (cases "v = vantage m") auto
qed simp

lemma first_rank:
  "(rn, m) \<in> set (rank_rows seen ms) \<Longrightarrow> rn \<le> seen (vantage m) + 1
   \<Longrightarrow> find (\<lambda>x. vantage x = vantage m) ms = Some m"
proof (induction ms arbitrary: seen)
  case (Cons x ms)
  define s' where "s' = seen(vantage x := seen (vantage x) + 1)"
  have s': "s' (vantage x) = seen (vantage x) + 1" "vantage x \<noteq> vantage m \<Longrightarrow> s' (vantage m) = seen (vantage m)"
    by (simp_all add: s'_def)
  from Cons.prems(1) have "(rn, m) = (seen (vantage x) + 1, x) \<or> (rn, m) \<in> set (rank_rows s' ms)"
    by (simp add: Let_def s'_def)
  then show ?case
  proof
    assume rest: "(rn, m) \<in> set (rank_rows s' ms)"
    with rank_above_seen [OF this] Cons.prems(2) s'(1) have neq: "vantage x \<noteq> vantage m" by auto
    with Cons.IH [OF rest] Cons.prems(2) s'(2) show ?thesis by simp
  qed simp
qed simp

lemma first_ranks_vantages:
  fixes seen ms
  defines "F \<equiv> filter (\<lambda>(rn, m). rn \<le> 1) (rank_rows seen ms)"
  shows "distinct (map (vantage \<circ> snd) F) \<and> (vantage \<circ> snd) ` set F = {v \<in> vantage ` set ms. seen v = 0}"
  unfolding F_def
proof (induction ms arbitrary: seen)
  case (Cons m ms)
  define s' where "s' = seen(vantage m := seen (vantage m) + 1)"
  have s': "\<And>v. s' v = 0 \<longleftrightarrow> seen v = 0 \<and> v \<noteq> vantage m"
    by (simp add: s'_def)
  have "{v \<in> vantage ` set (m # ms). seen v = 0}
      = (if seen (vantage m) = 0 then {vantage m} else {}) \<union> {v \<in> vantage ` set ms. s' v = 0}"
    by (auto simp: s')
  with Cons.IH [of s'] s' [of "vantage m"] show ?case
    unfolding rank_rows.simps Let_def s'_def [symmetric] by auto
qed simp

subsection \<open>What a claim takes\<close>

lemma advance_simps [row_simps]:
  "mi_id (advance now rnd m) = mi_id m" "vantage (advance now rnd m) = vantage m"
  "mi_enabled (advance now rnd m) = mi_enabled m"
  by (simp_all add: advance_def vantage_def)

definition picked :: "nat \<Rightarrow> nat \<Rightarrow> nat \<Rightarrow> int list \<Rightarrow> monitor_db \<Rightarrow> monitor_item list" where
  "picked batch pv os held db =
     filter (\<lambda>m. mi_id m \<in> (mi_id \<circ> snd) ` set (claim_selection batch pv (locked_rows held os db))) (mitems db)"

lemma claim_picked:
  "fst (claim_due_items batch pv os held rnd db) = map (advance (mclock db) rnd) (picked batch pv os held db)"
proof -
  have "filter (\<lambda>m. mi_id m \<in> S) (map (\<lambda>m. if mi_id m \<in> S then advance t rnd m else m) ms)
      = map (advance t rnd) (filter (\<lambda>m. mi_id m \<in> S) ms)" for S t ms
    by (induction ms) (auto simp: row_simps)
  then show ?thesis
    by (simp add: claim_due_items_def picked_def Let_def comp_def case_prod_unfold)
qed

lemma selection_locked: "(rn, m) \<in> set (claim_selection batch pv ms) \<Longrightarrow> m \<in> set ms"
proof -
  assume "(rn, m) \<in> set (claim_selection batch pv ms)"
  then have "(rn, m) \<in> set (rank_rows (\<lambda>_. 0) ms)"
    by (auto simp: claim_selection_def dest!: in_set_takeD)
  then have "snd (rn, m) \<in> set (map snd (rank_rows (\<lambda>_. 0) ms))"
    unfolding set_map by (rule imageI)
  then show ?thesis by simp
qed

lemma locked_sub:
  "m \<in> set (locked_rows held os db) \<Longrightarrow>
     m \<in> set (mitems db) \<and> mi_enabled m \<and> mi_next_due_at m \<le> mclock db \<and> mi_id m \<notin> set held"
  by (auto simp: locked_rows_def dest!: in_set_takeD)

lemma set_picked:
  assumes "keys_distinct mi_id (mitems db)"
  shows "set (picked batch pv os held db) = snd ` set (claim_selection batch pv (locked_rows held os db))"
proof (intro set_eqI iffI)
  fix m assume "m \<in> set (picked batch pv os held db)"
  then obtain rn m' where m': "(rn, m') \<in> set (claim_selection batch pv (locked_rows held os db))"
    "mi_id m = mi_id m'" "m \<in> set (mitems db)" by (auto simp: picked_def)
  then have "m' \<in> set (mitems db)" using selection_locked locked_sub by blast
  with m' assms have "m = m'" by (metis keys_distinct_def distinct_map inj_onD)
  with m' show "m \<in> snd ` set (claim_selection batch pv (locked_rows held os db))" by force
next
  fix m assume "m \<in> snd ` set (claim_selection batch pv (locked_rows held os db))"
  then obtain rn where "(rn, m) \<in> set (claim_selection batch pv (locked_rows held os db))" by auto
  then show "m \<in> set (picked batch pv os held db)"
    using selection_locked locked_sub by (force simp: picked_def)
qed

lemma length_filter_picked:
  assumes "keys_distinct mi_id (mitems db)"
  shows "length (filter P (picked batch pv os held db))
       \<le> length (filter (P \<circ> snd) (claim_selection batch pv (locked_rows held os db)))"
proof -
  let ?sel = "claim_selection batch pv (locked_rows held os db)"
  have "distinct (mitems db)" using assms by (simp add: keys_distinct_def distinct_map)
  then have "distinct (filter P (picked batch pv os held db))" by (simp add: picked_def)
  then have "length (filter P (picked batch pv os held db)) = card (set (filter P (picked batch pv os held db)))"
    by (rule distinct_card [symmetric])
  also have "\<dots> = card (set (map snd (filter (P \<circ> snd) ?sel)))"
    by (rule arg_cong [where f = card]) (auto simp: set_picked [OF assms])
  also have "\<dots> \<le> length (filter (P \<circ> snd) ?sel)" by (metis card_length length_map)
  finally show ?thesis .
qed

lemma selection_per_vantage:
  "length (filter ((\<lambda>m. vantage m = v) \<circ> snd) (claim_selection batch pv ms)) \<le> pv"
proof -
  let ?R = "rank_rows (\<lambda>_. 0) ms"
  have "length (filter ((\<lambda>m. vantage m = v) \<circ> snd) (claim_selection batch pv ms))
      \<le> length (filter ((\<lambda>m. vantage m = v) \<circ> snd) (sort_key (\<lambda>(rn, m). (rn, mi_next_due_at m))
            (filter (\<lambda>(rn, m). rn \<le> pv) ?R)))"
    unfolding claim_selection_def by (rule length_filter_take)
  also have "\<dots> = length (filter (\<lambda>(rn, m). vantage m = v \<and> rn \<le> pv) ?R)"
    by (simp add: filter_sort comp_def case_prod_unfold conj_commute)
  also have "\<dots> \<le> pv" using rank_count [of v pv "\<lambda>_. 0" ms] by simp
  finally show ?thesis .
qed

lemma length_claimed:
  assumes "keys_distinct mi_id (mitems db)"
  shows "length (fst (claim_due_items batch pv os held rnd db)) \<le> batch"
proof -
  have "length (fst (claim_due_items batch pv os held rnd db))
      \<le> length (claim_selection batch pv (locked_rows held os db))"
    using length_filter_picked [OF assms, of "\<lambda>_. True"] by (simp add: claim_picked comp_def)
  also have "\<dots> \<le> batch" by (simp add: claim_selection_def)
  finally show ?thesis .
qed

lemma vantage_claimed:
  assumes "keys_distinct mi_id (mitems db)"
  shows "length (filter (\<lambda>m. vantage m = v) (fst (claim_due_items batch pv os held rnd db))) \<le> pv"
proof -
  have "length (filter (\<lambda>m. vantage m = v) (fst (claim_due_items batch pv os held rnd db)))
      = length (filter (\<lambda>m. vantage m = v) (picked batch pv os held db))"
    unfolding claim_picked by (simp add: filter_map comp_def row_simps)
  also have "\<dots> \<le> pv"
    using length_filter_picked [OF assms] selection_per_vantage by (rule order_trans)
  finally show ?thesis .
qed

definition claimable :: "int list \<Rightarrow> monitor_db \<Rightarrow> int \<Rightarrow> bool" where
  "claimable held db i \<longleftrightarrow>
     (\<exists>m. get_item i db = Some m \<and> mi_enabled m \<and> mi_next_due_at m \<le> mclock db \<and> i \<notin> set held)"

lemma claimed_claimable:
  assumes "keys_distinct mi_id (mitems db)" "m' \<in> set (fst (claim_due_items batch pv os held rnd db))"
  obtains m where "m' = advance (mclock db) rnd m" "get_item (mi_id m) db = Some m" "claimable held db (mi_id m)"
proof -
  from assms(2) obtain m where m: "m \<in> set (picked batch pv os held db)" "m' = advance (mclock db) rnd m"
    unfolding claim_picked by auto
  then obtain rn where "(rn, m) \<in> set (claim_selection batch pv (locked_rows held os db))"
    using set_picked [OF assms(1)] by auto
  then have "m \<in> set (mitems db) \<and> mi_enabled m \<and> mi_next_due_at m \<le> mclock db \<and> mi_id m \<notin> set held"
    by (intro locked_sub selection_locked)
  moreover from this have "get_item (mi_id m) db = Some m"
    using assms(1) by (simp add: get_item_def tbl_get_in)
  ultimately show thesis using m that by (auto simp: claimable_def)
qed

text \<open>
  A claim respects both limits: it returns at most \<open>batch\<close> monitors, at most
  \<open>per_vantage\<close> of them for the server and for each agent, and only monitors that are enabled,
  due and not held by another scheduler.
\<close>

theorem claim_within_limits:
  assumes "keys_distinct mi_id (mitems db)"
  shows "length (fst (claim_due_items batch per_vantage oversample held rnd db)) \<le> batch
       \<and> length (filter (\<lambda>m. vantage m = v) (fst (claim_due_items batch per_vantage oversample held rnd db)))
           \<le> per_vantage
       \<and> list_all (\<lambda>m. claimable held db (mi_id m)) (fst (claim_due_items batch per_vantage oversample held rnd db))"
  using assms
  by (auto simp: length_claimed vantage_claimed list_all_iff row_simps elim: claimed_claimable)

text \<open>
  No vantage is starved by another one's backlog: if the locked rows belong to no more
  vantages than the batch has places, every vantage with a locked row has its most overdue
  monitor claimed, however many monitors the others have waiting.
\<close>

theorem claim_is_fair:
  assumes "keys_distinct mi_id (mitems db)"
    and "1 \<le> per_vantage"
    and "card (vantage ` set (locked_rows held oversample db)) \<le> batch"
    and "v \<in> vantage ` set (locked_rows held oversample db)"
  shows "\<exists>m \<in> set (locked_rows held oversample db).
           vantage m = v
         \<and> {x \<in> set (locked_rows held oversample db). vantage x = v \<and> mi_next_due_at x < mi_next_due_at m} = {}
         \<and> mi_id m \<in> mi_id ` set (fst (claim_due_items batch per_vantage oversample held rnd db))"
proof -
  define ms where "ms = locked_rows held oversample db"
  define R where "R = rank_rows (\<lambda>_. 0) ms"
  define F where "F = filter (\<lambda>(rn, m). rn \<le> 1) R"
  define key :: "nat \<times> monitor_item \<Rightarrow> nat \<times> instant" where "key = (\<lambda>(rn, m). (rn, mi_next_due_at m))"
  define xs where "xs = sort_key key (filter (\<lambda>(rn, m). rn \<le> per_vantage) R)"
  have firsts: "distinct (map (vantage \<circ> snd) F)" "(vantage \<circ> snd) ` set F = vantage ` set ms"
    using first_ranks_vantages [of "\<lambda>_. 0" ms] by (auto simp: F_def R_def)
  have "length F \<le> batch"
    using firsts assms(3) by (metis distinct_card length_map list.set_map ms_def)
  moreover have "length (filter (\<lambda>(rn, m). rn \<le> 1) xs) = length F"
    using assms(2) by (auto simp: xs_def F_def filter_sort intro!: arg_cong [where f = length] filter_cong)
  ultimately have few: "length (filter (\<lambda>(rn, m). rn \<le> 1) xs) \<le> batch" by simp
  from assms(4) firsts(2) obtain rn m where m: "(rn, m) \<in> set F" "vantage m = v"
    unfolding ms_def by (force simp: image_iff)
  have "(rn, m) \<in> set (take batch xs)"
  proof (rule sorted_take_initial [OF _ _ few])
    show "sorted (map key xs)" by (simp add: xs_def)
    show "(rn, m) \<in> set xs" "case (rn, m) of (rn, m) \<Rightarrow> rn \<le> 1"
      using m assms(2) by (auto simp: F_def xs_def)
  qed (auto simp: key_def)
  then have sel: "(rn, m) \<in> set (claim_selection batch per_vantage ms)"
    by (simp add: claim_selection_def xs_def R_def key_def)
  have "find (\<lambda>x. vantage x = vantage m) ms = Some m"
    using m by (intro first_rank [of rn m "\<lambda>_. 0"]) (auto simp: F_def R_def)
  moreover have "sorted (map mi_next_due_at ms)"
    by (simp add: ms_def locked_rows_def take_map [symmetric] sorted_wrt_take)
  ultimately have least: "mi_next_due_at m \<le> mi_next_due_at x" if "x \<in> set ms" "vantage x = v" for x
    using that m(2) by (intro find_sorted_min [of mi_next_due_at ms "\<lambda>x. vantage x = vantage m"]) auto
  have "m \<in> set (picked batch per_vantage oversample held db)"
    using sel set_picked [OF assms(1)] unfolding ms_def by force
  then have "mi_id m \<in> mi_id ` set (fst (claim_due_items batch per_vantage oversample held rnd db))"
    unfolding claim_picked by (simp add: image_image row_simps)
  moreover have "m \<in> set ms" using sel by (rule selection_locked)
  ultimately show ?thesis
    using m(2) least unfolding ms_def by (intro bexI [of _ m]) (auto simp: not_less)
qed

lemma interval_us_nonneg: "0 \<le> x \<Longrightarrow> 0 \<le> interval_us x"
  by (auto simp: interval_us_def Let_def)

lemma claim_keys:
  "keys_distinct mi_id (mitems (snd (claim_due_items batch pv os held rnd db))) \<longleftrightarrow> keys_distinct mi_id (mitems db)"
proof -
  have "map mi_id (map (\<lambda>m. if mi_id m \<in> S then advance t rnd m else m) ms) = map mi_id ms" for S t ms
    by (induction ms) (auto simp: row_simps)
  then show ?thesis unfolding claim_due_items_def Let_def keys_distinct_def by (simp del: map_map)
qed

lemma claimed_in_items:
  "set (fst (claim_due_items batch pv os held rnd db)) \<subseteq> set (mitems (snd (claim_due_items batch pv os held rnd db)))"
  by (auto simp: claim_due_items_def Let_def)

text \<open>
  A claimed monitor cannot be claimed again before its interval has passed: whatever limits,
  locks and random numbers a later claim by this or another scheduler uses, at any instant before
  the claim's own instant plus the monitor's interval, the monitor is not among its results.
\<close>

theorem claim_excludes_reclaim:
  assumes "keys_distinct mi_id (mitems db)"
    and "m \<in> set (fst (claim_due_items batch per_vantage oversample held rnd db))"
    and "0 \<le> rnd (mi_id m)" "0 \<le> mi_interval_secs m"
    and "t < mclock db + seconds (mi_interval_secs m)"
  shows "mi_id m \<notin> mi_id ` set (fst (claim_due_items batch' per_vantage' oversample' held' rnd'
           ((snd (claim_due_items batch per_vantage oversample held rnd db))\<lparr>mclock := t\<rparr>)))"
proof
  define db2 where "db2 = (snd (claim_due_items batch per_vantage oversample held rnd db))\<lparr>mclock := t\<rparr>"
  have keys: "keys_distinct mi_id (mitems db2)" using assms(1) claim_keys by (simp add: db2_def)
  have item: "get_item (mi_id m) db2 = Some m"
    using keys subsetD [OF claimed_in_items assms(2)] by (simp add: get_item_def db2_def tbl_get_in)
  assume "mi_id m \<in> mi_id ` set (fst (claim_due_items batch' per_vantage' oversample' held' rnd'
           ((snd (claim_due_items batch per_vantage oversample held rnd db))\<lparr>mclock := t\<rparr>)))"
  then obtain m' where m': "m' \<in> set (fst (claim_due_items batch' per_vantage' oversample' held' rnd' db2))"
    "mi_id m = mi_id m'" unfolding db2_def by (rule imageE)
  from keys m'(1) obtain m1 where "m' = advance (mclock db2) rnd' m1" "claimable held' db2 (mi_id m1)"
    by (rule claimed_claimable)
  with m'(2) item have "mi_next_due_at m \<le> mclock db2" by (simp add: claimable_def row_simps)
  then have "mi_next_due_at m \<le> t" by (simp add: db2_def)
  moreover obtain m0 where "m = advance (mclock db) rnd m0"
    using assms(1,2) by (rule claimed_claimable)
  then have "mclock db + seconds (mi_interval_secs m) \<le> mi_next_due_at m"
    using assms(3,4) by (simp add: advance_def interval_us_nonneg)
  ultimately show False using assms(5) by simp
qed

subsection \<open>Witnesses\<close>

text \<open>One server monitor and an agent with two due monitors.\<close>

definition claim_db :: monitor_db where
  "claim_db = \<lparr> mitems = [idle_monitor, idle_monitor\<lparr>mi_id := 8, mi_next_due_at := 5\<rparr>,
                          idle_monitor\<lparr>mi_id := 9, mi_probe_agent_id := None, mi_next_due_at := 9\<rparr>],
               mevents = [], mruns = [], mseries = [], mnext_event = 0, mclock = 10 \<rparr>"

lemma claim_db_keys: "keys_distinct mi_id (mitems claim_db)"
  by code_simp

theorem claim_within_limits_witness:
  "length (fst (claim_due_items 2 1 10 [] (\<lambda>_. 0) claim_db)) = 2
   \<and> length (fst (claim_due_items 2 1 10 [] (\<lambda>_. 0) claim_db)) \<le> 2
   \<and> length (filter (\<lambda>m. vantage m = 3) (fst (claim_due_items 2 1 10 [] (\<lambda>_. 0) claim_db))) \<le> 1"
proof (intro conjI)
  show "length (fst (claim_due_items 2 1 10 [] (\<lambda>_. 0) claim_db)) = 2" by code_simp
qed (use claim_within_limits [OF claim_db_keys] in blast)+

theorem claim_is_fair_witness:
  "\<exists>m \<in> set (locked_rows [] 10 claim_db). vantage m = 0
     \<and> mi_id m \<in> mi_id ` set (fst (claim_due_items 2 1 10 [] (\<lambda>_. 0) claim_db))"
proof -
  have "card (vantage ` set (locked_rows [] 10 claim_db)) \<le> 2"
    "0 \<in> vantage ` set (locked_rows [] 10 claim_db)" by code_simp+
  from claim_is_fair [OF claim_db_keys _ this, of 1 "\<lambda>_. 0"] show ?thesis by auto
qed

theorem claim_excludes_reclaim_witness:
  "7 \<notin> mi_id ` set (fst (claim_due_items 200 50 1000 [] (\<lambda>_. 0)
     ((snd (claim_due_items 2 1 10 [] (\<lambda>_. 0) claim_db))\<lparr>mclock := 60000000\<rparr>)))"
proof -
  have m: "advance 10 (\<lambda>_. 0) idle_monitor \<in> set (fst (claim_due_items 2 1 10 [] (\<lambda>_. 0) claim_db))"
    by code_simp
  have "mi_id (advance 10 (\<lambda>_. 0) idle_monitor) = 7" "mi_interval_secs (advance 10 (\<lambda>_. 0) idle_monitor) = 60"
    "mclock claim_db = 10" by code_simp+
  with claim_excludes_reclaim [OF claim_db_keys m, of 60000000] show ?thesis
    by (simp add: seconds_def)
qed

end
