(* ===== verification/Text_Redaction.thy ===== *)
theory Text_Redaction
  imports Prelude
begin

text \<open>
  Substring search and replacement as Python's \<open>in\<close> and \<open>str.replace\<close>, and the contract
  of a redaction marker: a text of the form \<open>[word]\<close>. Replacing a secret by such a marker
  removes every occurrence of it and creates none of any other secret that has neither
  delimiter and is no part of the word.
\<close>

subsection \<open>Search and replacement\<close>

text \<open>\<open>p in t\<close>, \<open>t.replace(s, r)\<close> for a non-empty \<open>s\<close>, and \<open>t.split()\<close>.\<close>

fun occurs :: "string \<Rightarrow> string \<Rightarrow> bool" where
  "occurs p [] = (p = [])"
| "occurs p (c # cs) = (prefix p (c # cs) \<or> occurs p cs)"

function py_replace :: "string \<Rightarrow> string \<Rightarrow> string \<Rightarrow> string" where
  "py_replace s r t =
     (if s = [] then t
      else case t of
             [] \<Rightarrow> []
           | c # cs \<Rightarrow> if prefix s t then r @ py_replace s r (drop (length s) t) else c # py_replace s r cs)"
  by pat_completeness auto
termination
  by (relation "measure (\<lambda>(s, r, t). length t)") auto

declare py_replace.simps [simp del]

lemma occurs_append: "occurs s (a @ b) \<longleftrightarrow> occurs s a \<or> occurs s b \<or> (\<exists>u v. s = u @ v \<and> u \<noteq> [] \<and> v \<noteq> [] \<and> suffix u a \<and> prefix v b)"
  if "s \<noteq> []"
proof -
  have "occurs s t \<longleftrightarrow> sublist s t" for t
    by (induction t) (auto simp: sublist_Cons_right)
  then show ?thesis using that
    by (auto simp: sublist_append) (metis append_Nil append_Nil2 prefix_imp_sublist suffix_imp_sublist)+
qed

lemma occurs_sep:
  assumes "s \<noteq> []" "c \<notin> set s"
  shows "occurs s (a @ c # b) \<longleftrightarrow> occurs s a \<or> occurs s b"
proof -
  have "\<not> prefix v (c # b)" if "s = u @ v" "v \<noteq> []" for u v
    using that assms by (cases v) auto
  then have "occurs s (a @ c # b) \<longleftrightarrow> occurs s a \<or> occurs s (c # b)"
    using occurs_append [OF assms(1), of a "c # b"] by blast
  moreover have "\<not> prefix s (c # b)" using assms by (cases s) auto
  ultimately show ?thesis by simp
qed

lemma py_replace_unfold:
  "py_replace s r [] = []" "s = [] \<Longrightarrow> py_replace s r t = t"
  "s \<noteq> [] \<Longrightarrow> prefix s (c # cs) \<Longrightarrow> py_replace s r (c # cs) = r @ py_replace s r (drop (length s) (c # cs))"
  "s \<noteq> [] \<Longrightarrow> \<not> prefix s (c # cs) \<Longrightarrow> py_replace s r (c # cs) = c # py_replace s r cs"
  by (simp_all add: py_replace.simps [of s r] py_replace.simps [of "[]" r] py_replace.simps [of s r "[]"])

text \<open>An induction that follows the replacement: a match, or a character copied.\<close>

lemma replace_induct [case_names Nil Match Copy]:
  assumes "P []"
    and "\<And>c cs. prefix s (c # cs) \<Longrightarrow> P (drop (length s) (c # cs)) \<Longrightarrow> P (c # cs)"
    and "\<And>c cs. \<not> prefix s (c # cs) \<Longrightarrow> P cs \<Longrightarrow> P (c # cs)"
    and "s \<noteq> []"
  shows "P t"
proof (induction t rule: length_induct)
  case (1 t)
  show ?case
  proof (cases t)
    case (Cons c cs)
    have "P (drop (length s) (c # cs))" "P cs" using 1 Cons assms(4) by auto
    with assms(2,3) Cons show ?thesis by blast
  qed (use assms(1) in simp)
qed

subsection \<open>Markers\<close>

locale marker =
  fixes lb :: char and w :: string and rb :: char
begin

definition mark :: string where
  "mark = lb # w @ [rb]"

definition proper :: "string \<Rightarrow> bool" where
  "proper s \<longleftrightarrow> s \<noteq> [] \<and> lb \<notin> set s \<and> rb \<notin> set s \<and> \<not> occurs s w"

lemma properD:
  assumes "proper s"
  shows "s \<noteq> []" "lb \<notin> set s" "rb \<notin> set s" "\<not> occurs s w" "\<not> occurs s []"
  using assms unfolding proper_def by auto

lemma occurs_redacted:
  assumes "proper s"
  shows "occurs s (mark @ t) \<longleftrightarrow> occurs s t"
proof -
  have eq: "mark @ t = [] @ lb # (w @ rb # t)" by (simp add: mark_def)
  show ?thesis
    unfolding eq occurs_sep [OF properD(1,2) [OF assms]] occurs_sep [OF properD(1,3) [OF assms]]
    using properD(4,5) [OF assms] by blast
qed

lemma replace_prefix:
  assumes "s \<noteq> []"
  shows "lb \<notin> set p \<Longrightarrow> prefix p (py_replace s mark t) \<Longrightarrow> prefix p t"
proof (induction t arbitrary: p rule: replace_induct [of _ s])
  case Nil
  then show ?case by (simp add: py_replace_unfold)
next
  case (Match c cs)
  then have "prefix p (lb # w @ rb # py_replace s mark (drop (length s) (c # cs)))"
    using assms by (simp add: py_replace_unfold mark_def)
  with Match.prems(1) show ?case by (cases p) auto
next
  case (Copy c cs)
  then have "prefix p (c # py_replace s mark cs)" using assms by (simp add: py_replace_unfold)
  with Copy show ?case by (cases p) auto
qed (rule assms)

text \<open>Replacing one secret creates no occurrence of a proper secret, and removes its own.\<close>

lemma replace_no_new:
  assumes "s \<noteq> []" "proper q"
  shows "q = s \<or> \<not> occurs q t \<Longrightarrow> \<not> occurs q (py_replace s mark t)"
proof (induction t rule: replace_induct [of _ s])
  case Nil
  then show ?case using properD(5) [OF assms(2)] by (simp only: py_replace_unfold) simp
next
  case (Match c cs)
  have "q = s \<or> \<not> occurs q (drop (length s) (c # cs))"
    using Match.prems occurs_append [OF properD(1) [OF assms(2)], of "take (length s) (c # cs)" "drop (length s) (c # cs)"]
    unfolding append_take_drop_id by blast
  with Match.IH have "\<not> occurs q (py_replace s mark (drop (length s) (c # cs)))" by blast
  then show ?case
    unfolding py_replace_unfold(3) [OF assms(1) Match.hyps] occurs_redacted [OF assms(2)] .
next
  case (Copy c cs)
  have "q = s \<or> \<not> occurs q cs" using Copy.prems by auto
  with Copy.IH have "\<not> occurs q (py_replace s mark cs)" by blast
  moreover have "\<not> prefix q (c # py_replace s mark cs)"
  proof
    assume "prefix q (c # py_replace s mark cs)"
    then have "prefix q (py_replace s mark (c # cs))"
      by (simp only: py_replace_unfold(4) [OF assms(1) Copy.hyps])
    then have "prefix q (c # cs)" by (rule replace_prefix [OF assms(1) properD(2) [OF assms(2)]])
    with Copy.prems Copy.hyps show False by auto
  qed
  ultimately show ?case unfolding py_replace_unfold(4) [OF assms(1) Copy.hyps] by simp
qed (rule assms(1))

end

end
