(* ===== verification/Agent_Probe.thy ===== *)
theory Agent_Probe
  imports Probe_Scheduler Text_Redaction
begin

text \<open>
  \<open>services/agent_probe.py\<close>: the acceptance of one \<open>probe.result\<close> frame from a remote
  agent, in the fixed order size, schema, authentication, idempotency, deadline, and the
  redaction of what the agent sends back. The JSON encoder's output size and the pydantic schema
  are arguments.
\<close>

subsection \<open>Redaction\<close>

definition SECRET_KEY_HINTS :: "string list" where
  "SECRET_KEY_HINTS = [''password'', ''passwd'', ''secret'', ''token'', ''authorization'', ''credential'',
     ''cookie'', ''api_key'', ''apikey'', ''private_key'', ''bearer'']"

definition SECRET_CONFIG_KEYS :: "string list" where
  "SECRET_CONFIG_KEYS = [''password'', ''token'', ''secret'', ''api_key'', ''apikey'']"

definition SECRET_HEADER_KEYS :: "string list" where
  "SECRET_HEADER_KEYS = [''authorization'', ''proxy-authorization'', ''cookie'', ''x-api-key'', ''x-auth-token'']"

definition MIN_REDACTABLE_SECRET :: nat where "MIN_REDACTABLE_SECRET = 6"

definition REDACTED :: string where "REDACTED = ''[redacted]''"

text \<open>\<open>t.split()\<close>.\<close>

function py_words :: "string \<Rightarrow> string list" where
  "py_words s =
     (let t = dropWhile py_space s in
      if t = [] then []
      else takeWhile (\<lambda>c. \<not> py_space c) t # py_words (dropWhile (\<lambda>c. \<not> py_space c) t))"
  by pat_completeness auto
termination
proof (relation "measure length", goal_cases)
  case (2 s t)
  then have "t \<noteq> []" "\<not> py_space (hd t)" using hd_dropWhile [of py_space s] by auto
  then have "length (dropWhile (\<lambda>c. \<not> py_space c) t) < length t"
    by (cases t) (auto intro: le_imp_less_Suc length_dropWhile_le)
  also have "\<dots> \<le> length s" using 2 by (simp add: length_dropWhile_le)
  finally show ?case by simp
qed simp

declare py_words.simps [simp del]

definition dict_secrets :: "string list \<Rightarrow> (string \<times> json) list \<Rightarrow> string list" where
  "dict_secrets names d =
     List.map_filter (\<lambda>(k, v). case v of JStr s \<Rightarrow> if py_lower k \<in> set names then Some s else None | _ \<Rightarrow> None) d"

definition header_secrets :: "string \<Rightarrow> string list" where
  "header_secrets value = value # (let parts = py_words value in if length parts = 2 then [parts ! 1] else [])"

definition secret_values :: "(string \<times> json) list \<Rightarrow> string list" where
  "secret_values params =
     (let found = dict_secrets SECRET_CONFIG_KEYS params
                @ (case json_get params ''headers'' JNull of
                     JObj headers \<Rightarrow> concat (map header_secrets (dict_secrets SECRET_HEADER_KEYS headers))
                   | _ \<Rightarrow> []);
          unique = remdups (filter (\<lambda>s. MIN_REDACTABLE_SECRET \<le> length s) found)
      in sort_key (\<lambda>s. - int (length s)) unique)"

definition is_secret_key :: "string \<Rightarrow> bool" where
  "is_secret_key key = (\<exists>hint \<in> set SECRET_KEY_HINTS. occurs hint (py_lower key))"

definition redact_one :: "string \<Rightarrow> string \<Rightarrow> string" where
  "redact_one secret txt = (if secret \<noteq> [] \<and> occurs secret txt then py_replace secret REDACTED txt else txt)"

definition redact_text :: "string list \<Rightarrow> string \<Rightarrow> string" where
  "redact_text secrets txt = fold redact_one secrets txt"

fun scrub :: "string list \<Rightarrow> json \<Rightarrow> json"
  and scrub_list :: "string list \<Rightarrow> json list \<Rightarrow> json list"
  and scrub_obj :: "string list \<Rightarrow> (string \<times> json) list \<Rightarrow> (string \<times> json) list" where
  "scrub S (JObj d) = JObj (scrub_obj S d)"
| "scrub S (JList l) = JList (scrub_list S l)"
| "scrub S (JStr s) = JStr (redact_text S s)"
| "scrub S v = v"
| "scrub_list S [] = []"
| "scrub_list S (v # vs) = scrub S v # scrub_list S vs"
| "scrub_obj S [] = []"
| "scrub_obj S ((k, v) # d) =
     (if is_secret_key k then scrub_obj S d else (k, scrub S v) # scrub_obj S d)"

subsection \<open>The frame\<close>

definition MAX_DETAILS_BYTES :: nat where "MAX_DETAILS_BYTES = 65536"
definition MAX_MSG_CHARS :: nat where "MAX_MSG_CHARS = 2000"
definition MAX_SAMPLES :: nat where "MAX_SAMPLES = 64"
definition LATE_RESULT_GRACE :: int where "LATE_RESULT_GRACE = seconds 30"

record probe_result_payload =
  pp_run_id :: string
  pp_monitor_id :: int
  pp_outcome :: string
  pp_up :: bool
  pp_started_at :: instant
  pp_finished_at :: instant
  pp_samples :: "sample list"
  pp_msg :: string
  pp_details :: "(string \<times> json) list option"

record probe_deps =
  encoded_size :: "json \<Rightarrow> nat"
  model_validate :: "(string \<times> json) list \<Rightarrow> probe_result_payload option"

datatype probe_violation = EVENT_PROTOCOL_VIOLATION | EVENT_CAPABILITY_VIOLATION

datatype invalid_probe_result = InvalidProbeResult string probe_violation

datatype disposition = DISPOSITION_ACCEPTED | DISPOSITION_AUDIT_ONLY | DISPOSITION_LATE | DISPOSITION_DUPLICATE

fun parse_outcome :: "string \<Rightarrow> probe_outcome option" where
  "parse_outcome s =
     (if s = ''completed'' then Some OUTCOME_COMPLETED
      else if s = ''execution_error'' then Some OUTCOME_EXECUTION_ERROR
      else if s = ''cancelled'' then Some OUTCOME_CANCELLED
      else if s = ''rejected'' then Some OUTCOME_REJECTED
      else None)"

definition truncate_msg :: "(string \<times> json) list \<Rightarrow> (string \<times> json) list" where
  "truncate_msg payload =
     (case json_get payload ''msg'' JNull of
        JStr msg \<Rightarrow> if MAX_MSG_CHARS < length msg
                    then AList.update ''msg'' (JStr (take MAX_MSG_CHARS msg)) payload else payload
      | _ \<Rightarrow> payload)"

definition protocol_error :: "string \<Rightarrow> invalid_probe_result + 'a" where
  "protocol_error m = Inl (InvalidProbeResult m EVENT_PROTOCOL_VIOLATION)"

definition capability_error :: "string \<Rightarrow> invalid_probe_result + 'a" where
  "capability_error m = Inl (InvalidProbeResult m EVENT_CAPABILITY_VIOLATION)"

definition validate_probe_payload ::
  "probe_deps \<Rightarrow> json \<Rightarrow> invalid_probe_result + (probe_result_payload \<times> probe_outcome)" where
  "validate_probe_payload deps payload =
     (case payload of
        JObj d \<Rightarrow>
          let details = json_get d ''details'' JNull in
          if details \<noteq> JNull \<and> MAX_DETAILS_BYTES < encoded_size deps details
          then protocol_error ''details exceeds 65536 bytes''
          else if (case json_get d ''samples'' JNull of JList l \<Rightarrow> MAX_SAMPLES < length l | _ \<Rightarrow> False)
          then protocol_error ''samples exceeds 64 entries''
          else (case model_validate deps (truncate_msg d) of
                  None \<Rightarrow> protocol_error ''payload schema is invalid''
                | Some result \<Rightarrow>
                    (case parse_outcome (pp_outcome result) of
                       None \<Rightarrow> protocol_error ''unsupported outcome''
                     | Some outcome \<Rightarrow> Inr (result, outcome)))
      | _ \<Rightarrow> protocol_error ''payload is not an object'')"

subsection \<open>Ingest\<close>

record agent_row =
  ag_id :: int
  ag_status :: string

fun error_for_outcome :: "probe_outcome \<Rightarrow> string option" where
  "error_for_outcome OUTCOME_EXECUTION_ERROR = Some ''agent_execution_error''"
| "error_for_outcome OUTCOME_REJECTED = Some ''agent_rejected''"
| "error_for_outcome OUTCOME_CANCELLED = Some ''agent_cancelled''"
| "error_for_outcome OUTCOME_COMPLETED = None"

definition close_run ::
  "probe_outcome \<Rightarrow> run_status \<Rightarrow> string \<Rightarrow> string \<Rightarrow> (string \<times> json) list option \<Rightarrow> instant
   \<Rightarrow> probe_run \<Rightarrow> probe_run" where
  "close_run outcome status error_code msg details completed_at run =
     run\<lparr>pr_status := status, pr_outcome := Some outcome, pr_error_code := Some error_code,
         pr_completed_at := Some completed_at, pr_msg := or_none (take MAX_MSG_CHARS msg),
         pr_result_metadata := (case details of
            Some d \<Rightarrow> if d = [] then None else Some (JObj [(''details'', JObj d)]) | None \<Rightarrow> None)\<rparr>"

definition started_run :: "instant \<Rightarrow> probe_run \<Rightarrow> probe_run" where
  "started_run t run = run\<lparr>pr_started_at := Some t\<rparr>"

definition probe_record ::
  "monitor_item \<Rightarrow> probe_result_payload \<Rightarrow> probe_outcome \<Rightarrow> string \<Rightarrow> (string \<times> json) list option
   \<Rightarrow> int \<Rightarrow> string \<Rightarrow> monitor_result" where
  "probe_record monitor result outcome msg details agent_id run_id =
     \<lparr> mr_item_id = mi_id monitor, mr_target_type = mi_target_type monitor,
       mr_target_id = mi_target_id monitor, mr_check_type = Some (mi_check_type monitor),
       mr_samples = pp_samples result, mr_up = pp_up result, mr_msg = msg,
       mr_checked_at = pp_finished_at result, mr_outcome = outcome, mr_details = details,
       mr_source = ''agent'', mr_agent_id = Some agent_id, mr_run_id = Some run_id,
       mr_execution_reason = error_for_outcome outcome \<rparr>"

definition is_late :: "instant \<Rightarrow> probe_run \<Rightarrow> bool" where
  "is_late now run = (case pr_deadline_at run of Some d \<Rightarrow> d + LATE_RESULT_GRACE < now | None \<Rightarrow> False)"

definition accept_result ::
  "inventory \<Rightarrow> int \<Rightarrow> probe_run \<Rightarrow> monitor_item \<Rightarrow> probe_result_payload \<Rightarrow> probe_outcome \<Rightarrow> instant
   \<Rightarrow> monitor_db \<Rightarrow> disposition \<times> monitor_db" where
  "accept_result ivt agent_id run monitor result outcome now db =
     (let secrets = secret_values (mi_params monitor);
          msg = redact_text secrets (pp_msg result);
          details = map_option (scrub_obj secrets) (pp_details result);
          db1 = upd_run (pr_run_id run) (started_run (pp_started_at result)) db
      in if is_late now run then
           (DISPOSITION_LATE,
            upd_run (pr_run_id run) (close_run outcome RS_expired ''late_result'' msg details now) db1)
         else if outcome = OUTCOME_CANCELLED then
           (DISPOSITION_AUDIT_ONLY,
            upd_run (pr_run_id run)
              (close_run outcome RS_cancelled ''agent_cancelled'' msg details (pp_finished_at result)) db1)
         else
           (if outcome \<in> {OUTCOME_EXECUTION_ERROR, OUTCOME_REJECTED} then DISPOSITION_AUDIT_ONLY
            else DISPOSITION_ACCEPTED,
            snd (persist_results ivt (mclock db)
                   [probe_record monitor result outcome msg details agent_id (pr_run_id run)] db1)))"

definition ingest_probe_result ::
  "probe_deps \<Rightarrow> inventory \<Rightarrow> agent_row \<Rightarrow> json \<Rightarrow> instant option \<Rightarrow> monitor_db
   \<Rightarrow> (invalid_probe_result + disposition) \<times> monitor_db" where
  "ingest_probe_result deps ivt agent payload received_at db =
     (if ag_status agent \<noteq> ''active'' then (protocol_error ''agent is not active'', db)
      else case validate_probe_payload deps payload of
        Inl e \<Rightarrow> (Inl e, db)
      | Inr (result, outcome) \<Rightarrow>
          (case get_run (pp_run_id result) db of
             None \<Rightarrow> (capability_error ''unknown run'', db)
           | Some run \<Rightarrow>
               if pr_agent_id run \<noteq> ag_id agent then (capability_error ''run belongs to another agent'', db)
               else if pr_monitor_id run \<noteq> pp_monitor_id result
               then (capability_error ''run does not belong to that monitor'', db)
               else case get_item (pr_monitor_id run) db of
                      None \<Rightarrow> (protocol_error ''monitor no longer exists'', db)
                    | Some monitor \<Rightarrow>
                        if \<not> active_status (pr_status run) then (Inr DISPOSITION_DUPLICATE, db)
                        else let now = (case received_at of Some t \<Rightarrow> t | None \<Rightarrow> mclock db);
                                 out = accept_result ivt (ag_id agent) run monitor result outcome now db
                             in (Inr (fst out), snd out)))"

subsection \<open>Redaction removes the secrets\<close>

text \<open>A secret that can neither contain a bracket nor sit inside the word \<open>redacted\<close>.\<close>

definition proper_secret :: "string \<Rightarrow> bool" where
  "proper_secret s \<longleftrightarrow>
     s \<noteq> [] \<and> CHR ''['' \<notin> set s \<and> CHR '']'' \<notin> set s \<and> \<not> occurs s ''redacted''"

interpretation bracket: marker "CHR ''[''" "''redacted''" "CHR '']''" .

lemma bracket_marker: "bracket.mark = REDACTED"
  by (simp add: bracket.mark_def REDACTED_def)

lemma bracket_proper: "bracket.proper s \<longleftrightarrow> proper_secret s"
  by (simp add: bracket.proper_def proper_secret_def)

lemmas replace_no_new = bracket.replace_no_new [unfolded bracket_marker bracket_proper]

lemma redact_one_keeps: "proper_secret q \<Longrightarrow> \<not> occurs q t \<Longrightarrow> \<not> occurs q (redact_one s t)"
  using replace_no_new [of s q t] by (simp add: redact_one_def)

lemma redact_one_removes: "proper_secret q \<Longrightarrow> \<not> occurs q (redact_one q t)"
  using replace_no_new [of q q t] by (simp add: redact_one_def proper_secret_def)

lemma redact_text_keeps: "proper_secret q \<Longrightarrow> \<not> occurs q t \<Longrightarrow> \<not> occurs q (redact_text S t)"
  unfolding redact_text_def by (induction S arbitrary: t) (auto simp: redact_one_keeps)

lemma redact_text_removes: "proper_secret q \<Longrightarrow> q \<in> set S \<Longrightarrow> \<not> occurs q (redact_text S t)"
proof (induction S arbitrary: t)
  case (Cons s S)
  then show ?case
    using redact_text_keeps [OF Cons.prems(1), of "redact_one s t" S] redact_one_removes [OF Cons.prems(1), of t]
    by (auto simp: redact_text_def)
qed simp

lemma scrub_keys:
  "list_all (\<lambda>k. \<not> is_secret_key k) (all_keys (scrub S v))"
  "list_all (\<lambda>k. \<not> is_secret_key k) (all_keys_list (scrub_list S vs))"
  "list_all (\<lambda>k. \<not> is_secret_key k) (all_keys_obj (scrub_obj S d))"
  by (induction S v and S vs and S d rule: scrub_scrub_list_scrub_obj.induct) auto

lemma scrub_leaves:
  assumes "proper_secret q" "q \<in> set S"
  shows "list_all (\<lambda>s. \<not> occurs q s) (leaves (scrub S v))"
    "list_all (\<lambda>s. \<not> occurs q s) (leaves_list (scrub_list S vs))"
    "list_all (\<lambda>s. \<not> occurs q s) (leaves_obj (scrub_obj S d))"
  using assms
  by (induction S v and S vs and S d rule: scrub_scrub_list_scrub_obj.induct)
    (auto simp: redact_text_removes)

text \<open>
  C35. No credential comes back: for every password, token, secret or API key of at least six
  characters in the monitor's configuration (one without brackets that is not part of the word
  redacted), the scrubbed details of a result hold no string that contains it, and no object key
  that looks like a credential's, at any depth; and neither does the redacted message. Shorter secrets and
  secrets with brackets are not covered.
\<close>

theorem configured_secrets_redacted:
  assumes "(k, JStr q) \<in> set params" "py_lower k \<in> set SECRET_CONFIG_KEYS" "6 \<le> length q" "proper_secret q"
  shows "\<not> occurs q (redact_text (secret_values params) msg)
       \<and> list_all (\<lambda>s. \<not> occurs q s) (leaves_obj (scrub_obj (secret_values params) details))
       \<and> list_all (\<lambda>k. \<not> is_secret_key k) (all_keys_obj (scrub_obj (secret_values params) details))"
proof -
  have "q \<in> set (dict_secrets SECRET_CONFIG_KEYS params)"
    unfolding dict_secrets_def using assms(1,2) by (intro in_map_filter [of _ "(k, JStr q)"]) auto
  then have "q \<in> set (secret_values params)"
    using assms(3) by (simp add: secret_values_def Let_def MIN_REDACTABLE_SECRET_def)
  with assms(4) show ?thesis by (simp add: redact_text_removes scrub_leaves scrub_keys)
qed

theorem configured_secrets_redacted_witness:
  "\<not> occurs ''hunter22'' (redact_text (secret_values [(''Password'', JStr ''hunter22'')]) ''login hunter22 failed'')
   \<and> redact_text (secret_values [(''Password'', JStr ''hunter22'')]) ''login hunter22 failed'' = ''login [redacted] failed''"
proof
  have "(''Password'', JStr ''hunter22'') \<in> set [(''Password'', JStr ''hunter22'')]"
    "py_lower ''Password'' \<in> set SECRET_CONFIG_KEYS" "6 \<le> length ''hunter22''" "proper_secret ''hunter22''"
    by code_simp+
  from configured_secrets_redacted [OF this]
  show "\<not> occurs ''hunter22'' (redact_text (secret_values [(''Password'', JStr ''hunter22'')]) ''login hunter22 failed'')"
    by blast
qed code_simp

subsection \<open>What an accepted result touches\<close>

lemma override_ok_identity:
  "override_ok ivt now rs r r' \<Longrightarrow>
     mr_item_id r' = mr_item_id r \<and> mr_run_id r' = mr_run_id r \<and> mr_outcome r' = mr_outcome r"
  by (auto simp: override_ok_def)

lemma persist_single:
  obtains r' where "mr_item_id r' = mr_item_id r" "mr_run_id r' = mr_run_id r"
    "snd (persist_results ivt now [r] db) =
       snd (snd (persist_one r' ([], [], snd (write_samples (if completed r then [sample_row r'] else []) db))))"
proof (cases "completed r")
  case True
  obtain r' where r': "result_overrides ivt now [r] = [r']"
    by (cases "result_overrides ivt now [r]" rule: list.exhaust)
      (use result_overrides_length [of ivt now "[r]"] in \<open>auto simp del: result_overrides_length\<close>)
  with overrides_ok [of ivt now "[r]"] have ok: "override_ok ivt now [r] r r'" by simp
  with True have "completed r'" by (auto dest: override_ok_identity simp: completed_def)
  with True r' ok show thesis
    by (intro that [of r']) (auto simp: persist_results_def Let_def dest: override_ok_identity split: prod.splits)
next
  case False
  then have "result_overrides ivt now (filter completed [r]) = []"
    by (simp add: result_overrides_def Let_def)
  with False show thesis
    by (intro that [of r]) (simp_all add: persist_results_def Let_def split: prod.splits)
qed

lemma get_run_tbl_upd:
  assumes "\<And>r. pr_run_id (f r) = pr_run_id r" "mruns db' = tbl_upd pr_run_id q f (mruns db)"
  shows "get_run p db' = (if p = q then map_option f (get_run p db) else get_run p db)"
  using get_run_upd_same [of f q db] get_run_upd_other [of f p q db] assms
  by (simp add: get_run_def upd_run_def)

lemma write_samples_frame [simp]:
  "mruns (snd (write_samples rows db)) = mruns db" "mitems (snd (write_samples rows db)) = mitems db"
  "get_item i (snd (write_samples rows db)) = get_item i db" "get_run q (snd (write_samples rows db)) = get_run q db"
  by (simp_all add: cb_simps get_item_def get_run_def)

lemma get_item_present: "get_item i db \<noteq> None \<longleftrightarrow> i \<in> set (map mi_id (mitems db))"
  using tbl_get_None [of mi_id i "mitems db"] by (auto simp: get_item_def)

text \<open>A row update that closes a run and keeps what identifies it.\<close>

definition closing :: "(probe_run \<Rightarrow> probe_run) \<Rightarrow> bool" where
  "closing f \<longleftrightarrow> (\<forall>run. pr_run_id (f run) = pr_run_id run \<and> pr_monitor_id (f run) = pr_monitor_id run
      \<and> pr_agent_id (f run) = pr_agent_id run \<and> \<not> active_status (pr_status (f run)))"

lemma persist_single_effect:
  fixes ivt :: inventory and now :: instant and db :: monitor_db
  assumes "mr_run_id r = Some q"
  defines "db' \<equiv> snd (persist_results ivt now [r] db)"
  shows "\<exists>f. closing f \<and> mruns db' = tbl_upd pr_run_id q f (mruns db)"
    "j \<noteq> mr_item_id r \<Longrightarrow> get_item j db' = get_item j db"
    "map mi_id (mitems db') = map mi_id (mitems db)"
proof -
  obtain r' where r': "mr_item_id r' = mr_item_id r" "mr_run_id r' = mr_run_id r"
    "db' = snd (snd (persist_one r' ([], [], snd (write_samples (if completed r then [sample_row r'] else []) db))))"
    unfolding db'_def by (rule persist_single)
  then show "\<exists>f. closing f \<and> mruns db' = tbl_upd pr_run_id q f (mruns db)"
    using assms(1) by (intro exI [of _ "answered_run r'"]) (simp add: persist_one_runs closing_def row_simps del: persist_one.simps)
  show "j \<noteq> mr_item_id r \<Longrightarrow> get_item j db' = get_item j db"
    unfolding r'(3) using persist_one_items(1) [of j r'] r'(1) by (simp del: persist_one.simps)
  show "map mi_id (mitems db') = map mi_id (mitems db)"
    unfolding r'(3) persist_one_items(2) by simp
qed

text \<open>An open run that accepts a result is closed, and nothing but it and its monitor is touched.\<close>

lemma tbl_upd_twice:
  assumes "\<And>r. key (f r) = key r"
  shows "tbl_upd key k g (tbl_upd key k f rows) = tbl_upd key k (\<lambda>r. g (f r)) rows"
  using assms by (induction rows) auto

lemma accept_effect:
  fixes ivt :: inventory and now :: instant and db :: monitor_db and a :: int
    and result :: probe_result_payload and outcome :: probe_outcome
  assumes "mi_id monitor = pr_monitor_id run"
  defines "db' \<equiv> snd (accept_result ivt a run monitor result outcome now db)"
  shows "\<exists>f. closing f \<and> mruns db' = tbl_upd pr_run_id (pr_run_id run) f (mruns db)"
    "j \<noteq> pr_monitor_id run \<Longrightarrow> get_item j db' = get_item j db"
    "map mi_id (mitems db') = map mi_id (mitems db)"
proof -
  define sr where "sr = started_run (pp_started_at result)"
  define db1 where "db1 = upd_run (pr_run_id run) sr db"
  have db1: "mruns db1 = tbl_upd pr_run_id (pr_run_id run) sr (mruns db)" "mitems db1 = mitems db"
    "get_item j db1 = get_item j db" for j by (simp_all add: db1_def upd_run_def get_item_def)
  have sr: "pr_run_id (sr x) = pr_run_id x" "pr_monitor_id (sr x) = pr_monitor_id x" "pr_agent_id (sr x) = pr_agent_id x" for x
    by (simp_all add: sr_def started_run_def)
  let ?rec = "probe_record monitor result outcome (redact_text (secret_values (mi_params monitor)) (pp_msg result))
     (map_option (scrub_obj (secret_values (mi_params monitor))) (pp_details result)) a (pr_run_id run)"
  have rec: "mr_run_id ?rec = Some (pr_run_id run)" "mr_item_id ?rec = pr_monitor_id run"
    using assms(1) by (simp_all add: probe_record_def)
  consider (closed) g where "db' = upd_run (pr_run_id run) g db1" "closing g"
    | (persisted) "db' = snd (persist_results ivt (mclock db) [?rec] db1)"
    unfolding db'_def accept_result_def Let_def sr_def [symmetric] db1_def [symmetric]
    by (cases "is_late now run"; cases "outcome = OUTCOME_CANCELLED")
      (fastforce simp: close_run_def active_status_def closing_def)+
  then have "(\<exists>g. closing g \<and> mruns db' = tbl_upd pr_run_id (pr_run_id run) g (mruns db1))
     \<and> (\<forall>j. j \<noteq> pr_monitor_id run \<longrightarrow> get_item j db' = get_item j db1)
     \<and> map mi_id (mitems db') = map mi_id (mitems db1)"
  proof cases
    case (closed g)
    then show ?thesis by (auto simp: upd_run_def get_item_def)
  next
    case persisted
    with persist_single_effect [OF rec(1), where ivt = ivt and now = "mclock db" and db = db1] rec(2) show ?thesis by auto
  qed
  then obtain g where g: "closing g" "mruns db' = tbl_upd pr_run_id (pr_run_id run) g (mruns db1)"
    and rest: "\<And>j. j \<noteq> pr_monitor_id run \<Longrightarrow> get_item j db' = get_item j db1"
      "map mi_id (mitems db') = map mi_id (mitems db1)" by blast
  show "\<exists>f. closing f \<and> mruns db' = tbl_upd pr_run_id (pr_run_id run) f (mruns db)"
    using g by (intro exI [of _ "\<lambda>x. g (sr x)"]) (simp add: sr db1 tbl_upd_twice closing_def)
  show "j \<noteq> pr_monitor_id run \<Longrightarrow> get_item j db' = get_item j db" using rest(1) db1(3) by simp
  show "map mi_id (mitems db') = map mi_id (mitems db)" using rest(2) db1(2) by simp
qed

subsection \<open>Acceptance\<close>

lemma get_run_id: "get_run q db = Some run \<Longrightarrow> pr_run_id run = q"
  by (auto simp: get_run_def dest: tbl_get_Some)

text \<open>The conditions under which a frame reaches the run: the whole of the authentication.\<close>

definition addresses ::
  "probe_deps \<Rightarrow> agent_row \<Rightarrow> json \<Rightarrow> monitor_db \<Rightarrow> probe_result_payload \<Rightarrow> probe_outcome \<Rightarrow> probe_run
   \<Rightarrow> monitor_item \<Rightarrow> bool" where
  "addresses deps agent payload db result outcome run monitor \<longleftrightarrow>
     ag_status agent = ''active'' \<and> validate_probe_payload deps payload = Inr (result, outcome)
   \<and> get_run (pp_run_id result) db = Some run \<and> pr_agent_id run = ag_id agent
   \<and> pr_monitor_id run = pp_monitor_id result \<and> get_item (pp_monitor_id result) db = Some monitor"

lemma ingest_addressed:
  assumes "addresses deps agent payload db result outcome run monitor"
  shows "ingest_probe_result deps ivt agent payload t db =
     (if \<not> active_status (pr_status run) then (Inr DISPOSITION_DUPLICATE, db)
      else let out = accept_result ivt (ag_id agent) run monitor result outcome
                       (case t of Some t' \<Rightarrow> t' | None \<Rightarrow> mclock db) db
           in (Inr (fst out), snd out))"
  using assms by (simp add: addresses_def ingest_probe_result_def Let_def)

lemma ingest_not_addressed:
  assumes "\<nexists>result outcome run monitor. addresses deps agent payload db result outcome run monitor"
  shows "snd (ingest_probe_result deps ivt agent payload t db) = db
       \<and> (\<exists>e. fst (ingest_probe_result deps ivt agent payload t db) = Inl e)"
proof (cases "ag_status agent = ''active''")
  case active: True
  show ?thesis
  proof (cases "validate_probe_payload deps payload")
    case (Inr ro)
    obtain result outcome where ro: "ro = (result, outcome)" by (cases ro)
    show ?thesis
    proof (cases "get_run (pp_run_id result) db")
      case (Some run)
      with active Inr ro assms have "pr_agent_id run \<noteq> ag_id agent \<or> pr_monitor_id run \<noteq> pp_monitor_id result
          \<or> get_item (pp_monitor_id result) db = None"
        by (auto simp: addresses_def)
      with active Inr ro Some show ?thesis
        by (auto simp: ingest_probe_result_def protocol_error_def capability_error_def)
    qed (use active Inr ro in \<open>simp add: ingest_probe_result_def capability_error_def\<close>)
  qed (use active in \<open>simp add: ingest_probe_result_def\<close>)
qed (simp add: ingest_probe_result_def protocol_error_def)

text \<open>
  C36. Only an authenticated result can change anything: if ingesting a frame changes the
  database, then the agent is active, the frame names an existing open run, that run belongs to
  this very agent and to the monitor the frame names; and no other run and no other monitor is
  changed.
\<close>

theorem ingest_authenticated:
  assumes "snd (ingest_probe_result deps ivt agent payload received_at db) \<noteq> db"
  shows "\<exists>result outcome run monitor.
           addresses deps agent payload db result outcome run monitor
         \<and> active_status (pr_status run)
         \<and> {q. get_run q (snd (ingest_probe_result deps ivt agent payload received_at db)) \<noteq> get_run q db}
             \<subseteq> {pp_run_id result}
         \<and> {j. get_item j (snd (ingest_probe_result deps ivt agent payload received_at db)) \<noteq> get_item j db}
             \<subseteq> {pp_monitor_id result}"
proof -
  obtain result outcome run monitor where ad: "addresses deps agent payload db result outcome run monitor"
    using assms ingest_not_addressed by blast
  with assms have act: "active_status (pr_status run)" by (auto simp: ingest_addressed split: if_splits)
  let ?db' = "snd (accept_result ivt (ag_id agent) run monitor result outcome
                     (case received_at of Some t' \<Rightarrow> t' | None \<Rightarrow> mclock db) db)"
  have db': "snd (ingest_probe_result deps ivt agent payload received_at db) = ?db'"
    using ad act by (simp add: ingest_addressed Let_def)
  have ids: "mi_id monitor = pr_monitor_id run" "pr_run_id run = pp_run_id result"
    "pr_monitor_id run = pp_monitor_id result"
    using ad by (auto simp: addresses_def dest: get_item_id get_run_id)
  from accept_effect(1) [OF ids(1), of ivt "ag_id agent" result outcome] obtain f where
    "closing f" "mruns ?db' = tbl_upd pr_run_id (pp_run_id result) f (mruns db)"
    unfolding ids(2) by blast
  then have "get_run q ?db' = get_run q db" if "q \<noteq> pp_run_id result" for q
    using that get_run_tbl_upd [of f ?db' "pp_run_id result" db] by (simp add: closing_def)
  moreover have "get_item j ?db' = get_item j db" if "j \<noteq> pp_monitor_id result" for j
    using that accept_effect(2) [OF ids(1)] ids(3) by simp
  ultimately show ?thesis using ad act unfolding db' by blast
qed

text \<open>
  A result counts once: after a frame was accepted, audited or found late, the same frame
  ingested again, at any later time, is a duplicate and changes nothing, so a replayed spool
  entry writes no second sample and fires no second transition.
\<close>

theorem ingest_once:
  assumes "fst (ingest_probe_result deps ivt agent payload received_at db) = Inr d"
  shows "ingest_probe_result deps ivt' agent payload received_at'
           (snd (ingest_probe_result deps ivt agent payload received_at db))
       = (Inr DISPOSITION_DUPLICATE, snd (ingest_probe_result deps ivt agent payload received_at db))"
proof -
  obtain result outcome run monitor where ad: "addresses deps agent payload db result outcome run monitor"
    using assms ingest_not_addressed by (metis Inl_Inr_False)
  show ?thesis
  proof (cases "active_status (pr_status run)")
    case False
    with ad show ?thesis by (simp add: ingest_addressed)
  next
    case True
    define db' where "db' = snd (accept_result ivt (ag_id agent) run monitor result outcome
                     (case received_at of Some t' \<Rightarrow> t' | None \<Rightarrow> mclock db) db)"
    have db': "snd (ingest_probe_result deps ivt agent payload received_at db) = db'"
      using ad True by (simp add: ingest_addressed Let_def db'_def)
    have ids: "mi_id monitor = pr_monitor_id run" "pr_run_id run = pp_run_id result"
      using ad by (auto simp: addresses_def dest: get_item_id get_run_id)
    from accept_effect(1) [OF ids(1), of ivt "ag_id agent" result outcome] obtain f where
      f: "closing f" "mruns db' = tbl_upd pr_run_id (pp_run_id result) f (mruns db)"
      unfolding ids(2) db'_def by blast
    then have run': "get_run (pp_run_id result) db' = Some (f run)"
      using ad get_run_tbl_upd [of f db' "pp_run_id result" db] by (simp add: addresses_def closing_def)
    have "map mi_id (mitems db') = map mi_id (mitems db)"
      unfolding db'_def by (rule accept_effect(3) [OF ids(1)])
    moreover have "get_item (pp_monitor_id result) db \<noteq> None" using ad by (simp add: addresses_def)
    ultimately have "get_item (pp_monitor_id result) db' \<noteq> None" unfolding get_item_present by simp
    then obtain monitor' where "get_item (pp_monitor_id result) db' = Some monitor'" by blast
    with ad run' f(1) have "addresses deps agent payload db' result outcome (f run) monitor'"
      by (auto simp: addresses_def closing_def)
    with f(1) show ?thesis unfolding db' by (simp add: ingest_addressed closing_def)
  qed
qed

subsection \<open>Witnesses\<close>

definition demo_payload :: probe_result_payload where
  "demo_payload = \<lparr> pp_run_id = ''r1'', pp_monitor_id = 7, pp_outcome = ''completed'', pp_up = False,
     pp_started_at = 1, pp_finished_at = 2,
     pp_samples = [\<lparr> sm_metric = ''avail'', sm_value = Fin 0, sm_error_reason = None \<rparr>],
     pp_msg = ''timeout'', pp_details = None \<rparr>"

definition demo_deps :: probe_deps where
  "demo_deps = \<lparr> encoded_size = (\<lambda>_. 0), model_validate = (\<lambda>_. Some demo_payload) \<rparr>"

definition demo_agent :: agent_row where
  "demo_agent = \<lparr> ag_id = 3, ag_status = ''active'' \<rparr>"

definition demo_db :: monitor_db where
  "demo_db = idle_db\<lparr>mruns := [new_run ''r1'' 7 3 20 0]\<rparr>"

definition no_inventory :: inventory where
  "no_inventory = \<lparr> inv_hardware = [], inv_compute = [] \<rparr>"

theorem ingest_authenticated_witness:
  "\<exists>result outcome run monitor. addresses demo_deps demo_agent (JObj []) demo_db result outcome run monitor"
proof -
  have "mruns (snd (ingest_probe_result demo_deps no_inventory demo_agent (JObj []) (Some 5) demo_db)) \<noteq> mruns demo_db"
    by code_simp
  then have "snd (ingest_probe_result demo_deps no_inventory demo_agent (JObj []) (Some 5) demo_db) \<noteq> demo_db" by metis
  from ingest_authenticated [OF this] show ?thesis by blast
qed

theorem ingest_once_witness:
  "fst (ingest_probe_result demo_deps no_inventory demo_agent (JObj []) (Some 6)
     (snd (ingest_probe_result demo_deps no_inventory demo_agent (JObj []) (Some 5) demo_db))) = Inr DISPOSITION_DUPLICATE"
proof -
  have "fst (ingest_probe_result demo_deps no_inventory demo_agent (JObj []) (Some 5) demo_db) = Inr DISPOSITION_ACCEPTED"
    by code_simp
  from ingest_once [OF this] show ?thesis by simp
qed

end
