(* ===== verification/Probe_Runs.thy ===== *)
theory Probe_Runs
  imports Agent_Probe
begin

text \<open>
  The life of a remote probe run after the scheduler opened it: dispatch
  (\<open>workers/monitor_probe_dispatch.py\<close>), expiry, staleness and retention
  (\<open>services/monitoring/probe_reconcile.py\<close>), and cancellation by pausing or deleting a
  monitor or revoking an agent (\<open>services/monitor_service.py\<close>), together with the machine
  that interleaves all of them with scheduling and result ingest.
\<close>

subsection \<open>Dispatch\<close>

text \<open>The answer of \<open>probe_eligibility.evaluate_eligibility\<close>.\<close>

datatype eligibility = Eligible | Denied "string option" "string option"

text \<open>
  \<open>dispatch_run\<close> loads the run and its monitor, waits for the eligibility check and for the
  delivery of the frame, and only then writes. The load and the write are separate steps, because
  other transactions may commit in between; what is written is the difference to what was loaded.
\<close>

definition dispatch_load :: "string \<Rightarrow> monitor_db \<Rightarrow> (probe_run \<times> monitor_item) option" where
  "dispatch_load run_id db =
     (case get_run run_id db of
        None \<Rightarrow> None
      | Some run \<Rightarrow>
          if pr_status run \<noteq> RS_queued then None
          else map_option (\<lambda>m. (run, m)) (get_item (pr_monitor_id run) db))"

definition unavailable_run :: "string \<Rightarrow> string option \<Rightarrow> instant \<Rightarrow> probe_run \<Rightarrow> probe_run" where
  "unavailable_run reason detail now run =
     run\<lparr>pr_status := RS_execution_error, pr_error_code := Some reason, pr_completed_at := Some now,
         pr_msg := (case detail of Some d \<Rightarrow> if d = [] then pr_msg run else Some (take 2000 d)
                                 | None \<Rightarrow> pr_msg run)\<rparr>"

definition close_unavailable :: "probe_run \<Rightarrow> monitor_item \<Rightarrow> string \<Rightarrow> string option \<Rightarrow> monitor_db \<Rightarrow> monitor_db" where
  "close_unavailable run monitor reason detail db =
     upd_item (mi_id monitor) (set_execution (Some EX_unavailable) (Some (take 128 reason)))
       (upd_run (pr_run_id run) (unavailable_run reason detail (mclock db)) db)"

definition dispatched_run :: "int \<Rightarrow> instant \<Rightarrow> probe_run \<Rightarrow> probe_run" where
  "dispatched_run attempts now run =
     run\<lparr>pr_status := RS_dispatched, pr_dispatched_at := Some now, pr_attempt_count := attempts\<rparr>"

definition dispatched_item :: "monitor_item \<Rightarrow> instant \<Rightarrow> monitor_item \<Rightarrow> monitor_item" where
  "dispatched_item loaded now m =
     m\<lparr>mi_exec_status := Some EX_running,
       mi_exec_reason := (if mi_exec_reason loaded = None then mi_exec_reason m else None),
       mi_probe_last_dispatched_at := Some now\<rparr>"

datatype dispatch_result = Published | Not_published | Dispatch_integrity_error

text \<open>
  The write that ends a dispatch. Marking a run dispatched while another run of the monitor is
  active violates the partial unique index: the commit raises and is rolled back.
\<close>

definition dispatch_write ::
  "eligibility \<Rightarrow> bool \<Rightarrow> probe_run \<Rightarrow> monitor_item \<Rightarrow> monitor_db \<Rightarrow> dispatch_result \<times> monitor_db" where
  "dispatch_write decision delivered run monitor db =
     (case decision of
        Denied reason detail \<Rightarrow>
          (Not_published,
           close_unavailable run monitor
             (case reason of Some r \<Rightarrow> if r = [] then ''ineligible'' else r | None \<Rightarrow> ''ineligible'') detail db)
      | Eligible \<Rightarrow>
          if pr_deadline_at run = None then (Not_published, close_unavailable run monitor ''invalid_run'' None db)
          else if \<not> delivered then (Not_published, close_unavailable run monitor ''dispatch_failed'' None db)
          else if filter (\<lambda>r. pr_run_id r \<noteq> pr_run_id run) (active_runs (pr_monitor_id run) db) \<noteq> []
          then (Dispatch_integrity_error, db)
          else (Published,
                upd_item (mi_id monitor) (dispatched_item monitor (mclock db))
                  (upd_run (pr_run_id run) (dispatched_run (pr_attempt_count run + 1) (mclock db)) db)))"

definition dispatch_run :: "eligibility \<Rightarrow> bool \<Rightarrow> string \<Rightarrow> monitor_db \<Rightarrow> dispatch_result \<times> monitor_db" where
  "dispatch_run decision delivered run_id db =
     (case dispatch_load run_id db of
        None \<Rightarrow> (Not_published, db)
      | Some (run, monitor) \<Rightarrow> dispatch_write decision delivered run monitor db)"

subsection \<open>Reconciliation\<close>

definition RESULT_TIMEOUT_GRACE_S :: int where "RESULT_TIMEOUT_GRACE_S = 30"
definition STALE_INTERVAL_MULTIPLIER :: int where "STALE_INTERVAL_MULTIPLIER = 2"
definition PROBE_RUN_RETENTION_DAYS :: int where "PROBE_RUN_RETENTION_DAYS = 7"
definition EXPIRE_LIMIT :: nat where "EXPIRE_LIMIT = 500"
definition STALE_LIMIT :: nat where "STALE_LIMIT = 500"

definition lease_end :: "probe_run \<Rightarrow> instant" where
  "lease_end r = (case pr_deadline_at r of Some d \<Rightarrow> d | None \<Rightarrow> pr_scheduled_at r)"

definition overdue :: "instant \<Rightarrow> probe_run \<Rightarrow> bool" where
  "overdue now r \<longleftrightarrow> active_status (pr_status r) \<and> lease_end r < now - seconds RESULT_TIMEOUT_GRACE_S"

definition expired_run :: "instant \<Rightarrow> probe_run \<Rightarrow> probe_run" where
  "expired_run now r = r\<lparr>pr_status := RS_expired, pr_error_code := Some ''result_timeout'', pr_completed_at := Some now\<rparr>"

definition expire_ids :: "instant \<Rightarrow> monitor_db \<Rightarrow> string list" where
  "expire_ids now db = map pr_run_id (take EXPIRE_LIMIT (sort_key pr_scheduled_at (filter (overdue now) (mruns db))))"

definition condition_all ::
  "exec_status \<Rightarrow> string \<Rightarrow> instant \<Rightarrow> int list \<Rightarrow> live_entry list \<times> monitor_db \<Rightarrow> live_entry list \<times> monitor_db" where
  "condition_all st reason now ids =
     fold (\<lambda>i (live, db). case record_execution_condition i st (Some reason) now db of
             (Some e, db') \<Rightarrow> (live @ [e], db') | (None, db') \<Rightarrow> (live, db')) ids"

definition expire_overdue_runs :: "instant \<Rightarrow> live_entry list \<times> monitor_db \<Rightarrow> nat \<times> live_entry list \<times> monitor_db" where
  "expire_overdue_runs now acc =
     (case acc of (live, db) \<Rightarrow>
        let ids = expire_ids now db;
            monitor_ids = map pr_monitor_id (filter (\<lambda>r. pr_run_id r \<in> set ids) (mruns db));
            db1 = db\<lparr>mruns := map (\<lambda>r. if pr_run_id r \<in> set ids then expired_run now r else r) (mruns db)\<rparr>
        in (length monitor_ids, condition_all EX_unavailable ''result_timeout'' now monitor_ids (live, db1)))"

text \<open>The agent tables and the presence answer the staleness pass consults.\<close>

record readiness_row =
  rd_agent :: int
  rd_collector :: string
  rd_state :: string
  rd_updated_at :: "instant option"

record vantage_env =
  ve_agents :: "agent_row list"
  ve_granted :: "int list"
  ve_readiness :: "readiness_row list"
  ve_online :: "int \<Rightarrow> bool"

definition READINESS_MAX_AGE_S :: int where "READINESS_MAX_AGE_S = 2700"

definition READINESS_COLLECTORS :: "(string \<times> string) list" where
  "READINESS_COLLECTORS = [(''icmp'', ''probe.icmp''), (''tcp'', ''probe.tcp''), (''http'', ''probe.http''), (''dns'', ''probe.dns'')]"

definition fresh_readiness :: "vantage_env \<Rightarrow> instant \<Rightarrow> (int \<times> string) list" where
  "fresh_readiness env now =
     map (\<lambda>r. (rd_agent r, rd_collector r))
       (filter (\<lambda>r. rd_state r \<in> {''ready'', ''degraded''}
          \<and> (case rd_updated_at r of Some u \<Rightarrow> now - seconds READINESS_MAX_AGE_S \<le> u | None \<Rightarrow> False)) (ve_readiness env))"

definition stale_candidate :: "vantage_env \<Rightarrow> instant \<Rightarrow> monitor_db \<Rightarrow> monitor_item \<Rightarrow> bool" where
  "stale_candidate env now db m \<longleftrightarrow>
     mi_enabled m
   \<and> (case mi_probe_agent_id m of
        None \<Rightarrow> False
      | Some a \<Rightarrow> (\<exists>ag \<in> set (ve_agents env). ag_id ag = a \<and> ag_status ag = ''active'') \<and> a \<in> set (ve_granted env))
   \<and> (case mi_probe_last_result_at m of
        None \<Rightarrow> False
      | Some t \<Rightarrow> t < now - seconds (STALE_INTERVAL_MULTIPLIER * mi_interval_secs m))
   \<and> mi_exec_status m \<notin> {Some EX_unavailable, Some EX_stale}
   \<and> active_runs (mi_id m) db = []"

definition stale_marks :: "vantage_env \<Rightarrow> instant \<Rightarrow> monitor_db \<Rightarrow> int list" where
  "stale_marks env now db =
     map mi_id (filter (\<lambda>m. case mi_probe_agent_id m of
          None \<Rightarrow> False
        | Some a \<Rightarrow> ve_online env a
            \<and> (case map_of READINESS_COLLECTORS (mi_check_type m) of
                 None \<Rightarrow> False | Some c \<Rightarrow> (a, c) \<in> set (fresh_readiness env now)))
       (take STALE_LIMIT (sort_key (\<lambda>m. case mi_probe_last_result_at m of Some t \<Rightarrow> t | None \<Rightarrow> 0)
          (filter (stale_candidate env now db) (mitems db)))))"

definition mark_stale :: "vantage_env \<Rightarrow> instant \<Rightarrow> live_entry list \<times> monitor_db \<Rightarrow> nat \<times> live_entry list \<times> monitor_db" where
  "mark_stale env now acc =
     (let ids = stale_marks env now (snd acc);
          acc' = condition_all EX_stale ''no_recent_result'' now ids acc
      in (length (fst acc') - length (fst acc), acc'))"

definition reconcile :: "vantage_env \<Rightarrow> instant \<Rightarrow> monitor_db \<Rightarrow> (nat \<times> nat) \<times> live_entry list \<times> monitor_db" where
  "reconcile env now db =
     (case expire_overdue_runs now ([], db) of
        (expired, acc) \<Rightarrow> (case mark_stale env now acc of (stale, acc') \<Rightarrow> ((expired, stale), acc')))"

definition purge_probe_runs :: "instant \<Rightarrow> monitor_db \<Rightarrow> nat \<times> monitor_db" where
  "purge_probe_runs now db =
     (let cutoff = now - seconds (PROBE_RUN_RETENTION_DAYS * 86400);
          kept = filter (\<lambda>r. \<not> pr_created_at r < cutoff) (mruns db)
      in (length (mruns db) - length kept, db\<lparr>mruns := kept\<rparr>))"

subsection \<open>Cancellation\<close>

record probe_cancel =
  pc_agent_id :: int
  pc_run_id :: string
  pc_reason :: string

definition cancelled_run :: "string \<Rightarrow> instant \<Rightarrow> probe_run \<Rightarrow> probe_run" where
  "cancelled_run reason now r =
     r\<lparr>pr_status := RS_cancelled, pr_error_code := Some (take 64 reason), pr_completed_at := Some now\<rparr>"

definition cancel_match :: "int list option \<Rightarrow> int option \<Rightarrow> probe_run \<Rightarrow> bool" where
  "cancel_match monitor_ids agent_id r \<longleftrightarrow>
     active_status (pr_status r)
   \<and> (case monitor_ids of Some ids \<Rightarrow> pr_monitor_id r \<in> set ids | None \<Rightarrow> True)
   \<and> (case agent_id of Some a \<Rightarrow> pr_agent_id r = a | None \<Rightarrow> True)"

definition close_active_runs ::
  "string \<Rightarrow> int list option \<Rightarrow> int option \<Rightarrow> monitor_db \<Rightarrow> probe_cancel list \<times> monitor_db" where
  "close_active_runs reason monitor_ids agent_id db =
     (if monitor_ids = Some [] then ([], db)
      else
        (map (\<lambda>r. \<lparr> pc_agent_id = pr_agent_id r, pc_run_id = pr_run_id r, pc_reason = reason \<rparr>)
           (filter (cancel_match monitor_ids agent_id) (mruns db)),
         db\<lparr>mruns := map (\<lambda>r. if cancel_match monitor_ids agent_id r
                                   then cancelled_run reason (mclock db) r else r) (mruns db)\<rparr>))"

definition cancel_agent_probe_runs ::
  "int \<Rightarrow> string \<Rightarrow> monitor_db \<Rightarrow> probe_cancel list \<times> live_entry list \<times> monitor_db" where
  "cancel_agent_probe_runs agent_id reason db =
     (case close_active_runs reason None (Some agent_id) db of
        (cancels, db1) \<Rightarrow>
          (cancels, condition_all EX_unavailable reason (mclock db)
             (sort (map mi_id (filter (\<lambda>m. mi_probe_agent_id m = Some agent_id) (mitems db1)))) ([], db1)))"

definition set_paused :: "int \<Rightarrow> bool \<Rightarrow> monitor_db \<Rightarrow> probe_cancel list \<times> monitor_db" where
  "set_paused monitor_id paused db =
     (case get_item monitor_id db of
        None \<Rightarrow> ([], db)
      | Some item \<Rightarrow>
          let db1 = upd_item monitor_id (\<lambda>m. m\<lparr>mi_enabled := \<not> paused,
                        mi_next_due_at := (if paused then mi_next_due_at m else mclock db)\<rparr>) db;
              (cancels, db2) = (if paused then close_active_runs ''monitor_paused'' (Some [monitor_id]) None db1
                                else ([], db1))
          in (cancels, add_event monitor_id (if paused then Ev_paused else Ev_resumed) (mi_last_status item)
                (or_pending (mi_last_status item))
                (if paused then ''paused by user'' else ''resumed by user'') None db2))"

text \<open>Deleting a monitor cascades to its runs and events.\<close>

definition delete_monitor :: "int \<Rightarrow> monitor_db \<Rightarrow> bool \<times> probe_cancel list \<times> monitor_db" where
  "delete_monitor monitor_id db =
     (case get_item monitor_id db of
        None \<Rightarrow> (False, [], db)
      | Some item \<Rightarrow>
          let (cancels, db1) = close_active_runs ''monitor_deleted'' (Some [monitor_id]) None db
          in (True, cancels,
              db1\<lparr>mitems := filter (\<lambda>m. mi_id m \<noteq> monitor_id) (mitems db1),
                  mruns := filter (\<lambda>r. pr_monitor_id r \<noteq> monitor_id) (mruns db1),
                  mevents := filter (\<lambda>e. me_item_id e \<noteq> monitor_id) (mevents db1)\<rparr>))"

subsection \<open>The machine\<close>

record enqueue_args =
  ea_cfg :: deadline_config
  ea_conv :: str_conv
  ea_publish :: "queue_message \<Rightarrow> bool"
  ea_rnd :: "int \<Rightarrow> rat"
  ea_token :: "int \<Rightarrow> string"
  ea_batch :: nat
  ea_per_vantage :: nat
  ea_oversample :: nat
  ea_held :: "int list"

text \<open>
  Every operation that touches a run, each in its own transaction; \<open>Raced_open\<close> is the insert
  of a scheduler whose pre-check ran before another one's insert.
\<close>

datatype probe_event =
    Pass nat
  | Enqueue enqueue_args
  | Raced_open deadline_config str_conv string monitor_item
  | Dispatch eligibility bool string
  | Ingest probe_deps inventory agent_row json "instant option"
  | Reconcile vantage_env instant
  | Purge instant
  | Cancel_agent int string
  | Pause int bool
  | Delete int
  | Server_results inventory "monitor_result list"

fun probe_step :: "probe_event \<Rightarrow> monitor_db \<Rightarrow> monitor_db" where
  "probe_step (Pass d) db = db\<lparr>mclock := mclock db + int d\<rparr>"
| "probe_step (Enqueue a) db =
     snd (enqueue_due (ea_cfg a) (ea_conv a) (ea_publish a) (ea_rnd a) (ea_token a)
            (ea_batch a) (ea_per_vantage a) (ea_oversample a) (ea_held a) db)"
| "probe_step (Raced_open cfg cv run_id item) db = snd (open_run cfg cv run_id item db)"
| "probe_step (Dispatch decision delivered run_id) db = snd (dispatch_run decision delivered run_id db)"
| "probe_step (Ingest deps ivt agent payload t) db = snd (ingest_probe_result deps ivt agent payload t db)"
| "probe_step (Reconcile env now) db = snd (snd (reconcile env now db))"
| "probe_step (Purge now) db = snd (purge_probe_runs now db)"
| "probe_step (Cancel_agent a reason) db = snd (snd (cancel_agent_probe_runs a reason db))"
| "probe_step (Pause i p) db = snd (set_paused i p db)"
| "probe_step (Delete i) db = snd (snd (delete_monitor i db))"
| "probe_step (Server_results ivt rs) db =
     snd (persist_results ivt (mclock db) (map (\<lambda>r. r\<lparr>mr_run_id := None\<rparr>) rs) db)"

subsection \<open>How the run table evolves\<close>

definition run_kept :: "probe_run \<Rightarrow> probe_run \<Rightarrow> bool" where
  "run_kept r r' \<longleftrightarrow> pr_run_id r' = pr_run_id r \<and> pr_monitor_id r' = pr_monitor_id r
     \<and> (active_status (pr_status r) \<or> r' = r)"

definition active_of :: "int \<Rightarrow> probe_run list \<Rightarrow> probe_run list" where
  "active_of i rs = filter (\<lambda>r. pr_monitor_id r = i \<and> active_status (pr_status r)) rs"

definition runs_ok :: "probe_run list \<Rightarrow> bool" where
  "runs_ok rs \<longleftrightarrow> keys_distinct pr_run_id rs \<and> (\<forall>i. length (active_of i rs) \<le> 1)"

text \<open>
  A run table evolves by updates of active rows that keep their identity, and by new active rows
  under a fresh id for a monitor that has no active row.
\<close>

inductive evolves :: "probe_run list \<Rightarrow> probe_run list \<Rightarrow> bool" where
  same: "evolves rs rs"
| updated: "evolves rs rs' \<Longrightarrow> list_all (\<lambda>r. run_kept r (f r)) rs' \<Longrightarrow> evolves rs (map f rs')"
| opened: "evolves rs rs' \<Longrightarrow> pr_run_id r \<notin> pr_run_id ` set rs' \<Longrightarrow> active_of (pr_monitor_id r) rs' = []
    \<Longrightarrow> evolves rs (rs' @ [r])"

inductive_cases evolves_NilE: "evolves rs []"

lemma evolves_trans: "evolves b c \<Longrightarrow> evolves a b \<Longrightarrow> evolves a c"
  by (induction rule: evolves.induct) (auto intro: evolves.intros)

lemma active_of_map:
  "list_all (\<lambda>r. run_kept r (f r)) rs \<Longrightarrow> length (active_of i (map f rs)) \<le> length (active_of i rs)"
  by (induction rs) (auto simp: active_of_def run_kept_def)

lemma evolves_ok: "evolves rs rs' \<Longrightarrow> runs_ok rs \<Longrightarrow> runs_ok rs'"
proof (induction rule: evolves.induct)
  case (updated rs rs' f)
  have "map pr_run_id (map f rs') = map pr_run_id rs'"
    using updated.hyps(2) by (auto simp: run_kept_def list_all_iff)
  then have "keys_distinct pr_run_id (map f rs')"
    using updated.IH updated.prems unfolding runs_ok_def keys_distinct_def by metis
  moreover have "length (active_of i (map f rs')) \<le> 1" for i
    using active_of_map [OF updated.hyps(2)] updated.IH [OF updated.prems] unfolding runs_ok_def
    by (meson order_trans)
  ultimately show ?case by (simp add: runs_ok_def)
next
  case (opened rs rs' r)
  from opened.IH [OF opened.prems] have ok: "runs_ok rs'" .
  have "length (active_of i (rs' @ [r])) \<le> 1" for i
    using ok opened.hyps(3) by (cases "i = pr_monitor_id r") (auto simp: runs_ok_def active_of_def)
  with ok opened.hyps(2) show ?case by (simp add: runs_ok_def keys_distinct_def)
qed simp

lemma evolves_closed:
  "evolves rs rs' \<Longrightarrow> r \<in> set rs \<Longrightarrow> \<not> active_status (pr_status r) \<Longrightarrow> r \<in> set rs'"
proof (induction rule: evolves.induct)
  case (updated rs rs' f)
  then have "f r = r" "r \<in> set rs'" by (auto simp: list_all_iff run_kept_def)
  then show ?case by (metis image_eqI list.set_map)
qed auto

lemma runs_ok_filter: "runs_ok rs \<Longrightarrow> runs_ok (filter P rs)"
proof -
  assume ok: "runs_ok rs"
  have "active_of i (filter P rs) = filter P (active_of i rs)" for i
    by (auto simp: active_of_def intro: filter_cong)
  with ok show ?thesis
    by (auto simp: runs_ok_def keys_distinct_def distinct_map_filter intro: order_trans [OF length_filter_le])
qed

lemma get_run_in: "get_run q db = Some r \<Longrightarrow> r \<in> set (mruns db) \<and> pr_run_id r = q"
  by (auto simp: get_run_def dest: tbl_get_Some)

text \<open>Updating an active run by its id, with an update that keeps its identity.\<close>

lemma evolves_tbl_upd:
  assumes "runs_ok (mruns db)" "get_run q db = Some r" "active_status (pr_status r)"
    and "\<And>x. pr_run_id (f x) = pr_run_id x \<and> pr_monitor_id (f x) = pr_monitor_id x"
  shows "evolves (mruns db) (tbl_upd pr_run_id q f (mruns db))"
proof -
  have "x = r" if "x \<in> set (mruns db)" "pr_run_id x = q" for x
    using that get_run_in [OF assms(2)] assms(1)
    by (auto simp: runs_ok_def keys_distinct_def distinct_map inj_on_def)
  then show ?thesis
    unfolding tbl_upd_def using assms(3,4)
    by (intro updated same) (auto simp: list_all_iff run_kept_def)
qed

subsection \<open>Every operation evolves the table\<close>

lemma condition_all_frame [simp]:
  "mruns (snd (condition_all st reason now ids acc)) = mruns (snd acc)"
  "mclock (snd (condition_all st reason now ids acc)) = mclock (snd acc)"
  "map mi_id (mitems (snd (condition_all st reason now ids acc))) = map mi_id (mitems (snd acc))"
proof -
  let ?f = "\<lambda>i (live, db). case record_execution_condition i st (Some reason) now db of
             (Some e, db') \<Rightarrow> (live @ [e], db') | (None, db') \<Rightarrow> (live, db')"
  have "snd (?f i a) = snd (record_execution_condition i st (Some reason) now (snd a))" for i a
    by (simp split: prod.splits option.splits)
  note this [simp] condition_frame [simp]
  show "mruns (snd (condition_all st reason now ids acc)) = mruns (snd acc)"
    unfolding condition_all_def by (rule fold_keeps [where g = "\<lambda>a. mruns (snd a)"]) simp
  show "mclock (snd (condition_all st reason now ids acc)) = mclock (snd acc)"
    unfolding condition_all_def by (rule fold_keeps [where g = "\<lambda>a. mclock (snd a)"]) simp
  show "map mi_id (mitems (snd (condition_all st reason now ids acc))) = map mi_id (mitems (snd acc))"
    unfolding condition_all_def by (rule fold_keeps [where g = "\<lambda>a. map mi_id (mitems (snd a))"]) simp
qed

lemma insert_run_evolves: "insert_run r db = Some db' \<Longrightarrow> evolves (mruns db) (mruns db')"
  using opened [OF same, of r "mruns db"]
  by (auto simp: insert_run_def get_run_def tbl_get_None active_runs_def active_of_def split: if_splits)

lemma open_run_evolves: "evolves (mruns db) (mruns (snd (open_run cfg cv run_id item db)))"
  by (auto simp: open_run_def mark_in_flight_def split: option.splits intro: same dest: insert_run_evolves)

lemma open_run_Some:
  assumes "open_run cfg cv run_id item db = (Some q, db')"
  shows "q = run_id \<and> (\<exists>r. get_run q db' = Some r \<and> active_status (pr_status r))"
proof -
  let ?r = "new_run run_id (mi_id item) (case mi_probe_agent_id item of Some a \<Rightarrow> a | None \<Rightarrow> 0)
             (probe_deadline_seconds cfg cv (mi_check_type item) (mi_params item)) (mclock db)"
  have r: "pr_run_id ?r = run_id" "active_status (pr_status ?r)" by (simp_all add: new_run_def active_status_def)
  have get: "tbl_get pr_run_id run_id (mruns db @ [?r]) = Some ?r" if "tbl_get pr_run_id run_id (mruns db) = None"
    using that r(1) by (simp add: tbl_get_append tbl_get_Cons)
  from assms r get show ?thesis
    by (auto simp: open_run_def insert_run_def get_run_def split: option.splits if_splits)
qed

lemma create_probe_run_evolves: "evolves (mruns db) (mruns (snd (create_probe_run cfg cv run_id item db)))"
  by (simp add: create_probe_run_def mark_in_flight_def open_run_evolves same)

lemma record_dispatch_failure_evolves:
  assumes "runs_ok (mruns db)" "get_run q db = Some r" "active_status (pr_status r)"
  shows "evolves (mruns db) (mruns (record_dispatch_failure rnd item q db))"
  using evolves_tbl_upd [OF assms, of "\<lambda>r. r\<lparr>pr_status := RS_execution_error, pr_error_code := Some ''dispatch_failed'',
                                 pr_completed_at := Some (mclock db)\<rparr>"]
  by (simp add: record_dispatch_failure_def upd_run_def)

lemma enqueue_item_evolves:
  assumes "runs_ok (mruns (snd acc))"
  shows "evolves (mruns (snd acc)) (mruns (snd (enqueue_item cfg cv publish rnd token item acc)))"
proof -
  obtain n db where acc: "acc = (n, db)" by (cases acc)
  obtain q db' where cr: "create_probe_run cfg cv (token (mi_id item)) item db = (q, db')"
    by (cases "create_probe_run cfg cv (token (mi_id item)) item db")
  have ev: "evolves (mruns db) (mruns db')"
    using create_probe_run_evolves [of db cfg cv "token (mi_id item)" item] by (simp add: cr)
  have "evolves (mruns db) (mruns (record_dispatch_failure rnd item p db'))" if "q = Some p" for p
  proof -
    have "open_run cfg cv (token (mi_id item)) item db = (Some p, db')"
      using cr that by (auto simp: create_probe_run_def split: if_splits)
    then obtain r where "get_run p db' = Some r" "active_status (pr_status r)" using open_run_Some by blast
    with evolves_ok [OF ev] assms acc show ?thesis
      by (intro evolves_trans [OF record_dispatch_failure_evolves ev]) auto
  qed
  with ev show ?thesis
    by (auto simp: enqueue_item_def acc cr intro: same split: option.splits)
qed

lemma enqueue_fold_evolves:
  "runs_ok (mruns (snd acc)) \<Longrightarrow>
     evolves (mruns (snd acc)) (mruns (snd (fold (enqueue_item cfg cv publish rnd token) items acc)))"
proof (induction items arbitrary: acc)
  case (Cons i items)
  have e: "evolves (mruns (snd acc)) (mruns (snd (enqueue_item cfg cv publish rnd token i acc)))"
    using Cons.prems by (rule enqueue_item_evolves)
  from Cons.IH [OF evolves_ok [OF e Cons.prems]] e show ?case by (simp add: evolves_trans)
qed (simp add: same)

lemma claim_runs: "mruns (snd (claim_due_items b p oversample h rnd db)) = mruns db"
  by (simp add: claim_due_items_def Let_def)

lemma enqueue_due_evolves:
  "runs_ok (mruns db) \<Longrightarrow>
     evolves (mruns db) (mruns (snd (enqueue_due cfg cv publish rnd token b p oversample h db)))"
  using enqueue_fold_evolves [of "(0, snd (claim_due_items b p oversample h rnd db))" cfg cv publish rnd token]
  by (simp add: enqueue_due_def claim_runs split: prod.splits) (metis claim_runs snd_conv)

lemma dispatch_evolves:
  assumes "runs_ok (mruns db)"
  shows "evolves (mruns db) (mruns (snd (dispatch_run decision delivered q db)))"
proof (cases "dispatch_load q db")
  case None
  then show ?thesis by (simp add: dispatch_run_def same)
next
  case (Some rm)
  obtain r m where rm: "rm = (r, m)" by (cases rm)
  with Some have r: "get_run q db = Some r" "active_status (pr_status r)" "pr_run_id r = q"
    by (auto simp: dispatch_load_def active_status_def dest: get_run_id split: option.splits if_splits)
  have U: "evolves (mruns db) (tbl_upd pr_run_id q (unavailable_run reason detail t) (mruns db))" for reason detail t
    by (rule evolves_tbl_upd [OF assms r(1,2)]) (simp add: unavailable_run_def)
  have D: "evolves (mruns db) (tbl_upd pr_run_id q (dispatched_run n t) (mruns db))" for n t
    by (rule evolves_tbl_upd [OF assms r(1,2)]) (simp add: dispatched_run_def)
  show ?thesis
    using U D by (auto simp: dispatch_run_def Some rm dispatch_write_def close_unavailable_def upd_run_def r(3)
        intro: same split: eligibility.splits)
qed

lemma ingest_evolves:
  assumes "runs_ok (mruns db)"
  shows "evolves (mruns db) (mruns (snd (ingest_probe_result deps ivt agent payload t db)))"
proof (cases "\<exists>result outcome run monitor. addresses deps agent payload db result outcome run monitor")
  case False
  then show ?thesis using ingest_not_addressed by (metis same)
next
  case True
  then obtain result outcome run monitor where ad: "addresses deps agent payload db result outcome run monitor"
    by blast
  then have ids: "mi_id monitor = pr_monitor_id run" "pr_run_id run = pp_run_id result"
    and get: "get_run (pp_run_id result) db = Some run"
    by (auto simp: addresses_def dest: get_item_id get_run_id)
  let ?t = "case t of Some t' \<Rightarrow> t' | None \<Rightarrow> mclock db"
  obtain f where f: "closing f" "mruns (snd (accept_result ivt (ag_id agent) run monitor result outcome ?t db))
        = tbl_upd pr_run_id (pp_run_id result) f (mruns db)"
    using accept_effect(1) [OF ids(1), of ivt "ag_id agent" result outcome ?t db] unfolding ids(2) by blast
  have "evolves (mruns db) (tbl_upd pr_run_id (pp_run_id result) f (mruns db))" if "active_status (pr_status run)"
    using f(1) that by (intro evolves_tbl_upd [OF assms get]) (simp_all add: closing_def)
  then show ?thesis using f(2) by (simp add: ingest_addressed [OF ad] Let_def same)
qed

lemma expire_evolves:
  assumes "runs_ok (mruns db)"
  shows "evolves (mruns db) (mruns (snd (snd (expire_overdue_runs now (live, db)))))"
proof -
  have "active_status (pr_status r)" if "r \<in> set (mruns db)" "pr_run_id r \<in> set (expire_ids now db)" for r
  proof -
    from that(2) obtain x where x: "x \<in> set (mruns db)" "overdue now x" "pr_run_id x = pr_run_id r"
      by (auto simp: expire_ids_def dest!: in_set_takeD)
    with that(1) assms have "x = r" by (auto simp: runs_ok_def keys_distinct_def distinct_map inj_on_def)
    with x show ?thesis by (simp add: overdue_def)
  qed
  then show ?thesis
    by (auto simp: expire_overdue_runs_def Let_def list_all_iff run_kept_def expired_run_def intro!: updated same)
qed

lemma reconcile_runs: "mruns (snd (snd (reconcile env now db))) = mruns (snd (snd (expire_overdue_runs now ([], db))))"
  by (simp add: reconcile_def mark_stale_def Let_def split: prod.splits)

lemma close_active_runs_evolves: "evolves (mruns db) (mruns (snd (close_active_runs reason ms a db)))"
  by (auto simp: close_active_runs_def list_all_iff run_kept_def cancel_match_def cancelled_run_def
      intro!: updated same)

lemma list_all2_transfer:
  "list_all2 P xs ys \<Longrightarrow> list_all Q xs \<Longrightarrow> (\<And>x y. P x y \<Longrightarrow> Q x \<Longrightarrow> R y) \<Longrightarrow> list_all R ys"
  by (induction rule: list_all2_induct) auto

lemma persist_no_run:
  assumes "list_all (\<lambda>r. mr_run_id r = None) rs"
  shows "mruns (snd (persist_results ivt now rs db)) = mruns db"
proof -
  have fold: "list_all (\<lambda>r. mr_run_id r = None) xs \<Longrightarrow>
      mruns (snd (snd (fold persist_one xs (t, l, d)))) = mruns d" for xs t l d
  proof (induction xs arbitrary: t l d)
    case (Cons r xs)
    obtain t' l' d' where s: "persist_one r (t, l, d) = (t', l', d')" by (cases "persist_one r (t, l, d)")
    with Cons.prems persist_one_runs [of r t l d] have "mruns d' = mruns d" by simp
    with Cons s show ?case by simp
  qed simp
  let ?adj = "result_overrides ivt now (filter completed rs)"
  have "list_all (\<lambda>r. mr_run_id r = None) ?adj"
    by (rule list_all2_transfer [OF overrides_ok, of "\<lambda>r. mr_run_id r = None"])
      (use assms override_ok_identity in \<open>auto simp: list_all_iff\<close>)
  moreover have "set (put_back xs as) \<subseteq> set xs \<union> set as" for xs as
    by (induction xs as rule: put_back.induct) auto
  ultimately have "list_all (\<lambda>r. mr_run_id r = None) (put_back rs ?adj)"
    using assms by (fastforce simp: list_all_iff)
  then show ?thesis
    using fold by (auto simp: persist_results_def Let_def split: prod.splits) (metis snd_conv write_samples_frame(1))
qed

text \<open>One step evolves the table and may drop rows.\<close>

lemma step_runs:
  assumes "runs_ok (mruns db)"
  obtains P rs where "evolves (mruns db) rs" "mruns (probe_step e db) = filter P rs"
proof -
  note out = that
  have keep: thesis if "evolves (mruns db) (mruns (probe_step e db))"
    by (rule out [OF that, of "\<lambda>_. True"]) simp
  show thesis
  proof (cases e)
    case (Purge now)
    show thesis by (rule that [OF same]) (simp add: Purge purge_probe_runs_def Let_def)
  next
    case (Delete i)
    show thesis
    proof (cases "get_item i db")
      case (Some item)
      show thesis
        by (rule out [OF close_active_runs_evolves [of db "''monitor_deleted''" "Some [i]" None],
              of "\<lambda>r. pr_monitor_id r \<noteq> i"])
          (simp add: Delete delete_monitor_def Some split: prod.splits)
    qed (use Delete keep in \<open>simp add: delete_monitor_def same\<close>)
  next
    case (Server_results ivt rs)
    then show thesis using keep persist_no_run [of "map (\<lambda>r. r\<lparr>mr_run_id := None\<rparr>) rs" ivt "mclock db" db]
      by (simp add: list_all_iff same)
  next
    case (Pause i p)
    have "evolves (mruns db) (mruns (snd (set_paused i p db)))"
      using close_active_runs_evolves [of "upd_item i f db" for f]
      by (auto simp: set_paused_def Let_def same split: option.splits prod.splits) (metis snd_conv upd_item_frame(2))
    with Pause keep show thesis by simp
  next
    case (Cancel_agent a reason)
    have "evolves (mruns db) (mruns (snd (snd (cancel_agent_probe_runs a reason db))))"
      using close_active_runs_evolves [of db reason None "Some a"]
      by (cases "close_active_runs reason None (Some a) db") (simp add: cancel_agent_probe_runs_def)
    with Cancel_agent keep show thesis by simp
  qed (use keep assms in \<open>simp_all add: same enqueue_due_evolves open_run_evolves dispatch_evolves
        ingest_evolves reconcile_runs expire_evolves\<close>)
qed

subsection \<open>At most one run per monitor, and closed runs stay closed\<close>

lemma probe_step_ok: "runs_ok (mruns db) \<Longrightarrow> runs_ok (mruns (probe_step e db))"
  by (rule step_runs [of db e]) (auto intro: runs_ok_filter evolves_ok)

interpretation runs: invariant_machine probe_step "\<lambda>db. runs_ok (mruns db)"
  by unfold_locales (rule probe_step_ok)

lemma runs_ok_Nil: "mruns db = [] \<Longrightarrow> runs_ok (mruns db)"
  by (simp add: runs_ok_def keys_distinct_def active_of_def)

text \<open>
  C2. Whatever the scheduler, racing schedulers, the dispatcher, agents, reconciliation,
  retention, pausing, deletion and revocation do in whatever order, a monitor never has more than
  one queued or dispatched run and no two runs share an id.
\<close>

theorem one_active_run_per_monitor:
  assumes "mruns db = []"
  shows "length (active_runs i (fold probe_step es db)) \<le> 1
       \<and> distinct (map pr_run_id (mruns (fold probe_step es db)))"
  using runs.run_inv [OF runs_ok_Nil [OF assms], of es]
  by (simp add: runs_ok_def active_of_def active_runs_def keys_distinct_def)

text \<open>
  C9. A closed run is immutable: once a run is completed, failed, expired or cancelled, no
  operation reopens it or changes a column of it; its row stays exactly as it is or is removed
  by retention or with its monitor.
\<close>

theorem closed_run_immutable:
  assumes "mruns db = []" "get_run q (fold probe_step es db) = Some r" "\<not> active_status (pr_status r)"
  shows "get_run q (probe_step e (fold probe_step es db)) \<in> {None, Some r}"
proof -
  define db1 where "db1 = fold probe_step es db"
  have ok: "runs_ok (mruns db1)" unfolding db1_def by (rule runs.run_inv [OF runs_ok_Nil [OF assms(1)]])
  have r: "r \<in> set (mruns db1)" "pr_run_id r = q" using get_run_in assms(2) db1_def by blast+
  obtain P rs where ev: "evolves (mruns db1) rs" "mruns (probe_step e db1) = filter P rs"
    by (rule step_runs [OF ok])
  have "r \<in> set rs" by (rule evolves_closed [OF ev(1) r(1) assms(3)])
  moreover have "keys_distinct pr_run_id rs" using evolves_ok [OF ev(1) ok] by (simp add: runs_ok_def)
  ultimately have "x = r" if "get_run q (probe_step e db1) = Some x" for x
    using get_run_in [OF that] r(2) unfolding ev(2)
    by (auto simp: keys_distinct_def distinct_map inj_on_def)
  then show ?thesis unfolding db1_def by (cases "get_run q (probe_step e (fold probe_step es db))") auto
qed

subsection \<open>No monitor stays wedged\<close>

lemma filter_not_in_take:
  assumes "distinct (map g xs)"
  shows "filter (\<lambda>x. g x \<notin> g ` set (take n xs)) xs = drop n xs"
proof -
  have d: "set (map g (take n xs)) \<inter> set (map g (drop n xs)) = {}"
    using assms by (metis append_take_drop_id distinct_append map_append)
  have "filter (\<lambda>x. g x \<notin> g ` set (take n xs)) (take n xs) = []"
    "filter (\<lambda>x. g x \<notin> g ` set (take n xs)) (drop n xs) = drop n xs"
    using d by (auto simp: filter_empty_conv filter_id_conv)
  then show ?thesis by (metis append_Nil append_take_drop_id filter_append)
qed

lemma length_filter_sort: "length (filter P (sort_key f xs)) = length (filter P xs)"
  by (simp add: filter_sort)

lemma expire_overdue_count:
  assumes "runs_ok (mruns db)"
  shows "length (filter (overdue now) (mruns (snd (snd (reconcile env now db)))))
       = length (filter (overdue now) (mruns db)) - EXPIRE_LIMIT"
proof -
  define late where "late = sort_key pr_scheduled_at (filter (overdue now) (mruns db))"
  define ids where "ids = set (expire_ids now db)"
  have ids: "ids = pr_run_id ` set (take EXPIRE_LIMIT late)" by (simp add: ids_def expire_ids_def late_def)
  have runs: "mruns (snd (snd (reconcile env now db)))
      = map (\<lambda>r. if pr_run_id r \<in> ids then expired_run now r else r) (mruns db)"
    by (simp add: reconcile_runs expire_overdue_runs_def Let_def ids_def)
  have not: "\<not> overdue now (expired_run now r)" for r
    by (simp add: overdue_def expired_run_def active_status_def)
  have "length (filter (overdue now) (map (\<lambda>r. if pr_run_id r \<in> ids then expired_run now r else r) rs))
      = length (filter (\<lambda>r. pr_run_id r \<notin> ids) (filter (overdue now) rs))" for rs
    by (induction rs) (auto simp: not)
  also have "\<dots> rs = length (filter (\<lambda>r. pr_run_id r \<notin> ids) (sort_key pr_scheduled_at (filter (overdue now) rs)))" for rs
    by (rule length_filter_sort [symmetric])
  finally have "length (filter (overdue now) (mruns (snd (snd (reconcile env now db)))))
      = length (filter (\<lambda>r. pr_run_id r \<notin> ids) late)" unfolding runs late_def .
  also have "distinct (map pr_run_id (filter (overdue now) (mruns db)))"
    using assms by (simp add: runs_ok_def keys_distinct_def distinct_map_filter)
  then have "distinct (map pr_run_id late)"
    unfolding late_def by (simp add: distinct_map)
  then have "filter (\<lambda>r. pr_run_id r \<notin> ids) late = drop EXPIRE_LIMIT late"
    unfolding ids by (rule filter_not_in_take)
  finally show ?thesis by (simp add: late_def)
qed

definition reconcile_pass :: "vantage_env \<Rightarrow> instant \<Rightarrow> monitor_db \<Rightarrow> monitor_db" where
  "reconcile_pass env now db = snd (snd (reconcile env now db))"

lemma reconcile_pass_runs:
  "mruns (reconcile_pass env now db) =
     map (\<lambda>r. if pr_run_id r \<in> set (expire_ids now db) then expired_run now r else r) (mruns db)"
  by (simp add: reconcile_pass_def reconcile_runs expire_overdue_runs_def Let_def)

lemma reconcile_pass_items: "map mi_id (mitems (reconcile_pass env now db)) = map mi_id (mitems db)"
  by (simp add: reconcile_pass_def reconcile_def mark_stale_def expire_overdue_runs_def Let_def)

lemma reconcile_passes:
  assumes "runs_ok (mruns db)"
  shows "runs_ok (mruns ((reconcile_pass env now ^^ k) db))"
    "length (filter (overdue now) (mruns ((reconcile_pass env now ^^ k) db)))
       = length (filter (overdue now) (mruns db)) - EXPIRE_LIMIT * k"
    "{r \<in> set (mruns ((reconcile_pass env now ^^ k) db)). active_status (pr_status r)} \<subseteq> set (mruns db)"
    "map mi_id (mitems ((reconcile_pass env now ^^ k) db)) = map mi_id (mitems db)"
    "map pr_run_id (mruns ((reconcile_pass env now ^^ k) db)) = map pr_run_id (mruns db)"
proof (induction k)
  case (Suc k)
  let ?d = "(reconcile_pass env now ^^ k) db"
  have step: "(reconcile_pass env now ^^ Suc k) db = reconcile_pass env now ?d" by simp
  { case 1 show ?case unfolding step using Suc.IH(1) probe_step_ok [of ?d "Reconcile env now"]
      unfolding probe_step.simps reconcile_pass_def [symmetric] by blast }
  { case 2 show ?case unfolding step
      using Suc.IH(1,2) expire_overdue_count [of ?d now env] unfolding reconcile_pass_def [symmetric] by simp }
  { case 3 show ?case unfolding step reconcile_pass_runs
      using Suc.IH(3) by (auto simp: expired_run_def active_status_def split: if_splits) }
  { case 4 show ?case unfolding step reconcile_pass_items using Suc.IH(4) by simp }
  { case 5
    have "map pr_run_id (mruns (reconcile_pass env now ?d)) = map pr_run_id (mruns ?d)"
      unfolding reconcile_pass_runs by (induction "mruns ?d") (auto simp: expired_run_def)
    then show ?case unfolding step using Suc.IH(5) by simp }
qed (use assms in auto)

text \<open>
  C34. A silent agent cannot wedge a monitor: if every active run of a monitor is past its
  deadline and grace at some moment, then after enough reconciliation passes at that moment to
  work off all overdue runs, five hundred per pass, the monitor has no active run and a new run
  for it opens.
\<close>

theorem overdue_runs_never_wedge:
  assumes "runs_ok (mruns db)"
    and "length (filter (overdue now) (mruns db)) \<le> 500 * k"
    and "list_all (overdue now) (active_runs (mi_id item) db)"
    and "mi_id item \<in> mi_id ` set (mitems db)"
    and "token \<notin> pr_run_id ` set (mruns db)"
  shows "active_runs (mi_id item) ((reconcile_pass env now ^^ k) db) = []
       \<and> fst (create_probe_run cfg cv token item ((reconcile_pass env now ^^ k) db)) = Some token"
proof -
  let ?d = "(reconcile_pass env now ^^ k) db"
  have none: "filter (overdue now) (mruns ?d) = []"
    using reconcile_passes(2) [OF assms(1), where env = env and now = now and k = k] assms(2) by (simp add: EXPIRE_LIMIT_def)
  have act: "active_runs (mi_id item) ?d = []"
  proof (rule ccontr)
    assume "active_runs (mi_id item) ?d \<noteq> []"
    then obtain r where r: "r \<in> set (mruns ?d)" "pr_monitor_id r = mi_id item" "active_status (pr_status r)"
      by (auto simp: active_runs_def filter_empty_conv)
    then have "r \<in> set (active_runs (mi_id item) db)"
      using reconcile_passes(3) [OF assms(1)] by (auto simp: active_runs_def)
    with assms(3) have "overdue now r" by (simp add: list_all_iff)
    with none r(1) show False by (simp add: filter_empty_conv)
  qed
  have "get_item (mi_id item) ?d \<noteq> None"
    unfolding get_item_present reconcile_passes(4) [OF assms(1)] using assms(4) by simp
  moreover have "get_run token ?d = None"
  proof -
    have "pr_run_id ` set (mruns ?d) = pr_run_id ` set (mruns db)"
      using reconcile_passes(5) [OF assms(1), where env = env and now = now and k = k] by (metis list.set_map)
    with assms(5) show ?thesis by (simp add: get_run_def tbl_get_None)
  qed
  ultimately have "insert_run (new_run token (mi_id item) a dl (mclock ?d)) ?d \<noteq> None" for a dl
    using act by (simp add: insert_run_def new_run_def)
  with act show ?thesis by (auto simp: create_probe_run_def open_run_def split: option.splits)
qed

text \<open>
  A result is accepted exactly while the expiry pass would not yet write the run off.
\<close>

lemma late_iff_overdue:
  "active_status (pr_status r) \<Longrightarrow> pr_deadline_at r = Some d \<Longrightarrow> is_late now r \<longleftrightarrow> overdue now r"
  by (auto simp: is_late_def overdue_def lease_end_def LATE_RESULT_GRACE_def RESULT_TIMEOUT_GRACE_S_def)

subsection \<open>The dispatch race\<close>

text \<open>
  Between its load and its write a dispatch holds no lock: if the run is closed in that
  interval, for instance because the agent's result was accepted, the dispatcher's write still
  succeeds and marks the closed run dispatched again, so that it holds the monitor's slot.
\<close>

theorem dispatch_race_reopens_closed_run:
  assumes "dispatch_load q db = Some (run, monitor)" "pr_deadline_at run \<noteq> None"
    and "get_run q db1 = Some r1" "\<not> active_status (pr_status r1)" "active_runs (pr_monitor_id run) db1 = []"
  shows "fst (dispatch_write Eligible True run monitor db1) = Published
       \<and> map_option pr_status (get_run q (snd (dispatch_write Eligible True run monitor db1))) = Some RS_dispatched"
proof -
  have "pr_run_id run = q"
    using assms(1) by (auto simp: dispatch_load_def dest: get_run_id split: option.splits if_splits)
  moreover have "get_run q (upd_run q (dispatched_run n t) db1) = Some (dispatched_run n t r1)" for n t
    using assms(3) get_run_upd_same [of "dispatched_run n t" q db1] by (simp add: dispatched_run_def)
  ultimately show ?thesis using assms(2,5) by (auto simp: dispatch_write_def) (simp add: dispatched_run_def)
qed

subsection \<open>Witnesses\<close>

definition empty_env :: vantage_env where
  "empty_env = \<lparr> ve_agents = [], ve_granted = [], ve_readiness = [], ve_online = (\<lambda>_. False) \<rparr>"

definition no_conv :: str_conv where
  "no_conv = \<lparr> str_float = (\<lambda>_. None), str_int = (\<lambda>_. None) \<rparr>"

definition demo_enqueue :: enqueue_args where
  "demo_enqueue = \<lparr> ea_cfg = default_deadline_config, ea_conv = no_conv, ea_publish = (\<lambda>_. True), ea_rnd = (\<lambda>_. 0),
     ea_token = (\<lambda>_. ''r1''), ea_batch = 200, ea_per_vantage = 50, ea_oversample = 1000, ea_held = [] \<rparr>"

abbreviation demo_open :: monitor_db where
  "demo_open \<equiv> fold probe_step [Enqueue demo_enqueue, Raced_open default_deadline_config no_conv ''r2'' idle_monitor] idle_db"

theorem one_active_run_per_monitor_witness:
  "length (active_runs 7 demo_open) = 1 \<and> length (active_runs 7 demo_open) \<le> 1"
proof
  show "length (active_runs 7 demo_open) = 1" by code_simp
  have "mruns idle_db = []" by code_simp
  from one_active_run_per_monitor [OF this] show "length (active_runs 7 demo_open) \<le> 1" by blast
qed

theorem closed_run_immutable_witness:
  "get_run ''r1'' (probe_step (Dispatch Eligible True ''r1'')
     (fold probe_step [Enqueue demo_enqueue, Pause 7 True] idle_db)) \<noteq> None
   \<and> get_run ''r1'' (probe_step (Dispatch Eligible True ''r1'')
     (fold probe_step [Enqueue demo_enqueue, Pause 7 True] idle_db))
     \<in> {None, get_run ''r1'' (fold probe_step [Enqueue demo_enqueue, Pause 7 True] idle_db)}"
proof
  have "mruns idle_db = []" by code_simp
  moreover obtain r where "get_run ''r1'' (fold probe_step [Enqueue demo_enqueue, Pause 7 True] idle_db) = Some r"
    "pr_status r = RS_cancelled"
  proof -
    have "map_option pr_status (get_run ''r1'' (fold probe_step [Enqueue demo_enqueue, Pause 7 True] idle_db)) = Some RS_cancelled"
      by code_simp
    then show thesis using that by auto
  qed
  ultimately show "get_run ''r1'' (probe_step (Dispatch Eligible True ''r1'')
     (fold probe_step [Enqueue demo_enqueue, Pause 7 True] idle_db))
     \<in> {None, get_run ''r1'' (fold probe_step [Enqueue demo_enqueue, Pause 7 True] idle_db)}"
    using closed_run_immutable [of idle_db "''r1''" "[Enqueue demo_enqueue, Pause 7 True]" r "Dispatch Eligible True ''r1''"]
    by (simp add: active_status_def)
qed code_simp

theorem overdue_runs_never_wedge_witness:
  "fst (create_probe_run default_deadline_config no_conv ''r9'' idle_monitor
     ((reconcile_pass empty_env 60000000 ^^ 1) demo_db)) = Some ''r9''"
proof -
  have "runs_ok (mruns demo_db)"
    by (auto simp: demo_db_def runs_ok_def keys_distinct_def active_of_def)
  moreover have "length (filter (overdue 60000000) (mruns demo_db)) \<le> 500 * 1"
    "list_all (overdue 60000000) (active_runs (mi_id idle_monitor) demo_db)"
    "mi_id idle_monitor \<in> mi_id ` set (mitems demo_db)" "''r9'' \<notin> pr_run_id ` set (mruns demo_db)"
    by code_simp+
  ultimately show ?thesis using overdue_runs_never_wedge by blast
qed

abbreviation demo_answered :: monitor_db where
  "demo_answered \<equiv> snd (ingest_probe_result demo_deps no_inventory demo_agent (JObj []) (Some 5) demo_db)"

theorem dispatch_race_reopens_closed_run_witness:
  "map_option pr_status (get_run ''r1'' demo_answered) = Some RS_completed
   \<and> map_option pr_status (get_run ''r1''
       (snd (dispatch_write Eligible True (new_run ''r1'' 7 3 20 0) idle_monitor demo_answered))) = Some RS_dispatched"
proof -
  have st: "map_option pr_status (get_run ''r1'' demo_answered) = Some RS_completed" by code_simp
  then obtain r1 where r1: "get_run ''r1'' demo_answered = Some r1" "\<not> active_status (pr_status r1)"
    by (auto simp: active_status_def)
  have "dispatch_load ''r1'' demo_db = Some (new_run ''r1'' 7 3 20 0, idle_monitor)"
    "pr_deadline_at (new_run ''r1'' 7 3 20 0) \<noteq> None"
    "active_runs (pr_monitor_id (new_run ''r1'' 7 3 20 0)) demo_answered = []" by code_simp+
  from dispatch_race_reopens_closed_run [OF this(1,2) r1 this(3)] st show ?thesis by blast
qed

end
