(* ===== verification/Metric_Evaluator.thy ===== *)
theory Metric_Evaluator
  imports Prelude
begin

text \<open>
  \<open>services/monitoring/metric_evaluator.py\<close>: the pure sustained-threshold evaluator of
  metric alert rules, over the samples of \<open>metric_catalog.py\<close>.
\<close>

subsection \<open>Data\<close>

datatype comparator = Gt | Ge | Lt | Le

record metric_sample =
  ms_timestamp :: instant
  ms_value :: pyfloat
  ms_sample_id :: string

record rule_config =
  rc_enabled :: bool
  rc_comparator :: comparator
  rc_threshold :: pyfloat
  rc_breach_duration_s :: int
  rc_recovery_threshold :: pyfloat
  rc_recovery_duration_s :: int
  rc_max_gap_s :: int
  rc_freshness_s :: int

datatype assessment = A_disabled | A_unknown | A_normal | A_pending | A_firing | A_recovering

datatype alert_event = E_firing | E_recovered

record prior_state =
  ps_assessment :: assessment
  ps_open_incident_id :: "string option"

record evaluation_decision =
  ed_assessment :: assessment
  ed_reason_code :: string
  ed_pending_since :: "instant option"
  ed_recovery_since :: "instant option"
  ed_open_incident_id :: "string option"
  ed_last_sample_at :: "instant option"
  ed_event_type :: "alert_event option"

definition EvaluationDecision ::
  "assessment \<Rightarrow> string \<Rightarrow> instant option \<Rightarrow> instant option \<Rightarrow> string option \<Rightarrow> instant option
   \<Rightarrow> alert_event option \<Rightarrow> evaluation_decision" where
  "EvaluationDecision a r p q i l e =
     \<lparr> ed_assessment = a, ed_reason_code = r, ed_pending_since = p, ed_recovery_since = q,
       ed_open_incident_id = i, ed_last_sample_at = l, ed_event_type = e \<rparr>"

subsection \<open>The evaluator\<close>

fun compare :: "pyfloat \<Rightarrow> comparator \<Rightarrow> pyfloat \<Rightarrow> bool" where
  "compare v Gt t = flt_lt t v"
| "compare v Ge t = flt_le t v"
| "compare v Lt t = flt_lt v t"
| "compare v Le t = flt_le v t"

definition recovered :: "pyfloat \<Rightarrow> rule_config \<Rightarrow> bool" where
  "recovered v config =
     (if rc_comparator config \<in> {Gt, Ge} then flt_le v (rc_recovery_threshold config)
      else flt_le (rc_recovery_threshold config) v)"

text \<open>\<open>{s.sample_id: s for s in samples if isfinite(s.value)}\<close>: a repeated id keeps its place and takes the later sample.\<close>

definition unique_samples :: "metric_sample list \<Rightarrow> metric_sample list" where
  "unique_samples samples =
     map snd (fold (\<lambda>s d. AList.update (ms_sample_id s) s d) (filter (\<lambda>s. isfinite (ms_value s)) samples) [])"

definition ordered_samples :: "metric_sample list \<Rightarrow> metric_sample list" where
  "ordered_samples samples = sort_key ms_timestamp (unique_samples samples)"

text \<open>
  The loop over neighbouring samples of the list as it was before the loop; at a gap the list is
  cut down to the part from the right neighbour on.
\<close>

fun from_sample :: "metric_sample \<Rightarrow> metric_sample list \<Rightarrow> metric_sample list" where
  "from_sample r [] = []"
| "from_sample r (x # xs) = (if x = r then x # xs else from_sample r xs)"

fun cut_gaps :: "int \<Rightarrow> metric_sample list \<Rightarrow> metric_sample list \<Rightarrow> metric_sample list" where
  "cut_gaps max_gap (l # r # rest) kept =
     cut_gaps max_gap (r # rest)
       (if seconds max_gap < ms_timestamp r - ms_timestamp l then from_sample r kept else kept)"
| "cut_gaps max_gap _ kept = kept"

definition truthy :: "string option \<Rightarrow> bool" where
  "truthy s = (case s of Some x \<Rightarrow> x \<noteq> [] | None \<Rightarrow> False)"

definition evaluate_rule ::
  "rule_config \<Rightarrow> prior_state \<Rightarrow> metric_sample list \<Rightarrow> instant \<Rightarrow> evaluation_decision" where
  "evaluate_rule config prior samples now =
     (let inc = ps_open_incident_id prior in
      if \<not> rc_enabled config then EvaluationDecision A_disabled ''disabled'' None None inc None None
      else
        let ordered = ordered_samples samples in
        if ordered = [] then EvaluationDecision A_unknown ''no_samples'' None None inc None None
        else
          let latest = last ordered in
          if seconds (rc_freshness_s config) < now - ms_timestamp latest
          then EvaluationDecision A_unknown ''stale_samples'' None None inc (Some (ms_timestamp latest)) None
          else
            let kept = cut_gaps (rc_max_gap_s config) ordered ordered in
            if kept = [] then EvaluationDecision A_unknown ''sample_gap'' None None inc (Some (ms_timestamp latest)) None
            else
              let pred = (if truthy inc then (\<lambda>s. recovered (ms_value s) config)
                          else (\<lambda>s. compare (ms_value s) (rc_comparator config) (rc_threshold config)));
                  tail = rev (takeWhile pred (rev kept))
              in if tail = [] then
                   EvaluationDecision (if truthy inc then A_firing else A_normal) ''condition_not_met''
                     None None inc (Some (ms_timestamp latest)) None
                 else
                   let duration = ms_timestamp (last tail) - ms_timestamp (hd tail) in
                   if truthy inc then
                     (if seconds (rc_recovery_duration_s config) \<le> duration
                      then EvaluationDecision A_normal ''recovered'' None None None (Some (ms_timestamp latest)) (Some E_recovered)
                      else EvaluationDecision A_recovering ''recovery_duration'' None (Some (ms_timestamp (hd tail)))
                             inc (Some (ms_timestamp latest)) None)
                   else if seconds (rc_breach_duration_s config) \<le> duration
                   then EvaluationDecision A_firing ''threshold_duration'' None None None (Some (ms_timestamp latest)) (Some E_firing)
                   else EvaluationDecision A_pending ''breach_duration'' (Some (ms_timestamp (hd tail))) None None
                          (Some (ms_timestamp latest)) None)"

subsection \<open>Ordered samples\<close>

lemma ordered_sorted: "sorted (map ms_timestamp (ordered_samples samples))"
  by (simp add: ordered_samples_def)

lemma update_samples_inv:
  "list_all (\<lambda>(k, s). k = ms_sample_id s) d \<Longrightarrow>
     list_all (\<lambda>(k, s). k = ms_sample_id s) (AList.update (ms_sample_id x) x d)"
  by (induction d) (auto split: if_splits)

lemma unique_samples_distinct: "distinct (map ms_sample_id (unique_samples samples))"
proof -
  let ?f = "\<lambda>s d. AList.update (ms_sample_id s) s d"
  have "list_all (\<lambda>(k, s). k = ms_sample_id s) d \<Longrightarrow> distinct (map fst d) \<Longrightarrow>
      list_all (\<lambda>(k, s). k = ms_sample_id s) (fold ?f xs d) \<and> distinct (map fst (fold ?f xs d))" for xs d
    by (induction xs arbitrary: d) (auto intro: update_samples_inv distinct_update)
  note inv = this [of "[]" "filter (\<lambda>s. isfinite (ms_value s)) samples"]
  have ids: "list_all (\<lambda>(k, s). k = ms_sample_id s) d \<Longrightarrow> map ms_sample_id (map snd d) = map fst d" for d
    by (induction d) auto
  have "map ms_sample_id (unique_samples samples)
      = map fst (fold ?f (filter (\<lambda>s. isfinite (ms_value s)) samples) [])"
    unfolding unique_samples_def by (rule ids) (use inv in simp)
  then show ?thesis using inv by simp
qed

lemma unique_samples_sub: "set (unique_samples samples) \<subseteq> {s \<in> set samples. isfinite (ms_value s)}"
proof -
  have "snd ` set (fold (\<lambda>s d. AList.update (ms_sample_id s) s d) xs d) \<subseteq> set xs \<union> snd ` set d" for xs d
  proof (induction xs arbitrary: d)
    case (Cons x xs)
    have "snd ` set (AList.update k v d) \<subseteq> insert v (snd ` set d)" for k v
      by (induction d) auto
    from this [of "ms_sample_id x" x] Cons [of "AList.update (ms_sample_id x) x d"] show ?case
      unfolding fold.simps comp_apply list.set by blast
  qed simp
  from this [of "filter (\<lambda>s. isfinite (ms_value s)) samples" "[]"] show ?thesis
    by (auto simp: unique_samples_def)
qed

lemma ordered_distinct: "distinct (ordered_samples samples)"
  using unique_samples_distinct [of samples] by (simp add: ordered_samples_def distinct_map)

subsection \<open>Gap cutting\<close>

text \<open>Neighbours at most a gap apart.\<close>

fun gapless :: "int \<Rightarrow> metric_sample list \<Rightarrow> bool" where
  "gapless g (a # b # xs) \<longleftrightarrow> ms_timestamp b - ms_timestamp a \<le> seconds g \<and> gapless g (b # xs)"
| "gapless g _ = True"

lemma from_sample_suffix: "distinct (pre @ r # rest) \<Longrightarrow> from_sample r (pre @ r # rest) = r # rest"
  by (induction pre) auto

text \<open>
  The cut keeps the longest gapless suffix: everything from the right neighbour of the last gap on.
\<close>

fun last_gapless :: "int \<Rightarrow> metric_sample list \<Rightarrow> metric_sample list \<Rightarrow> metric_sample list" where
  "last_gapless g acc (l # r # rest) =
     (if seconds g < ms_timestamp r - ms_timestamp l then last_gapless g [] (r # rest)
      else last_gapless g (acc @ [l]) (r # rest))"
| "last_gapless g acc xs = acc @ xs"

lemma cut_gaps_last_gapless:
  "distinct (pre @ acc @ xs) \<Longrightarrow> cut_gaps g xs (acc @ xs) = last_gapless g acc xs"
proof (induction g acc xs arbitrary: pre rule: last_gapless.induct)
  case (1 g acc l r rest)
  show ?case
  proof (cases "seconds g < ms_timestamp r - ms_timestamp l")
    case True
    have "from_sample r (acc @ l # r # rest) = r # rest"
      using 1(3) from_sample_suffix [of "acc @ [l]" r rest] by simp
    moreover have "cut_gaps g (r # rest) ([] @ r # rest) = last_gapless g [] (r # rest)"
      using 1(3) True by (intro 1(1) [of "pre @ acc @ [l]"]) auto
    ultimately show ?thesis using True by simp
  next
    case False
    have "cut_gaps g (r # rest) ((acc @ [l]) @ r # rest) = last_gapless g (acc @ [l]) (r # rest)"
      using 1(3) False by (intro 1(2) [of pre]) auto
    with False show ?thesis by simp
  qed
qed auto

lemma gapless_suffix: "gapless g (a @ b) \<Longrightarrow> gapless g b"
  by (induction g a rule: gapless.induct) (auto, (cases b; simp)+)

lemma gapless_snoc: "gapless g (xs @ [a, b]) \<longleftrightarrow> gapless g (xs @ [a]) \<and> ms_timestamp b - ms_timestamp a \<le> seconds g"
  by (induction g xs rule: gapless.induct) auto

lemma gapless_step: "gapless g (p @ l # r # rest) \<Longrightarrow> ms_timestamp r - ms_timestamp l \<le> seconds g"
  using gapless_suffix [of g p "l # r # rest"] by simp

lemma last_gapless_suffix: "suffix (last_gapless g acc xs) (acc @ xs)"
proof (induction g acc xs rule: last_gapless.induct)
  case (1 g acc l r rest)
  then show ?case
    by (cases "seconds g < ms_timestamp r - ms_timestamp l") (auto simp: suffix_def, metis append.assoc append_Cons append_Nil)
qed auto

lemma last_gapless_ok:
  "gapless g (acc @ take 1 xs) \<Longrightarrow> gapless g (last_gapless g acc xs)"
proof (induction g acc xs rule: last_gapless.induct)
  case (1 g acc l r rest)
  show ?case
  proof (cases "seconds g < ms_timestamp r - ms_timestamp l")
    case True
    then show ?thesis using 1(1) by simp
  next
    case False
    then have "gapless g ((acc @ [l]) @ take 1 (r # rest))"
      using 1(3) gapless_snoc [of g acc l r] by simp
    with False 1(2) show ?thesis by simp
  qed
qed simp_all

lemma last_gapless_not_Nil: "xs \<noteq> [] \<Longrightarrow> last_gapless g acc xs \<noteq> []"
  by (induction g acc xs rule: last_gapless.induct) auto

lemma last_gapless_max:
  "gapless g t \<Longrightarrow> suffix t (acc @ xs) \<Longrightarrow> suffix t (last_gapless g acc xs)"
proof (induction g acc xs rule: last_gapless.induct)
  case (1 g acc l r rest)
  show ?case
  proof (cases "seconds g < ms_timestamp r - ms_timestamp l")
    case True
    have "suffix t (r # rest)"
    proof (rule ccontr)
      assume no: "\<not> suffix t (r # rest)"
      have "suffix t ((acc @ [l]) @ r # rest)" using 1(4) by simp
      with no obtain p where p: "t = p @ r # rest" "suffix p (acc @ [l])"
        unfolding suffix_append by blast
      from p no obtain q where "p = q @ [l]" by (cases p rule: rev_cases) (auto simp: suffix_def)
      with p(1) 1(3) True gapless_step [of g q l r rest] show False by simp
    qed
    with True 1(1,3) show ?thesis by simp
  next
    case False
    with 1(2-4) show ?thesis by simp
  qed
qed simp_all

definition kept_samples :: "int \<Rightarrow> metric_sample list \<Rightarrow> metric_sample list" where
  "kept_samples g samples = cut_gaps g (ordered_samples samples) (ordered_samples samples)"

lemma kept_last_gapless: "kept_samples g samples = last_gapless g [] (ordered_samples samples)"
  using cut_gaps_last_gapless [of "[]" "[]" "ordered_samples samples" g] ordered_distinct
  by (simp add: kept_samples_def)

lemma kept_facts:
  "suffix (kept_samples g samples) (ordered_samples samples)" "gapless g (kept_samples g samples)"
  "ordered_samples samples \<noteq> [] \<Longrightarrow> kept_samples g samples \<noteq> []"
  "gapless g t \<Longrightarrow> suffix t (ordered_samples samples) \<Longrightarrow> suffix t (kept_samples g samples)"
  unfolding kept_last_gapless
  using last_gapless_suffix [of g "[]" "ordered_samples samples"]
    last_gapless_ok [of g "[]" "ordered_samples samples"]
    last_gapless_not_Nil last_gapless_max [of g t "[]"]
  by (auto simp: take_Suc) (cases "ordered_samples samples"; simp)

subsection \<open>Sustained conditions\<close>

text \<open>
  A condition is sustained when the newest samples, without a gap wider than allowed, all satisfy
  it and span at least the required time.
\<close>

definition sustained ::
  "(metric_sample \<Rightarrow> bool) \<Rightarrow> int \<Rightarrow> int \<Rightarrow> metric_sample list \<Rightarrow> bool" where
  "sustained pr max_gap dur xs \<longleftrightarrow>
     (\<exists>t. suffix t xs \<and> t \<noteq> [] \<and> list_all pr t \<and> gapless max_gap t
        \<and> seconds dur \<le> ms_timestamp (last t) - ms_timestamp (hd t))"

definition tail_of :: "(metric_sample \<Rightarrow> bool) \<Rightarrow> metric_sample list \<Rightarrow> metric_sample list" where
  "tail_of pr xs = rev (takeWhile pr (rev xs))"

lemma tail_of_max: "suffix t xs \<Longrightarrow> list_all pr t \<Longrightarrow> suffix t (tail_of pr xs)"
proof -
  assume t: "suffix t xs" "list_all pr t"
  then obtain p where "xs = p @ t" by (auto simp: suffix_def)
  then have "tail_of pr xs = rev (takeWhile pr (rev t @ rev p))" by (simp add: tail_of_def)
  also have "\<dots> = rev (takeWhile pr (rev p)) @ t"
    using t(2) by (subst takeWhile_append2) (auto simp: list_all_iff)
  finally show ?thesis by (simp add: suffix_def)
qed

lemma sustained_iff_tail:
  "sustained pr g dur (ordered_samples samples) \<longleftrightarrow>
     tail_of pr (kept_samples g samples) \<noteq> []
   \<and> seconds dur \<le> ms_timestamp (last (tail_of pr (kept_samples g samples)))
                     - ms_timestamp (hd (tail_of pr (kept_samples g samples)))"
proof
  let ?tail = "tail_of pr (kept_samples g samples)"
  have tk: "suffix ?tail (kept_samples g samples)" unfolding tail_of_def by (rule takeWhile_rev_suffix)
  then have to: "suffix ?tail (ordered_samples samples)" using kept_facts(1) suffix_order.trans by blast
  { assume "sustained pr g dur (ordered_samples samples)"
    then obtain t where t: "suffix t (ordered_samples samples)" "t \<noteq> []" "list_all pr t" "gapless g t"
      "seconds dur \<le> ms_timestamp (last t) - ms_timestamp (hd t)" unfolding sustained_def by blast
    then have "suffix t ?tail" using kept_facts(4) by (intro tail_of_max) auto
    then obtain p where p: "?tail = p @ t" by (auto simp: suffix_def)
    have "sorted (map ms_timestamp ?tail)"
      using to ordered_sorted [of samples] by (auto simp: suffix_def sorted_append)
    then have "ms_timestamp (hd ?tail) \<le> ms_timestamp (hd t)"
      using t(2) unfolding p by (cases p; cases t) (auto simp: sorted_append)
    with p t show "?tail \<noteq> [] \<and> seconds dur \<le> ms_timestamp (last ?tail) - ms_timestamp (hd ?tail)" by simp }
  { assume "?tail \<noteq> [] \<and> seconds dur \<le> ms_timestamp (last ?tail) - ms_timestamp (hd ?tail)"
    moreover have "list_all pr ?tail" by (auto simp: tail_of_def list_all_iff dest: set_takeWhileD)
    moreover have "gapless g ?tail"
      using tk kept_facts(2) [of g samples] gapless_suffix unfolding suffix_def by metis
    ultimately show "sustained pr g dur (ordered_samples samples)" using to unfolding sustained_def by blast }
qed

text \<open>The evaluator, folded over the facts above.\<close>

lemma evaluate_rule_event:
  "ed_event_type (evaluate_rule config prior samples now) =
     (if rc_enabled config \<and> ordered_samples samples \<noteq> []
         \<and> now - ms_timestamp (last (ordered_samples samples)) \<le> seconds (rc_freshness_s config)
      then if truthy (ps_open_incident_id prior)
           then if sustained (\<lambda>s. recovered (ms_value s) config) (rc_max_gap_s config)
                     (rc_recovery_duration_s config) (ordered_samples samples)
                then Some E_recovered else None
           else if sustained (\<lambda>s. compare (ms_value s) (rc_comparator config) (rc_threshold config))
                     (rc_max_gap_s config) (rc_breach_duration_s config) (ordered_samples samples)
                then Some E_firing else None
      else None)"
  using kept_facts(3) [of samples "rc_max_gap_s config"]
  unfolding sustained_iff_tail
  by (simp add: evaluate_rule_def Let_def EvaluationDecision_def kept_samples_def tail_of_def not_less)

text \<open>
  C6. An incident opens exactly on a sustained breach and closes exactly on a sustained
  recovery: the evaluator emits firing (recovered) if and only if the rule is enabled, no
  incident is open (one is open), the newest finite sample is fresh, and the newest samples,
  each at most the allowed gap after the previous one, all breach the threshold (are all back
  past the recovery threshold) over at least the breach (recovery) duration.
\<close>

theorem events_iff_sustained:
  "(ed_event_type (evaluate_rule config prior samples now) = Some E_firing \<longleftrightarrow>
      rc_enabled config \<and> \<not> truthy (ps_open_incident_id prior) \<and> ordered_samples samples \<noteq> []
    \<and> now - ms_timestamp (last (ordered_samples samples)) \<le> seconds (rc_freshness_s config)
    \<and> sustained (\<lambda>s. compare (ms_value s) (rc_comparator config) (rc_threshold config))
        (rc_max_gap_s config) (rc_breach_duration_s config) (ordered_samples samples))
   \<and> (ed_event_type (evaluate_rule config prior samples now) = Some E_recovered \<longleftrightarrow>
      rc_enabled config \<and> truthy (ps_open_incident_id prior) \<and> ordered_samples samples \<noteq> []
    \<and> now - ms_timestamp (last (ordered_samples samples)) \<le> seconds (rc_freshness_s config)
    \<and> sustained (\<lambda>s. recovered (ms_value s) config)
        (rc_max_gap_s config) (rc_recovery_duration_s config) (ordered_samples samples))"
  unfolding evaluate_rule_event by auto

text \<open>The gap branch of the evaluator is dead code: a cut always keeps the newest sample.\<close>

lemma sample_gap_unreachable: "ed_reason_code (evaluate_rule config prior samples now) \<noteq> ''sample_gap''"
  using kept_facts(3) [of samples "rc_max_gap_s config"]
  by (auto simp: evaluate_rule_def Let_def EvaluationDecision_def kept_samples_def split: if_splits)

text \<open>What a decision does to the incident: only an event changes it.\<close>

lemma evaluate_rule_normal:
  "ed_assessment (evaluate_rule config prior samples now) = A_normal \<Longrightarrow>
     \<not> truthy (ps_open_incident_id prior) \<or> ed_event_type (evaluate_rule config prior samples now) = Some E_recovered"
  by (auto simp: evaluate_rule_def Let_def EvaluationDecision_def split: if_splits)

lemma evaluate_rule_firing_assessment:
  "ed_event_type (evaluate_rule config prior samples now) = Some E_firing \<Longrightarrow>
     ed_assessment (evaluate_rule config prior samples now) = A_firing"
  "ed_event_type (evaluate_rule config prior samples now) = Some E_recovered \<Longrightarrow>
     ed_assessment (evaluate_rule config prior samples now) = A_normal"
  by (auto simp: evaluate_rule_def Let_def EvaluationDecision_def split: if_splits)

end
