(* ===== verification/Metric_Rules.thy ===== *)
theory Metric_Rules
  imports Metric_Evaluator
begin

text \<open>
  \<open>services/monitoring/metric_rules.py\<close>, \<open>metric_catalog.py\<close> and
  \<open>workers/metric_alert_worker.py\<close>: validation and editing of metric alert rules, the
  sample window, the persisted transition of a rule's state with its event, the scheduled
  evaluation of the enabled rules and the publication of pending events. A UUID is the number it
  encodes; the text of a generated sample id is an argument.
\<close>

subsection \<open>Tables\<close>

record metric_definition =
  md_unit :: string
  md_comparators :: "comparator list"
  md_default_freshness_s :: int
  md_default_max_gap_s :: int

definition CATALOG :: "(string \<times> metric_definition) list" where
  "CATALOG =
     (let d = (\<lambda>u f. \<lparr> md_unit = u, md_comparators = [Gt, Ge, Lt, Le], md_default_freshness_s = f, md_default_max_gap_s = f \<rparr>)
      in [(''cpu_pct'', d ''%'' 180), (''mem_pct'', d ''%'' 180), (''disk_pct'', d ''%'' 300),
          (''temp_c'', d [CHR 0xC2, CHR 0xB0, CHR ''C''] 180), (''power_w'', d ''W'' 180)])"

record rule_payload =
  rp_name :: string
  rp_target_type :: string
  rp_target_id :: int
  rp_metric_key :: string
  rp_source :: "string option"
  rp_comparator :: comparator
  rp_threshold :: pyfloat
  rp_unit :: string
  rp_breach_duration_s :: int
  rp_recovery_threshold :: pyfloat
  rp_recovery_duration_s :: int
  rp_max_gap_s :: int
  rp_freshness_s :: int
  rp_enabled :: bool
  rp_severity :: string
  rp_sink_id :: "int option"

record metric_rule = rule_payload +
  ru_id :: int
  ru_revision :: int

record alert_state =
  as_rule_id :: int
  as_rule_revision :: int
  as_assessment :: assessment
  as_reason_code :: "string option"
  as_pending_since :: "instant option"
  as_recovery_since :: "instant option"
  as_open_incident_id :: "string option"
  as_last_sample_at :: "instant option"
  as_last_evaluated_at :: "instant option"

record alert_row =
  ar_id :: string
  ar_rule_id :: int
  ar_rule_revision :: int
  ar_incident_id :: string
  ar_event_type :: alert_event
  ar_occurred_at :: instant
  ar_severity :: string
  ar_sink_id :: "int option"
  ar_published :: bool
  ar_publish_attempts :: nat

record live_metric =
  lm_id :: int
  lm_hardware_id :: int
  lm_collected_at :: instant
  lm_agent_sample_id :: "string option"
  lm_source :: string
  lm_value :: "string \<Rightarrow> pyfloat option"

record metric_db =
  mrules :: "metric_rule list"
  mstates :: "alert_state list"
  malerts :: "alert_row list"
  mlive :: "live_metric list"
  msinks :: "(int \<times> bool) list"
  mhardware :: "int list"
  mnext_rule :: int

datatype rule_error = ValidationError string | NotFoundError | ConflictError | UnsupportedMetric

definition get_rule_row :: "int \<Rightarrow> metric_db \<Rightarrow> metric_rule option" where
  "get_rule_row i db = tbl_get ru_id i (mrules db)"

definition get_state :: "int \<Rightarrow> metric_db \<Rightarrow> alert_state option" where
  "get_state i db = tbl_get as_rule_id i (mstates db)"

subsection \<open>The sample window\<close>

definition read_metric_window ::
  "(int \<Rightarrow> instant \<Rightarrow> string) \<Rightarrow> int \<Rightarrow> string \<Rightarrow> instant \<Rightarrow> string option \<Rightarrow> nat \<Rightarrow> metric_db
   \<Rightarrow> rule_error + metric_sample list" where
  "read_metric_window fmt target_id metric_key since source limit db =
     (if map_of CATALOG metric_key = None then Inl UnsupportedMetric
      else
        let rows = filter (\<lambda>r. lm_hardware_id r = target_id \<and> since \<le> lm_collected_at r
                       \<and> lm_value r metric_key \<noteq> None \<and> lm_source r \<noteq> ''hourly_agg''
                       \<and> (truthy source \<longrightarrow> Some (lm_source r) = source)) (mlive db);
            newest = take limit (sort_key (\<lambda>r. - lm_collected_at r) rows)
        in Inr (map (\<lambda>r. \<lparr> ms_timestamp = lm_collected_at r,
                          ms_value = (case lm_value r metric_key of Some v \<Rightarrow> v | None \<Rightarrow> NaN),
                          ms_sample_id = (if truthy (lm_agent_sample_id r)
                                          then (case lm_agent_sample_id r of Some s \<Rightarrow> s | None \<Rightarrow> [])
                                          else fmt (lm_id r) (lm_collected_at r)) \<rparr>)
                (rev newest)))"

subsection \<open>Validation and editing\<close>

definition validate_metric_rule :: "metric_db \<Rightarrow> 'a rule_payload_scheme \<Rightarrow> rule_error option" where
  "validate_metric_rule db p =
     (case map_of CATALOG (rp_metric_key p) of
        None \<Rightarrow> Some (ValidationError ''The metric and unit combination is not supported.'')
      | Some d \<Rightarrow>
          if rp_unit p \<noteq> md_unit d
          then Some (ValidationError ''The metric and unit combination is not supported.'')
          else if rp_comparator p \<notin> set (md_comparators d)
          then Some (ValidationError ''The comparator is not supported for this metric.'')
          else if \<not> isfinite (rp_threshold p) \<or> \<not> isfinite (rp_recovery_threshold p)
          then Some (ValidationError ''Thresholds must be finite numbers.'')
          else if rp_comparator p \<in> {Gt, Ge} \<and> flt_lt (rp_threshold p) (rp_recovery_threshold p)
          then Some (ValidationError ''Recovery must be at or below the firing threshold.'')
          else if rp_comparator p \<in> {Lt, Le} \<and> flt_lt (rp_recovery_threshold p) (rp_threshold p)
          then Some (ValidationError ''Recovery must be at or above the firing threshold.'')
          else if rp_target_type p \<noteq> ''hardware'' \<or> rp_target_id p \<notin> set (mhardware db)
          then Some (ValidationError ''The selected hardware target does not exist'')
          else if rp_enabled p then
            (case rp_sink_id p of
               None \<Rightarrow> Some (ValidationError ''An enabled metric rule requires a notification destination.'')
             | Some s \<Rightarrow> if map_of (msinks db) s = Some True then None
                         else Some (ValidationError ''The selected notification destination is unavailable.''))
          else None)"

definition new_state :: "int \<Rightarrow> int \<Rightarrow> alert_state" where
  "new_state rule_id revision =
     \<lparr> as_rule_id = rule_id, as_rule_revision = revision, as_assessment = A_unknown, as_reason_code = None,
       as_pending_since = None, as_recovery_since = None, as_open_incident_id = None,
       as_last_sample_at = None, as_last_evaluated_at = None \<rparr>"

definition create_rule :: "rule_payload \<Rightarrow> metric_db \<Rightarrow> (rule_error + metric_rule) \<times> metric_db" where
  "create_rule p db =
     (case validate_metric_rule db p of
        Some e \<Rightarrow> (Inl e, db)
      | None \<Rightarrow>
          let rule = rule_payload.extend p \<lparr> ru_id = mnext_rule db, ru_revision = 1 \<rparr>;
              st = (new_state (ru_id rule) 1)\<lparr>as_assessment := (if rp_enabled rule then A_unknown else A_disabled),
                       as_reason_code := (if rp_enabled rule then None else Some ''disabled'')\<rparr>
          in (Inr rule, db\<lparr>mrules := mrules db @ [rule], mstates := mstates db @ [st],
                           mnext_rule := mnext_rule db + 1\<rparr>))"

text \<open>The state row of a rule, added when it is missing.\<close>

definition ensure_state :: "int \<Rightarrow> int \<Rightarrow> metric_db \<Rightarrow> metric_db" where
  "ensure_state rule_id revision db =
     (if get_state rule_id db = None then db\<lparr>mstates := mstates db @ [new_state rule_id revision]\<rparr> else db)"

definition upd_state :: "int \<Rightarrow> (alert_state \<Rightarrow> alert_state) \<Rightarrow> metric_db \<Rightarrow> metric_db" where
  "upd_state i f db = db\<lparr>mstates := tbl_upd as_rule_id i f (mstates db)\<rparr>"

definition reset_state :: "metric_rule \<Rightarrow> alert_state \<Rightarrow> alert_state" where
  "reset_state rule st =
     st\<lparr>as_rule_revision := ru_revision rule,
        as_assessment := (if rp_enabled rule then A_unknown else A_disabled),
        as_reason_code := (if rp_enabled rule then None else Some ''disabled''),
        as_pending_since := None, as_recovery_since := None, as_last_sample_at := None\<rparr>"

definition update_rule :: "int \<Rightarrow> int \<Rightarrow> rule_payload \<Rightarrow> metric_db \<Rightarrow> (rule_error + metric_rule) \<times> metric_db" where
  "update_rule rule_id revision p db =
     (case get_rule_row rule_id db of
        None \<Rightarrow> (Inl NotFoundError, db)
      | Some rule \<Rightarrow>
          if ru_revision rule \<noteq> revision then (Inl ConflictError, db)
          else case validate_metric_rule db p of
                 Some e \<Rightarrow> (Inl e, db)
               | None \<Rightarrow>
                   let rule' = rule_payload.extend p \<lparr> ru_id = ru_id rule, ru_revision = ru_revision rule + 1 \<rparr>;
                       db1 = ensure_state rule_id (ru_revision rule')
                               (db\<lparr>mrules := tbl_upd ru_id rule_id (\<lambda>_. rule') (mrules db)\<rparr>)
                   in (Inr rule', upd_state rule_id (reset_state rule') db1))"

definition delete_rule :: "int \<Rightarrow> metric_db \<Rightarrow> rule_error option \<times> metric_db" where
  "delete_rule rule_id db =
     (if get_rule_row rule_id db = None then (Some NotFoundError, db)
      else (None, db\<lparr>mrules := filter (\<lambda>r. ru_id r \<noteq> rule_id) (mrules db),
                     mstates := filter (\<lambda>s. as_rule_id s \<noteq> rule_id) (mstates db),
                     malerts := filter (\<lambda>a. ar_rule_id a \<noteq> rule_id) (malerts db)\<rparr>))"

subsection \<open>Evaluation and its persisted transition\<close>

definition config_of :: "'a rule_payload_scheme \<Rightarrow> rule_config" where
  "config_of rule =
     \<lparr> rc_enabled = rp_enabled rule, rc_comparator = rp_comparator rule, rc_threshold = rp_threshold rule,
       rc_breach_duration_s = rp_breach_duration_s rule, rc_recovery_threshold = rp_recovery_threshold rule,
       rc_recovery_duration_s = rp_recovery_duration_s rule, rc_max_gap_s = rp_max_gap_s rule,
       rc_freshness_s = rp_freshness_s rule \<rparr>"

definition hex_digit :: "nat \<Rightarrow> char" where
  "hex_digit n = ''0123456789abcdef'' ! (n mod 16)"

definition uuid_hex :: "nat \<Rightarrow> string" where
  "uuid_hex n = map (\<lambda>i. hex_digit (n div 16 ^ i)) (rev [0..<32])"

definition transition_state :: "metric_rule \<Rightarrow> evaluation_decision \<Rightarrow> string option \<Rightarrow> instant \<Rightarrow> alert_state \<Rightarrow> alert_state" where
  "transition_state rule d incident now st =
     st\<lparr>as_rule_revision := ru_revision rule, as_assessment := ed_assessment d,
        as_reason_code := Some (ed_reason_code d), as_pending_since := ed_pending_since d,
        as_recovery_since := ed_recovery_since d,
        as_open_incident_id := (if ed_assessment d \<noteq> A_normal then incident else None),
        as_last_sample_at := ed_last_sample_at d, as_last_evaluated_at := Some now\<rparr>"

definition touch_revision :: "metric_rule \<Rightarrow> alert_state \<Rightarrow> alert_state" where
  "touch_revision rule st =
     (if as_rule_revision st \<noteq> ru_revision rule
      then st\<lparr>as_rule_revision := ru_revision rule, as_pending_since := None, as_recovery_since := None\<rparr> else st)"

definition new_alert :: "metric_rule \<Rightarrow> string \<Rightarrow> string \<Rightarrow> alert_event \<Rightarrow> instant \<Rightarrow> alert_row" where
  "new_alert rule event_id incident ev now =
     \<lparr> ar_id = event_id, ar_rule_id = ru_id rule, ar_rule_revision = ru_revision rule, ar_incident_id = incident,
       ar_event_type = ev, ar_occurred_at = now,
       ar_severity = (if ev = E_firing then rp_severity rule else ''info''), ar_sink_id = rp_sink_id rule,
       ar_published = False, ar_publish_attempts = 0 \<rparr>"

definition persist_rule_transition ::
  "nat \<times> nat \<Rightarrow> metric_rule \<Rightarrow> evaluation_decision \<Rightarrow> instant \<Rightarrow> metric_db \<Rightarrow> alert_row option \<times> metric_db" where
  "persist_rule_transition uu rule d now db =
     (let db1 = ensure_state (ru_id rule) (ru_revision rule) db;
          held = Option.bind (get_state (ru_id rule) db1) as_open_incident_id;
          incident = (if ed_event_type d = Some E_firing then Some (uuid_hex (fst uu)) else held)
      in if ed_event_type d = Some E_recovered \<and> \<not> truthy incident
         then (None, upd_state (ru_id rule) (touch_revision rule) db1)
         else
           let db2 = upd_state (ru_id rule) (transition_state rule d incident now) db1
           in case (ed_event_type d, incident) of
                (Some ev, Some inc) \<Rightarrow>
                  let event = new_alert rule (uuid_hex (snd uu)) inc ev now
                  in (Some event, db2\<lparr>malerts := malerts db2 @ [event]\<rparr>)
              | _ \<Rightarrow> (None, db2))"

definition prior_of :: "int \<Rightarrow> metric_db \<Rightarrow> prior_state" where
  "prior_of i db =
     (case get_state i db of
        Some st \<Rightarrow> \<lparr> ps_assessment = as_assessment st, ps_open_incident_id = as_open_incident_id st \<rparr>
      | None \<Rightarrow> \<lparr> ps_assessment = A_unknown, ps_open_incident_id = None \<rparr>)"

definition evaluate_persisted_rule ::
  "(int \<Rightarrow> instant \<Rightarrow> string) \<Rightarrow> nat \<times> nat \<Rightarrow> metric_rule \<Rightarrow> instant \<Rightarrow> metric_db
   \<Rightarrow> rule_error + alert_row option \<times> metric_db" where
  "evaluate_persisted_rule fmt uu rule now db =
     (let window = max (rp_breach_duration_s rule) (rp_recovery_duration_s rule) + rp_max_gap_s rule
      in case read_metric_window fmt (rp_target_id rule) (rp_metric_key rule)
                (now - seconds (max window (rp_freshness_s rule))) (rp_source rule) 5000 db of
           Inl e \<Rightarrow> Inl e
         | Inr samples \<Rightarrow>
             Inr (persist_rule_transition uu rule
                    (evaluate_rule (config_of rule) (prior_of (ru_id rule) db) samples now) now db))"

subsection \<open>The worker\<close>

definition due_rules :: "nat \<Rightarrow> metric_db \<Rightarrow> metric_rule list" where
  "due_rules limit db = take limit (sort_key ru_id (filter rp_enabled (mrules db)))"

fun evaluate_all ::
  "(int \<Rightarrow> instant \<Rightarrow> string) \<Rightarrow> (int \<Rightarrow> nat \<times> nat) \<Rightarrow> instant \<Rightarrow> metric_rule list \<Rightarrow> metric_db \<Rightarrow> rule_error + metric_db" where
  "evaluate_all fmt uu now [] db = Inr db"
| "evaluate_all fmt uu now (r # rs) db =
     (case evaluate_persisted_rule fmt (uu (ru_id r)) r now db of
        Inl e \<Rightarrow> Inl e
      | Inr (_, db') \<Rightarrow> evaluate_all fmt uu now rs db')"

text \<open>An exception in one rule leaves the transaction uncommitted.\<close>

definition evaluate_due_rules ::
  "(int \<Rightarrow> instant \<Rightarrow> string) \<Rightarrow> (int \<Rightarrow> nat \<times> nat) \<Rightarrow> nat \<Rightarrow> instant \<Rightarrow> metric_db \<Rightarrow> metric_db" where
  "evaluate_due_rules fmt uu limit now db =
     (case evaluate_all fmt uu now (due_rules limit db) db of Inl _ \<Rightarrow> db | Inr db' \<Rightarrow> db')"

definition publish_mark :: "alert_row list \<Rightarrow> alert_row list \<Rightarrow> alert_row \<Rightarrow> alert_row" where
  "publish_mark committed sent a =
     a\<lparr>ar_publish_attempts := (if a \<in> set committed then ar_publish_attempts a + 1 else ar_publish_attempts a),
       ar_published := ar_published a \<or> a \<in> set sent\<rparr>"

text \<open>
  Each accepted event is committed at once, with the attempt counts of the events tried before
  it; the counts of the events tried after the last accepted one are lost with the session.
\<close>

definition publish_pending_metric_events :: "nat \<Rightarrow> (alert_row \<Rightarrow> bool) \<Rightarrow> metric_db \<Rightarrow> nat \<times> metric_db" where
  "publish_pending_metric_events limit accepts db =
     (let batch = take limit (sort_key ar_occurred_at (filter (\<lambda>a. \<not> ar_published a) (malerts db)));
          sent = filter accepts batch;
          committed = (if sent = [] then [] else takeWhile (\<lambda>a. a \<noteq> last sent) batch @ [last sent])
      in (length sent,
          db\<lparr>malerts := map (publish_mark committed sent) (malerts db)\<rparr>))"

subsection \<open>Incidents and their events\<close>

definition alerts_of :: "int \<Rightarrow> metric_db \<Rightarrow> alert_row list" where
  "alerts_of i db = filter (\<lambda>a. ar_rule_id a = i) (malerts db)"

definition open_of :: "int \<Rightarrow> metric_db \<Rightarrow> string option" where
  "open_of i db = Option.bind (get_state i db) as_open_incident_id"

text \<open>
  Replaying a rule's events: firing opens an incident when none is open, recovered closes the very
  incident that is open; anything else is an inconsistent history (None).
\<close>

fun replay :: "string option \<Rightarrow> alert_row list \<Rightarrow> string option option" where
  "replay st [] = Some st"
| "replay st (a # as) =
     (case (st, ar_event_type a) of
        (None, E_firing) \<Rightarrow> replay (Some (ar_incident_id a)) as
      | (Some i, E_recovered) \<Rightarrow> if i = ar_incident_id a then replay None as else None
      | _ \<Rightarrow> None)"

lemma replay_append: "replay st (xs @ ys) = Option.bind (replay st xs) (\<lambda>st'. replay st' ys)"
  by (induction st xs rule: replay.induct) (auto split: option.splits alert_event.splits)

lemma replay_map:
  "(\<And>a. ar_event_type (f a) = ar_event_type a \<and> ar_incident_id (f a) = ar_incident_id a)
   \<Longrightarrow> replay st (map f xs) = replay st xs"
  by (induction xs arbitrary: st) (auto split: option.splits alert_event.splits)

definition metric_inv :: "metric_db \<Rightarrow> bool" where
  "metric_inv db \<longleftrightarrow>
     (\<forall>i. replay None (alerts_of i db) = Some (open_of i db) \<and> open_of i db \<noteq> Some [])
   \<and> (\<forall>i \<in> ru_id ` set (mrules db) \<union> as_rule_id ` set (mstates db) \<union> ar_rule_id ` set (malerts db). i < mnext_rule db)"

lemma uuid_hex_not_Nil [simp]: "uuid_hex n \<noteq> []"
  by (simp add: uuid_hex_def)

lemma state_update_keys [row_simps]:
  "as_rule_id (reset_state r st) = as_rule_id st" "as_rule_id (transition_state r d inc now st) = as_rule_id st"
  "as_rule_id (touch_revision r st) = as_rule_id st"
  "as_open_incident_id (reset_state r st) = as_open_incident_id st"
  "as_open_incident_id (touch_revision r st) = as_open_incident_id st"
  "as_open_incident_id (transition_state r d inc now st) = (if ed_assessment d \<noteq> A_normal then inc else None)"
  by (simp_all add: reset_state_def transition_state_def touch_revision_def)

interpretation reset_row: row_update as_rule_id "reset_state r" for r
  by unfold_locales (rule state_update_keys)

interpretation transition_row: row_update as_rule_id "transition_state r d inc now" for r d inc now
  by unfold_locales (rule state_update_keys)

interpretation touch_row: row_update as_rule_id "touch_revision r" for r
  by unfold_locales (rule state_update_keys)

lemma ensure_state_frame [simp]:
  "malerts (ensure_state i rv db) = malerts db" "mrules (ensure_state i rv db) = mrules db"
  "mnext_rule (ensure_state i rv db) = mnext_rule db" "open_of j (ensure_state i rv db) = open_of j db"
  "alerts_of j (ensure_state i rv db) = alerts_of j db"
  by (auto simp: ensure_state_def open_of_def get_state_def tbl_get_append tbl_get_Cons new_state_def alerts_of_def
      split: option.splits)

lemma ensure_state_ids: "as_rule_id ` set (mstates (ensure_state i rv db)) \<subseteq> insert i (as_rule_id ` set (mstates db))"
  by (auto simp: ensure_state_def new_state_def)

lemma ensure_state_present: "get_state i (ensure_state i rv db) \<noteq> None"
  by (auto simp: ensure_state_def get_state_def tbl_get_append tbl_get_Cons new_state_def split: option.splits)

lemma upd_state_frame [simp]:
  "malerts (upd_state i f db) = malerts db" "mrules (upd_state i f db) = mrules db"
  "mnext_rule (upd_state i f db) = mnext_rule db" "alerts_of j (upd_state i f db) = alerts_of j db"
  by (simp_all add: upd_state_def alerts_of_def)

lemma upd_state_ids: "(\<And>s. as_rule_id (f s) = as_rule_id s) \<Longrightarrow> as_rule_id ` set (mstates (upd_state i f db)) = as_rule_id ` set (mstates db)"
  using row_update.map_key_upd [OF row_update.intro, of as_rule_id f i "mstates db"]
  by (simp add: upd_state_def flip: set_map)

lemma open_upd_state:
  assumes "\<And>s. as_rule_id (f s) = as_rule_id s"
  shows "open_of j (upd_state i f db) =
     (if j = i then Option.bind (get_state i db) (\<lambda>s. as_open_incident_id (f s)) else open_of j db)"
  using row_update.tbl_get_upd_same [OF row_update.intro, of as_rule_id f i "mstates db"]
    row_update.tbl_get_upd_other [OF row_update.intro, of as_rule_id f j i "mstates db"] assms
  by (auto simp: open_of_def upd_state_def get_state_def bind_map_option comp_def)

lemma open_of_alerts [simp]: "open_of j (db\<lparr>malerts := x\<rparr>) = open_of j db"
  by (simp add: open_of_def get_state_def)

lemma open_prior: "ps_open_incident_id (prior_of i db) = open_of i db"
  by (auto simp: prior_of_def open_of_def split: option.splits)

lemma truthy_iff: "truthy s \<longleftrightarrow> s \<noteq> None \<and> s \<noteq> Some []"
  by (auto simp: truthy_def split: option.splits)

text \<open>What one persisted evaluation does to the incident and the events of its rule.\<close>

definition evaluated :: "nat \<times> nat \<Rightarrow> metric_rule \<Rightarrow> metric_sample list \<Rightarrow> instant \<Rightarrow> metric_db \<Rightarrow> metric_db" where
  "evaluated uu rule samples now db =
     snd (persist_rule_transition uu rule
            (evaluate_rule (config_of rule) (prior_of (ru_id rule) db) samples now) now db)"

lemma evaluated_form:
  fixes samples now db uu
  assumes "open_of (ru_id rule) db \<noteq> Some []"
  defines "d \<equiv> evaluate_rule (config_of rule) (prior_of (ru_id rule) db) samples now"
    and "inc \<equiv> open_of (ru_id rule) db" and "db1 \<equiv> ensure_state (ru_id rule) (ru_revision rule) db"
  obtains inc' new where
    "evaluated uu rule samples now db =
       (upd_state (ru_id rule) (transition_state rule d inc' now) db1)\<lparr>malerts := malerts db @ new\<rparr>"
    "list_all (\<lambda>a. ar_rule_id a = ru_id rule) new"
    "replay inc new = Some (if ed_assessment d \<noteq> A_normal then inc' else None)"
    "inc' \<noteq> Some []"
proof -
  have held: "Option.bind (get_state (ru_id rule) db1) as_open_incident_id = inc"
    by (simp add: db1_def inc_def flip: open_of_def)
  have prior: "ps_open_incident_id (prior_of (ru_id rule) db) = inc" by (simp add: inc_def open_prior)
  have normal: "ed_assessment d = A_normal \<Longrightarrow> ed_event_type d = None \<Longrightarrow> inc = None"
    using evaluate_rule_normal [of "config_of rule" "prior_of (ru_id rule) db" samples now] assms(1)
    by (auto simp: d_def prior truthy_iff inc_def)
  have al: "malerts db1 = malerts db" by (simp add: db1_def)
  have same: "x\<lparr>malerts := malerts db\<rparr> = x" if "malerts x = malerts db" for x :: metric_db
    using that by (metis metric_db.surjective metric_db.update_convs(3) metric_db.select_convs(3))
  show thesis
  proof (cases "ed_event_type d")
    case None
    with held normal assms(1) show thesis
      by (intro that [where inc' = inc and new = "[]"])
        (auto simp: evaluated_def persist_rule_transition_def Let_def d_def [symmetric] db1_def [symmetric]
          inc_def [symmetric] same al)
  next
    case (Some ev)
    show thesis
    proof (cases ev)
      case E_firing
      have "inc = None" "ed_assessment d = A_firing"
        using Some E_firing evaluate_rule_firing_assessment(1) [of "config_of rule" "prior_of (ru_id rule) db" samples now] assms(1)
        by (auto simp: d_def evaluate_rule_event prior truthy_iff inc_def split: if_splits)
      with Some E_firing held show thesis
        by (intro that [where inc' = "Some (uuid_hex (fst uu))" and new = "[new_alert rule (uuid_hex (snd uu)) (uuid_hex (fst uu)) E_firing now]"])
          (auto simp: evaluated_def persist_rule_transition_def Let_def d_def [symmetric] db1_def [symmetric] new_alert_def al)
    next
      case E_recovered
      have tr: "truthy inc" "ed_assessment d = A_normal"
        using Some E_recovered evaluate_rule_firing_assessment(2) [of "config_of rule" "prior_of (ru_id rule) db" samples now]
        by (auto simp: d_def evaluate_rule_event prior split: if_splits)
      then obtain x where "inc = Some x" by (auto simp: truthy_iff)
      with tr Some E_recovered held show thesis
        by (intro that [where inc' = inc and new = "[new_alert rule (uuid_hex (snd uu)) x E_recovered now]"])
          (auto simp: evaluated_def persist_rule_transition_def Let_def d_def [symmetric] db1_def [symmetric] new_alert_def truthy_iff al)
    qed
  qed
qed

lemma evaluated_inv:
  assumes "metric_inv db" "ru_id rule < mnext_rule db"
  shows "metric_inv (evaluated uu rule samples now db)"
proof -
  let ?i = "ru_id rule"
  let ?d = "evaluate_rule (config_of rule) (prior_of ?i db) samples now"
  let ?db1 = "ensure_state ?i (ru_revision rule) db"
  have o: "open_of ?i db \<noteq> Some []" using assms(1) by (simp add: metric_inv_def)
  obtain inc' new where e: "evaluated uu rule samples now db =
       (upd_state ?i (transition_state rule ?d inc' now) ?db1)\<lparr>malerts := malerts db @ new\<rparr>"
    "list_all (\<lambda>a. ar_rule_id a = ?i) new"
    "replay (open_of ?i db) new = Some (if ed_assessment ?d \<noteq> A_normal then inc' else None)" "inc' \<noteq> Some []"
    by (rule evaluated_form [OF o])
  obtain st where st: "get_state ?i ?db1 = Some st" using ensure_state_present by blast
  have opn: "open_of j (evaluated uu rule samples now db)
      = (if j = ?i then if ed_assessment ?d \<noteq> A_normal then inc' else None else open_of j db)" for j
    using open_upd_state [of "transition_state rule ?d inc' now" j ?i ?db1] st
    by (simp add: e(1) row_simps)
  have al: "alerts_of j (evaluated uu rule samples now db) = alerts_of j db @ (if j = ?i then new else [])" for j
    using e(2) by (auto simp: e(1) alerts_of_def list_all_iff filter_id_conv filter_empty_conv)
  have "replay None (alerts_of j (evaluated uu rule samples now db)) = Some (open_of j (evaluated uu rule samples now db))" for j
    using assms(1) e(3) by (simp add: al opn replay_append metric_inv_def)
  moreover have "open_of j (evaluated uu rule samples now db) \<noteq> Some []" for j
    using assms(1) e(4) by (simp add: opn metric_inv_def)
  moreover have "as_rule_id ` set (mstates (evaluated uu rule samples now db)) \<subseteq> insert ?i (as_rule_id ` set (mstates db))"
    using ensure_state_ids [of ?i "ru_revision rule" db] upd_state_ids [of "transition_state rule ?d inc' now" ?i ?db1]
    by (simp add: e(1) row_simps)
  moreover have "ar_rule_id ` set (malerts (evaluated uu rule samples now db)) \<subseteq> insert ?i (ar_rule_id ` set (malerts db))"
    using e(2) by (auto simp: e(1) list_all_iff)
  moreover have "mrules (evaluated uu rule samples now db) = mrules db"
    "mnext_rule (evaluated uu rule samples now db) = mnext_rule db" by (simp_all add: e(1))
  ultimately show ?thesis using assms unfolding metric_inv_def by (auto dest!: subsetD)
qed

lemma evaluated_rules [simp]:
  "mrules (evaluated uu rule samples now db) = mrules db" "mnext_rule (evaluated uu rule samples now db) = mnext_rule db"
  by (auto simp: evaluated_def persist_rule_transition_def Let_def split: option.splits)

lemma evaluate_persisted_evaluated:
  "evaluate_persisted_rule fmt uu rule now db = Inr (ev, db') \<Longrightarrow> \<exists>samples. db' = evaluated uu rule samples now db"
  by (auto simp: evaluate_persisted_rule_def Let_def evaluated_def split: sum.splits dest!: arg_cong [where f = snd])

lemma evaluate_all_inv:
  "evaluate_all fmt uu now rs db = Inr db' \<Longrightarrow> set rs \<subseteq> set (mrules db) \<Longrightarrow> metric_inv db \<Longrightarrow> metric_inv db'"
proof (induction rs arbitrary: db)
  case (Cons r rs)
  then obtain ev db1 where e: "evaluate_persisted_rule fmt (uu (ru_id r)) r now db = Inr (ev, db1)"
    "evaluate_all fmt uu now rs db1 = Inr db'" by (auto split: sum.splits)
  then obtain samples where db1: "db1 = evaluated (uu (ru_id r)) r samples now db"
    using evaluate_persisted_evaluated by blast
  have "ru_id r < mnext_rule db" using Cons.prems by (auto simp: metric_inv_def)
  with Cons.prems(3) have "metric_inv db1" unfolding db1 by (rule evaluated_inv)
  with Cons.IH [OF e(2)] Cons.prems(2) show ?case by (simp add: db1)
qed simp

lemma evaluate_due_inv: "metric_inv db \<Longrightarrow> metric_inv (evaluate_due_rules fmt uu limit now db)"
  by (auto simp: evaluate_due_rules_def due_rules_def split: sum.splits dest!: in_set_takeD
      intro!: evaluate_all_inv [of fmt uu now "due_rules limit db" db])

text \<open>The machine of the metric alert tables.\<close>

datatype metric_step =
    Evaluate "int \<Rightarrow> instant \<Rightarrow> string" "int \<Rightarrow> nat \<times> nat" nat instant
  | Publish nat "alert_row \<Rightarrow> bool"
  | Create rule_payload
  | Update int int rule_payload
  | Delete_rule int
  | Sampled live_metric

fun metric_machine :: "metric_step \<Rightarrow> metric_db \<Rightarrow> metric_db" where
  "metric_machine (Evaluate fmt uu limit now) db = evaluate_due_rules fmt uu limit now db"
| "metric_machine (Publish limit accepts) db = snd (publish_pending_metric_events limit accepts db)"
| "metric_machine (Create p) db = snd (create_rule p db)"
| "metric_machine (Update i rv p) db = snd (update_rule i rv p db)"
| "metric_machine (Delete_rule i) db = snd (delete_rule i db)"
| "metric_machine (Sampled m) db = db\<lparr>mlive := mlive db @ [m]\<rparr>"

lemma publish_inv:
  assumes "metric_inv db"
  shows "metric_inv (snd (publish_pending_metric_events limit accepts db))"
proof -
  have "\<exists>cs ss. malerts (snd (publish_pending_metric_events limit accepts db)) = map (publish_mark cs ss) (malerts db)"
    unfolding publish_pending_metric_events_def Let_def by (intro exI) (simp del: map_eq_conv)
  then obtain cs ss where pub: "malerts (snd (publish_pending_metric_events limit accepts db)) = map (publish_mark cs ss) (malerts db)"
    by blast
  define f where "f = publish_mark cs ss"
  have f: "malerts (snd (publish_pending_metric_events limit accepts db)) = map f (malerts db)"
    "\<And>a. ar_event_type (f a) = ar_event_type a \<and> ar_incident_id (f a) = ar_incident_id a \<and> ar_rule_id (f a) = ar_rule_id a"
    using pub by (simp_all add: f_def publish_mark_def)
  have "alerts_of i (snd (publish_pending_metric_events limit accepts db)) = map f (alerts_of i db)" for i
    using f(2) by (simp add: alerts_of_def f(1) filter_map comp_def)
  moreover have "open_of i (snd (publish_pending_metric_events limit accepts db)) = open_of i db" for i
    by (simp add: open_of_def get_state_def publish_pending_metric_events_def Let_def)
  moreover have "ar_rule_id ` set (malerts (snd (publish_pending_metric_events limit accepts db))) = ar_rule_id ` set (malerts db)"
    using f(2) by (simp add: f(1) image_image)
  ultimately show ?thesis
    using assms replay_map [of f] f(2)
    by (simp add: metric_inv_def) (simp add: publish_pending_metric_events_def Let_def)
qed

lemma create_inv:
  assumes "metric_inv db"
  shows "metric_inv (snd (create_rule p db))"
proof (cases "validate_metric_rule db p")
  case None
  have "mnext_rule db \<notin> as_rule_id ` set (mstates db)"
    using assms unfolding metric_inv_def by blast
  then have fresh: "get_state (mnext_rule db) db = None"
    by (simp add: get_state_def tbl_get_None)
  then have "open_of i (snd (create_rule p db)) = open_of i db" for i
    by (auto simp: create_rule_def None Let_def open_of_def get_state_def tbl_get_append tbl_get_Cons new_state_def
        rule_payload.extend_def split: option.splits)
  moreover have "alerts_of i (snd (create_rule p db)) = alerts_of i db" for i
    by (simp add: create_rule_def None Let_def alerts_of_def)
  moreover have ids: "ru_id ` set (mrules (snd (create_rule p db))) = insert (mnext_rule db) (ru_id ` set (mrules db))"
    "as_rule_id ` set (mstates (snd (create_rule p db))) = insert (mnext_rule db) (as_rule_id ` set (mstates db))"
    "malerts (snd (create_rule p db)) = malerts db" "mnext_rule (snd (create_rule p db)) = mnext_rule db + 1"
    by (auto simp: create_rule_def None Let_def new_state_def rule_payload.extend_def)
  moreover have "i < mnext_rule db + 1" if "i \<in> insert (mnext_rule db) (ru_id ` set (mrules db)) \<union>
      insert (mnext_rule db) (as_rule_id ` set (mstates db)) \<union> ar_rule_id ` set (malerts db)" for i
  proof (cases "i = mnext_rule db")
    case False
    with that have "i < mnext_rule db" using assms unfolding metric_inv_def by blast
    then show ?thesis by simp
  qed simp
  ultimately show ?thesis
    using assms unfolding metric_inv_def ids by simp
qed (use assms in \<open>simp add: create_rule_def\<close>)

lemma update_inv:
  assumes "metric_inv db"
  shows "metric_inv (snd (update_rule i rv p db))"
proof (cases "snd (update_rule i rv p db) = db")
  case False
  then obtain rule where r: "get_rule_row i db = Some rule" "ru_revision rule = rv" "validate_metric_rule db p = None"
    by (auto simp: update_rule_def split: option.splits if_splits)
  define rule' where "rule' = rule_payload.extend p \<lparr> ru_id = ru_id rule, ru_revision = ru_revision rule + 1 \<rparr>"
  define db0 where "db0 = db\<lparr>mrules := tbl_upd ru_id i (\<lambda>_. rule') (mrules db)\<rparr>"
  have db': "snd (update_rule i rv p db) = upd_state i (reset_state rule') (ensure_state i (ru_revision rule') db0)"
    using r by (simp add: update_rule_def Let_def rule'_def db0_def)
  have id: "ru_id rule' = i" "i < mnext_rule db"
    using r(1) assms by (auto simp: rule'_def rule_payload.extend_def get_rule_row_def metric_inv_def dest!: tbl_get_Some)
  have "open_of j (snd (update_rule i rv p db)) = open_of j db" for j
    unfolding db' by (simp add: open_upd_state row_simps flip: open_of_def) (simp add: db0_def open_of_def get_state_def)
  moreover have "alerts_of j (snd (update_rule i rv p db)) = alerts_of j db" for j
    unfolding db' by (simp add: db0_def alerts_of_def)
  moreover have "ru_id ` set (mrules (snd (update_rule i rv p db))) \<subseteq> insert i (ru_id ` set (mrules db))"
    unfolding db' using id by (auto simp: db0_def elim!: in_tbl_updE split: if_splits)
  moreover have "as_rule_id ` set (mstates (snd (update_rule i rv p db))) \<subseteq> insert i (as_rule_id ` set (mstates db))"
    unfolding db' using ensure_state_ids [of i "ru_revision rule'" db0] by (simp add: upd_state_ids row_simps db0_def)
  moreover have "malerts (snd (update_rule i rv p db)) = malerts db" "mnext_rule (snd (update_rule i rv p db)) = mnext_rule db"
    unfolding db' by (simp_all add: db0_def)
  ultimately show ?thesis using assms id(2) unfolding metric_inv_def by (auto dest!: subsetD)
qed (use assms in simp)

lemma tbl_get_filter_key: "tbl_get key k (filter (\<lambda>r. key r \<noteq> j) rows) = (if k = j then None else tbl_get key k rows)"
  by (induction rows) (auto simp: tbl_get_Cons)

lemma delete_inv:
  assumes "metric_inv db"
  shows "metric_inv (snd (delete_rule i db))"
proof (cases "get_rule_row i db = None")
  case False
  have "open_of j (snd (delete_rule i db)) = (if j = i then None else open_of j db)" for j
    using False by (auto simp: delete_rule_def open_of_def get_state_def tbl_get_filter_key)
  moreover have "alerts_of j (snd (delete_rule i db)) = (if j = i then [] else alerts_of j db)" for j
    using False by (auto simp: delete_rule_def alerts_of_def filter_empty_conv intro: filter_cong)
  ultimately show ?thesis
    using assms by (auto simp: metric_inv_def) (use False in \<open>auto simp: delete_rule_def\<close>)
qed (use assms in \<open>simp add: delete_rule_def\<close>)

lemma sampled_inv: "metric_inv db \<Longrightarrow> metric_inv (db\<lparr>mlive := x\<rparr>)"
  by (simp add: metric_inv_def alerts_of_def open_of_def get_state_def)

interpretation metric: invariant_machine metric_machine metric_inv
proof
  fix db e assume "metric_inv db"
  then show "metric_inv (metric_machine e db)"
    by (cases e) (simp_all add: evaluate_due_inv publish_inv create_inv update_inv delete_inv sampled_inv)
qed

text \<open>
  C7. Incidents and their events correspond: over any interleaving of evaluations, new samples,
  edits, deletions and publications from empty tables, the events of every rule read as a
  history in which a firing opens an incident only when none is open, a recovered closes exactly
  the incident that is open, and the incident left open at the end is the one in the rule's
  state. No recovery is fabricated and no incident is opened twice.
\<close>

theorem incidents_match_events:
  assumes "mrules db = []" "mstates db = []" "malerts db = []"
  shows "replay None (alerts_of i (fold metric_machine es db)) = Some (open_of i (fold metric_machine es db))"
proof -
  have "metric_inv db" using assms by (simp add: metric_inv_def alerts_of_def open_of_def get_state_def)
  from metric.run_inv [OF this, of es] show ?thesis by (simp add: metric_inv_def)
qed

subsection \<open>The evaluation limit\<close>

lemma evaluated_other:
  assumes "i \<noteq> ru_id rule"
  shows "get_state i (evaluated uu rule samples now db) = get_state i db"
    "alerts_of i (evaluated uu rule samples now db) = alerts_of i db"
proof -
  have E: "get_state i (ensure_state (ru_id rule) rv db) = get_state i db" for rv
    using assms by (auto simp: ensure_state_def get_state_def tbl_get_append tbl_get_Cons new_state_def split: option.splits)
  have U: "get_state i (upd_state (ru_id rule) (transition_state r d inc t) x) = get_state i x"
    "get_state i (upd_state (ru_id rule) (touch_revision r) x) = get_state i x" for r d inc t x
    using assms by (simp_all add: get_state_def upd_state_def transition_row.tbl_get_upd_other touch_row.tbl_get_upd_other)
  have M: "get_state i (x\<lparr>malerts := y\<rparr>) = get_state i x" for x y by (simp add: get_state_def)
  show "get_state i (evaluated uu rule samples now db) = get_state i db"
    by (auto simp: evaluated_def persist_rule_transition_def Let_def M U E split: option.splits)
  show "alerts_of i (evaluated uu rule samples now db) = alerts_of i db"
    using assms by (auto simp: evaluated_def persist_rule_transition_def Let_def alerts_of_def new_alert_def split: option.splits)
qed

lemma evaluate_all_other:
  "evaluate_all fmt uu now rs db = Inr db' \<Longrightarrow> i \<notin> ru_id ` set rs \<Longrightarrow>
     get_state i db' = get_state i db \<and> alerts_of i db' = alerts_of i db \<and> mrules db' = mrules db"
proof (induction rs arbitrary: db)
  case (Cons r rs)
  then obtain ev db1 where e: "evaluate_persisted_rule fmt (uu (ru_id r)) r now db = Inr (ev, db1)"
    "evaluate_all fmt uu now rs db1 = Inr db'" by (auto split: sum.splits)
  then obtain samples where db1: "db1 = evaluated (uu (ru_id r)) r samples now db"
    using evaluate_persisted_evaluated by blast
  have "i \<noteq> ru_id r" using Cons.prems(2) by auto
  with Cons.IH [OF e(2)] Cons.prems(2) evaluated_other [of i r] show ?case by (simp add: db1)
qed simp

lemma evaluate_all_rules: "evaluate_all fmt uu now rs db = Inr db' \<Longrightarrow> mrules db' = mrules db"
proof (induction rs arbitrary: db)
  case (Cons r rs)
  then show ?case by (auto split: sum.splits dest!: evaluate_persisted_evaluated)
qed simp

lemma due_rules_below:
  assumes "limit \<le> length (filter (\<lambda>r. rp_enabled r \<and> ru_id r < i) (mrules db))"
  shows "i \<notin> ru_id ` set (due_rules limit db)"
proof
  assume "i \<in> ru_id ` set (due_rules limit db)"
  then obtain r where r: "r \<in> set (due_rules limit db)" "ru_id r = i" by auto
  have "limit \<le> length (filter (\<lambda>r. ru_id r < i) (sort_key ru_id (filter rp_enabled (mrules db))))"
    using assms by (simp add: filter_sort conj_commute)
  then have "ru_id r < i"
    using r(1) unfolding due_rules_def by (intro sorted_take_all [of ru_id _ "\<lambda>r. ru_id r < i" limit r]) auto
  with r(2) show False by simp
qed

type_synonym pass = "(int \<Rightarrow> instant \<Rightarrow> string) \<times> (int \<Rightarrow> nat \<times> nat) \<times> instant"

definition evaluation_pass :: "pass \<Rightarrow> metric_db \<Rightarrow> metric_db" where
  "evaluation_pass p db = (case p of (fmt, uu, now) \<Rightarrow> evaluate_due_rules fmt uu 100 now db)"

text \<open>
  The evaluation limit starves rules: with at least one hundred enabled rules of smaller id,
  a rule is never evaluated; its state and its events stay what they are over any number of
  evaluation passes, whatever its samples.
\<close>

theorem rules_past_limit_never_evaluated:
  assumes "100 \<le> length (filter (\<lambda>r. rp_enabled r \<and> ru_id r < i) (mrules db))"
  shows "get_state i (fold evaluation_pass passes db) = get_state i db
       \<and> alerts_of i (fold evaluation_pass passes db) = alerts_of i db"
  using assms
proof (induction passes arbitrary: db)
  case (Cons p passes)
  obtain fmt uu now where p: "p = (fmt, uu, now)" by (cases p)
  have "get_state i (evaluation_pass p db) = get_state i db \<and> alerts_of i (evaluation_pass p db) = alerts_of i db
      \<and> mrules (evaluation_pass p db) = mrules db"
    using evaluate_all_other [OF _ due_rules_below [OF Cons.prems]]
    by (auto simp: evaluation_pass_def p evaluate_due_rules_def split: sum.splits)
  with Cons show ?case by simp
qed simp

subsection \<open>Witnesses\<close>

definition demo_rule :: "int \<Rightarrow> metric_rule" where
  "demo_rule i = \<lparr> rp_name = ''cpu'', rp_target_type = ''hardware'', rp_target_id = 1, rp_metric_key = ''cpu_pct'',
     rp_source = None, rp_comparator = Gt, rp_threshold = Fin 90, rp_unit = ''%'', rp_breach_duration_s = 60,
     rp_recovery_threshold = Fin 80, rp_recovery_duration_s = 60, rp_max_gap_s = 180, rp_freshness_s = 180,
     rp_enabled = True, rp_severity = ''critical'', rp_sink_id = Some 1, ru_id = i, ru_revision = 1 \<rparr>"

definition demo_metric :: "int \<Rightarrow> instant \<Rightarrow> rat \<Rightarrow> live_metric" where
  "demo_metric i t v = \<lparr> lm_id = i, lm_hardware_id = 1, lm_collected_at = t, lm_agent_sample_id = None,
     lm_source = ''agent'', lm_value = (\<lambda>_. Some (Fin v)) \<rparr>"

definition demo_fmt :: "int \<Rightarrow> instant \<Rightarrow> string" where
  "demo_fmt i t = replicate (nat i) CHR ''x''"

definition empty_metric_db :: metric_db where
  "empty_metric_db = \<lparr> mrules = [], mstates = [], malerts = [], mlive = [], msinks = [(1, True)], mhardware = [1], mnext_rule = 1 \<rparr>"

definition demo_steps :: "metric_step list" where
  "demo_steps = [Create (rule_payload.truncate (demo_rule 1)), Sampled (demo_metric 1 0 95), Sampled (demo_metric 2 60000000 96),
     Evaluate demo_fmt (\<lambda>_. (5, 6)) 100 61000000, Sampled (demo_metric 3 120000000 50), Sampled (demo_metric 4 180000000 50),
     Evaluate demo_fmt (\<lambda>_. (7, 8)) 100 181000000]"

theorem incidents_match_events_witness:
  "replay None (alerts_of 1 (fold metric_machine demo_steps empty_metric_db))
       = Some (open_of 1 (fold metric_machine demo_steps empty_metric_db))"
  by (rule incidents_match_events) (simp_all add: empty_metric_db_def)

definition starved_db :: metric_db where
  "starved_db = empty_metric_db\<lparr>mrules := map demo_rule [0..100],
     mlive := [demo_metric 1 0 95, demo_metric 2 60000000 96]\<rparr>"

theorem rules_past_limit_never_evaluated_witness:
  "get_state 100 (fold evaluation_pass [(demo_fmt, \<lambda>_. (5, 6), 61000000)] starved_db) = None"
proof -
  have "100 \<le> length (filter (\<lambda>r. rp_enabled r \<and> ru_id r < 100) (mrules starved_db))" by code_simp
  from rules_past_limit_never_evaluated [OF this, THEN conjunct1]
  have "get_state 100 (fold evaluation_pass [(demo_fmt, \<lambda>_. (5, 6), 61000000)] starved_db) = get_state 100 starved_db" .
  also have "\<dots> = None" by code_simp
  finally show ?thesis .
qed

end
