(* ===== verification/Canonical_Json.thy ===== *)
theory Canonical_Json
  imports Prelude "HOL-Library.List_Lexorder" "HOL-Library.Char_ord"
begin

text \<open>
  The text \<open>json.dumps(payload, sort_keys=True)\<close> produces for a flat dictionary of nulls,
  integers and strings, with Python's default separators and ASCII escapes, and the fact the
  audit chain rests on: two dictionaries over the same keys with the same text are equal.
\<close>

subsection \<open>Rendering\<close>

datatype scalar = SNull | SInt int | SStr string

definition hex_char :: "nat \<Rightarrow> char" where
  "hex_char n = ''0123456789abcdef'' ! n"

text \<open>The escapes of \<open>json.encoder.ESCAPE_ASCII\<close>.\<close>

definition short_escapes :: "(char \<times> char) list" where
  "short_escapes =
     [(CHR 0x5C, CHR 0x5C), (CHR 0x22, CHR 0x22), (CHR 0x08, CHR ''b''), (CHR 0x0C, CHR ''f''),
      (CHR 0x0A, CHR ''n''), (CHR 0x0D, CHR ''r''), (CHR 0x09, CHR ''t'')]"

definition esc_char :: "char \<Rightarrow> string" where
  "esc_char c =
     (case map_of short_escapes c of
        Some e \<Rightarrow> [CHR 0x5C, e]
      | None \<Rightarrow> let n = (of_char c :: nat) in
                if 32 \<le> n \<and> n \<le> 126 then [c]
                else [CHR 0x5C, CHR ''u'', CHR ''0'', CHR ''0'', hex_char (n div 16), hex_char (n mod 16)])"

definition json_str :: "string \<Rightarrow> string" where
  "json_str s = CHR 0x22 # concat (map esc_char s) @ [CHR 0x22]"

fun nat_str :: "nat \<Rightarrow> string" where
  "nat_str n = (if n < 10 then [hex_char n] else nat_str (n div 10) @ [hex_char (n mod 10)])"

declare nat_str.simps [simp del]

definition int_str :: "int \<Rightarrow> string" where
  "int_str i = (if i < 0 then CHR ''-'' # nat_str (nat (- i)) else nat_str (nat i))"

fun scalar_str :: "scalar \<Rightarrow> string" where
  "scalar_str SNull = ''null''"
| "scalar_str (SInt i) = int_str i"
| "scalar_str (SStr s) = json_str s"

fun items_str :: "(string \<times> scalar) list \<Rightarrow> string" where
  "items_str [] = ''}''"
| "items_str [(k, v)] = json_str k @ '': '' @ scalar_str v @ ''}''"
| "items_str ((k, v) # kv # kvs) = json_str k @ '': '' @ scalar_str v @ '', '' @ items_str (kv # kvs)"

definition dumps_sorted :: "(string \<times> scalar) list \<Rightarrow> string" where
  "dumps_sorted kvs = CHR ''{'' # items_str (sort_key fst kvs)"

subsection \<open>Strings decode\<close>

fun hex_val :: "char \<Rightarrow> nat" where
  "hex_val c = (let n = of_char c in if n \<le> 57 then n - 48 else n - 87)"

lemma hex_val_char: "n < 16 \<Longrightarrow> hex_val (hex_char n) = n"
  by (simp add: hex_char_def less_Suc_eq numeral_eq_Suc) (elim disjE; simp)

text \<open>A decoder of one escaped character, from which the escapes are seen to be a prefix code.\<close>

fun unesc :: "string \<Rightarrow> (char \<times> string) option" where
  "unesc [] = None"
| "unesc (c # xs) =
     (if c \<noteq> CHR 0x5C then Some (c, xs)
      else case xs of
             [] \<Rightarrow> None
           | e # ys \<Rightarrow>
               (case map_of (map prod.swap short_escapes) e of
                  Some d \<Rightarrow> Some (d, ys)
                | None \<Rightarrow> Some (char_of (16 * hex_val (ys ! 2) + hex_val (ys ! 3)), drop 4 ys)))"

lemma unesc_esc: "unesc (esc_char c @ xs) = Some (c, xs)"
proof (cases "map_of short_escapes c")
  case (Some e)
  then show ?thesis by (auto simp: esc_char_def short_escapes_def split: if_splits)
next
  case None
  let ?n = "of_char c :: nat"
  have "?n < 256" by simp
  then have "?n div 16 < 16" by linarith
  then have hex: "hex_val (hex_char (?n div 16)) = ?n div 16" "hex_val (hex_char (?n mod 16)) = ?n mod 16"
    by (simp_all add: hex_val_char del: hex_val.simps)
  have "16 * (?n div 16) + ?n mod 16 = ?n" by simp
  then have c: "(char_of (16 * (?n div 16) + ?n mod 16) :: char) = c" by (simp only: char_of_char)
  have "c \<noteq> CHR 0x5C" using None by (auto simp: short_escapes_def)
  with None hex c show ?thesis
    by (simp add: esc_char_def Let_def del: hex_val.simps) (simp add: short_escapes_def)
qed

lemma esc_char_inj: "esc_char c @ xs = esc_char d @ ys \<Longrightarrow> c = d \<and> xs = ys"
  by (metis unesc_esc option.inject prod.inject)

lemma esc_char_start: "esc_char c @ xs \<noteq> CHR 0x22 # ys"
  by (auto simp: esc_char_def short_escapes_def Let_def split: if_splits option.splits)

lemma concat_esc_inj:
  "concat (map esc_char s) @ CHR 0x22 # xs = concat (map esc_char t) @ CHR 0x22 # ys \<Longrightarrow> s = t \<and> xs = ys"
proof (induction s arbitrary: t)
  case Nil
  then show ?case using esc_char_start [symmetric] by (cases t) auto
next
  case (Cons c s)
  show ?case
  proof (cases t)
    case Nil
    with Cons.prems esc_char_start [of c "concat (map esc_char s) @ CHR 0x22 # xs" ys] show ?thesis by simp
  next
    case (Cons d t')
    with Cons.prems have "esc_char c @ concat (map esc_char s) @ CHR 0x22 # xs
                        = esc_char d @ concat (map esc_char t') @ CHR 0x22 # ys" by simp
    from esc_char_inj [OF this] Cons.IH Cons show ?thesis by blast
  qed
qed

lemma json_str_inj: "json_str s @ xs = json_str t @ ys \<Longrightarrow> s = t \<and> xs = ys"
  by (rule concat_esc_inj) (simp only: json_str_def append_Cons append_assoc append_Nil list.inject)

subsection \<open>Numbers decode\<close>

definition dec_val :: "string \<Rightarrow> nat" where
  "dec_val ds = foldl (\<lambda>a d. 10 * a + hex_val d) 0 ds"

lemma dec_val_nat_str: "dec_val (nat_str n) = n"
proof (induction n rule: nat_str.induct)
  case (1 n)
  have "hex_val (hex_char (n mod 10)) = n mod 10" "n < 10 \<Longrightarrow> hex_val (hex_char n) = n"
    by (rule hex_val_char, simp)+
  with 1 show ?case unfolding nat_str.simps [of n] by (auto simp: dec_val_def simp del: hex_val.simps)
qed

definition dec_chars :: "char set" where
  "dec_chars = set ''0123456789''"

lemma hex_char_dec: "n < 10 \<Longrightarrow> hex_char n \<in> dec_chars"
  by (simp add: hex_char_def dec_chars_def less_Suc_eq numeral_eq_Suc) (elim disjE; simp)

lemma set_nat_str: "set (nat_str n) \<subseteq> dec_chars"
proof (induction n rule: nat_str.induct)
  case (1 n)
  then show ?case unfolding nat_str.simps [of n] by (auto simp: hex_char_dec)
qed

lemma nat_str_not_Nil: "nat_str n \<noteq> []"
  unfolding nat_str.simps [of n] by simp

lemma nat_str_no_minus: "nat_str n \<noteq> CHR ''-'' # xs"
proof
  assume "nat_str n = CHR ''-'' # xs"
  with set_nat_str [of n] show False by (simp add: dec_chars_def)
qed

lemma int_str_inj: "int_str i = int_str j \<Longrightarrow> i = j"
proof -
  have nat_inj: "nat_str m = nat_str n \<Longrightarrow> m = n" for m n by (metis dec_val_nat_str)
  show "int_str i = int_str j \<Longrightarrow> i = j"
    using nat_str_no_minus nat_str_no_minus [symmetric]
    by (auto simp: int_str_def split: if_splits dest!: nat_inj)
qed

lemma set_int_str: "set (int_str i) \<subseteq> insert (CHR ''-'') dec_chars"
  using set_nat_str by (auto simp: int_str_def)

subsection \<open>Dictionaries decode\<close>

definition delims :: "char set" where
  "delims = {CHR '','', CHR ''}''}"

lemma delim_split:
  assumes "u @ c # xs = v @ d # ys" "c \<in> D" "d \<in> D" "set u \<inter> D = {}" "set v \<inter> D = {}"
  shows "u = v \<and> c # xs = d # ys"
proof -
  have "takeWhile (\<lambda>x. x \<notin> D) (u @ c # xs) = u" "takeWhile (\<lambda>x. x \<notin> D) (v @ d # ys) = v"
    using assms(2-5) by (simp_all add: takeWhile_append disjoint_iff)
  with assms(1) show ?thesis by simp
qed

lemma scalar_no_delim: "\<forall>s. v \<noteq> SStr s \<Longrightarrow> set (scalar_str v) \<inter> delims = {}"
  using set_int_str by (cases v) (fastforce simp: delims_def dec_chars_def)+

lemma scalar_start: "\<forall>s. v \<noteq> SStr s \<Longrightarrow> scalar_str v \<noteq> [] \<and> hd (scalar_str v) \<noteq> CHR 0x22"
proof (cases v)
  case (SInt i)
  have "int_str i \<noteq> []" using nat_str_not_Nil by (simp add: int_str_def)
  then have "hd (int_str i) \<in> insert (CHR ''-'') dec_chars" using set_int_str hd_in_set by blast
  with SInt \<open>int_str i \<noteq> []\<close> show ?thesis by (auto simp: dec_chars_def)
qed auto

lemma scalar_bare_inj:
  assumes "scalar_str v = scalar_str w" "\<forall>s. v \<noteq> SStr s" "\<forall>s. w \<noteq> SStr s"
  shows "v = w"
proof -
  have "CHR ''n'' \<notin> set (int_str i)" for i using set_int_str [of i] by (auto simp: dec_chars_def)
  then have "int_str i \<noteq> ''null''" for i by (metis list.set_intros(1))
  with assms show ?thesis by (cases v; cases w) (auto dest: int_str_inj)
qed

lemma scalar_str_inj:
  assumes eq: "scalar_str v @ c # xs = scalar_str w @ d # ys" and cd: "c \<in> delims" "d \<in> delims"
  shows "v = w \<and> c # xs = d # ys"
proof (cases "\<exists>s. v = SStr s")
  case True
  then obtain s where v: "v = SStr s" ..
  then have "hd (scalar_str w @ d # ys) = CHR 0x22" using eq by (metis append_Cons json_str_def list.sel(1) scalar_str.simps(3))
  then obtain t where w: "w = SStr t" using scalar_start [of w] by (metis hd_append)
  from eq show ?thesis unfolding v w scalar_str.simps by (auto dest: json_str_inj)
next
  case False
  then have "hd (scalar_str w @ d # ys) \<noteq> CHR 0x22" using eq scalar_start [of v] by (metis hd_append)
  then have "\<forall>s. w \<noteq> SStr s" by (auto simp: json_str_def)
  with False delim_split [OF eq cd] scalar_no_delim scalar_bare_inj show ?thesis by blast
qed

lemma items_str_inj: "items_str a = items_str b \<Longrightarrow> map fst a = map fst b \<Longrightarrow> a = b"
proof (induction a arbitrary: b rule: items_str.induct)
  case 1
  then show ?case by simp
next
  case (2 k v)
  then obtain w where b: "b = [(k, w)]" by (cases b) auto
  have "scalar_str v @ CHR ''}'' # [] = scalar_str w @ CHR ''}'' # []" using 2(1) b by simp
  from scalar_str_inj [OF this] b show ?case by (simp add: delims_def)
next
  case (3 k v kv kvs)
  then obtain w kw kws where b: "b = (k, w) # kw # kws" by (cases b; cases "tl b") auto
  have "scalar_str v @ CHR '','' # CHR '' '' # items_str (kv # kvs)
      = scalar_str w @ CHR '','' # CHR '' '' # items_str (kw # kws)" using 3(2) b by simp
  from scalar_str_inj [OF this] have "v = w" "items_str (kv # kvs) = items_str (kw # kws)"
    by (simp_all add: delims_def)
  with 3 b show ?case by simp
qed

lemma map_sort_key: "map f (sort_key f xs) = sort (map f xs)"
proof -
  have "map f (insort_key f x ys) = insort (f x) (map f ys)" for x ys by (induction ys) auto
  then show ?thesis by (induction xs) auto
qed

lemma same_items:
  assumes "set a = set b" "map fst a = map fst b" "distinct (map fst a)"
  shows "a = b"
proof (rule nth_equalityI)
  show len: "length a = length b" using assms(2) by (metis length_map)
  fix i
  assume i: "i < length a"
  have k: "fst (a ! i) = fst (b ! i)" using assms(2) i len by (metis nth_map)
  have "map_of a (fst (a ! i)) = Some (snd (a ! i))" using assms(3) i by simp
  moreover have "(fst (a ! i), snd (b ! i)) \<in> set a" using assms(1) i len k by (metis nth_mem prod.collapse)
  ultimately have "snd (a ! i) = snd (b ! i)" using assms(3) by (metis map_of_eq_Some_iff option.inject)
  with k show "a ! i = b ! i" by (simp add: prod_eq_iff)
qed

text \<open>
  The canonical text determines the dictionary: dictionaries that list the same distinct keys in
  the same order and render to the same text are equal.
\<close>

lemma dumps_sorted_inj:
  assumes "dumps_sorted a = dumps_sorted b" "map fst a = map fst b" "distinct (map fst a)"
  shows "a = b"
proof -
  have "map fst (sort_key fst a) = map fst (sort_key fst b)" using assms(2) by (simp only: map_sort_key)
  with assms(1) have "sort_key fst a = sort_key fst b"
    unfolding dumps_sorted_def by (auto dest: items_str_inj)
  then have "set a = set b" by (metis set_sort)
  from same_items [OF this assms(2,3)] show ?thesis .
qed

lemma nat_str_length: "n < 10 ^ k \<Longrightarrow> 0 < k \<Longrightarrow> length (nat_str n) \<le> k"
proof (induction n arbitrary: k rule: nat_str.induct)
  case (1 n)
  show ?case
  proof (cases "n < 10")
    case True
    with 1 show ?thesis by (subst nat_str.simps) simp
  next
    case False
    with "1.prems" obtain k' where k: "k = Suc k'" "0 < k'" by (cases k; cases "k - 1") auto
    with "1.prems" have "n div 10 < 10 ^ k'" by (simp add: less_mult_imp_div_less mult.commute)
    with "1.IH" [OF False this k(2)] False k show ?thesis by (subst nat_str.simps) simp
  qed
qed

end
