(* ===== verification/Audit_Chain.thy ===== *)
theory Audit_Chain
  imports Canonical_Json
begin

text \<open>
  The audit log as a hash chain (\<open>core/audit_chain.py\<close>, \<open>db/models/audit.py\<close>): the rows,
  the text each row's hash covers, the verification walk, and what the walk is worth as tamper
  evidence. SHA-256 is the parameter \<open>sha\<close>, a function from texts to hex digests.
\<close>

subsection \<open>Rows\<close>

text \<open>The constructor payload of \<open>Log\<close> without its chain columns.\<close>

record log_fields =
  lf_timestamp :: instant
  lf_created_at_utc :: "string option"
  lf_level :: string
  lf_category :: string
  lf_action :: string
  lf_actor :: "string option"
  lf_actor_gravatar_hash :: "string option"
  lf_entity_type :: "string option"
  lf_entity_id :: "int option"
  lf_old_value :: "string option"
  lf_new_value :: "string option"
  lf_user_agent :: "string option"
  lf_ip_address :: "string option"
  lf_details :: "string option"
  lf_status_code :: "int option"
  lf_actor_id :: "int option"
  lf_actor_name :: "string option"
  lf_entity_name :: "string option"
  lf_diff :: "string option"
  lf_severity :: "string option"
  lf_session_id :: "int option"
  lf_role_at_time :: "string option"

record log_row =
  log_id :: int
  log_fields :: log_fields
  log_previous_hash :: "string option"
  log_log_hash :: "string option"

subsection \<open>Hashes\<close>

fun str_scalar :: "string option \<Rightarrow> scalar" where
  "str_scalar None = SNull"
| "str_scalar (Some s) = SStr s"

fun int_scalar :: "int option \<Rightarrow> scalar" where
  "int_scalar None = SNull"
| "int_scalar (Some i) = SInt i"

text \<open>\<open>x or ""\<close> for a nullable string.\<close>

definition or_empty :: "string option \<Rightarrow> string" where
  "or_empty x = (case x of None \<Rightarrow> [] | Some s \<Rightarrow> s)"

definition canonical_log_payload :: "log_fields \<Rightarrow> string option \<Rightarrow> (string \<times> scalar) list" where
  "canonical_log_payload f previous_hash =
     [(''timestamp'', SStr (or_empty (lf_created_at_utc f))),
      (''action'', SStr (lf_action f)),
      (''actor_id'', int_scalar (lf_actor_id f)),
      (''role_at_time'', str_scalar (lf_role_at_time f)),
      (''entity_type'', str_scalar (lf_entity_type f)),
      (''entity_id'', int_scalar (lf_entity_id f)),
      (''diff'', str_scalar (lf_diff f)),
      (''ip_address'', str_scalar (lf_ip_address f)),
      (''previous_hash'', str_scalar previous_hash)]"

definition payload_text :: "log_fields \<Rightarrow> string option \<Rightarrow> string" where
  "payload_text f previous_hash = dumps_sorted (canonical_log_payload f previous_hash)"

definition compute_log_hash :: "(string \<Rightarrow> string) \<Rightarrow> log_fields \<Rightarrow> string option \<Rightarrow> string" where
  "compute_log_hash sha f previous_hash = sha (payload_text f previous_hash)"

subsection \<open>The database\<close>

text \<open>
  The rows of \<open>logs\<close> in id order, the spool \<open>pending_audit_logs\<close> in id order, the columns
  of \<open>app_settings\<close> the audit log uses (no row before first-run setup), and the id sequences.
\<close>

record audit_settings =
  as_audit_chain_checkpoint_hash :: "string option"
  as_audit_log_retention_days :: int
  as_audit_log_hide_ip :: bool

record audit_db =
  ad_logs :: "log_row list"
  ad_next_id :: int
  ad_spool :: "(int \<times> log_fields) list"
  ad_spool_next :: int
  ad_settings :: "audit_settings option"

subsection \<open>Verification\<close>

definition chain_seed_hash :: "audit_db \<Rightarrow> string option" where
  "chain_seed_hash db = (case ad_settings db of None \<Rightarrow> None | Some s \<Rightarrow> as_audit_chain_checkpoint_hash s)"

datatype chain_failure = Previous_hash_mismatch | Log_hash_mismatch

record chain_report =
  cr_valid :: bool
  cr_first_failure_id :: "int option"
  cr_failure :: "chain_failure option"
  cr_checked_count :: nat

fun verify_rows :: "(string \<Rightarrow> string) \<Rightarrow> string option \<Rightarrow> nat \<Rightarrow> log_row list \<Rightarrow> chain_report" where
  "verify_rows sha previous_hash checked [] =
     \<lparr>cr_valid = True, cr_first_failure_id = None, cr_failure = None, cr_checked_count = checked\<rparr>"
| "verify_rows sha previous_hash checked (r # rs) =
     (let expected_hash = compute_log_hash sha (log_fields r) previous_hash in
      if log_previous_hash r \<noteq> previous_hash then
        \<lparr>cr_valid = False, cr_first_failure_id = Some (log_id r), cr_failure = Some Previous_hash_mismatch,
         cr_checked_count = checked + 1\<rparr>
      else if log_log_hash r \<noteq> Some expected_hash then
        \<lparr>cr_valid = False, cr_first_failure_id = Some (log_id r), cr_failure = Some Log_hash_mismatch,
         cr_checked_count = checked + 1\<rparr>
      else verify_rows sha (Some expected_hash) (checked + 1) rs)"

definition verify_audit_chain :: "(string \<Rightarrow> string) \<Rightarrow> audit_db \<Rightarrow> chain_report" where
  "verify_audit_chain sha db = verify_rows sha (chain_seed_hash db) 0 (ad_logs db)"

subsection \<open>Appending\<close>

text \<open>
  The tail of \<open>_do_write\<close> and of the drain loop: under the lock, read the tip, link the new row
  to it and insert. \<open>log_hash\<close> is unique, so a hash already stored makes the insert fail.
\<close>

definition tip_hash :: "log_row list \<Rightarrow> string option" where
  "tip_hash rows = (if rows = [] then None else log_log_hash (last rows))"

definition chain_append :: "(string \<Rightarrow> string) \<Rightarrow> log_fields \<Rightarrow> audit_db \<Rightarrow> audit_db option" where
  "chain_append sha f db =
     (let previous_hash = tip_hash (ad_logs db);
          h = compute_log_hash sha f previous_hash in
      if Some h \<in> set (map log_log_hash (ad_logs db)) then None
      else Some (db\<lparr>ad_logs := ad_logs db @ [\<lparr>log_id = ad_next_id db, log_fields = f,
                                              log_previous_hash = previous_hash, log_log_hash = Some h\<rparr>],
                    ad_next_id := ad_next_id db + 1\<rparr>))"

subsection \<open>Relinking\<close>

text \<open>
  The walk of \<open>repair_audit_chain\<close> over the damaged suffix, in windows of rows. An UPDATE of a
  changed row fails when another row stores the same hash; the UPDATEs of a window are issued in
  id order at its flush, and nothing is read in between.
\<close>

definition REPAIR_BATCH_ROWS :: nat where "REPAIR_BATCH_ROWS = 500"

record hash_change =
  hc_id :: int
  hc_old_previous_hash :: "string option"
  hc_new_previous_hash :: "string option"
  hc_old_log_hash :: "string option"
  hc_new_log_hash :: "string option"

definition relink_row :: "(string \<Rightarrow> string) \<Rightarrow> string option \<Rightarrow> log_row \<Rightarrow> log_row" where
  "relink_row sha prev r =
     r\<lparr>log_previous_hash := prev, log_log_hash := Some (compute_log_hash sha (log_fields r) prev)\<rparr>"

definition put_row :: "log_row \<Rightarrow> log_row list \<Rightarrow> log_row list option" where
  "put_row r logs =
     (if list_ex (\<lambda>s. log_id s \<noteq> log_id r \<and> log_log_hash s = log_log_hash r) logs then None
      else Some (tbl_upd log_id (log_id r) (\<lambda>_. r) logs))"

definition hash_changed :: "log_row \<Rightarrow> log_row \<Rightarrow> bool" where
  "hash_changed r r' \<longleftrightarrow> log_previous_hash r \<noteq> log_previous_hash r' \<or> log_log_hash r \<noteq> log_log_hash r'"

definition change_of :: "log_row \<Rightarrow> log_row \<Rightarrow> hash_change list" where
  "change_of r r' =
     (if hash_changed r r' then
        [\<lparr>hc_id = log_id r, hc_old_previous_hash = log_previous_hash r, hc_new_previous_hash = log_previous_hash r',
          hc_old_log_hash = log_log_hash r, hc_new_log_hash = log_log_hash r'\<rparr>]
      else [])"

fun repair_rows ::
  "(string \<Rightarrow> string) \<Rightarrow> string option \<Rightarrow> log_row list \<Rightarrow> log_row list
   \<Rightarrow> (string option \<times> hash_change list \<times> log_row list) option" where
  "repair_rows sha prev [] logs = Some (prev, [], logs)"
| "repair_rows sha prev (r # rs) logs =
     (let r' = relink_row sha prev r in
      case (if hash_changed r r' then put_row r' logs else Some logs) of
        None \<Rightarrow> None
      | Some logs' \<Rightarrow>
          (case repair_rows sha (log_log_hash r') rs logs' of
             None \<Rightarrow> None
           | Some (p, changes, logs'') \<Rightarrow> Some (p, change_of r r' @ changes, logs'')))"

definition repair_window :: "int \<Rightarrow> log_row list \<Rightarrow> log_row list" where
  "repair_window next_id logs = take REPAIR_BATCH_ROWS (filter (\<lambda>r. next_id \<le> log_id r) logs)"

lemma map_id_put_row: "put_row r logs = Some logs' \<Longrightarrow> map log_id logs' = map log_id logs"
  by (auto simp: put_row_def tbl_upd_def split: if_splits)

lemma map_id_repair_rows:
  "repair_rows sha prev rs logs = Some (p, ch, logs') \<Longrightarrow> map log_id logs' = map log_id logs"
proof (induction rs arbitrary: prev logs p ch)
  case (Cons r rs)
  let ?r = "relink_row sha prev r"
  from Cons.prems obtain mid p' ch' where
    mid: "(if hash_changed r ?r then put_row ?r logs else Some logs) = Some mid"
    and "repair_rows sha (log_log_hash ?r) rs mid = Some (p', ch', logs')"
    by (auto simp: Let_def split: option.splits)
  from Cons.IH [OF this(2)] mid show ?case by (auto split: if_splits dest: map_id_put_row)
qed simp

lemma length_filter_ids:
  "map log_id a = map log_id b \<Longrightarrow> length (filter (\<lambda>r. P (log_id r)) a) = length (filter (\<lambda>r. P (log_id r)) b)"
proof -
  have "length (filter (\<lambda>r. P (log_id r)) l) = length (filter P (map log_id l))" for l by (simp add: filter_map comp_def)
  then show "map log_id a = map log_id b \<Longrightarrow> ?thesis" by metis
qed

lemma window_progress:
  assumes "repair_window n logs \<noteq> []" "map log_id logs' = map log_id logs"
  shows "length (filter (\<lambda>r. log_id (last (repair_window n logs)) + 1 \<le> log_id r) logs')
       < length (filter (\<lambda>r. n \<le> log_id r) logs)"
proof -
  let ?l = "last (repair_window n logs)"
  have l: "?l \<in> set logs" "n \<le> log_id ?l"
    using last_in_set [OF assms(1)] by (auto simp: repair_window_def dest!: in_set_takeD)
  have "length (filter (\<lambda>r. log_id ?l + 1 \<le> log_id r) logs) < length (filter (\<lambda>r. n \<le> log_id r) logs)"
    using l by (intro length_filter_strict [of _ _ ?l]) auto
  with length_filter_ids [OF assms(2), of "\<lambda>i. log_id ?l + 1 \<le> i"] show ?thesis by simp
qed

function repair_loop ::
  "(string \<Rightarrow> string) \<Rightarrow> int \<Rightarrow> string option \<Rightarrow> log_row list \<Rightarrow> (hash_change list \<times> log_row list) option" where
  "repair_loop sha next_id prev logs =
     (let window = repair_window next_id logs in
      if window = [] then Some ([], logs)
      else case repair_rows sha prev window logs of
             None \<Rightarrow> None
           | Some (p, changes, logs') \<Rightarrow>
               (case repair_loop sha (log_id (last window) + 1) p logs' of
                  None \<Rightarrow> None
                | Some (later, logs'') \<Rightarrow> Some (changes @ later, logs'')))"
  by pat_completeness auto
termination
  by (relation "measure (\<lambda>(sha, n, p, logs). length (filter (\<lambda>r. n \<le> log_id r) logs))")
     (auto dest!: map_id_repair_rows intro: window_progress)

declare repair_loop.simps [simp del]

subsection \<open>Linked rows\<close>

text \<open>
  The declarative reading of the walk: every row names the hash of its predecessor and carries
  the hash of its own text.
\<close>

definition row_ok :: "(string \<Rightarrow> string) \<Rightarrow> string option \<Rightarrow> log_row \<Rightarrow> bool" where
  "row_ok sha prev r \<longleftrightarrow> log_previous_hash r = prev \<and> log_log_hash r = Some (compute_log_hash sha (log_fields r) prev)"

fun links :: "(string \<Rightarrow> string) \<Rightarrow> string option \<Rightarrow> log_row list \<Rightarrow> bool" where
  "links sha prev [] = True"
| "links sha prev (r # rs) = (row_ok sha prev r \<and> links sha (log_log_hash r) rs)"

definition end_hash :: "string option \<Rightarrow> log_row list \<Rightarrow> string option" where
  "end_hash prev rows = (if rows = [] then prev else log_log_hash (last rows))"

lemma end_hash_simps [simp]:
  "end_hash prev [] = prev" "end_hash prev (r # rs) = end_hash (log_log_hash r) rs"
  "end_hash prev (rs @ [r]) = log_log_hash r"
  by (auto simp: end_hash_def)

lemma end_hash_append [simp]: "end_hash prev (xs @ ys) = end_hash (end_hash prev xs) ys"
  by (auto simp: end_hash_def)

lemma links_append [simp]: "links sha prev (xs @ ys) \<longleftrightarrow> links sha prev xs \<and> links sha (end_hash prev xs) ys"
  by (induction xs arbitrary: prev) auto

lemma tip_is_end: "tip_hash rows = end_hash None rows"
  by (simp add: tip_hash_def end_hash_def)

lemma end_hash_seed: "rows \<noteq> [] \<Longrightarrow> end_hash p rows = end_hash q rows"
  by (simp add: end_hash_def)

lemma seed_logs_irrelevant [simp]: "chain_seed_hash (db\<lparr>ad_logs := l\<rparr>) = chain_seed_hash db"
  by (simp add: chain_seed_hash_def)

lemma row_okD:
  assumes "row_ok sha prev r"
  shows "log_previous_hash r = prev" "log_log_hash r = Some (compute_log_hash sha (log_fields r) (log_previous_hash r))"
  using assms by (simp_all add: row_ok_def)

lemma verify_valid: "cr_valid (verify_rows sha prev n rows) \<longleftrightarrow> links sha prev rows"
  by (induction rows arbitrary: prev n) (auto simp: row_ok_def Let_def)

lemma verify_links_append:
  "links sha prev xs \<Longrightarrow> verify_rows sha prev n (xs @ ys) = verify_rows sha (end_hash prev xs) (n + length xs) ys"
  by (induction xs arbitrary: prev n) (auto simp: row_ok_def Let_def)

lemma verify_counts_all:
  "links sha prev rows \<Longrightarrow> verify_rows sha prev n rows =
     \<lparr>cr_valid = True, cr_first_failure_id = None, cr_failure = None, cr_checked_count = n + length rows\<rparr>"
  using verify_links_append [of sha prev rows n "[]"] by simp

text \<open>Where the walk stops: the rows before are linked, the row it names is not.\<close>

lemma verify_failureE:
  assumes "\<not> links sha prev rows"
  obtains xs r ys where "rows = xs @ r # ys" "links sha prev xs" "\<not> row_ok sha (end_hash prev xs) r"
    "cr_first_failure_id (verify_rows sha prev n rows) = Some (log_id r)"
proof -
  have "\<exists>xs r ys. rows = xs @ r # ys \<and> links sha prev xs \<and> \<not> row_ok sha (end_hash prev xs) r"
    using assms
  proof (induction rows arbitrary: prev)
    case (Cons r rs)
    show ?case
    proof (cases "row_ok sha prev r")
      case True
      with Cons.prems have "\<not> links sha (log_log_hash r) rs" by simp
      from Cons.IH [OF this] obtain xs s ys where "rs = xs @ s # ys" "links sha (log_log_hash r) xs"
        "\<not> row_ok sha (end_hash (log_log_hash r) xs) s" by blast
      with True show ?thesis by (intro exI [of _ "r # xs"]) auto
    qed (intro exI [of _ "[]"], auto)
  qed simp
  then obtain xs r ys where *: "rows = xs @ r # ys" "links sha prev xs" "\<not> row_ok sha (end_hash prev xs) r" by blast
  then have "cr_first_failure_id (verify_rows sha prev n rows) = Some (log_id r)"
    by (auto simp: verify_links_append row_ok_def Let_def)
  with * that show ?thesis by blast
qed

subsection \<open>Tamper evidence\<close>

text \<open>What the hash of a row covers, link included.\<close>

definition hashed_content :: "log_row \<Rightarrow> (string \<times> scalar) list" where
  "hashed_content r = canonical_log_payload (log_fields r) (log_previous_hash r)"

definition row_text :: "log_row \<Rightarrow> string" where
  "row_text r = payload_text (log_fields r) (log_previous_hash r)"

lemma payload_text_inj: "payload_text f p = payload_text g q \<Longrightarrow> canonical_log_payload f p = canonical_log_payload g q"
  unfolding payload_text_def by (erule dumps_sorted_inj) (simp_all add: canonical_log_payload_def)

lemma str_scalar_inj [simp]: "str_scalar a = str_scalar b \<longleftrightarrow> a = b"
  by (cases a; cases b) auto

lemma int_scalar_inj [simp]: "int_scalar a = int_scalar b \<longleftrightarrow> a = b"
  by (cases a; cases b) auto

lemma payload_previous: "canonical_log_payload f p = canonical_log_payload g q \<Longrightarrow> p = q"
  by (simp add: canonical_log_payload_def)

lemma payload_any_previous:
  "canonical_log_payload f p = canonical_log_payload g p \<longleftrightarrow> canonical_log_payload f q = canonical_log_payload g q"
  by (simp add: canonical_log_payload_def)

text \<open>
  Editing a hashed column of a verified entry is located exactly: the walk reports the edited
  entry, as tampered, after the entries before it, unless SHA-256 collides on the two texts.
\<close>

theorem edited_entry_located:
  assumes "cr_valid (verify_audit_chain sha db)" "ad_logs db = xs @ r # ys"
    and "canonical_log_payload f None \<noteq> canonical_log_payload (log_fields r) None"
    and "inj_on sha {row_text r, row_text (r\<lparr>log_fields := f\<rparr>)}"
  shows "verify_audit_chain sha (db\<lparr>ad_logs := xs @ r\<lparr>log_fields := f\<rparr> # ys\<rparr>) =
           \<lparr>cr_valid = False, cr_first_failure_id = Some (log_id r), cr_failure = Some Log_hash_mismatch,
            cr_checked_count = length xs + 1\<rparr>"
proof -
  let ?p = "log_previous_hash r"
  have ok: "links sha (chain_seed_hash db) xs" "row_ok sha (end_hash (chain_seed_hash db) xs) r"
    using assms(1,2) by (simp_all add: verify_audit_chain_def verify_valid)
  have "payload_text f ?p \<noteq> payload_text (log_fields r) ?p"
    using assms(3) payload_text_inj payload_any_previous by metis
  then have "compute_log_hash sha f ?p \<noteq> compute_log_hash sha (log_fields r) ?p"
    using assms(4) by (auto simp: compute_log_hash_def row_text_def inj_on_def)
  with ok show ?thesis
    by (simp add: verify_audit_chain_def verify_links_append row_ok_def Let_def)
qed

text \<open>
  Removing entries before the tip is located exactly: the walk reports the first entry after
  the gap as not naming its predecessor. The stored hashes are distinct (the column is unique) and
  the recorded checkpoint is not one of them.
\<close>

theorem removed_entries_located:
  assumes "cr_valid (verify_audit_chain sha db)" "ad_logs db = xs @ gone @ y # ys" "gone \<noteq> []"
    and "distinct (chain_seed_hash db # map log_log_hash (ad_logs db))"
  shows "verify_audit_chain sha (db\<lparr>ad_logs := xs @ y # ys\<rparr>) =
           \<lparr>cr_valid = False, cr_first_failure_id = Some (log_id y), cr_failure = Some Previous_hash_mismatch,
            cr_checked_count = length xs + 1\<rparr>"
proof -
  let ?s = "chain_seed_hash db"
  have ok: "links sha ?s xs" "log_previous_hash y = end_hash ?s (xs @ gone)"
    using assms(1,2) by (simp_all add: verify_audit_chain_def verify_valid row_ok_def)
  have "end_hash ?s xs \<in> set (?s # map log_log_hash xs)" by (auto simp: end_hash_def)
  moreover have "end_hash ?s (xs @ gone) \<in> set (map log_log_hash gone)" using assms(3) by (simp add: end_hash_def)
  moreover have "set (?s # map log_log_hash xs) \<inter> set (map log_log_hash gone) = {}"
    using assms(4) unfolding assms(2) by auto
  ultimately have "end_hash ?s (xs @ gone) \<noteq> end_hash ?s xs" by (metis disjoint_iff)
  with ok(2) have "log_previous_hash y \<noteq> end_hash ?s xs" by simp
  then show ?thesis by (simp add: verify_audit_chain_def verify_links_append [OF ok(1)] Let_def)
qed

lemma tips_commit:
  "links sha None as \<Longrightarrow> links sha None bs \<Longrightarrow> inj_on sha (row_text ` (set as \<union> set bs))
   \<Longrightarrow> tip_hash as = tip_hash bs \<Longrightarrow> map hashed_content as = map hashed_content bs"
proof (induction as arbitrary: bs rule: rev_induct)
  case Nil
  then show ?case by (cases bs rule: rev_cases) (auto simp: tip_hash_def row_ok_def)
next
  case (snoc a as)
  from snoc.prems obtain b bs' where bs: "bs = bs' @ [b]"
    by (cases bs rule: rev_cases) (auto simp: tip_hash_def row_ok_def)
  have "row_ok sha (end_hash None as) a" "row_ok sha (end_hash None bs') b" "log_log_hash a = log_log_hash b"
    using snoc.prems(1,2,4) by (simp_all add: bs tip_is_end)
  from this(3) row_okD(2) [OF this(1)] row_okD(2) [OF this(2)] have "sha (row_text a) = sha (row_text b)"
    by (simp add: compute_log_hash_def row_text_def)
  then have "row_text a = row_text b" by (rule inj_onD [OF snoc.prems(3)]) (simp_all add: bs)
  then have c: "hashed_content a = hashed_content b"
    unfolding row_text_def hashed_content_def by (rule payload_text_inj)
  then have "log_previous_hash a = log_previous_hash b" unfolding hashed_content_def by (rule payload_previous)
  then have "tip_hash as = tip_hash bs'" using snoc.prems(1,2) by (simp add: bs tip_is_end row_ok_def)
  moreover have "inj_on sha (row_text ` (set as \<union> set bs'))" by (rule inj_on_subset [OF snoc.prems(3)]) (auto simp: bs)
  ultimately show ?case using snoc.IH [of bs'] snoc.prems(1,2) c by (simp add: bs)
qed

text \<open>
  C13. The tip hash commits to the whole history: two logs that both verify from genesis and have
  the same tip hash agree, entry by entry, on everything the hashes cover, unless SHA-256 collides
  on their texts.
\<close>

theorem tip_commits_to_history:
  assumes "cr_valid (verify_audit_chain sha a)" "cr_valid (verify_audit_chain sha b)"
    and "chain_seed_hash a = None" "chain_seed_hash b = None"
    and "inj_on sha (row_text ` (set (ad_logs a) \<union> set (ad_logs b)))"
    and "tip_hash (ad_logs a) = tip_hash (ad_logs b)"
  shows "map hashed_content (ad_logs a) = map hashed_content (ad_logs b)"
  using tips_commit [OF _ _ assms(5,6)] assms(1-4) by (simp add: verify_audit_chain_def verify_valid)

subsection \<open>What relinking does\<close>

text \<open>The specification of the repair walk: one pass over the suffix.\<close>

fun relink :: "(string \<Rightarrow> string) \<Rightarrow> string option \<Rightarrow> log_row list \<Rightarrow> log_row list" where
  "relink sha prev [] = []"
| "relink sha prev (r # rs) = relink_row sha prev r # relink sha (log_log_hash (relink_row sha prev r)) rs"

lemma relink_row_simps [simp]:
  "log_id (relink_row sha prev r) = log_id r" "log_fields (relink_row sha prev r) = log_fields r"
  "row_ok sha prev (relink_row sha prev r)"
  by (simp_all add: relink_row_def row_ok_def)

lemma relink_append: "relink sha prev (xs @ ys) = relink sha prev xs @ relink sha (end_hash prev (relink sha prev xs)) ys"
  by (induction xs arbitrary: prev) auto

lemma links_relink: "links sha prev (relink sha prev rows)"
  by (induction rows arbitrary: prev) auto

lemma relink_keeps [simp]:
  "map log_id (relink sha prev rows) = map log_id rows" "map log_fields (relink sha prev rows) = map log_fields rows"
  "length (relink sha prev rows) = length rows" "relink sha prev rows = [] \<longleftrightarrow> rows = []"
  by (induction rows arbitrary: prev) auto

lemma relink_unchanged: "\<not> hash_changed r (relink_row sha prev r) \<Longrightarrow> relink_row sha prev r = r"
  by (simp add: hash_changed_def relink_row_def)

text \<open>
  No UPDATE of the repair meets the hash of another row: the new hashes are pairwise distinct,
  differ from those before the suffix, and from what the other damaged rows store.
\<close>

definition relink_free :: "(string \<Rightarrow> string) \<Rightarrow> string option \<Rightarrow> log_row list \<Rightarrow> log_row list \<Rightarrow> bool" where
  "relink_free sha prev xs rows \<longleftrightarrow>
     distinct (map log_log_hash (xs @ relink sha prev rows)) \<and>
     (\<forall>r \<in> set (relink sha prev rows). \<forall>s \<in> set rows. log_id s \<noteq> log_id r \<longrightarrow> log_log_hash s \<noteq> log_log_hash r)"

lemma relink_free_step:
  assumes "relink_free sha prev xs (r # rows)"
  shows "relink_free sha (log_log_hash (relink_row sha prev r)) (xs @ [relink_row sha prev r]) rows"
  using assms by (auto simp: relink_free_def)

lemma put_row_at:
  assumes "distinct (map log_id (xs @ r # ys))" "log_id r' = log_id r"
    and "\<forall>s \<in> set xs \<union> set ys. log_log_hash s \<noteq> log_log_hash r'"
  shows "put_row r' (xs @ r # ys) = Some (xs @ r' # ys)"
proof -
  have "tbl_upd log_id (log_id r) (\<lambda>_. r') zs = zs" if "log_id r \<notin> log_id ` set zs" for zs
    using that by (induction zs) auto
  then have "tbl_upd log_id (log_id r) (\<lambda>_. r') (xs @ r # ys) = xs @ r' # ys"
    using assms(1) by (simp add: tbl_upd_def)
  with assms(2,3) show ?thesis by (auto simp: put_row_def list_ex_iff)
qed

lemma repair_rows_relinks:
  assumes "distinct (map log_id (xs @ w @ rest))" "relink_free sha prev xs (w @ rest)"
  shows "\<exists>ch. repair_rows sha prev w (xs @ w @ rest) =
           Some (end_hash prev (relink sha prev w), ch, xs @ relink sha prev w @ rest)"
  using assms
proof (induction w arbitrary: prev xs)
  case (Cons r w)
  let ?r = "relink_row sha prev r"
  have free: "\<forall>s \<in> set xs \<union> set (w @ rest). log_log_hash s \<noteq> log_log_hash ?r"
  proof -
    have "log_log_hash ?r \<notin> log_log_hash ` set xs" "log_id r \<notin> log_id ` set (w @ rest)"
      using Cons.prems by (auto simp: relink_free_def)
    moreover have "\<forall>s \<in> set (w @ rest). log_id s \<noteq> log_id r \<longrightarrow> log_log_hash s \<noteq> log_log_hash ?r"
      using Cons.prems(2) by (simp add: relink_free_def)
    ultimately show ?thesis by (metis Un_iff image_eqI)
  qed
  have "(if hash_changed r ?r then put_row ?r (xs @ r # w @ rest) else Some (xs @ r # w @ rest)) = Some (xs @ ?r # w @ rest)"
    using put_row_at [OF _ _ free] Cons.prems(1) relink_unchanged [of r sha prev, THEN sym] by simp
  moreover obtain ch where "repair_rows sha (log_log_hash ?r) w ((xs @ [?r]) @ w @ rest) =
      Some (end_hash (log_log_hash ?r) (relink sha (log_log_hash ?r) w), ch, (xs @ [?r]) @ relink sha (log_log_hash ?r) w @ rest)"
    using Cons.IH [OF _ relink_free_step, of "xs" prev r] Cons.prems by fastforce
  ultimately show ?case by (simp add: Let_def)
qed simp

lemma relink_free_append:
  "relink_free sha prev xs (w @ rest) \<Longrightarrow>
   relink_free sha (end_hash prev (relink sha prev w)) (xs @ relink sha prev w) rest"
proof (induction w arbitrary: prev xs)
  case (Cons r w)
  from Cons.IH [OF relink_free_step] Cons.prems show ?case by simp
qed simp

text \<open>The windowed walk computes exactly the one-pass relinking, however many windows it takes.\<close>

lemma repair_loop_relinks:
  assumes "sorted_wrt (<) (map log_id (xs @ rows))" "\<forall>r \<in> set xs. log_id r < n" "\<forall>r \<in> set rows. n \<le> log_id r"
    and "relink_free sha prev xs rows"
  shows "\<exists>ch. repair_loop sha n prev (xs @ rows) = Some (ch, xs @ relink sha prev rows)"
  using assms
proof (induction "length rows" arbitrary: n prev xs rows rule: less_induct)
  case less
  have flt: "filter (\<lambda>r. n \<le> log_id r) (xs @ rows) = rows" using less.prems(2,3) by (auto simp: filter_empty_conv)
  show ?case
  proof (cases "rows = []")
    case True
    then show ?thesis using flt by (simp add: repair_loop.simps repair_window_def)
  next
    case False
    define w rest where "w = take REPAIR_BATCH_ROWS rows" and "rest = drop REPAIR_BATCH_ROWS rows"
    have w: "w \<noteq> []" "rows = w @ rest" using False by (simp_all add: w_def rest_def REPAIR_BATCH_ROWS_def)
    have win: "repair_window n (xs @ rows) = w" using flt by (simp add: repair_window_def w_def)
    have sw: "sorted_wrt (<) (map log_id (xs @ w @ rest))" using less.prems(1) w(2) by simp
    then have "distinct (map log_id (xs @ w @ rest))" by (simp add: strict_sorted_iff)
    from repair_rows_relinks [OF this] less.prems(4) w(2) obtain ch where
      step: "repair_rows sha prev w (xs @ rows) = Some (end_hash prev (relink sha prev w), ch, xs @ relink sha prev w @ rest)"
      by auto
    have ids: "log_id ` set (relink sha prev w) = log_id ` set w" by (metis relink_keeps(1) set_map)
    obtain v l where v: "w = v @ [l]" using w(1) by (cases w rule: rev_cases) auto
    have "\<forall>i \<in> log_id ` set (xs @ w). i < log_id (last w) + 1" using sw by (auto simp: v sorted_wrt_append)
    then have below: "\<forall>r \<in> set (xs @ relink sha prev w). log_id r < log_id (last w) + 1"
      using ids by (metis Un_iff image_eqI image_Un set_append)
    have above: "\<forall>r \<in> set rest. log_id (last w) + 1 \<le> log_id r" using sw by (auto simp: v sorted_wrt_append)
    have "\<exists>ch. repair_loop sha (log_id (last w) + 1) (end_hash prev (relink sha prev w)) ((xs @ relink sha prev w) @ rest)
            = Some (ch, (xs @ relink sha prev w) @ relink sha (end_hash prev (relink sha prev w)) rest)"
      using less.hyps [of rest "xs @ relink sha prev w"] w sw below above relink_free_append less.prems(4) by simp
    with step win w(1) show ?thesis
      unfolding repair_loop.simps [of sha n prev "xs @ rows"] by (auto simp: w(2) relink_append)
  qed
qed

subsection \<open>Concrete logs\<close>

definition blank_fields :: "string \<Rightarrow> log_fields" where
  "blank_fields action =
     \<lparr>lf_timestamp = 0, lf_created_at_utc = Some ''2026-01-01T00:00:00Z'', lf_level = ''info'', lf_category = ''crud'',
      lf_action = action, lf_actor = None, lf_actor_gravatar_hash = None, lf_entity_type = None, lf_entity_id = None,
      lf_old_value = None, lf_new_value = None, lf_user_agent = None, lf_ip_address = None, lf_details = None,
      lf_status_code = None, lf_actor_id = Some 1, lf_actor_name = None, lf_entity_name = None, lf_diff = None,
      lf_severity = None, lf_session_id = None, lf_role_at_time = None\<rparr>"

definition blank_row :: "int \<Rightarrow> string \<Rightarrow> log_row" where
  "blank_row i action = \<lparr>log_id = i, log_fields = blank_fields action, log_previous_hash = None, log_log_hash = None\<rparr>"

definition demo_rows :: "log_row list" where
  "demo_rows = relink (\<lambda>t. t) None [blank_row 1 ''a'', blank_row 2 ''b'', blank_row 3 ''c'']"

definition demo_audit :: "log_row list \<Rightarrow> audit_db" where
  "demo_audit rows = \<lparr>ad_logs = rows, ad_next_id = 4, ad_spool = [], ad_spool_next = 1, ad_settings = None\<rparr>"

lemma demo_audit_simps [simp]:
  "ad_logs (demo_audit rows) = rows" "chain_seed_hash (demo_audit rows) = None"
  by (simp_all add: demo_audit_def chain_seed_hash_def)

lemma demo_valid: "cr_valid (verify_audit_chain (\<lambda>t. t) (demo_audit demo_rows))"
  by (simp add: verify_audit_chain_def verify_valid demo_rows_def links_relink del: relink.simps)

lemma payload_text_action: "payload_text f p = payload_text g q \<Longrightarrow> lf_action f = lf_action g"
  by (drule payload_text_inj) (simp add: canonical_log_payload_def)

lemma demo_distinct: "distinct (map log_log_hash demo_rows)"
  by (auto simp: demo_rows_def relink_row_def compute_log_hash_def blank_row_def blank_fields_def dest: payload_text_action)

theorem edited_entry_located_witness:
  "verify_audit_chain (\<lambda>t. t) (demo_audit (hd demo_rows # (demo_rows ! 1)\<lparr>log_fields := blank_fields ''x''\<rparr> # [demo_rows ! 2])) =
     \<lparr>cr_valid = False, cr_first_failure_id = Some 2, cr_failure = Some Log_hash_mismatch, cr_checked_count = 2\<rparr>"
proof -
  have rows: "ad_logs (demo_audit demo_rows) = [hd demo_rows] @ demo_rows ! 1 # [demo_rows ! 2]"
    by (simp add: demo_rows_def)
  have ne: "canonical_log_payload (blank_fields ''x'') None \<noteq> canonical_log_payload (log_fields (demo_rows ! 1)) None"
    by (simp add: demo_rows_def canonical_log_payload_def blank_row_def blank_fields_def)
  have i: "log_id (demo_rows ! 1) = 2" by (simp add: demo_rows_def blank_row_def)
  from edited_entry_located [OF demo_valid rows ne inj_on_id2] i show ?thesis by (simp add: demo_audit_def)
qed

theorem removed_entries_located_witness:
  "verify_audit_chain (\<lambda>t. t) (demo_audit [hd demo_rows, demo_rows ! 2]) =
     \<lparr>cr_valid = False, cr_first_failure_id = Some 3, cr_failure = Some Previous_hash_mismatch, cr_checked_count = 2\<rparr>"
proof -
  have rows: "ad_logs (demo_audit demo_rows) = [hd demo_rows] @ [demo_rows ! 1] @ demo_rows ! 2 # []"
    by (simp add: demo_rows_def)
  have d: "distinct (chain_seed_hash (demo_audit demo_rows) # map log_log_hash (ad_logs (demo_audit demo_rows)))"
    using demo_distinct by (auto simp: demo_rows_def relink_row_def)
  have i: "log_id (demo_rows ! 2) = 3" by (simp add: demo_rows_def blank_row_def)
  from removed_entries_located [OF demo_valid rows _ d] i show ?thesis by (simp add: demo_audit_def)
qed

text \<open>Two logs that differ only in a column no hash covers have the same tip.\<close>

theorem tip_commits_to_history_witness:
  "map hashed_content demo_rows =
   map hashed_content (map (\<lambda>r. r\<lparr>log_fields := (log_fields r)\<lparr>lf_details := Some ''d''\<rparr>\<rparr>) demo_rows)"
proof -
  let ?other = "map (\<lambda>r. r\<lparr>log_fields := (log_fields r)\<lparr>lf_details := Some ''d''\<rparr>\<rparr>) demo_rows"
  have eq: "compute_log_hash sha (f\<lparr>lf_details := x\<rparr>) p = compute_log_hash sha f p" for sha f x p
    by (simp add: compute_log_hash_def payload_text_def canonical_log_payload_def)
  have "links sha p (map (\<lambda>r. r\<lparr>log_fields := (log_fields r)\<lparr>lf_details := Some ''d''\<rparr>\<rparr>) rows) = links sha p rows" for sha p rows
    by (induction rows arbitrary: p) (auto simp: row_ok_def eq)
  with demo_valid have v: "cr_valid (verify_audit_chain (\<lambda>t. t) (demo_audit ?other))"
    by (simp only: verify_audit_chain_def verify_valid demo_audit_simps)
  have t: "tip_hash (ad_logs (demo_audit demo_rows)) = tip_hash (ad_logs (demo_audit ?other))"
    by (simp add: tip_hash_def demo_rows_def)
  from tip_commits_to_history [OF demo_valid v demo_audit_simps(2) demo_audit_simps(2) inj_on_id2 t]
  show ?thesis by (simp only: demo_audit_simps)
qed

end
