(* ===== verification/Log_Redaction.thy ===== *)
theory Log_Redaction
  imports Text_Redaction Monitor_Db
begin

text \<open>
  The redaction every audit entry passes before it is stored (\<open>services/log_service.py\<close>):
  values under sensitive keys are replaced, and the keys themselves are masked.
\<close>

subsection \<open>Redaction\<close>

definition REDACTED_KEYS :: "string list" where
  "REDACTED_KEYS =
     [''password'', ''secret'', ''token'', ''key'', ''credential'', ''community'', ''api_key'', ''vault_key'',
      ''telemetry_config'', ''jwt_secret'', ''password_hash'', ''hashed_password'']"

definition HIDDEN :: string where "HIDDEN = ''<hidden>''"
definition LOG_REDACTED :: string where "LOG_REDACTED = ''***REDACTED***''"

definition sensitive_key :: "string \<Rightarrow> bool" where
  "sensitive_key k = list_ex (\<lambda>r. occurs r (py_lower k)) REDACTED_KEYS"

text \<open>
  \<open>_SORTED_REDACTED_KEYS\<close> sorts a set by length, so the order of keys of equal length varies
  between processes: the order is the argument \<open>ks\<close>.
\<close>

definition mask_key :: "string list \<Rightarrow> string \<Rightarrow> string" where
  "mask_key ks k = fold (\<lambda>r result. py_replace r HIDDEN result) ks (py_lower k)"

text \<open>Assigning to a key already in the dictionary replaces its value in place.\<close>

fun sanitise_diff :: "string list \<Rightarrow> json \<Rightarrow> json"
  and sanitise_list :: "string list \<Rightarrow> json list \<Rightarrow> json list"
  and sanitise_items :: "string list \<Rightarrow> (string \<times> json) list \<Rightarrow> (string \<times> json) list \<Rightarrow> (string \<times> json) list" where
  "sanitise_diff ks (JObj d) = JObj (sanitise_items ks d [])"
| "sanitise_diff ks (JList l) = JList (sanitise_list ks l)"
| "sanitise_diff ks v = v"
| "sanitise_list ks [] = []"
| "sanitise_list ks (v # vs) = sanitise_diff ks v # sanitise_list ks vs"
| "sanitise_items ks [] result = result"
| "sanitise_items ks ((k, v) # d) result =
     (if sensitive_key k then sanitise_items ks d (AList.update (mask_key ks k) (JStr LOG_REDACTED) result)
      else sanitise_items ks d (AList.update k (sanitise_diff ks v) result))"

text \<open>\<open>json.loads\<close> (None: it raises) and \<open>json.dumps\<close> on arbitrary bodies are arguments.\<close>

record json_codec =
  jc_keys :: "string list"
  jc_loads :: "string \<Rightarrow> json option"
  jc_dumps :: "json \<Rightarrow> string"

definition dumps_opt :: "json_codec \<Rightarrow> json \<Rightarrow> string option" where
  "dumps_opt jc v = (if v = JNull then None else Some (jc_dumps jc v))"

definition sanitise_log_string :: "json_codec \<Rightarrow> string option \<Rightarrow> string option" where
  "sanitise_log_string jc value =
     (case value of
        None \<Rightarrow> None
      | Some s \<Rightarrow>
          if s = [] then value
          else case jc_loads jc s of
                 Some data \<Rightarrow> dumps_opt jc (sanitise_diff (jc_keys jc) data)
               | None \<Rightarrow>
                   if list_ex (\<lambda>r. occurs r (py_lower s)) [''password'', ''secret'', ''token='', ''credential'']
                   then Some LOG_REDACTED else value)"

subsection \<open>Masked keys\<close>

interpretation angle: marker "CHR ''<''" "''hidden''" "CHR ''>''" .

lemma angle_mark: "angle.mark = HIDDEN"
  by (simp add: angle.mark_def HIDDEN_def)

lemma redacted_keys_proper: "q \<in> set REDACTED_KEYS \<Longrightarrow> angle.proper q"
proof -
  have "list_all angle.proper REDACTED_KEYS" unfolding angle.proper_def REDACTED_KEYS_def by code_simp
  then show "q \<in> set REDACTED_KEYS \<Longrightarrow> angle.proper q" by (simp add: list_all_iff)
qed

lemma set_py_replace: "set (py_replace s r t) \<subseteq> set r \<union> set t"
proof (cases "s = []")
  case False
  then show ?thesis
  proof (induction t rule: replace_induct [of _ s])
    case (Match c cs)
    then show ?case using set_drop_subset [of "length s" "c # cs"]
      by (simp add: py_replace_unfold del: drop_Cons') blast
  qed (use False in \<open>auto simp: py_replace_unfold\<close>)
qed (simp add: py_replace_unfold)

lemma mask_fold_lower: "\<forall>c \<in> set t. lower_char c = c \<Longrightarrow> \<forall>c \<in> set (fold (\<lambda>r. py_replace r HIDDEN) ks t). lower_char c = c"
proof (induction ks arbitrary: t)
  case (Cons r ks)
  have "\<forall>c \<in> set HIDDEN. lower_char c = c" by code_simp
  with Cons.prems set_py_replace [of r HIDDEN t] have "\<forall>c \<in> set (py_replace r HIDDEN t). lower_char c = c" by blast
  from Cons.IH [OF this] show ?case by simp
qed simp

lemma mask_fold_removes:
  "angle.proper q \<Longrightarrow> \<forall>s \<in> set ks. s \<noteq> [] \<Longrightarrow> q \<in> set ks \<or> \<not> occurs q t
   \<Longrightarrow> \<not> occurs q (fold (\<lambda>r. py_replace r HIDDEN) ks t)"
proof (induction ks arbitrary: t)
  case (Cons r ks)
  from Cons.prems have "q \<in> set ks \<or> \<not> occurs q (py_replace r HIDDEN t)"
    using angle.replace_no_new [of r q t] by (auto simp: angle_mark)
  with Cons show ?case by simp
qed simp

lemma mask_key_clean:
  assumes "set ks = set REDACTED_KEYS"
  shows "\<not> sensitive_key (mask_key ks k)"
proof -
  have "\<forall>c \<in> set (py_lower k). lower_char c = c" by (auto simp: py_lower_def)
  then have "py_lower (mask_key ks k) = mask_key ks k"
    unfolding mask_key_def using mask_fold_lower [of "py_lower k" ks]
    by (subst py_lower_def) (rule map_idI, blast)
  moreover have "\<forall>s \<in> set ks. s \<noteq> []" using assms redacted_keys_proper angle.properD(1) by blast
  ultimately show ?thesis
    using mask_fold_removes redacted_keys_proper assms by (auto simp: sensitive_key_def list_ex_iff mask_key_def)
qed

subsection \<open>What a sanitised value shows\<close>

text \<open>The scalar leaves of a value that are reached through keys satisfying \<open>P\<close> only.\<close>

fun scalars :: "(string \<Rightarrow> bool) \<Rightarrow> json \<Rightarrow> json set"
  and scalars_list :: "(string \<Rightarrow> bool) \<Rightarrow> json list \<Rightarrow> json set"
  and scalars_obj :: "(string \<Rightarrow> bool) \<Rightarrow> (string \<times> json) list \<Rightarrow> json set" where
  "scalars P (JObj d) = scalars_obj P d"
| "scalars P (JList l) = scalars_list P l"
| "scalars P v = {v}"
| "scalars_list P [] = {}"
| "scalars_list P (v # vs) = scalars P v \<union> scalars_list P vs"
| "scalars_obj P [] = {}"
| "scalars_obj P ((k, v) # d) = (if P k then scalars P v else {}) \<union> scalars_obj P d"

lemma scalars_obj_eq: "scalars_obj P d = (\<Union>(k, v) \<in> set d. if P k then scalars P v else {})"
  by (induction d) auto

lemma all_keys_obj_eq: "set (all_keys_obj d) = (\<Union>(k, v) \<in> set d. insert k (set (all_keys v)))"
  by (induction d) auto

lemma set_update_subset: "set (AList.update k v al) \<subseteq> insert (k, v) (set al)"
  by (induction al) auto

text \<open>A value shows only unsensitive keys, and leaves from \<open>A\<close> or the replacement text.\<close>

definition shows_only :: "json set \<Rightarrow> json \<Rightarrow> bool" where
  "shows_only A v \<longleftrightarrow> (\<forall>k \<in> set (all_keys v). \<not> sensitive_key k) \<and> scalars (\<lambda>_. True) v \<subseteq> insert (JStr LOG_REDACTED) A"

lemma shows_only_obj:
  "shows_only A (JObj d) \<longleftrightarrow> (\<forall>(k, v) \<in> set d. \<not> sensitive_key k \<and> shows_only A v)"
  by (fastforce simp: shows_only_def all_keys_obj_eq scalars_obj_eq)

lemma shows_only_update:
  "shows_only A (JObj d) \<Longrightarrow> \<not> sensitive_key k \<Longrightarrow> shows_only A v \<Longrightarrow> shows_only A (JObj (AList.update k v d))"
  using set_update_subset [of k v d] by (fastforce simp: shows_only_obj)

lemma shows_only_list: "shows_only A (JList l) \<longleftrightarrow> (\<forall>v \<in> set l. shows_only A v)"
proof -
  have "set (all_keys_list l) = (\<Union>v \<in> set l. set (all_keys v))" "scalars_list P l = (\<Union>v \<in> set l. scalars P v)" for P
    by (induction l) auto
  then show ?thesis by (fastforce simp: shows_only_def)
qed

lemma sanitise_shows_only:
  "set ks = set REDACTED_KEYS \<Longrightarrow> scalars (\<lambda>k. \<not> sensitive_key k) v \<subseteq> A \<Longrightarrow> shows_only A (sanitise_diff ks v)"
  "set ks = set REDACTED_KEYS \<Longrightarrow> scalars_list (\<lambda>k. \<not> sensitive_key k) vs \<subseteq> A
   \<Longrightarrow> \<forall>v \<in> set (sanitise_list ks vs). shows_only A v"
  "set ks = set REDACTED_KEYS \<Longrightarrow> scalars_obj (\<lambda>k. \<not> sensitive_key k) d \<subseteq> A \<Longrightarrow> shows_only A (JObj result)
   \<Longrightarrow> shows_only A (JObj (sanitise_items ks d result))"
proof (induction ks v and ks vs and ks d result rule: sanitise_diff_sanitise_list_sanitise_items.induct)
  case (7 ks k v d result)
  have "\<not> sensitive_key (mask_key ks k)" using mask_key_clean 7 by blast
  moreover have "shows_only A (JStr LOG_REDACTED)" by (simp add: shows_only_def)
  ultimately show ?case using 7 by (cases "sensitive_key k") (simp_all add: shows_only_update)
qed (auto simp: shows_only_list, auto simp: shows_only_def)

text \<open>
  Redaction is complete at every depth: whatever order the keys are masked in, a sanitised
  value has no key that contains a sensitive word in any case, and every scalar in it is either
  the replacement text or one the original shows under unsensitive keys only.
\<close>

theorem sanitised_shows_nothing_sensitive:
  assumes "set ks = set REDACTED_KEYS"
  shows "(\<forall>k \<in> set (all_keys (sanitise_diff ks v)). \<not> sensitive_key k)
       \<and> scalars (\<lambda>_. True) (sanitise_diff ks v) \<subseteq> insert (JStr LOG_REDACTED) (scalars (\<lambda>k. \<not> sensitive_key k) v)"
  using sanitise_shows_only(1) [OF assms order_refl, of v] by (simp add: shows_only_def)

definition SORTED_REDACTED_KEYS :: "string list" where
  "SORTED_REDACTED_KEYS = sort_key (\<lambda>k. - int (length k)) REDACTED_KEYS"

theorem sanitised_shows_nothing_sensitive_witness:
  "scalars (\<lambda>_. True) (sanitise_diff SORTED_REDACTED_KEYS (JObj [(''name'', JStr ''n''), (''Api_Key'', JStr ''s3cret'')]))
     \<subseteq> {JStr LOG_REDACTED, JStr ''n''}
   \<and> sanitise_diff SORTED_REDACTED_KEYS (JObj [(''name'', JStr ''n''), (''Api_Key'', JStr ''s3cret'')]) =
       JObj [(''name'', JStr ''n''), (''<hidden>'', JStr LOG_REDACTED)]"
proof
  let ?v = "JObj [(''name'', JStr ''n''), (''Api_Key'', JStr ''s3cret'')]"
  have "sensitive_key ''Api_Key''" by code_simp
  then have "scalars (\<lambda>k. \<not> sensitive_key k) ?v \<subseteq> {JStr ''n''}" by simp
  moreover have "set SORTED_REDACTED_KEYS = set REDACTED_KEYS" by (simp add: SORTED_REDACTED_KEYS_def)
  note sanitised_shows_nothing_sensitive [OF this, of ?v]
  ultimately show "scalars (\<lambda>_. True) (sanitise_diff SORTED_REDACTED_KEYS ?v) \<subseteq> {JStr LOG_REDACTED, JStr ''n''}"
    by (meson insert_mono subset_trans)
qed code_simp

end
