(* ===== verification/Audit_Log.thy ===== *)
theory Audit_Log
  imports Audit_Chain Log_Redaction
begin

text \<open>
  The writers of the audit chain: \<open>write_log\<close> (\<open>services/log_service.py\<close>), the
  durable spool for entries that could not be chained in time (\<open>services/audit_spool.py\<close>), the
  retention purge (\<open>services/log_purge.py\<close>) and the repair (\<open>core/audit_chain.py\<close>), and the
  machine that interleaves their transactions.
\<close>

subsection \<open>The chain lock\<close>

datatype lock_result = Locked | AuditChainLockTimeout | Lock_refused

text \<open>
  The blocking wait returns or raises; the bounded wait polls, each poll with its answer and the
  clock read after it, and raises when the database stops answering.
\<close>

record lock_env =
  le_postgresql :: bool
  le_granted :: bool
  le_started :: instant
  le_polls :: "(bool \<times> instant) list"

fun lock_poll :: "instant \<Rightarrow> (bool \<times> instant) list \<Rightarrow> lock_result" where
  "lock_poll deadline [] = Lock_refused"
| "lock_poll deadline ((acquired, now) # polls) =
     (if acquired then Locked
      else if deadline \<le> now then AuditChainLockTimeout
      else lock_poll deadline polls)"

definition lock_audit_chain :: "int option \<Rightarrow> lock_env \<Rightarrow> lock_result" where
  "lock_audit_chain wait e =
     (if \<not> le_postgresql e then Locked
      else case wait of
             None \<Rightarrow> if le_granted e then Locked else Lock_refused
           | Some w \<Rightarrow> lock_poll (le_started e + w) (le_polls e))"

subsection \<open>Writing an entry\<close>

definition BACKGROUND_LOCK_WAIT :: int where "BACKGROUND_LOCK_WAIT = seconds 1"

record write_args =
  wa_action :: string
  wa_entity_type :: "string option"
  wa_entity_id :: "int option"
  wa_entity_name :: string
  wa_diff :: json
  wa_actor_name :: string
  wa_actor_id :: "int option"
  wa_ip_address :: "string option"
  wa_severity :: string
  wa_category :: string
  wa_level :: "string option"
  wa_status_code :: "int option"
  wa_old_value :: "string option"
  wa_new_value :: "string option"
  wa_user_agent :: "string option"
  wa_details :: "string option"
  wa_actor :: "string option"
  wa_actor_gravatar_hash :: "string option"
  wa_role_at_time :: "string option"
  wa_session_id :: "int option"

definition default_args :: "string \<Rightarrow> write_args" where
  "default_args action =
     \<lparr>wa_action = action, wa_entity_type = None, wa_entity_id = None, wa_entity_name = [], wa_diff = JNull,
      wa_actor_name = ''system'', wa_actor_id = None, wa_ip_address = None, wa_severity = ''info'',
      wa_category = ''crud'', wa_level = None, wa_status_code = None, wa_old_value = None, wa_new_value = None,
      wa_user_agent = None, wa_details = None, wa_actor = None, wa_actor_gravatar_hash = None,
      wa_role_at_time = None, wa_session_id = None\<rparr>"

text \<open>
  What a call meets: the codec, the clock, whether the settings row can be loaded, the lock, and
  whether the spool insert commits and an event loop is there to publish on.
\<close>

record write_env =
  we_codec :: json_codec
  we_now :: instant
  we_now_iso :: string
  we_settings_ok :: bool
  we_lock :: lock_env
  we_spool_ok :: bool
  we_event_loop :: bool

record audit_message =
  am_action :: string
  am_entity_type :: "string option"
  am_entity_id :: "int option"
  am_actor_id :: "int option"
  am_severity :: string
  am_ts :: string

definition default_settings :: audit_settings where
  "default_settings = \<lparr>as_audit_chain_checkpoint_hash = None, as_audit_log_retention_days = 90, as_audit_log_hide_ip = False\<rparr>"

definition get_or_create_settings :: "audit_db \<Rightarrow> audit_settings \<times> audit_db" where
  "get_or_create_settings db =
     (case ad_settings db of
        Some s \<Rightarrow> (s, db)
      | None \<Rightarrow> (default_settings, db\<lparr>ad_settings := Some default_settings\<rparr>))"

definition log_fields_of :: "write_env \<Rightarrow> write_args \<Rightarrow> string option \<Rightarrow> log_fields" where
  "log_fields_of e a effective_ip =
     \<lparr>lf_timestamp = we_now e, lf_created_at_utc = Some (we_now_iso e),
      lf_level = (case wa_level a of Some l \<Rightarrow> l | None \<Rightarrow> wa_severity a),
      lf_category = wa_category a, lf_action = wa_action a,
      lf_actor = Some (case wa_actor a of Some x \<Rightarrow> x | None \<Rightarrow> wa_actor_name a),
      lf_actor_gravatar_hash = wa_actor_gravatar_hash a,
      lf_entity_type = wa_entity_type a, lf_entity_id = wa_entity_id a,
      lf_old_value = sanitise_log_string (we_codec e) (wa_old_value a),
      lf_new_value = sanitise_log_string (we_codec e) (wa_new_value a),
      lf_user_agent = wa_user_agent a, lf_ip_address = effective_ip,
      lf_details = sanitise_log_string (we_codec e) (wa_details a),
      lf_status_code = wa_status_code a, lf_actor_id = wa_actor_id a, lf_actor_name = Some (wa_actor_name a),
      lf_entity_name = Some (wa_entity_name a),
      lf_diff = dumps_opt (we_codec e) (sanitise_diff (jc_keys (we_codec e)) (wa_diff a)),
      lf_severity = Some (wa_severity a), lf_session_id = wa_session_id a, lf_role_at_time = wa_role_at_time a\<rparr>"

definition publish_audit :: "write_env \<Rightarrow> write_args \<Rightarrow> audit_message list" where
  "publish_audit e a =
     (if we_event_loop e then
        [\<lparr>am_action = wa_action a, am_entity_type = wa_entity_type a, am_entity_id = wa_entity_id a,
          am_actor_id = wa_actor_id a, am_severity = wa_severity a, am_ts = we_now_iso e\<rparr>]
      else [])"

text \<open>
  The payload column stores the timestamp as ISO text and \<open>_decode\<close> reads it back, so a spooled
  entry is the entry itself.
\<close>

definition spool_defer :: "bool \<Rightarrow> log_fields \<Rightarrow> audit_db \<Rightarrow> audit_db" where
  "spool_defer spool_ok f db =
     (if spool_ok then db\<lparr>ad_spool := ad_spool db @ [(ad_spool_next db, f)], ad_spool_next := ad_spool_next db + 1\<rparr>
      else db)"

definition load_hide_ip :: "write_env \<Rightarrow> audit_db \<Rightarrow> bool \<times> audit_db" where
  "load_hide_ip e db =
     (if we_settings_ok e then map_prod as_audit_log_hide_ip id (get_or_create_settings db) else (False, db))"

definition write_log :: "(string \<Rightarrow> string) \<Rightarrow> write_env \<Rightarrow> bool \<Rightarrow> write_args \<Rightarrow> audit_db \<Rightarrow> audit_message list \<times> audit_db" where
  "write_log sha e background a db =
     (let db1 = snd (load_hide_ip e db);
          f = log_fields_of e a (if fst (load_hide_ip e db) then None else wa_ip_address a)
      in case lock_audit_chain (if background then Some BACKGROUND_LOCK_WAIT else None) (we_lock e) of
           Lock_refused \<Rightarrow> ([], db1)
         | AuditChainLockTimeout \<Rightarrow> (publish_audit e a, spool_defer (we_spool_ok e) f db1)
         | Locked \<Rightarrow>
             (case chain_append sha f db1 of
                None \<Rightarrow> ([], db1)
              | Some db2 \<Rightarrow> (publish_audit e a, db2)))"

subsection \<open>Draining the spool\<close>

definition DRAIN_BATCH_SIZE :: nat where "DRAIN_BATCH_SIZE = 500"

text \<open>
  \<open>_drain_within\<close> reads the pending rows before it waits for the lock; after the wait it chains
  what it read. Deleting a row that is no longer there only warns.
\<close>

definition drain_read :: "nat \<Rightarrow> audit_db \<Rightarrow> (int \<times> log_fields) list" where
  "drain_read limit db = take limit (ad_spool db)"

fun drain_rows :: "(string \<Rightarrow> string) \<Rightarrow> string option \<Rightarrow> (int \<times> log_fields) list \<Rightarrow> audit_db \<Rightarrow> audit_db option" where
  "drain_rows sha previous_hash [] db = Some db"
| "drain_rows sha previous_hash ((i, f) # pending) db =
     (let h = compute_log_hash sha f previous_hash in
      if Some h \<in> set (map log_log_hash (ad_logs db)) then None
      else drain_rows sha (Some h) pending
             (db\<lparr>ad_logs := ad_logs db @ [\<lparr>log_id = ad_next_id db, log_fields = f,
                                           log_previous_hash = previous_hash, log_log_hash = Some h\<rparr>],
                 ad_next_id := ad_next_id db + 1,
                 ad_spool := filter (\<lambda>p. fst p \<noteq> i) (ad_spool db)\<rparr>))"

definition drain_chain :: "(string \<Rightarrow> string) \<Rightarrow> lock_env \<Rightarrow> (int \<times> log_fields) list \<Rightarrow> audit_db \<Rightarrow> (nat \<times> audit_db) option" where
  "drain_chain sha le pending db =
     (if pending = [] then Some (0, db)
      else if lock_audit_chain None le \<noteq> Locked then None
      else map_option (Pair (length pending)) (drain_rows sha (tip_hash (ad_logs db)) pending db))"

definition drain :: "(string \<Rightarrow> string) \<Rightarrow> lock_env \<Rightarrow> nat \<Rightarrow> audit_db \<Rightarrow> (nat \<times> audit_db) option" where
  "drain sha le limit db = drain_chain sha le (drain_read limit db) db"

subsection \<open>Retention\<close>

definition PURGE_BATCH_ROWS :: nat where "PURGE_BATCH_ROWS = 1000"

definition days :: "int \<Rightarrow> int" where
  "days n = seconds (n * 86400)"

definition next_purge_batch :: "instant \<Rightarrow> log_row list \<Rightarrow> (int \<times> string option) option" where
  "next_purge_batch cutoff logs =
     (if logs = [] then None
      else let max_id = log_id (last logs);
               first_kept = find (\<lambda>r. cutoff \<le> lf_timestamp (log_fields r)) logs;
               bound = (case first_kept of None \<Rightarrow> max_id | Some r \<Rightarrow> log_id r);
               batch = take PURGE_BATCH_ROWS (filter (\<lambda>r. log_id r < bound) logs)
           in if batch = [] then None else Some (log_id (last batch), log_log_hash (last batch)))"

text \<open>One batch transaction: the rows deleted and the database after it, or None when it stops.\<close>

definition purge_batch :: "instant \<Rightarrow> audit_db \<Rightarrow> (nat \<times> audit_db) option" where
  "purge_batch now db =
     (case ad_settings db of
        None \<Rightarrow> None
      | Some s \<Rightarrow>
          if as_audit_log_retention_days s \<le> 0 then None
          else case next_purge_batch (now - days (as_audit_log_retention_days s)) (ad_logs db) of
                 None \<Rightarrow> None
               | Some (tip_id, h) \<Rightarrow>
                   Some (length (filter (\<lambda>r. log_id r \<le> tip_id) (ad_logs db)),
                         db\<lparr>ad_settings := Some (s\<lparr>as_audit_chain_checkpoint_hash := h\<rparr>),
                            ad_logs := filter (\<lambda>r. \<not> log_id r \<le> tip_id) (ad_logs db)\<rparr>))"

lemma purge_batch_length:
  "purge_batch now db = Some (n, db') \<Longrightarrow> length (ad_logs db) = n + length (ad_logs db')"
  by (auto simp: purge_batch_def sum_length_filter_compl split: option.splits if_splits)

text \<open>
  The loop of \<open>purge_old_audit_logs\<close>; \<open>clock n\<close> is the time the n-th batch reads. It ends
  because a batch that deletes nothing stops it.
\<close>

function purge_loop :: "(nat \<Rightarrow> instant) \<Rightarrow> nat \<Rightarrow> audit_db \<Rightarrow> nat \<times> audit_db" where
  "purge_loop clock i db =
     (case purge_batch (clock i) db of
        None \<Rightarrow> (0, db)
      | Some (rowcount, db') \<Rightarrow>
          if rowcount = 0 then (0, db')
          else case purge_loop clock (i + 1) db' of (deleted, db'') \<Rightarrow> (rowcount + deleted, db''))"
  by pat_completeness auto
termination
  by (relation "measure (\<lambda>(clock, i, db). length (ad_logs db))") (auto dest: purge_batch_length)

declare purge_loop.simps [simp del]

definition purge_details :: "nat \<Rightarrow> int \<Rightarrow> string" where
  "purge_details deleted retention =
     ''Purged '' @ int_str (int deleted) @ '' audit log entries older than '' @ int_str retention @ '' days''"

definition purge_old_audit_logs ::
  "(string \<Rightarrow> string) \<Rightarrow> write_env \<Rightarrow> (nat \<Rightarrow> instant) \<Rightarrow> audit_db \<Rightarrow> nat \<times> audit_db" where
  "purge_old_audit_logs sha e clock db =
     (case ad_settings db of
        None \<Rightarrow> (0, db)
      | Some s \<Rightarrow>
          (case purge_loop clock 0 db of (deleted, db') \<Rightarrow>
             (deleted,
              if deleted = 0 then db'
              else snd (write_log sha e True
                     ((default_args ''audit_log_purge'')
                        \<lparr>wa_category := ''settings'', wa_severity := ''info'',
                         wa_details := Some (purge_details deleted (as_audit_log_retention_days s))\<rparr>) db'))))"

subsection \<open>Repair\<close>

definition REPAIR_AUTHORIZATION :: string where "REPAIR_AUTHORIZATION = ''REPAIR_AUDIT_CHAIN''"

datatype repair_error = Not_authorised | Repair_lock_refused | Repair_integrity_error

record repair_report =
  rr_repaired :: bool
  rr_before :: chain_report
  rr_changed :: "hash_change list"
  rr_after :: chain_report

definition repair_seed :: "int \<Rightarrow> audit_db \<Rightarrow> string option" where
  "repair_seed first_failure db =
     (let before = filter (\<lambda>r. log_id r < first_failure) (ad_logs db) in
      case (if before = [] then None else log_log_hash (last before)) of
        Some h \<Rightarrow> Some h
      | None \<Rightarrow> chain_seed_hash db)"

definition repair_args :: "json_codec \<Rightarrow> int option \<Rightarrow> string \<Rightarrow> int \<Rightarrow> nat \<Rightarrow> write_args" where
  "repair_args jc actor reason first_failure changed =
     (default_args ''audit_chain_repair'')
       \<lparr>wa_entity_type := Some ''audit_log'', wa_entity_id := Some first_failure,
        wa_entity_name := ''from:'' @ int_str first_failure,
        wa_diff := JObj [(''reason'', JStr reason), (''first_failure_id'', JInt first_failure),
                         (''changed_count'', JInt (int changed))],
        wa_actor_name := (case actor of None \<Rightarrow> ''system'' | Some i \<Rightarrow> ''user:'' @ int_str i),
        wa_actor_id := actor, wa_severity := ''warn'', wa_category := ''audit'',
        wa_details := Some (jc_dumps jc (JObj [(''authorization'', JStr REPAIR_AUTHORIZATION),
                              (''changed_count'', JInt (int changed)), (''first_failure_id'', JInt first_failure),
                              (''reason'', JStr reason)]))\<rparr>"

definition repair_audit_chain ::
  "(string \<Rightarrow> string) \<Rightarrow> write_env \<Rightarrow> string \<Rightarrow> int option \<Rightarrow> string \<Rightarrow> audit_db
   \<Rightarrow> (repair_error + repair_report) \<times> audit_db" where
  "repair_audit_chain sha e authorization actor reason db =
     (if authorization \<noteq> REPAIR_AUTHORIZATION then (Inl Not_authorised, db)
      else let before = verify_audit_chain sha db in
        case cr_first_failure_id before of
          None \<Rightarrow> (Inr \<lparr>rr_repaired = False, rr_before = before, rr_changed = [], rr_after = before\<rparr>, db)
        | Some first_failure \<Rightarrow>
            if lock_audit_chain None (we_lock e) \<noteq> Locked then (Inl Repair_lock_refused, db)
            else case repair_loop sha first_failure (repair_seed first_failure db) (ad_logs db) of
                   None \<Rightarrow> (Inl Repair_integrity_error, db)
                 | Some (changed, logs) \<Rightarrow>
                     let db' = snd (write_log sha e False
                                 (repair_args (we_codec e) actor reason first_failure (length changed))
                                 (db\<lparr>ad_logs := logs\<rparr>))
                     in (Inr \<lparr>rr_repaired = True, rr_before = before, rr_changed = changed,
                              rr_after = verify_audit_chain sha db'\<rparr>, db'))"

subsection \<open>The machine\<close>

text \<open>
  One event per transaction. A drain chains an arbitrary list of pending rows, so every snapshot it
  may have read before waiting for the lock is covered; a settings write keeps the checkpoint.
\<close>

datatype audit_event =
    Write_log write_env bool write_args
  | Drain lock_env "(int \<times> log_fields) list"
  | Purge_batch instant
  | Repair write_env string "int option" string
  | Update_settings int bool

fun audit_step :: "(string \<Rightarrow> string) \<Rightarrow> audit_event \<Rightarrow> audit_db \<Rightarrow> audit_db" where
  "audit_step sha (Write_log e bg a) db = snd (write_log sha e bg a db)"
| "audit_step sha (Drain le pending) db = (case drain_chain sha le pending db of None \<Rightarrow> db | Some (n, db') \<Rightarrow> db')"
| "audit_step sha (Purge_batch now) db = (case purge_batch now db of None \<Rightarrow> db | Some (n, db') \<Rightarrow> db')"
| "audit_step sha (Repair e au actor reason) db = snd (repair_audit_chain sha e au actor reason db)"
| "audit_step sha (Update_settings retention hide) db =
     (let (cfg, db1) = get_or_create_settings db in
      db1\<lparr>ad_settings := Some (cfg\<lparr>as_audit_log_retention_days := retention, as_audit_log_hide_ip := hide\<rparr>)\<rparr>)"

subsection \<open>Appending keeps the chain\<close>

definition chain_inv :: "(string \<Rightarrow> string) \<Rightarrow> audit_db \<Rightarrow> bool" where
  "chain_inv sha db \<longleftrightarrow>
     links sha (chain_seed_hash db) (ad_logs db) \<and> sorted_wrt (<) (map log_id (ad_logs db)) \<and>
     (\<forall>r \<in> set (ad_logs db). log_id r < ad_next_id db) \<and> (ad_logs db = [] \<longrightarrow> chain_seed_hash db = None)"

lemma chain_inv_verifies:
  "chain_inv sha db \<Longrightarrow> verify_audit_chain sha db =
     \<lparr>cr_valid = True, cr_first_failure_id = None, cr_failure = None, cr_checked_count = length (ad_logs db)\<rparr>"
  by (simp add: chain_inv_def verify_audit_chain_def verify_counts_all)

lemma chain_inv_tip: "chain_inv sha db \<Longrightarrow> tip_hash (ad_logs db) = end_hash (chain_seed_hash db) (ad_logs db)"
  by (auto simp: chain_inv_def tip_hash_def end_hash_def)

text \<open>Only the rows, the sequence and the checkpoint matter.\<close>

lemma chain_inv_cong:
  "ad_logs db' = ad_logs db \<Longrightarrow> ad_next_id db' = ad_next_id db \<Longrightarrow> chain_seed_hash db' = chain_seed_hash db
   \<Longrightarrow> chain_inv sha db' \<longleftrightarrow> chain_inv sha db"
  by (simp add: chain_inv_def)

lemma chain_inv_snoc:
  assumes "chain_inv sha db" "chain_seed_hash db' = chain_seed_hash db"
    and "ad_logs db' = ad_logs db @ [\<lparr>log_id = ad_next_id db, log_fields = f,
           log_previous_hash = tip_hash (ad_logs db), log_log_hash = Some (compute_log_hash sha f (tip_hash (ad_logs db)))\<rparr>]"
    and "ad_next_id db' = ad_next_id db + 1"
  shows "chain_inv sha db'"
  using assms(1) chain_inv_tip [OF assms(1)] unfolding chain_inv_def assms(2-4)
  by (auto simp: row_ok_def sorted_wrt_append)

lemma chain_append_inv: "chain_inv sha db \<Longrightarrow> chain_append sha f db = Some db' \<Longrightarrow> chain_inv sha db'"
  by (rule chain_inv_snoc [of sha db db' f]) (auto simp: chain_append_def Let_def chain_seed_hash_def split: if_splits)

lemma get_or_create_settings_frame [simp]:
  "ad_logs (snd (get_or_create_settings db)) = ad_logs db" "ad_next_id (snd (get_or_create_settings db)) = ad_next_id db"
  "ad_spool (snd (get_or_create_settings db)) = ad_spool db"
  "chain_seed_hash (snd (get_or_create_settings db)) = chain_seed_hash db"
  by (auto simp: get_or_create_settings_def chain_seed_hash_def default_settings_def split: option.splits)

lemma spool_defer_frame [simp]:
  "ad_logs (spool_defer ok f db) = ad_logs db" "ad_next_id (spool_defer ok f db) = ad_next_id db"
  "chain_seed_hash (spool_defer ok f db) = chain_seed_hash db" "ad_settings (spool_defer ok f db) = ad_settings db"
  by (simp_all add: spool_defer_def chain_seed_hash_def)

text \<open>A write is nothing, a spool insert or one append, after the settings row was ensured.\<close>

lemma write_log_cases:
  obtains db1 f where "ad_logs db1 = ad_logs db" "ad_next_id db1 = ad_next_id db"
      "chain_seed_hash db1 = chain_seed_hash db" "ad_spool db1 = ad_spool db"
      "snd (write_log sha e bg a db) = db1 \<or> snd (write_log sha e bg a db) = spool_defer (we_spool_ok e) f db1
       \<or> chain_append sha f db1 = Some (snd (write_log sha e bg a db))"
proof -
  define db1 where "db1 = snd (load_hide_ip e db)"
  define f where "f = log_fields_of e a (if fst (load_hide_ip e db) then None else wa_ip_address a)"
  have frame: "ad_logs db1 = ad_logs db" "ad_next_id db1 = ad_next_id db"
    "chain_seed_hash db1 = chain_seed_hash db" "ad_spool db1 = ad_spool db"
    by (simp_all add: db1_def load_hide_ip_def)
  have "snd (write_log sha e bg a db) =
      (case lock_audit_chain (if bg then Some BACKGROUND_LOCK_WAIT else None) (we_lock e) of
           Lock_refused \<Rightarrow> db1 | AuditChainLockTimeout \<Rightarrow> spool_defer (we_spool_ok e) f db1
         | Locked \<Rightarrow> (case chain_append sha f db1 of None \<Rightarrow> db1 | Some d \<Rightarrow> d))"
    unfolding write_log_def db1_def [symmetric] f_def [symmetric] Let_def
    by (simp split: lock_result.split option.split)
  then show thesis using that [of db1 f, OF frame] by (simp split: lock_result.splits option.splits)
qed

lemma write_log_inv:
  assumes "chain_inv sha db"
  shows "chain_inv sha (snd (write_log sha e bg a db))"
proof (rule write_log_cases [of db sha e bg a])
  fix db1 f
  assume frame: "ad_logs db1 = ad_logs db" "ad_next_id db1 = ad_next_id db" "chain_seed_hash db1 = chain_seed_hash db"
    and out: "snd (write_log sha e bg a db) = db1 \<or> snd (write_log sha e bg a db) = spool_defer (we_spool_ok e) f db1
       \<or> chain_append sha f db1 = Some (snd (write_log sha e bg a db))"
  have inv1: "chain_inv sha db1" using assms chain_inv_cong [OF frame] by simp
  moreover have "chain_inv sha (spool_defer (we_spool_ok e) f db1)" using inv1 by (subst chain_inv_cong) simp_all
  ultimately show ?thesis using out chain_append_inv by metis
qed

lemma drain_rows_inv:
  "chain_inv sha db \<Longrightarrow> p = tip_hash (ad_logs db) \<Longrightarrow> drain_rows sha p pending db = Some db' \<Longrightarrow> chain_inv sha db'"
proof (induction sha p pending db rule: drain_rows.induct)
  case (2 sha p i f pending db)
  let ?h = "compute_log_hash sha f p"
  let ?db = "db\<lparr>ad_logs := ad_logs db @ [\<lparr>log_id = ad_next_id db, log_fields = f, log_previous_hash = p, log_log_hash = Some ?h\<rparr>],
                ad_next_id := ad_next_id db + 1, ad_spool := filter (\<lambda>p. fst p \<noteq> i) (ad_spool db)\<rparr>"
  have new: "Some ?h \<notin> set (map log_log_hash (ad_logs db))" using "2.prems"(3) by (auto simp: Let_def)
  have "chain_inv sha ?db" by (rule chain_inv_snoc [OF "2.prems"(1)]) (simp_all add: chain_seed_hash_def "2.prems"(2))
  with "2.IH" [OF refl new] "2.prems"(3) new show ?case by (simp add: Let_def tip_hash_def)
qed simp

subsection \<open>Purging keeps the chain\<close>

definition expired :: "instant \<Rightarrow> log_row \<Rightarrow> bool" where
  "expired cutoff r \<longleftrightarrow> lf_timestamp (log_fields r) < cutoff"

text \<open>The reference: the longest old prefix, but never the tip.\<close>

definition purgeable :: "instant \<Rightarrow> log_row list \<Rightarrow> log_row list" where
  "purgeable cutoff logs = (if list_all (expired cutoff) logs then butlast logs else takeWhile (expired cutoff) logs)"

definition retained :: "instant \<Rightarrow> log_row list \<Rightarrow> log_row list" where
  "retained cutoff logs =
     (if list_all (expired cutoff) logs then drop (length logs - 1) logs else dropWhile (expired cutoff) logs)"

lemma purgeable_retained: "purgeable cutoff logs @ retained cutoff logs = logs"
  by (simp add: purgeable_def retained_def butlast_conv_take)

lemma retained_Nil [simp]: "retained cutoff logs = [] \<longleftrightarrow> logs = []"
  by (cases logs rule: rev_cases) (auto simp: retained_def list_all_iff dropWhile_eq_Nil_conv)

lemma purgeable_expired: "r \<in> set (purgeable cutoff logs) \<Longrightarrow> expired cutoff r"
  by (auto simp: purgeable_def list_all_iff dest: in_set_butlastD set_takeWhileD split: if_splits)

text \<open>Deleting some of the purgeable rows leaves the others purgeable.\<close>

lemma purgeable_drop:
  fixes n logs cutoff
  defines "rest \<equiv> drop n (purgeable cutoff logs) @ retained cutoff logs"
  shows "purgeable cutoff rest = drop n (purgeable cutoff logs)" "retained cutoff rest = retained cutoff logs"
proof -
  let ?P = "purgeable cutoff logs" and ?R = "retained cutoff logs"
  have P: "\<forall>r \<in> set (drop n ?P). expired cutoff r" using purgeable_expired by (meson in_set_dropD)
  have "purgeable cutoff rest = drop n ?P \<and> retained cutoff rest = ?R"
  proof (cases "list_all (expired cutoff) logs")
    case True
    then consider "logs = []" | l where "?R = [l]" "expired cutoff l"
      by (cases logs rule: rev_cases) (auto simp: retained_def)
    then show ?thesis
    proof cases
      case 2
      then have "list_all (expired cutoff) rest" using P by (auto simp: rest_def list_all_iff)
      with 2 show ?thesis by (simp add: purgeable_def [of _ rest] retained_def [of _ rest]) (simp add: rest_def)
    qed (simp add: rest_def purgeable_def retained_def)
  next
    case False
    then have "?R = dropWhile (expired cutoff) logs" "?R \<noteq> []" by (auto simp: retained_def list_all_iff)
    then obtain r R where R: "?R = r # R" "\<not> expired cutoff r" by (metis dropWhile_eq_Cons_conv list.exhaust)
    then have "\<not> list_all (expired cutoff) rest" by (simp add: rest_def)
    with R P show ?thesis
      by (simp add: purgeable_def [of _ rest] retained_def [of _ rest]) (simp add: rest_def takeWhile_append2 dropWhile_append2)
  qed
  then show "purgeable cutoff rest = drop n ?P" "retained cutoff rest = ?R" by auto
qed

lemma filter_below:
  "sorted_wrt (<) (map log_id (P @ k # R)) \<Longrightarrow> filter (\<lambda>r. log_id r < log_id k) (P @ k # R) = P"
  by (auto simp: sorted_wrt_append filter_empty_conv intro!: filter_True)

lemma batch_is_purgeable:
  assumes "sorted_wrt (<) (map log_id logs)"
  shows "next_purge_batch cutoff logs =
     (let batch = take PURGE_BATCH_ROWS (purgeable cutoff logs) in
      if batch = [] then None else Some (log_id (last batch), log_log_hash (last batch)))"
proof (cases "logs = []")
  case False
  let ?k = "hd (retained cutoff logs)"
  have split: "logs = purgeable cutoff logs @ ?k # tl (retained cutoff logs)"
    using purgeable_retained [of cutoff logs] False by simp
  have bound: "(case find (\<lambda>r. cutoff \<le> lf_timestamp (log_fields r)) logs of None \<Rightarrow> log_id (last logs) | Some r \<Rightarrow> log_id r) = log_id ?k"
  proof (cases "find (\<lambda>r. cutoff \<le> lf_timestamp (log_fields r)) logs")
    case None
    then have "list_all (expired cutoff) logs" by (auto simp: find_None_iff list_all_iff expired_def)
    with None False show ?thesis by (simp add: retained_def hd_drop_conv_nth last_conv_nth)
  next
    case (Some r)
    then have "\<not> list_all (expired cutoff) logs" by (auto simp: find_Some_iff list_all_length expired_def)
    moreover have "find (\<lambda>r. cutoff \<le> lf_timestamp (log_fields r)) logs = Some (hd (dropWhile (expired cutoff) logs))"
      using calculation by (induction logs) (auto simp: expired_def)
    ultimately show ?thesis using Some by (simp add: retained_def)
  qed
  have "filter (\<lambda>r. log_id r < log_id ?k) logs = purgeable cutoff logs"
    using filter_below [of "purgeable cutoff logs" ?k "tl (retained cutoff logs)"] assms split by metis
  with False bound show ?thesis by (simp add: next_purge_batch_def Let_def)
qed (simp add: next_purge_batch_def purgeable_def)

lemma sorted_ids_split:
  assumes "sorted_wrt (<) (map log_id (xs @ ys))" "xs \<noteq> []"
  shows "filter (\<lambda>r. log_id r \<le> log_id (last xs)) (xs @ ys) = xs" "filter (\<lambda>r. \<not> log_id r \<le> log_id (last xs)) (xs @ ys) = ys"
proof -
  obtain v l where v: "xs = v @ [l]" using assms(2) by (cases xs rule: rev_cases) auto
  have "\<forall>r \<in> set xs. log_id r \<le> log_id l" "\<forall>r \<in> set ys. \<not> log_id r \<le> log_id l"
    using assms(1) by (auto simp: v sorted_wrt_append not_le)
  then show "filter (\<lambda>r. log_id r \<le> log_id (last xs)) (xs @ ys) = xs" "filter (\<lambda>r. \<not> log_id r \<le> log_id (last xs)) (xs @ ys) = ys"
    by (simp_all add: v)
qed

text \<open>A batch removes the next thousand purgeable rows and records the hash of the last one.\<close>

lemma purge_batch_removes:
  fixes now
  assumes "chain_inv sha db" "ad_settings db = Some s" "0 < as_audit_log_retention_days s"
  defines "cutoff \<equiv> now - days (as_audit_log_retention_days s)"
  defines "P \<equiv> purgeable cutoff (ad_logs db)"
  shows "purge_batch now db =
    (if P = [] then None
     else Some (length (take PURGE_BATCH_ROWS P),
                db\<lparr>ad_settings := Some (s\<lparr>as_audit_chain_checkpoint_hash := log_log_hash (last (take PURGE_BATCH_ROWS P))\<rparr>),
                   ad_logs := drop PURGE_BATCH_ROWS P @ retained cutoff (ad_logs db)\<rparr>))"
proof -
  have sorted: "sorted_wrt (<) (map log_id (ad_logs db))" using assms(1) by (simp add: chain_inv_def)
  let ?B = "take PURGE_BATCH_ROWS P" and ?K = "drop PURGE_BATCH_ROWS P @ retained cutoff (ad_logs db)"
  have logs: "ad_logs db = ?B @ ?K"
    unfolding P_def append_assoc [symmetric] append_take_drop_id by (rule purgeable_retained [symmetric])
  have B: "?B = [] \<longleftrightarrow> P = []" by (auto simp: PURGE_BATCH_ROWS_def)
  show ?thesis
  proof (cases "P = []")
    case False
    then have "sorted_wrt (<) (map log_id (?B @ ?K))" "?B \<noteq> []" using sorted logs B by auto
    note split = sorted_ids_split [OF this, folded logs]
    have "next_purge_batch cutoff (ad_logs db) = Some (log_id (last ?B), log_log_hash (last ?B))"
      using batch_is_purgeable [OF sorted, of cutoff] False B by (simp add: P_def Let_def)
    with False split show ?thesis
      using assms(2,3) unfolding purge_batch_def by (simp add: cutoff_def)
  next
    case True
    then have "next_purge_batch cutoff (ad_logs db) = None"
      using batch_is_purgeable [OF sorted, of cutoff] by (simp add: P_def Let_def)
    with True show ?thesis using assms(2,3) unfolding purge_batch_def by (simp add: cutoff_def)
  qed
qed

lemma chain_inv_cut:
  assumes "chain_inv sha db" "ad_logs db = xs @ ys" "xs \<noteq> []" "ys \<noteq> []"
    and "ad_logs db' = ys" "ad_next_id db' = ad_next_id db" "chain_seed_hash db' = log_log_hash (last xs)"
  shows "chain_inv sha db'"
  using assms(1,3,4) unfolding chain_inv_def assms(2,5-7) by (auto simp: sorted_wrt_append end_hash_def)

lemma purge_batch_inv:
  assumes "chain_inv sha db" "purge_batch now db = Some (n, db')"
  shows "chain_inv sha db'"
proof -
  obtain s where s: "ad_settings db = Some s" "0 < as_audit_log_retention_days s"
    using assms(2) by (auto simp: purge_batch_def split: option.splits if_splits)
  let ?c = "now - days (as_audit_log_retention_days s)"
  let ?P = "purgeable ?c (ad_logs db)"
  note out = purge_batch_removes [OF assms(1) s, of now]
  have ne: "?P \<noteq> []" using assms(2) out by auto
  have "ad_logs db \<noteq> []" using ne by (auto simp: purgeable_def)
  moreover have "ad_logs db = take PURGE_BATCH_ROWS ?P @ drop PURGE_BATCH_ROWS ?P @ retained ?c (ad_logs db)"
    unfolding append_assoc [symmetric] append_take_drop_id by (rule purgeable_retained [symmetric])
  moreover have "take PURGE_BATCH_ROWS ?P \<noteq> []" using ne by (simp add: PURGE_BATCH_ROWS_def)
  moreover have "db' = db\<lparr>ad_settings := Some (s\<lparr>as_audit_chain_checkpoint_hash := log_log_hash (last (take PURGE_BATCH_ROWS ?P))\<rparr>),
                   ad_logs := drop PURGE_BATCH_ROWS ?P @ retained ?c (ad_logs db)\<rparr>"
    using assms(2) out ne by simp
  ultimately show ?thesis
    by (intro chain_inv_cut [OF assms(1), of "take PURGE_BATCH_ROWS ?P" "drop PURGE_BATCH_ROWS ?P @ retained ?c (ad_logs db)"])
       (simp_all add: chain_seed_hash_def)
qed

text \<open>Under the invariant a repair finds nothing to do.\<close>

lemma repair_inv: "chain_inv sha db \<Longrightarrow> snd (repair_audit_chain sha e au actor reason db) = db"
  by (simp add: repair_audit_chain_def Let_def chain_inv_verifies)

lemma drain_chain_inv: "chain_inv sha db \<Longrightarrow> drain_chain sha le pending db = Some (n, db') \<Longrightarrow> chain_inv sha db'"
  by (auto simp: drain_chain_def split: if_splits intro: drain_rows_inv)

lemma settings_inv: "chain_inv sha db \<Longrightarrow> chain_inv sha (audit_step sha (Update_settings retention hide) db)"
  by (subst chain_inv_cong)
     (auto simp: get_or_create_settings_def chain_seed_hash_def default_settings_def split: option.splits)

interpretation audit: invariant_machine "audit_step sha" "chain_inv sha" for sha
proof (unfold_locales, goal_cases)
  case (1 db ev)
  then show ?case
  proof (cases ev)
    case Update_settings
    with 1 settings_inv show ?thesis by metis
  qed (auto simp: write_log_inv repair_inv split: option.splits intro: drain_chain_inv purge_batch_inv)
qed

definition empty_audit :: audit_db where
  "empty_audit = \<lparr>ad_logs = [], ad_next_id = 1, ad_spool = [], ad_spool_next = 1, ad_settings = None\<rparr>"

lemma empty_audit_inv [simp]: "chain_inv sha empty_audit"
  by (simp add: chain_inv_def empty_audit_def chain_seed_hash_def)

text \<open>
  C1. The product's own operations never break the chain: after any interleaving of writes (chained
  or deferred), drains of any snapshot of the spool, purge batches, repairs and settings changes on a
  fresh install, verification finds every entry in order.
\<close>

theorem audit_chain_always_verifies:
  "verify_audit_chain sha (fold (audit_step sha) events empty_audit) =
     \<lparr>cr_valid = True, cr_first_failure_id = None, cr_failure = None,
      cr_checked_count = length (ad_logs (fold (audit_step sha) events empty_audit))\<rparr>"
  by (rule chain_inv_verifies) (simp add: audit.run_inv)

subsection \<open>What retention removes\<close>

lemma purge_loop_exact:
  assumes "chain_inv sha db" "ad_settings db = Some s" "0 < as_audit_log_retention_days s"
  shows "\<exists>db'. purge_loop (\<lambda>_. now) i db = (length (purgeable (now - days (as_audit_log_retention_days s)) (ad_logs db)), db')
           \<and> ad_logs db' = retained (now - days (as_audit_log_retention_days s)) (ad_logs db) \<and> chain_inv sha db'"
  using assms
proof (induction "length (ad_logs db)" arbitrary: db s i rule: less_induct)
  case less
  let ?c = "now - days (as_audit_log_retention_days s)"
  let ?P = "purgeable ?c (ad_logs db)"
  note batch = purge_batch_removes [OF less.prems, of now]
  show ?case
  proof (cases "?P = []")
    case True
    with batch purgeable_retained [of ?c "ad_logs db"] less.prems(1) show ?thesis
      by (simp add: purge_loop.simps)
  next
    case False
    define n where "n = length (take PURGE_BATCH_ROWS ?P)"
    obtain db1 where b: "purge_batch now db = Some (n, db1)" using batch False by (simp add: n_def)
    have db1: "ad_logs db1 = drop PURGE_BATCH_ROWS ?P @ retained ?c (ad_logs db)"
      and s1: "\<exists>s1. ad_settings db1 = Some s1 \<and> as_audit_log_retention_days s1 = as_audit_log_retention_days s"
      using b batch False by auto
    have n: "0 < n" "n + length (drop PURGE_BATCH_ROWS ?P) = length ?P"
      using False by (auto simp: n_def PURGE_BATCH_ROWS_def)
    obtain s1 where s1: "ad_settings db1 = Some s1" "as_audit_log_retention_days s1 = as_audit_log_retention_days s"
      using s1 by blast
    have "length (ad_logs db1) < length (ad_logs db)" using purge_batch_length [OF b] n(1) by simp
    from less.hyps [OF this purge_batch_inv [OF less.prems(1) b] s1(1), of "i + 1"] less.prems(3) s1(2)
    obtain db' where "purge_loop (\<lambda>_. now) (i + 1) db1 = (length (drop PURGE_BATCH_ROWS ?P), db')"
      "ad_logs db' = retained ?c (ad_logs db)" "chain_inv sha db'"
      by (auto simp: db1 purgeable_drop)
    with b n show ?thesis by (simp add: purge_loop.simps [of _ i])
  qed
qed

lemma write_log_appends:
  obtains extra where "ad_logs (snd (write_log sha e bg a db)) = ad_logs db @ extra" "length extra \<le> 1"
proof (rule write_log_cases [of db sha e bg a])
  fix db1 f
  assume "ad_logs db1 = ad_logs db" and out: "snd (write_log sha e bg a db) = db1
       \<or> snd (write_log sha e bg a db) = spool_defer (we_spool_ok e) f db1
       \<or> chain_append sha f db1 = Some (snd (write_log sha e bg a db))"
  moreover have "\<exists>x. ad_logs d = ad_logs db1 @ [x]" if "chain_append sha f db1 = Some d" for d
    using that by (auto simp: chain_append_def Let_def split: if_splits)
  ultimately consider "ad_logs (snd (write_log sha e bg a db)) = ad_logs db"
    | x where "ad_logs (snd (write_log sha e bg a db)) = ad_logs db @ [x]" by (metis spool_defer_frame(1))
  then show thesis using that [of "[]"] that by cases auto
qed

text \<open>
  C14. The retention purge, in however many batches, deletes exactly the longest prefix of entries
  older than the retention window, never the newest entry, never an entry behind a kept one; it
  returns their number, adds at most its own summary entry, and the rest still verifies.
\<close>

theorem purge_deletes_old_prefix:
  assumes "db = fold (audit_step sha) events empty_audit"
    and "ad_settings db = Some s" "0 < as_audit_log_retention_days s"
    and "cutoff = now - days (as_audit_log_retention_days s)"
  shows "\<exists>extra db'. purge_old_audit_logs sha e (\<lambda>_. now) db = (length (purgeable cutoff (ad_logs db)), db')
           \<and> ad_logs db = purgeable cutoff (ad_logs db) @ retained cutoff (ad_logs db)
           \<and> ad_logs db' = retained cutoff (ad_logs db) @ extra \<and> length extra \<le> 1
           \<and> cr_valid (verify_audit_chain sha db')"
proof -
  have inv: "chain_inv sha db" unfolding assms(1) by (rule audit.run_inv) simp
  from purge_loop_exact [OF inv assms(2,3), of now 0, folded assms(4)] obtain db1 where
    loop: "purge_loop (\<lambda>_. now) 0 db = (length (purgeable cutoff (ad_logs db)), db1)"
      "ad_logs db1 = retained cutoff (ad_logs db)" "chain_inv sha db1"
    by (elim exE conjE)
  let ?db' = "snd (purge_old_audit_logs sha e (\<lambda>_. now) db)"
  obtain extra where "ad_logs ?db' = ad_logs db1 @ extra" "length extra \<le> 1" and inv': "chain_inv sha ?db'"
  proof (cases "purgeable cutoff (ad_logs db) = []")
    case True
    then have "?db' = db1" using loop assms(2) by (simp add: purge_old_audit_logs_def)
    with that [of "[]"] loop(3) show thesis by simp
  next
    case False
    let ?w = "write_log sha e True ((default_args ''audit_log_purge'')\<lparr>wa_category := ''settings'', wa_severity := ''info'',
        wa_details := Some (purge_details (length (purgeable cutoff (ad_logs db))) (as_audit_log_retention_days s))\<rparr>) db1"
    have "?db' = snd ?w" using False loop assms(2) by (simp add: purge_old_audit_logs_def)
    moreover obtain extra where "ad_logs (snd ?w) = ad_logs db1 @ extra" "length extra \<le> 1" by (rule write_log_appends)
    ultimately show thesis using that write_log_inv [OF loop(3)] by metis
  qed
  moreover have "fst (purge_old_audit_logs sha e (\<lambda>_. now) db) = length (purgeable cutoff (ad_logs db))"
    using loop assms(2) by (simp add: purge_old_audit_logs_def)
  ultimately show ?thesis
    using loop(2) chain_inv_verifies [OF inv'] purgeable_retained
    by (intro exI [of _ extra] exI [of _ ?db']) (simp add: prod_eq_iff)
qed

subsection \<open>What repair restores\<close>

lemma failure_split:
  assumes "sorted_wrt (<) (map log_id (ad_logs db))" "cr_first_failure_id (verify_audit_chain sha db) = Some i"
  defines "xs \<equiv> filter (\<lambda>r. log_id r < i) (ad_logs db)" and "ys \<equiv> filter (\<lambda>r. i \<le> log_id r) (ad_logs db)"
  shows "ad_logs db = xs @ ys" "ys \<noteq> []" "links sha (chain_seed_hash db) xs" "repair_seed i db = end_hash (chain_seed_hash db) xs"
proof -
  have "\<not> links sha (chain_seed_hash db) (ad_logs db)"
    using assms(2) verify_counts_all [of sha "chain_seed_hash db" "ad_logs db" 0] by (auto simp: verify_audit_chain_def)
  then obtain us r vs where
    f: "ad_logs db = us @ r # vs" "links sha (chain_seed_hash db) us"
    and "cr_first_failure_id (verify_rows sha (chain_seed_hash db) 0 (ad_logs db)) = Some (log_id r)"
    by (rule verify_failureE [of sha "chain_seed_hash db" "ad_logs db" 0])
  then have f': "log_id r = i" using assms(2) by (simp add: verify_audit_chain_def)
  have "\<forall>x \<in> set us. log_id x < log_id r" "\<forall>x \<in> set vs. log_id r < log_id x"
    using assms(1) unfolding f(1) by (auto simp: sorted_wrt_append)
  then have "filter (\<lambda>x. log_id x < log_id r) us = us" "filter (\<lambda>x. log_id x < log_id r) vs = []"
    "filter (\<lambda>x. log_id r \<le> log_id x) us = []" "filter (\<lambda>x. log_id r \<le> log_id x) vs = vs"
    by (auto simp: filter_id_conv filter_empty_conv)
  then have "xs = us" "ys = r # vs" unfolding xs_def ys_def f(1) f' [symmetric] by simp_all
  with f show "ad_logs db = xs @ ys" "ys \<noteq> []" and l: "links sha (chain_seed_hash db) xs" by simp_all
  have "log_log_hash (last xs) \<noteq> None" if "xs \<noteq> []"
    using l that by (cases xs rule: rev_cases) (auto simp: row_ok_def)
  then show "repair_seed i db = end_hash (chain_seed_hash db) xs"
    by (auto simp: repair_seed_def xs_def [symmetric] end_hash_def Let_def)
qed

text \<open>
  An authorised repair of a broken chain succeeds when no new hash meets one stored elsewhere:
  afterwards verification passes, the entries before the failure are untouched, every entry keeps
  its id and content, and at most the repair's own entry is added.
\<close>

theorem repair_relinks:
  assumes "sorted_wrt (<) (map log_id (ad_logs db))" "\<forall>r \<in> set (ad_logs db). log_id r < ad_next_id db"
    and "cr_first_failure_id (verify_audit_chain sha db) = Some i" "lock_audit_chain None (we_lock e) = Locked"
    and "relink_free sha (repair_seed i db) (filter (\<lambda>r. log_id r < i) (ad_logs db)) (filter (\<lambda>r. i \<le> log_id r) (ad_logs db))"
  shows "\<exists>rep db' ys extra. repair_audit_chain sha e REPAIR_AUTHORIZATION actor reason db = (Inr rep, db')
           \<and> rr_repaired rep \<and> cr_valid (rr_after rep)
           \<and> ad_logs db' = filter (\<lambda>r. log_id r < i) (ad_logs db) @ ys @ extra \<and> length extra \<le> 1
           \<and> map log_id ys = map log_id (filter (\<lambda>r. i \<le> log_id r) (ad_logs db))
           \<and> map log_fields ys = map log_fields (filter (\<lambda>r. i \<le> log_id r) (ad_logs db))"
proof -
  let ?xs = "filter (\<lambda>r. log_id r < i) (ad_logs db)" and ?ys = "filter (\<lambda>r. i \<le> log_id r) (ad_logs db)"
  let ?zs = "relink sha (repair_seed i db) ?ys"
  note sp = failure_split [OF assms(1,3)]
  have sw: "sorted_wrt (<) (map log_id (?xs @ ?ys))" using assms(1) sp(1) by metis
  from repair_loop_relinks [OF sw _ _ assms(5), of i] obtain ch where
    "repair_loop sha i (repair_seed i db) (?xs @ ?ys) = Some (ch, ?xs @ ?zs)" by auto
  then have loop: "repair_loop sha i (repair_seed i db) (ad_logs db) = Some (ch, ?xs @ ?zs)" using sp(1) by metis
  have ids: "map log_id (?xs @ ?zs) = map log_id (ad_logs db)" using sp(1) by (metis map_append relink_keeps(1))
  have "\<forall>j \<in> set (map log_id (?xs @ ?zs)). j < ad_next_id db" unfolding ids using assms(2) by simp
  then have below: "\<forall>r \<in> set (?xs @ ?zs). log_id r < ad_next_id db" unfolding set_map ball_simps .
  then have inv: "chain_inv sha (db\<lparr>ad_logs := ?xs @ ?zs\<rparr>)"
    using sp(2-4) ids assms(1) links_relink [of sha "repair_seed i db" ?ys]
    unfolding chain_inv_def seed_logs_irrelevant by (simp del: map_append set_append)
  define w where "w = write_log sha e False (repair_args (we_codec e) actor reason i (length ch)) (db\<lparr>ad_logs := ?xs @ ?zs\<rparr>)"
  have out: "repair_audit_chain sha e REPAIR_AUTHORIZATION actor reason db =
      (Inr \<lparr>rr_repaired = True, rr_before = verify_audit_chain sha db, rr_changed = ch, rr_after = verify_audit_chain sha (snd w)\<rparr>, snd w)"
    using assms(3,4) loop by (simp add: repair_audit_chain_def Let_def w_def)
  obtain extra where ex: "ad_logs (snd w) = ad_logs (db\<lparr>ad_logs := ?xs @ ?zs\<rparr>) @ extra" "length extra \<le> 1"
    unfolding w_def by (rule write_log_appends)
  have "cr_valid (verify_audit_chain sha (snd w))"
    using chain_inv_verifies [OF write_log_inv [OF inv]] unfolding w_def by simp
  with out ex show ?thesis
    by (intro exI [of _ "\<lparr>rr_repaired = True, rr_before = verify_audit_chain sha db, rr_changed = ch, rr_after = verify_audit_chain sha (snd w)\<rparr>"]
        exI [of _ "snd w"] exI [of _ ?zs] exI [of _ extra]) simp
qed

subsection \<open>What a drain chains\<close>

fun new_rows :: "int \<Rightarrow> log_fields list \<Rightarrow> log_row list" where
  "new_rows i [] = []"
| "new_rows i (f # fs) = \<lparr>log_id = i, log_fields = f, log_previous_hash = None, log_log_hash = None\<rparr> # new_rows (i + 1) fs"

lemma map_fields_new_rows [simp]: "map log_fields (new_rows i fs) = fs"
  by (induction fs arbitrary: i) auto

text \<open>The hashes the entries would get on top of the current tip are new: SHA-256 repeats no digest.\<close>

definition fresh_hashes :: "(string \<Rightarrow> string) \<Rightarrow> audit_db \<Rightarrow> log_fields list \<Rightarrow> bool" where
  "fresh_hashes sha db fs \<longleftrightarrow>
     distinct (map log_log_hash (ad_logs db @ relink sha (tip_hash (ad_logs db)) (new_rows (ad_next_id db) fs)))"

lemma drain_rows_exact:
  assumes "distinct (map log_log_hash (ad_logs db @ relink sha p (new_rows (ad_next_id db) (map snd pending))))"
  shows "drain_rows sha p pending db =
     Some (db\<lparr>ad_logs := ad_logs db @ relink sha p (new_rows (ad_next_id db) (map snd pending)),
              ad_next_id := ad_next_id db + int (length pending),
              ad_spool := filter (\<lambda>q. fst q \<notin> fst ` set pending) (ad_spool db)\<rparr>)"
  using assms
proof (induction sha p pending db rule: drain_rows.induct)
  case (2 sha p i f pending db)
  let ?h = "compute_log_hash sha f p"
  have row: "relink_row sha p \<lparr>log_id = j, log_fields = f, log_previous_hash = None, log_log_hash = None\<rparr> =
             \<lparr>log_id = j, log_fields = f, log_previous_hash = p, log_log_hash = Some ?h\<rparr>" for j
    by (simp add: relink_row_def)
  have new: "Some ?h \<notin> set (map log_log_hash (ad_logs db))" using "2.prems" by (auto simp: row)
  have "{q \<in> set xs. fst q \<noteq> i \<and> fst q \<notin> A} = {q \<in> set xs. fst q \<notin> insert i A}" for xs :: "(int \<times> log_fields) list" and A by auto
  with "2.IH" [OF refl new] "2.prems" new show ?case by (simp add: Let_def row conj_commute)
qed simp

lemma new_rows_append: "new_rows i (a @ b) = new_rows i a @ new_rows (i + int (length a)) b"
  by (induction a arbitrary: i) (auto simp: algebra_simps)

lemma drain_chain_exact:
  assumes "lock_audit_chain None le = Locked" "fresh_hashes sha db (map snd pending)"
  shows "drain_chain sha le pending db =
     Some (length pending, db\<lparr>ad_logs := ad_logs db @ relink sha (tip_hash (ad_logs db)) (new_rows (ad_next_id db) (map snd pending)),
              ad_next_id := ad_next_id db + int (length pending),
              ad_spool := filter (\<lambda>q. fst q \<notin> fst ` set pending) (ad_spool db)\<rparr>)"
  using drain_rows_exact [OF assms(2) [unfolded fresh_hashes_def]] assms(1) by (auto simp: drain_chain_def)

text \<open>Fresh hashes for two batches are fresh for the second after the first.\<close>

lemma fresh_hashes_append:
  assumes "fresh_hashes sha db (a @ b)"
    and "ad_logs db' = ad_logs db @ relink sha (tip_hash (ad_logs db)) (new_rows (ad_next_id db) a)"
    and "ad_next_id db' = ad_next_id db + int (length a)"
  shows "fresh_hashes sha db' b"
proof -
  have "tip_hash (ad_logs db') = end_hash (tip_hash (ad_logs db)) (relink sha (tip_hash (ad_logs db)) (new_rows (ad_next_id db) a))"
    unfolding assms(2) tip_is_end by simp
  with assms show ?thesis
    by (auto simp: fresh_hashes_def new_rows_append relink_append)
qed

lemma filter_other_ids:
  assumes "distinct (map fst xs)"
  shows "filter (\<lambda>q. fst q \<notin> fst ` set (take n xs)) xs = drop n xs"
proof -
  have "distinct (map fst (take n xs @ drop n xs))" using assms by simp
  then have "filter (\<lambda>q. fst q \<notin> fst ` set (take n xs)) (take n xs @ drop n xs) = drop n xs"
    unfolding map_append distinct_append set_map filter_append
    by (auto simp: filter_empty_conv disjoint_iff filter_id_conv)
  then show ?thesis by simp
qed

text \<open>
  A deferred entry is chained, once: a drain appends the oldest spooled entries, at most its
  limit, in the order they were spooled and with the content they were deferred with, and takes
  exactly those out of the spool.
\<close>

theorem drain_chains_spool:
  assumes "lock_audit_chain None le = Locked" "distinct (map fst (ad_spool db))"
    and "fresh_hashes sha db (map snd (take limit (ad_spool db)))"
  shows "\<exists>db'. drain sha le limit db = Some (length (take limit (ad_spool db)), db')
           \<and> map log_fields (ad_logs db') = map log_fields (ad_logs db) @ map snd (take limit (ad_spool db))
           \<and> ad_spool db' = drop limit (ad_spool db)"
  using drain_chain_exact [OF assms(1,3)] filter_other_ids [OF assms(2), of limit]
  by (simp add: drain_def drain_read_def)

text \<open>
  Two drains that both read the spool before either holds the lock chain the same entries
  twice: the second one appends them again, and the chain still verifies.
\<close>

theorem concurrent_drains_duplicate:
  assumes "chain_inv sha db" "lock_audit_chain None le = Locked"
    and "pending = drain_read limit db" "fresh_hashes sha db (map snd (pending @ pending))"
  shows "\<exists>db1 db2. drain_chain sha le pending db = Some (length pending, db1)
           \<and> drain_chain sha le pending db1 = Some (length pending, db2)
           \<and> map log_fields (ad_logs db2) = map log_fields (ad_logs db) @ map snd pending @ map snd pending
           \<and> cr_valid (verify_audit_chain sha db2)"
proof -
  have fresh: "fresh_hashes sha db (map snd pending)"
    using assms(4) by (auto simp: fresh_hashes_def new_rows_append relink_append)
  obtain db1 where d1: "drain_chain sha le pending db = Some (length pending, db1)"
    and db1: "ad_logs db1 = ad_logs db @ relink sha (tip_hash (ad_logs db)) (new_rows (ad_next_id db) (map snd pending))"
      "ad_next_id db1 = ad_next_id db + int (length (map snd pending))"
    using drain_chain_exact [OF assms(2) fresh] by simp
  have "fresh_hashes sha db1 (map snd pending)"
    using fresh_hashes_append [OF _ db1] assms(4) by simp
  from drain_chain_exact [OF assms(2) this] obtain db2 where
    d2: "drain_chain sha le pending db1 = Some (length pending, db2)"
    and "ad_logs db2 = ad_logs db1 @ relink sha (tip_hash (ad_logs db1)) (new_rows (ad_next_id db1) (map snd pending))"
    by simp
  then have "map log_fields (ad_logs db2) = map log_fields (ad_logs db) @ map snd pending @ map snd pending"
    by (simp add: db1(1))
  moreover have "chain_inv sha db2" using drain_chain_inv [OF drain_chain_inv [OF assms(1) d1] d2] .
  ultimately show ?thesis using d1 d2 chain_inv_verifies by force
qed

subsection \<open>Concrete runs\<close>

text \<open>A digest that is good enough for the examples: it grows with every link.\<close>

definition len_digest :: "string \<Rightarrow> string" where
  "len_digest t = replicate (length t - 180) (CHR ''h'')"

definition free_lock :: lock_env where
  "free_lock = \<lparr>le_postgresql = True, le_granted = True, le_started = 0, le_polls = [(True, 0)]\<rparr>"

definition demo_codec :: json_codec where
  "demo_codec = \<lparr>jc_keys = SORTED_REDACTED_KEYS, jc_loads = (\<lambda>_. None), jc_dumps = (\<lambda>_. ''{}'')\<rparr>"

definition demo_write_env :: write_env where
  "demo_write_env = \<lparr>we_codec = demo_codec, we_now = 0, we_now_iso = ''2026-01-01T00:00:00Z'', we_settings_ok = True, we_lock = free_lock,
     we_spool_ok = True, we_event_loop = False\<rparr>"

definition demo_events :: "audit_event list" where
  "demo_events = [Write_log demo_write_env True (default_args ''a''), Write_log demo_write_env True (default_args ''b'')]"

definition demo_log :: audit_db where
  "demo_log = fold (audit_step len_digest) demo_events empty_audit"

lemma demo_log_facts:
  "length (ad_logs demo_log) = 2 \<and> ad_settings demo_log = Some default_settings
   \<and> length (purgeable (days 10) (ad_logs demo_log)) = 1"
  by code_simp

theorem purge_deletes_old_prefix_witness:
  "\<exists>db'. purge_old_audit_logs len_digest demo_write_env (\<lambda>_. days 100) demo_log = (1, db')
         \<and> cr_valid (verify_audit_chain len_digest db')"
proof -
  have s: "ad_settings demo_log = Some default_settings" "length (purgeable (days 10) (ad_logs demo_log)) = 1"
    using demo_log_facts by auto
  have c: "days 10 = days 100 - days (as_audit_log_retention_days default_settings)" "0 < as_audit_log_retention_days default_settings"
    by code_simp+
  from purge_deletes_old_prefix [OF demo_log_def s(1) c(2,1), of demo_write_env] s(2) show ?thesis by auto
qed

lemma demo_digests [simp]:
  "compute_log_hash len_digest (blank_fields ''a'') None = replicate 6 (CHR ''h'')"
  "compute_log_hash len_digest (blank_fields ''b'') (Some (replicate 6 (CHR ''h''))) = replicate 10 (CHR ''h'')"
  "compute_log_hash len_digest (blank_fields ''tampered'') (Some (replicate 6 (CHR ''h''))) = replicate 17 (CHR ''h'')"
  "compute_log_hash len_digest (blank_fields ''deferred'') (Some (replicate 10 (CHR ''h''))) = replicate 21 (CHR ''h'')"
  "compute_log_hash len_digest (blank_fields ''deferred'') (Some (replicate 21 (CHR ''h''))) = replicate 32 (CHR ''h'')"
  by code_simp+

lemma replicate_eq [simp]: "replicate m (c :: char) = replicate n c \<longleftrightarrow> m = n"
  by (metis length_replicate)

definition demo_pair :: audit_db where
  "demo_pair = \<lparr>ad_logs = relink len_digest None [blank_row 1 ''a'', blank_row 2 ''b''], ad_next_id = 3, ad_spool = [],
     ad_spool_next = 1, ad_settings = None\<rparr>"

definition demo_broken :: audit_db where
  "demo_broken = demo_pair\<lparr>ad_logs := [hd (ad_logs demo_pair), (last (ad_logs demo_pair))\<lparr>log_fields := blank_fields ''tampered''\<rparr>]\<rparr>"

definition demo_spooled :: audit_db where
  "demo_spooled = demo_pair\<lparr>ad_spool := [(1, blank_fields ''deferred'')], ad_spool_next := 2\<rparr>"

lemma demo_pair_logs:
  "ad_logs demo_pair =
     [\<lparr>log_id = 1, log_fields = blank_fields ''a'', log_previous_hash = None, log_log_hash = Some (replicate 6 (CHR ''h''))\<rparr>,
      \<lparr>log_id = 2, log_fields = blank_fields ''b'', log_previous_hash = Some (replicate 6 (CHR ''h'')),
       log_log_hash = Some (replicate 10 (CHR ''h''))\<rparr>]"
  by (simp add: demo_pair_def relink_row_def blank_row_def)

lemma free_lock_locks: "lock_audit_chain None free_lock = Locked"
  by (simp add: lock_audit_chain_def free_lock_def)

theorem repair_relinks_witness:
  "\<exists>rep db'. repair_audit_chain len_digest demo_write_env REPAIR_AUTHORIZATION (Some 1) ''restore'' demo_broken = (Inr rep, db')
         \<and> rr_repaired rep \<and> cr_valid (rr_after rep)"
proof -
  have logs: "ad_logs demo_broken =
     [\<lparr>log_id = 1, log_fields = blank_fields ''a'', log_previous_hash = None, log_log_hash = Some (replicate 6 (CHR ''h''))\<rparr>,
      \<lparr>log_id = 2, log_fields = blank_fields ''tampered'', log_previous_hash = Some (replicate 6 (CHR ''h'')),
       log_log_hash = Some (replicate 10 (CHR ''h''))\<rparr>]" "ad_next_id demo_broken = 3" "chain_seed_hash demo_broken = None"
    by (simp_all add: demo_broken_def demo_pair_logs) (simp_all add: demo_pair_def chain_seed_hash_def)
  have "sorted_wrt (<) (map log_id (ad_logs demo_broken))" "\<forall>r \<in> set (ad_logs demo_broken). log_id r < ad_next_id demo_broken"
    "cr_first_failure_id (verify_audit_chain len_digest demo_broken) = Some 2"
    "lock_audit_chain None (we_lock demo_write_env) = Locked"
    "relink_free len_digest (repair_seed 2 demo_broken) (filter (\<lambda>r. log_id r < 2) (ad_logs demo_broken))
       (filter (\<lambda>r. 2 \<le> log_id r) (ad_logs demo_broken))"
    by (simp_all add: logs verify_audit_chain_def demo_write_env_def free_lock_locks relink_free_def repair_seed_def
        relink_row_def Let_def)
  from repair_relinks [OF this, of "Some 1" "''restore''"] show ?thesis by blast
qed

lemma demo_spooled_fresh:
  "fresh_hashes len_digest demo_spooled (map snd (ad_spool demo_spooled @ ad_spool demo_spooled))"
  by (simp add: fresh_hashes_def demo_spooled_def demo_pair_logs tip_hash_def relink_row_def)

theorem drain_chains_spool_witness:
  "\<exists>db'. drain len_digest free_lock DRAIN_BATCH_SIZE demo_spooled = Some (1, db') \<and> ad_spool db' = []"
proof -
  have t: "take DRAIN_BATCH_SIZE (ad_spool demo_spooled) = ad_spool demo_spooled" "length (ad_spool demo_spooled) = 1"
    "drop DRAIN_BATCH_SIZE (ad_spool demo_spooled) = []" "distinct (map fst (ad_spool demo_spooled))"
    by (simp_all add: demo_spooled_def DRAIN_BATCH_SIZE_def)
  have "fresh_hashes len_digest demo_spooled (map snd (take DRAIN_BATCH_SIZE (ad_spool demo_spooled)))"
    using demo_spooled_fresh unfolding t by (auto simp: fresh_hashes_def new_rows_append relink_append)
  from drain_chains_spool [OF free_lock_locks t(4) this] show ?thesis unfolding t by blast
qed

theorem concurrent_drains_duplicate_witness:
  "\<exists>db1 db2. drain_chain len_digest free_lock (drain_read 1 demo_spooled) demo_spooled = Some (1, db1)
     \<and> drain_chain len_digest free_lock (drain_read 1 demo_spooled) db1 = Some (1, db2)
     \<and> length (ad_logs db2) = length (ad_logs demo_spooled) + 2 \<and> cr_valid (verify_audit_chain len_digest db2)"
proof -
  have i: "chain_inv len_digest demo_spooled"
    by (simp add: chain_inv_def demo_spooled_def demo_pair_def chain_seed_hash_def blank_row_def)
  have l: "drain_read 1 demo_spooled = ad_spool demo_spooled" "length (drain_read 1 demo_spooled) = 1"
    by (simp_all add: drain_read_def demo_spooled_def)
  from concurrent_drains_duplicate [OF i free_lock_locks refl demo_spooled_fresh [folded l(1)]] obtain db1 db2 where
    d: "drain_chain len_digest free_lock (drain_read 1 demo_spooled) demo_spooled = Some (1, db1)"
      "drain_chain len_digest free_lock (drain_read 1 demo_spooled) db1 = Some (1, db2)"
      "map log_fields (ad_logs db2) = map log_fields (ad_logs demo_spooled) @
         map snd (drain_read 1 demo_spooled) @ map snd (drain_read 1 demo_spooled)"
      "cr_valid (verify_audit_chain len_digest db2)"
    unfolding l(2) by blast
  from arg_cong [OF d(3), of length] l(2) have "length (ad_logs db2) = length (ad_logs demo_spooled) + 2" by simp
  with d show ?thesis by blast
qed

end
