(* ===== verification/Contract_Text.thy ===== *)
theory Contract_Text
  imports Canonical_Json
begin

text \<open>
  Free text of the lifecycle documents: the regular expressions of
  \<open>deploy/scripts/lifecycle-state.py\<close> that recognise and repl credentials, \<open>redact_text\<close>, and the
  fact the contract relies on, that whatever goes in, what comes out is contract text: bounded,
  free of control characters and of credential shapes.
\<close>

subsection \<open>Texts and regular expressions\<close>

text \<open>Python strings are sequences of code points, lone surrogates included.\<close>

type_synonym utext = "int list"

abbreviation lit :: "string \<Rightarrow> utext" where
  "lit s \<equiv> map of_char s"

text \<open>The part of \<open>re\<close> the patterns use: repetition is always of one character class.\<close>

datatype re =
    Eps
  | Cls "int \<Rightarrow> bool"
  | Seq re re
  | Alt re re
  | Many "int \<Rightarrow> bool"
  | Few "int \<Rightarrow> bool"

text \<open>
  What is left of a text after each way to match a prefix of it, in the order in which Python's
  engine tries them: \<open>*\<close> is greedy, \<open>*?\<close> is not, and an alternative prefers its left side.
\<close>

fun many_rests :: "(int \<Rightarrow> bool) \<Rightarrow> utext \<Rightarrow> utext list" where
  "many_rests P [] = [[]]"
| "many_rests P (x # xs) = (if P x then many_rests P xs @ [x # xs] else [x # xs])"

fun few_rests :: "(int \<Rightarrow> bool) \<Rightarrow> utext \<Rightarrow> utext list" where
  "few_rests P [] = [[]]"
| "few_rests P (x # xs) = (x # xs) # (if P x then few_rests P xs else [])"

fun cls_rests :: "(int \<Rightarrow> bool) \<Rightarrow> utext \<Rightarrow> utext list" where
  "cls_rests P [] = []"
| "cls_rests P (x # xs) = (if P x then [xs] else [])"

primrec rests :: "re \<Rightarrow> utext \<Rightarrow> utext list" where
  "rests Eps s = [s]"
| "rests (Cls P) s = cls_rests P s"
| "rests (Seq a b) s = concat (map (rests b) (rests a s))"
| "rests (Alt a b) s = rests a s @ rests b s"
| "rests (Many P) s = many_rests P s"
| "rests (Few P) s = few_rests P s"

definition search :: "re \<Rightarrow> utext \<Rightarrow> bool" where
  "search r s = list_ex (\<lambda>t. rests r t \<noteq> []) (suffixes s)"

text \<open>A pattern between \<open>^\<close> and \<open>$\<close> (\<open>\Z\<close> once compiled).\<close>

definition fullmatch :: "re \<Rightarrow> utext \<Rightarrow> bool" where
  "fullmatch r s = ([] \<in> set (rests r s))"

text \<open>
  \<open>re.sub\<close> of the pattern \<open>group tail\<close> by \<open>\g<1>repl\<close>: the leftmost match, then on from its end; an
  empty match would be replaced and one character copied.
\<close>

function sub :: "re \<Rightarrow> re \<Rightarrow> utext \<Rightarrow> utext \<Rightarrow> utext" where
  "sub g r repl [] = []"
| "sub g r repl (x # xs) =
     (case find (\<lambda>t. rests r t \<noteq> []) (rests g (x # xs)) of
        None \<Rightarrow> x # sub g r repl xs
      | Some t \<Rightarrow>
          let rest = hd (rests r t) in
          take (length (x # xs) - length t) (x # xs) @ repl @
          (if length rest < length (x # xs) then sub g r repl rest else x # sub g r repl xs))"
  by pat_completeness auto
termination
  by (relation "measure (\<lambda>(g, r, repl, s). length s)") auto

subsection \<open>The patterns\<close>

fun lits :: "string \<Rightarrow> re" where
  "lits [] = Eps"
| "lits (c # cs) = Seq (Cls ((=) (of_char c))) (lits cs)"

definition one_of :: "string \<Rightarrow> int \<Rightarrow> bool" where
  "one_of cs c = (c \<in> of_char ` set cs)"

definition between :: "char \<Rightarrow> char \<Rightarrow> int \<Rightarrow> bool" where
  "between a b c = (of_char a \<le> c \<and> c \<le> of_char b)"

definition opt :: "re \<Rightarrow> re" where
  "opt r = Alt r Eps"

definition upper_c :: "int \<Rightarrow> bool" where
  "upper_c c = between CHR ''A'' CHR ''Z'' c"

definition lower_c :: "int \<Rightarrow> bool" where
  "lower_c c = between CHR ''a'' CHR ''z'' c"

definition digit_c :: "int \<Rightarrow> bool" where
  "digit_c c = between CHR ''0'' CHR ''9'' c"

definition alnum_c :: "int \<Rightarrow> bool" where
  "alnum_c c = (upper_c c \<or> lower_c c \<or> digit_c c)"

definition scheme_re :: re where
  "scheme_re = Seq (Cls (\<lambda>c. upper_c c \<or> lower_c c)) (Seq (Many (\<lambda>c. alnum_c c \<or> one_of ''+.-'' c)) (lits ''://''))"

definition userinfo_c :: "int \<Rightarrow> bool" where
  "userinfo_c c = (\<not> one_of ''/?#@ '' c \<and> 31 < c)"

definition userinfo_re :: re where
  "userinfo_re = Seq (Many userinfo_c) (Seq (lits '':'') (Seq (Many userinfo_c) (lits ''@'')))"

definition key_begin_re :: re where
  "key_begin_re = Seq (lits ''-----BEGIN '') (Seq (Many (\<lambda>c. upper_c c \<or> digit_c c \<or> one_of '' '' c)) (lits ''PRIVATE KEY-----''))"

definition key_end_re :: re where
  "key_end_re = Seq (lits ''-----END '') (Seq (Many (\<lambda>c. upper_c c \<or> digit_c c \<or> one_of '' '' c)) (lits ''PRIVATE KEY-----''))"

definition bearer_word_re :: re where
  "bearer_word_re = Alt (lits ''Bearer'') (Alt (lits ''bearer'') (lits ''BEARER''))"

definition bearer_c :: "int \<Rightarrow> bool" where
  "bearer_c c = (alnum_c c \<or> one_of ''._~+/=-'' c)"

fun times :: "nat \<Rightarrow> re \<Rightarrow> re" where
  "times 0 r = Eps"
| "times (Suc n) r = Seq (times n r) r"

definition bearer_token_re :: re where
  "bearer_token_re = Seq (lits '' '') (Seq (times 8 (Cls bearer_c)) (Many bearer_c))"

definition secret_word_re :: re where
  "secret_word_re =
     Alt (Seq (Cls (one_of ''Pp'')) (Seq (lits ''ass'') (Alt (lits ''word'') (lits ''wd''))))
    (Alt (Seq (lits ''PASS'') (Alt (lits ''WORD'') (lits ''WD'')))
    (Alt (Seq (Cls (one_of ''Ss'')) (lits ''ecret'')) (Alt (lits ''SECRET'')
    (Alt (Seq (Cls (one_of ''Tt'')) (lits ''oken'')) (Alt (lits ''TOKEN'')
    (Alt (Seq (Cls (one_of ''Aa'')) (Seq (lits ''pi'') (Seq (opt (lits ''_'')) (Seq (Cls (one_of ''Kk'')) (lits ''ey'')))))
    (Alt (Seq (lits ''API'') (Seq (opt (lits ''_'')) (lits ''KEY'')))
    (Alt (Seq (Cls (one_of ''Vv'')) (Seq (lits ''ault_'') (Seq (Cls (one_of ''Kk'')) (lits ''ey''))))
         (lits ''VAULT_KEY'')))))))))"

definition space_opt :: re where
  "space_opt = opt (Cls (one_of '' ''))"

definition assign_re :: re where
  "assign_re = Seq space_opt (Seq (Cls (one_of ''=:'')) space_opt)"

definition value_c :: "int \<Rightarrow> bool" where
  "value_c c = (\<not> one_of '' '' c \<and> 31 < c)"

text \<open>\<open>_SHAPES\<close>, from the schema's \<open>text\<close> definition, and \<open>_CREDENTIALS\<close> with their masks.\<close>

definition SHAPES :: "re list" where
  "SHAPES =
     [Seq scheme_re userinfo_re,
      key_begin_re,
      Seq bearer_word_re bearer_token_re,
      Seq (Seq secret_word_re assign_re) (Cls value_c)]"

definition CREDENTIALS :: "(re \<times> re \<times> utext) list" where
  "CREDENTIALS =
     [(Eps, Seq key_begin_re (Alt (Seq (Few (\<lambda>_. True)) key_end_re) (Many (\<lambda>_. True))), lit ''[redacted private key]''),
      (scheme_re, userinfo_re, lit ''[redacted]@''),
      (bearer_word_re, bearer_token_re, lit '' [redacted]''),
      (secret_word_re, Seq assign_re (Seq (opt (Seq (Cls (one_of ''=:'')) space_opt)) (Seq (Cls value_c) (Many value_c))),
       lit '' (redacted)'')]"

subsection \<open>Redaction\<close>

definition credential_shaped :: "utext \<Rightarrow> bool" where
  "credential_shaped t = list_ex (\<lambda>r. search r t) SHAPES"

definition is_surrogate :: "int \<Rightarrow> bool" where
  "is_surrogate c = (0xD800 \<le> c \<and> c \<le> 0xDFFF)"

definition is_control :: "bool \<Rightarrow> int \<Rightarrow> bool" where
  "is_control single_line c =
     (if single_line then c \<le> 0x1f \<or> (0x7f \<le> c \<and> c \<le> 0x9f)
      else c \<le> 8 \<or> (0x0b \<le> c \<and> c \<le> 0x1f) \<or> (0x7f \<le> c \<and> c \<le> 0x9f))"

definition escape_control :: "bool \<Rightarrow> int \<Rightarrow> utext" where
  "escape_control single_line c =
     (if is_control single_line c
      then lit [CHR 0x5C, CHR ''u'', CHR ''0'', CHR ''0'', hex_char (nat (c div 16)), hex_char (nat (c mod 16))] else [c])"

definition mask_credentials :: "utext \<Rightarrow> utext" where
  "mask_credentials t = fold (\<lambda>(g, r, repl) t. sub g r repl t) CREDENTIALS t"

fun mask_rounds :: "nat \<Rightarrow> utext \<Rightarrow> utext" where
  "mask_rounds 0 t = t"
| "mask_rounds (Suc n) t = (if credential_shaped t then mask_rounds n (mask_credentials t) else t)"

definition UNREDACTABLE :: utext where
  "UNREDACTABLE = lit ''[redacted: the text looked like it held a credential]''"

definition ellipsis :: int where
  "ellipsis = 0x2026"

definition cut_separator :: "utext \<Rightarrow> utext" where
  "cut_separator t = rev (dropWhile (one_of '' =:'') (rev t))"

definition redact_text :: "utext \<Rightarrow> nat \<Rightarrow> bool \<Rightarrow> utext" where
  "redact_text value max_length single_line =
     (let text = map (\<lambda>c. if is_surrogate c then 0xFFFD else c) value;
          text = concat (map (escape_control single_line) text);
          text = mask_rounds 4 text;
          text = (if credential_shaped text then UNREDACTABLE else text) in
      if length text \<le> max_length then text
      else let cut = take (max_length - 1) text in
           (if credential_shaped (cut @ [ellipsis]) then cut_separator cut else cut) @ [ellipsis])"

subsection \<open>Matching and the end of a text\<close>

lemma cls_rests_iff: "t \<in> set (cls_rests P s) \<longleftrightarrow> (\<exists>c. s = c # t \<and> P c)"
  by (cases s) auto

lemma rests_suffix: "t \<in> set (rests r s) \<Longrightarrow> suffix t s"
proof (induction r arbitrary: s t)
  case (Cls P) then show ?case by (cases s) (auto intro: suffix_ConsI split: if_splits)
next
  case (Seq a b) then show ?case by simp (meson suffix_order.trans)
next
  case (Many P) then show ?case by (induction s) (auto intro: suffix_ConsI split: if_splits)
next
  case (Few P) then show ?case by (induction s) (auto intro: suffix_ConsI split: if_splits)
qed auto

lemma rests_append: "t \<in> set (rests r s) \<Longrightarrow> t @ u \<in> set (rests r (s @ u))"
proof (induction r arbitrary: s t)
  case (Cls P) then show ?case by (cases s) (auto split: if_splits)
next
  case (Seq a b) then show ?case by simp blast
next
  case (Many P)
  have "u \<in> set (many_rests P u)" by (cases u) auto
  with Many show ?case by (induction s) (auto split: if_splits)
next
  case (Few P)
  have "u \<in> set (few_rests P u)" by (cases u) auto
  with Few show ?case by (induction s) (auto split: if_splits)
qed auto

text \<open>A match in \<open>s @ [x]\<close> that leaves something is a match in \<open>s\<close>: the patterns look at nothing past their end.\<close>

lemma rests_snoc: "t \<in> set (rests r (s @ [x])) \<Longrightarrow> t = [] \<or> (\<exists>t'. t = t' @ [x] \<and> t' \<in> set (rests r s))"
proof (induction r arbitrary: s t)
  case (Cls P) then show ?case by (cases s) (auto split: if_splits)
next
  case (Seq a b)
  then obtain u where u: "u \<in> set (rests a (s @ [x]))" "t \<in> set (rests b u)" by auto
  with Seq.IH(1) consider "u = []" | u' where "u = u' @ [x]" "u' \<in> set (rests a s)" by blast
  then show ?case
  proof cases
    case 1
    with rests_suffix [OF u(2)] show ?thesis by simp
  next
    case 2
    with Seq.IH(2) u(2) show ?thesis by auto
  qed
next
  case (Many P) then show ?case by (induction s arbitrary: t) (auto split: if_splits)
next
  case (Few P) then show ?case by (induction s arbitrary: t) (auto split: if_splits)
next
  case (Alt a b) then show ?case by simp blast
qed auto

lemma search_iff: "search r s \<longleftrightarrow> (\<exists>t u. suffix t s \<and> u \<in> set (rests r t))"
  by (auto simp: search_def list_ex_iff set_suffixes_eq) (metis list.set_intros(1) neq_Nil_conv)

lemma search_append: "search r s \<Longrightarrow> search r (s @ u)"
  by (auto simp: search_iff) (metis rests_append suffix_appendI suffix_def append_assoc)

lemma search_snoc: "search r (s @ [x]) \<Longrightarrow> search r s \<or> (\<exists>t. suffix t (s @ [x]) \<and> [] \<in> set (rests r t))"
proof -
  assume "search r (s @ [x])"
  then obtain t u where t: "suffix t (s @ [x])" and u: "u \<in> set (rests r t)" by (auto simp: search_iff)
  show ?thesis
  proof (cases "u = [] \<or> t = []")
    case True
    with t u show ?thesis using rests_suffix [OF u] by auto
  next
    case False
    then obtain t' where "t = t' @ [x]" "suffix t' s" using t by (auto simp: suffix_snoc)
    with rests_snoc u False have "search r s" unfolding search_iff by blast
    then show ?thesis ..
  qed
qed

definition ends :: "re \<Rightarrow> (int \<Rightarrow> bool) \<Rightarrow> bool" where
  "ends r P \<longleftrightarrow> (\<forall>s t. t \<in> set (rests r s) \<longrightarrow> (\<exists>p c. s = p @ c # t \<and> P c))"

lemma endsI: "(\<And>s t. t \<in> set (rests r s) \<Longrightarrow> \<exists>p c. s = p @ c # t \<and> P c) \<Longrightarrow> ends r P"
  by (simp add: ends_def)

lemma ends_Cls: "ends (Cls P) P"
  by (rule endsI) (metis append_Nil cls_rests.elims empty_iff empty_set rests.simps(2) set_ConsD)

lemma ends_Seq: "ends b P \<Longrightarrow> ends (Seq a b) P"
  by (rule endsI) (fastforce simp: ends_def suffix_def dest: rests_suffix)

lemma ends_opt: "ends a P \<Longrightarrow> ends (Seq a (opt (Cls P))) P"
  using ends_Cls [of P] by (intro endsI) (fastforce simp: ends_def opt_def dest: rests_suffix simp: suffix_def)

lemma ends_Many: "ends a P \<Longrightarrow> ends (Seq a (Many P)) P"
proof (rule endsI)
  fix s t
  assume a: "ends a P" and "t \<in> set (rests (Seq a (Many P)) s)"
  then obtain u where u: "u \<in> set (rests a s)" "t \<in> set (many_rests P u)" by auto
  have "t = u \<or> (\<exists>p c. u = p @ c # t \<and> P c)" using u(2)
  proof (induction u)
    case (Cons x u)
    then show ?case by (auto split: if_splits)
  qed simp
  with a u(1) show "\<exists>p c. s = p @ c # t \<and> P c" unfolding ends_def by (metis append.assoc append_Cons)
qed

lemma ends_imp: "ends r P \<Longrightarrow> (\<And>c. P c \<Longrightarrow> Q c) \<Longrightarrow> ends r Q"
  unfolding ends_def by meson

lemma ends_lits: "cs \<noteq> [] \<Longrightarrow> ends (lits cs) ((=) (of_char (last cs)))"
proof (induction cs rule: lits.induct)
  case (2 c cs)
  show ?case
  proof (cases cs)
    case Nil
    then show ?thesis using ends_Cls [of "(=) (of_char c)"] by (simp add: ends_def)
  next
    case (Cons d ds)
    with "2.IH" have "ends (lits cs) ((=) (of_char (last cs)))" by simp
    then show ?thesis unfolding lits.simps(2) by (rule ends_Seq [THEN ends_imp]) (simp add: Cons)
  qed
qed simp

text \<open>Appending a character no match can end with adds no match.\<close>

lemma search_snoc_ends:
  assumes "ends r P" "\<not> P x" "search r (s @ [x])"
  shows "search r s"
proof (rule ccontr)
  assume "\<not> search r s"
  with search_snoc [OF assms(3)] obtain t where t: "suffix t (s @ [x])" "[] \<in> set (rests r t)" by blast
  with assms(1) obtain p c where "t = p @ [c]" "P c" unfolding ends_def by blast
  with t(1) assms(2) show False by (auto simp: suffix_def)
qed

text \<open>A match of two parts, the second one character, that ends with the last of \<open>s @ [x]\<close>.\<close>

lemma search_snoc_two:
  assumes "ends a P" "search (Seq a (Cls Q)) (s @ [x])" "\<not> search (Seq a (Cls Q)) s"
  shows "s \<noteq> [] \<and> P (last s)"
proof -
  obtain t where t: "suffix t (s @ [x])" "[] \<in> set (rests (Seq a (Cls Q)) t)"
    using search_snoc [OF assms(2)] assms(3) by blast
  then obtain u d where u: "u \<in> set (rests a t)" and "u = [d]" by (auto simp: cls_rests_iff)
  with assms(1) obtain p c where "t = p @ [c, d]" "P c" unfolding ends_def by blast
  with t(1) obtain v where "s @ [x] = (v @ p @ [c]) @ [d]" "P c" by (auto simp: suffix_def)
  then show ?thesis by auto
qed

subsection \<open>Shapes and the cut\<close>

lemma shaped_iff: "credential_shaped t \<longleftrightarrow> (\<exists>r\<in>set SHAPES. search r t)"
  by (simp add: credential_shaped_def list_ex_iff)

lemma shaped_append: "\<not> credential_shaped (s @ u) \<Longrightarrow> \<not> credential_shaped s"
  using search_append by (auto simp: shaped_iff)

definition separator_c :: "int \<Rightarrow> bool" where
  "separator_c = one_of '' =:''"

lemma url_ends: "ends (Seq scheme_re userinfo_re) ((=) 64)"
  unfolding userinfo_re_def by (intro ends_Seq) (use ends_lits [of "''@''"] in simp)

lemma key_ends: "ends key_begin_re ((=) 45)"
  unfolding key_begin_re_def by (intro ends_Seq) (use ends_lits [of "''PRIVATE KEY-----''"] in simp)

lemma bearer_ends: "ends (Seq bearer_word_re bearer_token_re) bearer_c"
  unfolding bearer_token_re_def
  by (intro ends_Seq ends_Many) (simp add: ends_Seq ends_Cls numeral_eq_Suc)

lemma assign_ends: "ends (Seq secret_word_re assign_re) separator_c"
proof -
  have "ends (Seq (Cls (one_of ''=:'')) space_opt) separator_c"
  proof (rule endsI)
    fix s t
    assume "t \<in> set (rests (Seq (Cls (one_of ''=:'')) space_opt) s)"
    then show "\<exists>p c. s = p @ c # t \<and> separator_c c"
      by (cases s; cases "tl s") (auto simp: space_opt_def opt_def separator_c_def one_of_def split: if_splits)
  qed
  then show ?thesis unfolding assign_re_def by (rule ends_Seq [OF ends_Seq])
qed

lemma ellipsis_class [simp]: "\<not> bearer_c ellipsis" "64 \<noteq> ellipsis" "45 \<noteq> ellipsis"
  by (simp_all add: ellipsis_def bearer_c_def alnum_c_def upper_c_def lower_c_def digit_c_def between_def one_of_def)

lemma unshaped_ellipsis:
  assumes "\<not> credential_shaped s" "s = [] \<or> \<not> separator_c (last s)"
  shows "\<not> credential_shaped (s @ [ellipsis])"
proof
  assume "credential_shaped (s @ [ellipsis])"
  then consider "search (Seq scheme_re userinfo_re) (s @ [ellipsis])" | "search key_begin_re (s @ [ellipsis])"
    | "search (Seq bearer_word_re bearer_token_re) (s @ [ellipsis])"
    | "search (Seq (Seq secret_word_re assign_re) (Cls value_c)) (s @ [ellipsis])"
    by (auto simp: shaped_iff SHAPES_def)
  then show False
    using assms search_snoc_ends [OF url_ends, of ellipsis s] search_snoc_ends [OF key_ends, of ellipsis s]
      search_snoc_ends [OF bearer_ends, of ellipsis s] search_snoc_two [OF assign_ends, of value_c s ellipsis]
    by cases (auto simp: shaped_iff SHAPES_def)
qed

lemma cut_separator_prefix: "prefix (cut_separator t) t"
  unfolding cut_separator_def by (metis rev_rev_ident suffix_dropWhile suffix_to_prefix)

lemma cut_separator_last: "cut_separator t = [] \<or> \<not> separator_c (last (cut_separator t))"
  unfolding cut_separator_def separator_c_def by (metis hd_dropWhile hd_rev last_rev rev_is_Nil_conv)

subsection \<open>What redaction promises\<close>

text \<open>
  The schema's \<open>text\<close> and \<open>brief_text\<close>, with their bounds: no control character (but tab and newline, unless on
  one line), nothing the canonical form refuses, no credential shape.
\<close>

definition contract_text :: "bool \<Rightarrow> nat \<Rightarrow> utext \<Rightarrow> bool" where
  "contract_text single_line max_length t \<longleftrightarrow>
     length t \<le> max_length \<and> list_all (\<lambda>c. \<not> is_control single_line c \<and> \<not> is_surrogate c) t \<and> \<not> credential_shaped t"

lemma sub_set: "set (sub g r repl s) \<subseteq> set s \<union> set repl"
proof (induction g r repl s rule: sub.induct)
  case (2 g r repl x xs)
  show ?case
  proof (cases "find (\<lambda>t. rests r t \<noteq> []) (rests g (x # xs))")
    case None
    with 2(1) show ?thesis by auto
  next
    case (Some t)
    then have t: "t \<in> set (rests g (x # xs))" "rests r t \<noteq> []"
      by (auto simp: find_Some_iff)
    have "suffix (hd (rests r t)) (x # xs)"
      using rests_suffix [of "hd (rests r t)" r t] rests_suffix [OF t(1)] t(2) by (auto intro: suffix_order.trans)
    then have "set (hd (rests r t)) \<subseteq> set (x # xs)" by (rule set_mono_suffix)
    with 2(2,3) [OF Some refl] set_take_subset [of "length (x # xs) - length t" "x # xs"] Some show ?thesis
      by (auto simp: Let_def)
  qed
qed simp

lemma masks_clean: "\<forall>(g, r, repl)\<in>set CREDENTIALS. \<forall>c\<in>set repl. 32 \<le> c \<and> c \<le> 126"
  by (simp add: CREDENTIALS_def)

definition clean_c :: "bool \<Rightarrow> int \<Rightarrow> bool" where
  "clean_c sl c \<longleftrightarrow> \<not> is_control sl c \<and> \<not> is_surrogate c"

lemma clean_printable: "32 \<le> c \<Longrightarrow> c \<le> 126 \<Longrightarrow> clean_c sl c"
  by (simp add: clean_c_def is_control_def is_surrogate_def)

lemma mask_clean:
  assumes "\<forall>c\<in>set t. clean_c sl c"
  shows "\<forall>c\<in>set (mask_credentials t). clean_c sl c"
proof -
  have "\<forall>c\<in>set (fold (\<lambda>(g, r, repl) t. sub g r repl t) cs t). clean_c sl c" if "set cs \<subseteq> set CREDENTIALS" for cs
    using that assms
  proof (induction cs arbitrary: t)
    case (Cons x cs)
    obtain g r repl where x: "x = (g, r, repl)" by (cases x)
    with Cons.prems(1) masks_clean have "\<forall>c\<in>set repl. clean_c sl c" by (fastforce intro: clean_printable)
    then have "\<forall>c\<in>set (sub g r repl t). clean_c sl c" using sub_set [of g r repl t] Cons.prems(2) by blast
    with Cons x show ?case by simp
  qed simp
  from this [OF subset_refl] show ?thesis unfolding mask_credentials_def .
qed

lemma rounds_clean: "\<forall>c\<in>set t. clean_c sl c \<Longrightarrow> \<forall>c\<in>set (mask_rounds n t). clean_c sl c"
proof (induction n arbitrary: t)
  case (Suc n)
  from Suc.IH [OF mask_clean [OF Suc.prems]] Suc.prems show ?case by simp
qed simp

lemma hex_char_printable: "n < 16 \<Longrightarrow> 32 \<le> (of_char (hex_char n) :: int) \<and> (of_char (hex_char n) :: int) \<le> 126"
  by (simp add: hex_char_def less_Suc_eq numeral_eq_Suc) (elim disjE; simp)

lemma escape_clean:
  assumes "d \<in> set (escape_control sl (if is_surrogate c then 0xFFFD else c))"
  shows "clean_c sl d"
proof (cases "is_control sl (if is_surrogate c then 0xFFFD else c)")
  case False
  with assms show ?thesis by (auto simp: escape_control_def clean_c_def is_surrogate_def split: if_splits)
next
  case True
  define e where "e = (if is_surrogate c then 0xFFFD else c)"
  from True have "e < 256" by (auto simp: is_control_def e_def split: if_splits)
  then have "nat (e div 16) < 16" "nat (e mod 16) < 16" by auto
  note hex_char_printable [OF this(1)] hex_char_printable [OF this(2)]
  with assms True show ?thesis
    unfolding e_def [symmetric] by (auto simp: escape_control_def intro: clean_printable)
qed

lemma UNREDACTABLE_ok: "\<not> credential_shaped UNREDACTABLE" "\<forall>c\<in>set UNREDACTABLE. clean_c sl c"
  by (code_simp, simp add: UNREDACTABLE_def clean_printable)

text \<open>
  C12. \<^bold>\<open>Redaction always yields contract text.\<close> Whatever text the utility is given (an error reason, a
  diagnostic, the name of a stray file), the redacted text is within its bound, has no control character
  and no lone surrogate, and matches none of the credential shapes: in particular cutting it to length and
  appending the ellipsis never completes a shape the masking removed.
\<close>

theorem redact_contract_text:
  assumes "1 \<le> max_length"
  shows "contract_text single_line max_length (redact_text value max_length single_line)"
proof -
  define start where "start = concat (map (escape_control single_line) (map (\<lambda>c. if is_surrogate c then 0xFFFD else c) value))"
  define t where "t = (if credential_shaped (mask_rounds 4 start) then UNREDACTABLE else mask_rounds 4 start)"
  define cut where "cut = take (max_length - 1) t"
  define kept where "kept = (if credential_shaped (cut @ [ellipsis]) then cut_separator cut else cut)"
  have result: "redact_text value max_length single_line = (if length t \<le> max_length then t else kept @ [ellipsis])"
    by (simp add: redact_text_def Let_def start_def t_def cut_def kept_def)
  have "\<forall>c\<in>set start. clean_c single_line c" using escape_clean by (auto simp: start_def)
  then have clean: "\<forall>c\<in>set t. clean_c single_line c" by (simp add: t_def rounds_clean UNREDACTABLE_ok)
  have unshaped: "\<not> credential_shaped t" by (simp add: t_def UNREDACTABLE_ok)
  have "prefix kept cut" "prefix cut t"
    by (simp_all add: kept_def cut_def cut_separator_prefix take_is_prefix)
  then have kept: "prefix kept t" "length kept \<le> max_length - 1" "set kept \<subseteq> set t"
    using prefix_length_le [of kept cut] by (auto simp: cut_def dest: set_mono_prefix set_take_subset [THEN subsetD] intro: prefix_order.trans)
  have "\<not> credential_shaped kept" using kept(1) unshaped shaped_append by (auto simp: prefix_def)
  then have "\<not> credential_shaped (kept @ [ellipsis])"
    using unshaped_ellipsis [of kept] cut_separator_last [of cut] by (auto simp: kept_def)
  moreover have "clean_c single_line ellipsis" by (simp add: clean_c_def is_control_def is_surrogate_def ellipsis_def)
  ultimately show ?thesis
    using clean unshaped kept assms by (auto simp: result contract_text_def list_all_iff clean_c_def)
qed

theorem redact_contract_text_witness:
  "(1 :: nat) \<le> 12 \<and> contract_text True 12 (redact_text (lit ''token=a'') 12 True) \<and>
   redact_text (lit ''token=a'') 20 True = lit ''token (redacted)''"
proof -
  have "redact_text (lit ''token=a'') 20 True = lit ''token (redacted)''" by code_simp
  then show ?thesis using redact_contract_text [of 12 True "lit ''token=a''"] by simp
qed

end
