(* ===== verification/Lifecycle_Journal.thy ===== *)
theory Lifecycle_Journal
  imports Contract_Text
begin

text \<open>
  The operation journals of the native lifecycle utility (\<open>deploy/scripts/lifecycle-state.py\<close>):
  one record per durable checkpoint of an install, update, rollback or other operation, and the
  contract's J rules that decide which sequences of records are legal. The rules are related to
  an abstract machine with a bounded number of recovery attempts, from which the length of every
  journal and the ways to close one follow, and to the stricter machine of the contract, from which
  it differs by two lenient ways to close a journal.
\<close>

subsection \<open>Documents\<close>

datatype lc_state =
  Planned | Staged | Verified | Recovery_saved | Applying | Checking | Committed
  | Recovering | Recovered | Recovery_required | Interrupted

datatype lc_kind = Transaction | Legacy

datatype lc_action =
  Install | Update | Downgrade | Rollback | Recover | Uninstall | Restore | Migrate | Backup
  | Vault_recover | Restart

datatype lc_cause = By_signal | Abandoned | Apply_failed | Check_failed | Recovery_failed

datatype lc_outcome = Out_committed | Out_recovered | Out_refused | Out_interrupted | Out_manual

datatype exit_name =
  USAGE | UNSUPPORTED | NETWORK | TRUST | PERMISSION | PREFLIGHT | RECOVERED | MANUAL | LOCKED | INTERRUPTED

record checkpoint =
  cp_sequence :: int
  cp_state :: lc_state
  cp_at :: utext
  cp_step :: "utext option"
  cp_cause :: "lc_cause option"
  cp_checkpoint :: "lc_state option"
  cp_outcome :: "lc_outcome option"
  cp_error :: "(exit_name \<times> utext) option"

datatype evidence_check =
  E_signature | E_provenance | E_digest | E_archive | E_compatibility | E_recovery_point | E_health | E_version
  | E_schema | E_identity

datatype evidence_result = E_passed | E_failed | E_skipped

type_synonym evidence_item = "evidence_check \<times> evidence_result \<times> utext option"

datatype lc_adapter = Native | Mono | Package | Proxmox

record journal =
  jn_operation_id :: utext
  jn_kind :: lc_kind
  jn_action :: lc_action
  jn_adapter :: lc_adapter
  jn_generation :: int
  jn_plan_digest :: "utext option"
  jn_identity_digest :: "utext option"
  jn_source :: "(utext \<times> utext option) option"
  jn_target :: "(utext \<times> utext option) option"
  jn_recovery :: "(utext \<times> utext) option"
  jn_evidence :: "evidence_item list"
  jn_started_at :: utext
  jn_updated_at :: utext
  jn_checkpoints :: "checkpoint list"

subsection \<open>The state machine of the contract\<close>

definition pre_mutation :: "lc_state list" where
  "pre_mutation = [Planned, Staged, Verified, Recovery_saved]"

definition progress_states :: "lc_state list" where
  "progress_states = [Applying, Checking, Recovering]"

definition max_recovery_attempts :: nat where
  "max_recovery_attempts = 3"

fun initial_state :: "lc_kind \<Rightarrow> lc_state" where
  "initial_state Transaction = Planned"
| "initial_state Legacy = Applying"

fun allowed_causes :: "lc_state \<Rightarrow> lc_cause list" where
  "allowed_causes Interrupted = [By_signal, Abandoned]"
| "allowed_causes Recovery_required = [By_signal, Apply_failed, Check_failed, Recovery_failed]"
| "allowed_causes _ = []"

fun transitions :: "lc_kind \<Rightarrow> lc_state \<Rightarrow> lc_state list" where
  "transitions Transaction Planned = [Staged, Interrupted]"
| "transitions Transaction Staged = [Verified, Interrupted]"
| "transitions Transaction Verified = [Recovery_saved, Applying, Interrupted]"
| "transitions Transaction Recovery_saved = [Applying, Interrupted]"
| "transitions Transaction Applying = [Checking, Recovering, Recovery_required, Interrupted]"
| "transitions Transaction Checking = [Committed, Recovering, Recovery_required, Interrupted]"
| "transitions Transaction Committed = []"
| "transitions Transaction Recovering = [Recovered, Recovery_required, Interrupted]"
| "transitions Transaction Recovered = []"
| "transitions Transaction Recovery_required = [Recovering]"
| "transitions Transaction Interrupted = [Recovering, Recovery_required]"
| "transitions Legacy Applying = [Checking, Committed, Recovering, Recovery_required, Interrupted]"
| "transitions Legacy Checking = [Committed, Recovering, Recovery_required, Interrupted]"
| "transitions Legacy Recovering = [Recovered, Recovery_required, Interrupted]"
| "transitions Legacy _ = []"

definition is_transition :: "lc_kind \<Rightarrow> lc_state \<Rightarrow> lc_state \<Rightarrow> bool" where
  "is_transition kind source target = (target \<in> set (transitions kind source))"

subsection \<open>The rules of one record\<close>

text \<open>What an error code is judged against: the state, or a refusal whatever the state.\<close>

datatype error_role = Role_refused | Role_state lc_state

fun error_code_problem :: "error_role \<Rightarrow> exit_name \<Rightarrow> bool" where
  "error_code_problem (Role_state Recovered) code = (code \<noteq> RECOVERED)"
| "error_code_problem (Role_state Recovery_required) code = (code \<notin> {MANUAL, INTERRUPTED})"
| "error_code_problem (Role_state Interrupted) code = (code \<noteq> INTERRUPTED)"
| "error_code_problem _ code = (code \<in> {RECOVERED, INTERRUPTED})"

datatype cp_violation =
  Step_outside_progress | Cause_missing | Cause_not_allowed | Cause_unexpected
  | Checkpoint_missing | Checkpoint_unexpected | Outcome_mismatch | Refused_after_mutation
  | Interrupted_after_mutation | Interruption_not_closed | Trap_after_mutation | Manual_unrequired
  | Error_missing | Error_unexpected | Error_code | Interrupted_code_mismatch

definition needs_error :: "error_role \<Rightarrow> bool" where
  "needs_error r = (r \<in> {Role_refused, Role_state Recovered, Role_state Recovery_required})"

text \<open>A run of guards \<open>if condition: _fail(...)\<close>: the first condition that holds decides.\<close>

fun first_of :: "(bool \<times> 'v) list \<Rightarrow> 'v option" where
  "first_of [] = None"
| "first_of ((b, v) # xs) = (if b then Some v else first_of xs)"

lemma first_of_None [simp]: "first_of ((b, v) # xs) = None \<longleftrightarrow> \<not> b \<and> first_of xs = None"
  by simp

definition checkpoint_rules :: "checkpoint \<Rightarrow> cp_violation option" where
  "checkpoint_rules c =
     (let state = cp_state c; outcome = cp_outcome c; causes = allowed_causes state;
          pre = (case cp_checkpoint c of Some s \<Rightarrow> s \<in> set pre_mutation | None \<Rightarrow> False);
          role = (if outcome = Some Out_refused then Role_refused else Role_state state) in
      first_of
       [(cp_step c \<noteq> None \<and> state \<notin> set progress_states, Step_outside_progress),
        (causes \<noteq> [] \<and> cp_cause c = None, Cause_missing),
        (causes \<noteq> [] \<and> cp_cause c \<notin> Some ` set causes, Cause_not_allowed),
        (causes = [] \<and> cp_cause c \<noteq> None, Cause_unexpected),
        (state = Interrupted \<and> cp_checkpoint c = None, Checkpoint_missing),
        (state \<noteq> Interrupted \<and> cp_checkpoint c \<noteq> None, Checkpoint_unexpected),
        ((state = Committed) \<noteq> (outcome = Some Out_committed), Outcome_mismatch),
        ((state = Recovered) \<noteq> (outcome = Some Out_recovered), Outcome_mismatch),
        (outcome = Some Out_refused \<and> state \<notin> set pre_mutation, Refused_after_mutation),
        (outcome = Some Out_interrupted \<and> \<not> (state = Interrupted \<and> pre), Interrupted_after_mutation),
        (state = Interrupted \<and> pre \<and> outcome \<noteq> Some Out_interrupted, Interruption_not_closed),
        (state = Interrupted \<and> \<not> pre \<and> cp_cause c \<noteq> Some Abandoned, Trap_after_mutation),
        (outcome = Some Out_manual \<and> state \<noteq> Recovery_required, Manual_unrequired),
        (needs_error role \<and> cp_error c = None, Error_missing),
        (cp_error c \<noteq> None \<and> \<not> needs_error role \<and> role \<noteq> Role_state Interrupted, Error_unexpected),
        ((case cp_error c of Some (code, _) \<Rightarrow> error_code_problem role code | None \<Rightarrow> False), Error_code),
        (state = Recovery_required \<and>
         (cp_cause c = Some By_signal) \<noteq> (map_option fst (cp_error c) = Some INTERRUPTED), Interrupted_code_mismatch)])"

subsection \<open>The rules of a journal\<close>

datatype violation =
    Bad_record cp_violation
  | Already_closed | Sequence_not_increasing | Wrong_checkpoint | Manual_without_required
  | Attempts_exhausted | Step_appended | State_repeated | Not_a_transition | Skips_recovery_point

text \<open>Whether a record starts a recovery attempt, after a record in state \<open>source\<close>.\<close>

definition starts_attempt :: "lc_state \<Rightarrow> checkpoint \<Rightarrow> bool" where
  "starts_attempt source c = (cp_state c = Recovering \<and> source \<noteq> Recovering)"

text \<open>One iteration of the loop, for a record after \<open>prev\<close>; \<open>attempts\<close> counts before it.\<close>

definition record_rules :: "lc_kind \<Rightarrow> lc_action \<Rightarrow> nat \<Rightarrow> checkpoint \<Rightarrow> checkpoint \<Rightarrow> violation option" where
  "record_rules kind action attempts prev c =
     (let source = cp_state prev; progress = cp_step c \<noteq> None \<and> cp_state c \<in> set progress_states;
          closing = cp_outcome c \<in> {Some Out_refused, Some Out_manual}; same = (source = cp_state c) in
      case checkpoint_rules c of
        Some v \<Rightarrow> Some (Bad_record v)
      | None \<Rightarrow> first_of
         [(cp_outcome prev \<noteq> None, Already_closed),
          (cp_sequence c \<le> cp_sequence prev, Sequence_not_increasing),
          (cp_state c = Interrupted \<and> cp_checkpoint c \<noteq> Some source, Wrong_checkpoint),
          (cp_outcome c = Some Out_manual \<and> source \<noteq> Recovery_required, Manual_without_required),
          (starts_attempt source c \<and> max_recovery_attempts < attempts + 1, Attempts_exhausted),
          (same \<and> progress \<and> cp_step prev \<noteq> None, Step_appended),
          (same \<and> \<not> progress \<and> \<not> closing, State_repeated),
          (\<not> same \<and> \<not> is_transition kind source (cp_state c), Not_a_transition),
          (\<not> same \<and> source = Verified \<and> cp_state c = Applying \<and> action \<noteq> Install, Skips_recovery_point)])"

fun walk_rules :: "lc_kind \<Rightarrow> lc_action \<Rightarrow> nat \<Rightarrow> nat \<Rightarrow> checkpoint \<Rightarrow> checkpoint list \<Rightarrow> (nat \<times> violation) option" where
  "walk_rules kind action i attempts prev [] = None"
| "walk_rules kind action i attempts prev (c # cs) =
     (case record_rules kind action attempts prev c of
        Some v \<Rightarrow> Some (i, v)
      | None \<Rightarrow> walk_rules kind action (i + 1) (if starts_attempt (cp_state prev) c then attempts + 1 else attempts) c cs)"

text \<open>\<open>_is_release\<close>: the schema's \<open>version\<close>, \<open>0.4.7\<close> or \<open>0.4.7-rc.1\<close>, at most 64 characters.\<close>

definition digits_re :: re where
  "digits_re = Seq (Cls digit_c) (Many digit_c)"

definition release_re :: re where
  "release_re = Seq digits_re (Seq (lits ''.'') (Seq digits_re (Seq (lits ''.'') (Seq digits_re
     (opt (Seq (lits ''-'') (Seq (Cls (\<lambda>c. alnum_c c \<or> one_of ''.-'' c)) (Many (\<lambda>c. alnum_c c \<or> one_of ''.-'' c)))))))))"

definition is_release :: "utext \<Rightarrow> bool" where
  "is_release v = (fullmatch release_re v \<and> length v \<le> 64)"

definition RESOLVED :: "lc_action list" where
  "RESOLVED = [Install, Update, Downgrade]"

datatype journal_violation =
    Wrong_start | Plan_digest_missing | Plan_digest_unexpected | Generation_low | Target_unresolved
  | Record_at nat violation | Recovery_missing

definition target_resolved :: "journal \<Rightarrow> bool" where
  "target_resolved j =
     (case jn_target j of
        None \<Rightarrow> True
      | Some (version, _) \<Rightarrow> jn_kind j = Transaction \<and> jn_action j \<in> set RESOLVED \<longrightarrow> is_release version)"

text \<open>The schema admits no journal without a checkpoint.\<close>

definition journal_rules :: "journal \<Rightarrow> journal_violation option" where
  "journal_rules j =
     (let c = hd (jn_checkpoints j) in
      case first_of
         [(jn_checkpoints j = [] \<or> cp_state c \<noteq> initial_state (jn_kind j), Wrong_start),
          (jn_kind j = Transaction \<and> jn_plan_digest j = None, Plan_digest_missing),
          (jn_kind j = Legacy \<and> jn_plan_digest j \<noteq> None, Plan_digest_unexpected),
          (jn_generation j < int (length (jn_checkpoints j)), Generation_low),
          (\<not> target_resolved j, Target_unresolved)] of
        Some v \<Rightarrow> Some v
      | None \<Rightarrow>
          (case checkpoint_rules c of
             Some v \<Rightarrow> Some (Record_at 0 (Bad_record v))
           | None \<Rightarrow>
               (case walk_rules (jn_kind j) (jn_action j) 1 0 c (tl (jn_checkpoints j)) of
                  Some (i, v) \<Rightarrow> Some (Record_at i v)
                | None \<Rightarrow>
                    first_of [(list_ex (\<lambda>r. cp_state r = Recovery_saved) (jn_checkpoints j) \<and> jn_recovery j = None,
                               Recovery_missing)])))"

definition last_record :: "journal \<Rightarrow> checkpoint" where
  "last_record j = last (jn_checkpoints j)"

definition finished :: "journal \<Rightarrow> bool" where
  "finished j = (cp_outcome (last_record j) \<noteq> None)"

definition in_progress :: "journal \<Rightarrow> bool" where
  "in_progress j = (\<not> finished j \<and> cp_state (last_record j) \<notin> {Recovery_required, Interrupted})"

subsection \<open>The abstract machine\<close>

text \<open>
  What of a journal decides its future: the state, whether the last record is a stepped one, the
  recovery attempts made, and the outcome. The machine takes the steps the validator accepts; the
  machine of the contract, which accepts fewer closing records, is below.
\<close>

record op_state =
  os_state :: lc_state
  os_stepped :: bool
  os_attempts :: nat
  os_outcome :: "lc_outcome option"

fun move_outcomes :: "lc_state \<Rightarrow> lc_state \<Rightarrow> lc_outcome option set" where
  "move_outcomes source Committed = {Some Out_committed}"
| "move_outcomes source Recovered = {Some Out_recovered}"
| "move_outcomes source Interrupted = (if source \<in> set pre_mutation then {Some Out_interrupted} else {None})"
| "move_outcomes source target = (if target \<in> set pre_mutation then {None, Some Out_refused} else {None})"

inductive lc_step :: "lc_kind \<Rightarrow> lc_action \<Rightarrow> op_state \<Rightarrow> op_state \<Rightarrow> bool" for kind action where
  move: "\<lbrakk>os_outcome s = None; is_transition kind (os_state s) t;
          os_state s = Verified \<and> t = Applying \<longrightarrow> action = Install;
          t = Recovering \<longrightarrow> os_attempts s < max_recovery_attempts;
          n = (if t = Recovering then os_attempts s + 1 else os_attempts s);
          b \<longrightarrow> t \<in> set progress_states; out \<in> move_outcomes (os_state s) t\<rbrakk>
    \<Longrightarrow> lc_step kind action s \<lparr>os_state = t, os_stepped = b, os_attempts = n, os_outcome = out\<rparr>"
| advance: "\<lbrakk>os_outcome s = None; os_state s \<in> set progress_states; \<not> os_stepped s\<rbrakk>
    \<Longrightarrow> lc_step kind action s (s\<lparr>os_stepped := True\<rparr>)"
| refuse: "\<lbrakk>os_outcome s = None; os_state s \<in> set pre_mutation\<rbrakk>
    \<Longrightarrow> lc_step kind action s (s\<lparr>os_stepped := False, os_outcome := Some Out_refused\<rparr>)"
| give_up: "\<lbrakk>os_outcome s = None; os_state s = Recovery_required\<rbrakk>
    \<Longrightarrow> lc_step kind action s (s\<lparr>os_stepped := False, os_outcome := Some Out_manual\<rparr>)"

inductive lc_reach :: "lc_kind \<Rightarrow> lc_action \<Rightarrow> op_state \<Rightarrow> bool" for kind action where
  start: "\<lbrakk>b \<longrightarrow> initial_state kind \<in> set progress_states;
           out = None \<or> (initial_state kind \<in> set pre_mutation \<and> out = Some Out_refused)\<rbrakk>
    \<Longrightarrow> lc_reach kind action \<lparr>os_state = initial_state kind, os_stepped = b, os_attempts = 0, os_outcome = out\<rparr>"
| step: "lc_reach kind action s \<Longrightarrow> lc_step kind action s t \<Longrightarrow> lc_reach kind action t"

subsection \<open>A journal is a run of the machine\<close>

text \<open>The abstract state a record leads to, and the one a list of records leads to.\<close>

definition next_os :: "op_state \<Rightarrow> checkpoint \<Rightarrow> op_state" where
  "next_os s c = \<lparr>os_state = cp_state c, os_stepped = (cp_step c \<noteq> None),
     os_attempts = (if starts_attempt (os_state s) c then os_attempts s + 1 else os_attempts s), os_outcome = cp_outcome c\<rparr>"

definition first_os :: "checkpoint \<Rightarrow> op_state" where
  "first_os c = \<lparr>os_state = cp_state c, os_stepped = (cp_step c \<noteq> None), os_attempts = 0, os_outcome = cp_outcome c\<rparr>"

definition abs_records :: "checkpoint list \<Rightarrow> op_state" where
  "abs_records cs = fold (\<lambda>c s. next_os s c) (tl cs) (first_os (hd cs))"

definition abs_journal :: "journal \<Rightarrow> op_state" where
  "abs_journal j = abs_records (jn_checkpoints j)"

text \<open>What a record says about the one before it: a later sequence, and the state an interruption preserves.\<close>

definition follows :: "checkpoint \<Rightarrow> checkpoint \<Rightarrow> bool" where
  "follows prev c \<longleftrightarrow> cp_sequence prev < cp_sequence c \<and> (cp_state c = Interrupted \<longrightarrow> cp_checkpoint c = Some (cp_state prev))"

lemma outcome_of_state:
  assumes "checkpoint_rules c = None"
  shows "cp_state c = Committed \<longleftrightarrow> cp_outcome c = Some Out_committed"
    "cp_state c = Recovered \<longleftrightarrow> cp_outcome c = Some Out_recovered"
    "cp_outcome c = Some Out_refused \<Longrightarrow> cp_state c \<in> set pre_mutation"
    "cp_outcome c = Some Out_manual \<Longrightarrow> cp_state c = Recovery_required"
    "cp_outcome c = Some Out_interrupted \<longleftrightarrow> cp_state c = Interrupted \<and> cp_checkpoint c \<in> Some ` set pre_mutation"
    "cp_step c \<noteq> None \<Longrightarrow> cp_state c \<in> set progress_states"
proof -
  note rules = assms [unfolded checkpoint_rules_def Let_def first_of_None]
  show "cp_state c = Committed \<longleftrightarrow> cp_outcome c = Some Out_committed"
    "cp_state c = Recovered \<longleftrightarrow> cp_outcome c = Some Out_recovered"
    "cp_outcome c = Some Out_refused \<Longrightarrow> cp_state c \<in> set pre_mutation"
    "cp_outcome c = Some Out_manual \<Longrightarrow> cp_state c = Recovery_required"
    "cp_step c \<noteq> None \<Longrightarrow> cp_state c \<in> set progress_states"
    using rules by argo+
  have "(cp_outcome c = Some Out_interrupted) \<longleftrightarrow>
      cp_state c = Interrupted \<and> (case cp_checkpoint c of Some s \<Rightarrow> s \<in> set pre_mutation | None \<Rightarrow> False)"
    using rules by argo
  then show "cp_outcome c = Some Out_interrupted \<longleftrightarrow> cp_state c = Interrupted \<and> cp_checkpoint c \<in> Some ` set pre_mutation"
    by (cases "cp_checkpoint c") auto
qed

text \<open>A record is legal after another exactly when it is well formed, follows it and the machine can take the step.\<close>

definition models :: "op_state \<Rightarrow> checkpoint \<Rightarrow> bool" where
  "models s prev \<longleftrightarrow> os_state s = cp_state prev \<and> os_stepped s = (cp_step prev \<noteq> None) \<and> os_outcome s = cp_outcome prev"

lemma models_next [simp]: "models (next_os s c) c" and models_first [simp]: "models (first_os c) c"
  by (simp_all add: models_def next_os_def first_os_def)

lemma not_self_transition [simp]: "\<not> is_transition kind s s"
  by (cases kind; cases s) (simp_all add: is_transition_def)

lemma move_outcome:
  assumes "checkpoint_rules c = None" "follows prev c" "is_transition kind (cp_state prev) (cp_state c)"
    and "cp_outcome c = Some Out_manual \<longrightarrow> cp_state prev = Recovery_required"
  shows "cp_outcome c \<in> move_outcomes (cp_state prev) (cp_state c)"
proof -
  note out = outcome_of_state [OF assms(1)]
  have "cp_outcome c \<noteq> Some Out_manual"
  proof
    assume m: "cp_outcome c = Some Out_manual"
    with assms(4) out(4) have "cp_state prev = cp_state c" by simp
    with assms(3) show False by simp
  qed
  with out assms(2) show ?thesis
    by (cases "cp_state c"; cases "cp_outcome c" rule: option.exhaust)
       (auto simp: follows_def pre_mutation_def intro: lc_outcome.exhaust)
qed

lemma record_rules_None:
  "record_rules kind action n prev c = None \<longleftrightarrow>
     checkpoint_rules c = None \<and> cp_outcome prev = None \<and> follows prev c \<and>
     (cp_outcome c = Some Out_manual \<longrightarrow> cp_state prev = Recovery_required) \<and>
     (starts_attempt (cp_state prev) c \<longrightarrow> n < max_recovery_attempts) \<and>
     (if cp_state prev = cp_state c
      then (cp_step c = None \<longrightarrow> cp_outcome c \<in> {Some Out_refused, Some Out_manual}) \<and>
           (cp_step c \<noteq> None \<longrightarrow> cp_step prev = None)
      else is_transition kind (cp_state prev) (cp_state c) \<and>
           (cp_state prev = Verified \<and> cp_state c = Applying \<longrightarrow> action = Install))"
proof (cases "checkpoint_rules c")
  case None
  then have step: "cp_step c \<noteq> None \<Longrightarrow> cp_state c \<in> set progress_states" by (rule outcome_of_state)
  show ?thesis unfolding record_rules_def Let_def None option.case first_of_None follows_def
    using step by auto
qed (simp add: record_rules_def Let_def)

lemma record_rules_step:
  assumes m: "models s prev" and r: "record_rules kind action (os_attempts s) prev c = None"
  shows "lc_step kind action s (next_os s c)"
proof (cases "cp_state prev = cp_state c")
  case True
  note out = outcome_of_state [of c]
  from True have att: "os_attempts (next_os s c) = os_attempts s" using m by (simp add: next_os_def models_def starts_attempt_def)
  show ?thesis
  proof (cases "cp_step c")
    case None
    with r True consider "cp_outcome c = Some Out_refused" | "cp_outcome c = Some Out_manual"
      by (auto simp: record_rules_None)
    then show ?thesis
    proof cases
      case 1
      with r out m True have "os_state s \<in> set pre_mutation" "os_outcome s = None" by (simp_all add: record_rules_None models_def)
      moreover have "next_os s c = s\<lparr>os_stepped := False, os_outcome := Some Out_refused\<rparr>"
        using att m True None 1 by (simp add: next_os_def models_def)
      ultimately show ?thesis by (simp add: refuse)
    next
      case 2
      with r out m True have "os_state s = Recovery_required" "os_outcome s = None" by (simp_all add: record_rules_None models_def)
      moreover have "next_os s c = s\<lparr>os_stepped := False, os_outcome := Some Out_manual\<rparr>"
        using att m True None 2 by (simp add: next_os_def models_def)
      ultimately show ?thesis by (simp add: give_up)
    qed
  next
    case (Some st)
    with r True have rules: "checkpoint_rules c = None" "cp_step prev = None" "cp_outcome prev = None" by (simp_all add: record_rules_None)
    have prog: "cp_state c \<in> set progress_states" using out(6) rules(1) Some by simp
    have "cp_outcome c = None" using out(1-5) [OF rules(1)] prog
      by (cases "cp_outcome c" rule: option.exhaust; cases "the (cp_outcome c)") (auto simp: progress_states_def pre_mutation_def)
    then have "next_os s c = s\<lparr>os_stepped := True\<rparr>" using att m True Some rules by (simp add: next_os_def models_def)
    moreover have "lc_step kind action s (s\<lparr>os_stepped := True\<rparr>)"
      by (rule advance) (use m rules prog True in \<open>simp_all add: models_def\<close>)
    ultimately show ?thesis by simp
  qed
next
  case False
  with r have rules: "checkpoint_rules c = None" "follows prev c" "is_transition kind (cp_state prev) (cp_state c)"
    "cp_outcome c = Some Out_manual \<longrightarrow> cp_state prev = Recovery_required" by (simp_all add: record_rules_None)
  show ?thesis unfolding next_os_def
    by (rule move) (use m r False rules move_outcome [OF rules] outcome_of_state(6) [OF rules(1)] in
      \<open>auto simp: record_rules_None models_def starts_attempt_def\<close>)
qed

lemma step_record_rules:
  assumes m: "models s prev" and c: "checkpoint_rules c = None" "follows prev c" and st: "lc_step kind action s (next_os s c)"
  shows "record_rules kind action (os_attempts s) prev c = None"
proof -
  have nx: "cp_state c = os_state t" "(cp_step c \<noteq> None) = os_stepped t" "cp_outcome c = os_outcome t" if "next_os s c = t" for t
    using that by (auto simp: next_os_def)
  show ?thesis
    using st
  proof (cases rule: lc_step.cases)
    case (move t n b out)
    have "out \<noteq> Some Out_manual"
      using move by (cases t) (auto simp: pre_mutation_def split: if_splits)
    with move m c nx [OF move(1)] show ?thesis by (auto simp: record_rules_None models_def starts_attempt_def)
  next
    case advance
    with m c nx [OF advance(1)] show ?thesis by (auto simp: record_rules_None models_def starts_attempt_def)
  next
    case refuse
    with m c nx [OF refuse(1)] show ?thesis by (auto simp: record_rules_None models_def starts_attempt_def pre_mutation_def)
  next
    case give_up
    with m c nx [OF give_up(1)] show ?thesis by (auto simp: record_rules_None models_def starts_attempt_def)
  qed
qed

lemma record_rules_iff:
  "models s prev \<Longrightarrow> record_rules kind action (os_attempts s) prev c = None \<longleftrightarrow>
     checkpoint_rules c = None \<and> follows prev c \<and> lc_step kind action s (next_os s c)"
  by (rule iffI, intro conjI, simp only: record_rules_None, simp only: record_rules_None)
     (blast intro: record_rules_step step_record_rules)+

text \<open>The walk over the records of a journal, from either end.\<close>

lemma walk_rules_None:
  "walk_rules kind action i n prev (cs @ [c]) = None \<longleftrightarrow>
     walk_rules kind action i n prev cs = None \<and>
     record_rules kind action (os_attempts (fold (\<lambda>c s. next_os s c) cs s)) (last (prev # cs)) c = None"
  if "models s prev" "os_attempts s = n"
  using that
proof (induction cs arbitrary: i n prev s)
  case (Cons d cs)
  have att: "(if starts_attempt (cp_state prev) d then n + 1 else n) = os_attempts (next_os s d)"
    using Cons.prems by (simp add: next_os_def models_def)
  have "walk_rules kind action i n prev (d # xs) = None \<longleftrightarrow>
      record_rules kind action n prev d = None \<and> walk_rules kind action (i + 1) (os_attempts (next_os s d)) d xs = None" for xs
    unfolding walk_rules.simps(2) att by (simp split: option.split)
  then show ?case using Cons.IH [OF models_next refl, of "i + 1" s d] by simp
qed (simp split: option.split)


text \<open>The records of a journal as the rules see them, and as a run of the machine.\<close>

definition records_ok :: "lc_kind \<Rightarrow> lc_action \<Rightarrow> checkpoint list \<Rightarrow> bool" where
  "records_ok kind action cs \<longleftrightarrow> cs \<noteq> [] \<and> cp_state (hd cs) = initial_state kind \<and> checkpoint_rules (hd cs) = None \<and>
     walk_rules kind action 1 0 (hd cs) (tl cs) = None"

definition header_ok :: "journal \<Rightarrow> bool" where
  "header_ok j \<longleftrightarrow> (jn_kind j = Transaction \<longleftrightarrow> jn_plan_digest j \<noteq> None) \<and>
     int (length (jn_checkpoints j)) \<le> jn_generation j \<and> target_resolved j \<and>
     (Recovery_saved \<in> cp_state ` set (jn_checkpoints j) \<longrightarrow> jn_recovery j \<noteq> None)"

inductive lc_run :: "lc_kind \<Rightarrow> lc_action \<Rightarrow> checkpoint list \<Rightarrow> op_state \<Rightarrow> bool" for kind action where
  first: "cp_state c = initial_state kind \<Longrightarrow> checkpoint_rules c = None \<Longrightarrow> lc_run kind action [c] (first_os c)"
| later: "\<lbrakk>lc_run kind action cs s; checkpoint_rules c = None; follows (last cs) c; lc_step kind action s (next_os s c)\<rbrakk>
    \<Longrightarrow> lc_run kind action (cs @ [c]) (next_os s c)"

lemma journal_rules_None: "journal_rules j = None \<longleftrightarrow> header_ok j \<and> records_ok (jn_kind j) (jn_action j) (jn_checkpoints j)"
proof -
  have ex: "list_ex (\<lambda>r. cp_state r = Recovery_saved) cs \<longleftrightarrow> Recovery_saved \<in> cp_state ` set cs" for cs
    by (induction cs) auto
  show ?thesis
    by (cases "jn_kind j")
       (auto simp: journal_rules_def Let_def header_ok_def records_ok_def ex
         simp del: initial_state.simps split: option.splits if_splits)
qed

lemma abs_records_snoc: "cs \<noteq> [] \<Longrightarrow> abs_records (cs @ [c]) = next_os (abs_records cs) c"
  by (simp add: abs_records_def)

lemma abs_records_single [simp]: "abs_records [c] = first_os c"
  by (simp add: abs_records_def)

lemma models_abs: "cs \<noteq> [] \<Longrightarrow> models (abs_records cs) (last cs)"
  by (induction cs rule: rev_nonempty_induct) (simp_all add: abs_records_snoc)

lemma records_ok_snoc:
  assumes "cs \<noteq> []"
  shows "records_ok kind action (cs @ [c]) \<longleftrightarrow> records_ok kind action cs \<and>
    record_rules kind action (os_attempts (abs_records cs)) (last cs) c = None"
proof -
  have "first_os (hd cs) = first_os (hd cs)" "os_attempts (first_os (hd cs)) = 0" by (simp_all add: first_os_def)
  note w = walk_rules_None [OF models_first this(2), of kind action 1 "tl cs" c]
  have "hd cs # tl cs = cs" using assms by simp
  then show ?thesis using assms w by (auto simp: records_ok_def abs_records_def)
qed

lemma records_ok_iff_run: "records_ok kind action cs \<longleftrightarrow> lc_run kind action cs (abs_records cs)"
proof
  show "records_ok kind action cs \<Longrightarrow> lc_run kind action cs (abs_records cs)"
  proof (induction cs rule: rev_induct)
    case (snoc c cs)
    show ?case
    proof (cases "cs = []")
      case True
      with snoc.prems show ?thesis by (simp add: records_ok_def first)
    next
      case False
      with snoc.prems have ok: "records_ok kind action cs"
        and r: "record_rules kind action (os_attempts (abs_records cs)) (last cs) c = None"
        by (simp_all add: records_ok_snoc)
      from r models_abs [OF False] show ?thesis
        by (simp add: abs_records_snoc False record_rules_iff later snoc.IH ok)
    qed
  qed (simp add: records_ok_def)
next
  have "records_ok kind action cs \<and> cs \<noteq> [] \<and> s = abs_records cs" if "lc_run kind action cs s" for s
    using that
  proof induction
    case (later cs s c)
    then show ?case using models_abs [of cs]
      by (simp add: records_ok_snoc abs_records_snoc record_rules_iff)
  qed (simp add: records_ok_def)
  then show "lc_run kind action cs (abs_records cs) \<Longrightarrow> records_ok kind action cs" by blast
qed

lemma lc_run_abs: "lc_run kind action cs s \<Longrightarrow> s = abs_records cs \<and> records_ok kind action cs"
proof -
  assume run: "lc_run kind action cs s"
  then have "cs \<noteq> [] \<and> s = abs_records cs" by induction (simp_all add: abs_records_snoc)
  with run records_ok_iff_run show ?thesis by metis
qed

subsection \<open>The machine of the contract\<close>

text \<open>
  Section 4 of \<open>specs/install/lifecycle-contract.md\<close>. J6 asks more of the two records that close an operation by hand than
  the validator does: \<open>refused\<close> repeats the last state before mutation, so no other record before mutation carries an
  outcome, and \<open>manual\<close> repeats the \<open>recovery_required\<close> record with its cause and its error.
\<close>

fun contract_outcome :: "lc_state \<Rightarrow> lc_state \<Rightarrow> lc_outcome option" where
  "contract_outcome source Committed = Some Out_committed"
| "contract_outcome source Recovered = Some Out_recovered"
| "contract_outcome source Interrupted = (if source \<in> set pre_mutation then Some Out_interrupted else None)"
| "contract_outcome source target = None"

inductive contract_step :: "lc_kind \<Rightarrow> lc_action \<Rightarrow> op_state \<Rightarrow> op_state \<Rightarrow> bool" for kind action where
  contract_move: "\<lbrakk>os_outcome s = None; is_transition kind (os_state s) t;
          os_state s = Verified \<and> t = Applying \<longrightarrow> action = Install;
          t = Recovering \<longrightarrow> os_attempts s < max_recovery_attempts;
          n = (if t = Recovering then os_attempts s + 1 else os_attempts s); b \<longrightarrow> t \<in> set progress_states\<rbrakk>
    \<Longrightarrow> contract_step kind action s \<lparr>os_state = t, os_stepped = b, os_attempts = n, os_outcome = contract_outcome (os_state s) t\<rparr>"
| contract_advance: "\<lbrakk>os_outcome s = None; os_state s \<in> set progress_states; \<not> os_stepped s\<rbrakk>
    \<Longrightarrow> contract_step kind action s (s\<lparr>os_stepped := True\<rparr>)"
| contract_refuse: "\<lbrakk>os_outcome s = None; os_state s \<in> set pre_mutation\<rbrakk>
    \<Longrightarrow> contract_step kind action s (s\<lparr>os_stepped := False, os_outcome := Some Out_refused\<rparr>)"
| contract_give_up: "\<lbrakk>os_outcome s = None; os_state s = Recovery_required\<rbrakk>
    \<Longrightarrow> contract_step kind action s (s\<lparr>os_stepped := False, os_outcome := Some Out_manual\<rparr>)"

definition repeats :: "checkpoint \<Rightarrow> checkpoint \<Rightarrow> bool" where
  "repeats prev c \<longleftrightarrow> cp_cause c = cp_cause prev \<and> cp_error c = cp_error prev"

inductive contract_run :: "lc_kind \<Rightarrow> lc_action \<Rightarrow> checkpoint list \<Rightarrow> op_state \<Rightarrow> bool" for kind action where
  contract_first: "\<lbrakk>cp_state c = initial_state kind; checkpoint_rules c = None; cp_outcome c = None\<rbrakk> \<Longrightarrow> contract_run kind action [c] (first_os c)"
| contract_later: "\<lbrakk>contract_run kind action cs s; checkpoint_rules c = None; follows (last cs) c; contract_step kind action s (next_os s c);
     cp_outcome c = Some Out_manual \<longrightarrow> repeats (last cs) c\<rbrakk> \<Longrightarrow> contract_run kind action (cs @ [c]) (next_os s c)"

text \<open>The closing records the validator accepts beside those of the contract.\<close>

definition lenient_closing :: "lc_kind \<Rightarrow> checkpoint list \<Rightarrow> checkpoint \<Rightarrow> bool" where
  "lenient_closing kind cs c \<longleftrightarrow> checkpoint_rules c = None \<and>
     (if cs = [] then cp_state c = initial_state kind \<and> cp_outcome c = Some Out_refused
      else cp_outcome (last cs) = None \<and> follows (last cs) c \<and>
        (cp_outcome c = Some Out_refused \<and> is_transition kind (cp_state (last cs)) (cp_state c) \<or>
         cp_outcome c = Some Out_manual \<and> cp_state (last cs) = Recovery_required \<and> \<not> repeats (last cs) c))"

lemma contract_outcome_manual [simp]: "contract_outcome a b \<noteq> Some Out_manual"
  by (cases b) simp_all

lemma contract_outcome_move: "contract_outcome a b \<in> move_outcomes a b"
  by (cases b) (auto simp: pre_mutation_def)

lemma contract_step_lc: "contract_step kind action s t \<Longrightarrow> lc_step kind action s t"
  by (erule contract_step.cases) (auto intro: lc_step.intros contract_outcome_move)

lemma contract_step_manual: "contract_step kind action s t \<Longrightarrow> os_outcome t = Some Out_manual \<Longrightarrow> os_state s = Recovery_required"
  by (erule contract_step.cases) auto

lemma contract_run_lc: "contract_run kind action cs s \<Longrightarrow> lc_run kind action cs s"
  by (induction rule: contract_run.induct) (auto intro: lc_run.intros contract_step_lc)

lemma lc_run_models: "lc_run kind action cs s \<Longrightarrow> cs \<noteq> [] \<and> models s (last cs)"
  by (induction rule: lc_run.induct) auto

text \<open>A step is one of the contract, or it moves and refuses at once.\<close>

lemma lc_step_contract:
  assumes "lc_step kind action s t"
  shows "os_outcome s = None \<and> (contract_step kind action s t \<or> (os_outcome t = Some Out_refused \<and> is_transition kind (os_state s) (os_state t)))"
  using assms
proof (cases rule: lc_step.cases)
  case (move t' n b out)
  have "out = contract_outcome (os_state s) t' \<or> out = Some Out_refused" using move(8) by (cases t') (auto split: if_splits)
  with move show ?thesis using contract_move [of s kind t' action n b] by auto
qed (auto intro: contract_step.intros)

lemma lenient_run:
  assumes "cs = [] \<or> contract_run kind action cs s" "lenient_closing kind cs c"
  shows "records_ok kind action (cs @ [c])"
proof (cases "cs = []")
  case True
  with assms(2) show ?thesis by (simp add: lenient_closing_def records_ok_def)
next
  case False
  then have run: "lc_run kind action cs s" using assms(1) contract_run_lc by blast
  note m = lc_run_models [OF run]
  have ok: "records_ok kind action cs" "s = abs_records cs" using lc_run_abs [OF run] by simp_all
  note l = assms(2) [unfolded lenient_closing_def if_not_P [OF False]]
  have "record_rules kind action (os_attempts s) (last cs) c = None"
  proof (cases "cp_outcome c = Some Out_refused")
    case True
    then have "cp_state c \<in> set pre_mutation" using outcome_of_state(3) l by blast
    then show ?thesis using l True by (auto simp: record_rules_None starts_attempt_def pre_mutation_def)
  next
    case other: False
    then have "cp_outcome c = Some Out_manual" "cp_state (last cs) = Recovery_required" using l by blast+
    moreover from this have st: "cp_state c = Recovery_required" using outcome_of_state(4) l by blast
    moreover have "cp_step c = None" using outcome_of_state(6) [of c] l st by (cases "cp_step c") (auto simp: progress_states_def)
    ultimately show ?thesis using l by (simp add: record_rules_None starts_attempt_def)
  qed
  then show ?thesis using ok False by (simp add: records_ok_snoc)
qed

lemma run_contract:
  assumes "lc_run kind action cs s"
  shows "contract_run kind action cs s \<or>
    (\<exists>ds c. cs = ds @ [c] \<and> (ds = [] \<or> contract_run kind action ds (abs_records ds)) \<and> lenient_closing kind ds c)"
  using assms
proof (induction rule: lc_run.induct)
  case (first c)
  show ?case
  proof (cases "cp_outcome c")
    case None
    with first show ?thesis by (simp add: contract_first)
  next
    case (Some out)
    have "cp_state c = Planned \<or> cp_state c = Applying" using first(1) by (cases kind) simp_all
    then have "out = Out_refused" using Some outcome_of_state [OF first(2)] by (cases out) (auto simp: pre_mutation_def)
    with Some first have "lenient_closing kind [] c" by (simp add: lenient_closing_def)
    then show ?thesis by blast
  qed
next
  case (later cs s c)
  note m = lc_run_models [OF later.hyps(1)]
  have step: "os_outcome s = None" "contract_step kind action s (next_os s c) \<or> (cp_outcome c = Some Out_refused \<and> is_transition kind (os_state s) (cp_state c))"
    using lc_step_contract [OF later.hyps(4)] by (auto simp: next_os_def)
  then have open_cs: "cp_outcome (last cs) = None" "cp_state (last cs) = os_state s" using m by (auto simp: models_def)
  have closes: "cp_outcome d \<noteq> None" if "lenient_closing kind ds d" for ds d using that by (auto simp: lenient_closing_def split: if_splits)
  have run: "contract_run kind action cs s" using later.IH open_cs(1) closes by force
  moreover have "s = abs_records cs" using lc_run_abs [OF later.hyps(1)] by simp
  ultimately have abs: "contract_run kind action cs (abs_records cs)" by simp
  show ?case
  proof (cases "cp_outcome c = Some Out_manual \<longrightarrow> repeats (last cs) c")
    case True
    show ?thesis
    proof (cases "contract_step kind action s (next_os s c)")
      case True
      with contract_later [OF run later.hyps(2,3)] \<open>cp_outcome c = Some Out_manual \<longrightarrow> repeats (last cs) c\<close> show ?thesis by blast
    next
      case False
      then have "lenient_closing kind cs c" using step later.hyps(2,3) m open_cs by (simp add: lenient_closing_def)
      then show ?thesis using abs by blast
    qed
  next
    case False
    then have "contract_step kind action s (next_os s c)" using step(2) by auto
    moreover have "os_outcome (next_os s c) = Some Out_manual" using False by (simp add: next_os_def)
    ultimately have "os_state s = Recovery_required" by (rule contract_step_manual)
    then have "lenient_closing kind cs c" using False later.hyps(2,3) m open_cs by (simp add: lenient_closing_def)
    then show ?thesis using abs by blast
  qed
qed

text \<open>
  C4. \<^bold>\<open>The journal rules implement the contract's state machine but for two lenient closings.\<close> The validator accepts a
  journal exactly when its header is consistent and its records are a run of the contract's machine, each record well formed,
  later than the one before it and, when it marks an interruption, naming the state it interrupts; or such a run, possibly
  empty, with one more record at its end: a refusal on a first record or on a record that moves to another state before
  mutation, or a \<open>manual\<close> record with another cause or error than the record it closes. J6 forbids both.
\<close>

theorem journal_rules_refine:
  "journal_rules j = None \<longleftrightarrow> header_ok j \<and>
     (contract_run (jn_kind j) (jn_action j) (jn_checkpoints j) (abs_journal j) \<or>
      (\<exists>cs c. jn_checkpoints j = cs @ [c] \<and> (cs = [] \<or> contract_run (jn_kind j) (jn_action j) cs (abs_records cs)) \<and> lenient_closing (jn_kind j) cs c))"
proof -
  let ?kind = "jn_kind j" and ?action = "jn_action j"
  have "records_ok ?kind ?action cs \<longleftrightarrow> contract_run ?kind ?action cs (abs_records cs) \<or>
      (\<exists>ds c. cs = ds @ [c] \<and> (ds = [] \<or> contract_run ?kind ?action ds (abs_records ds)) \<and> lenient_closing ?kind ds c)" for cs
    using run_contract [of ?kind ?action cs "abs_records cs"] contract_run_lc [of ?kind ?action cs "abs_records cs"]
      lenient_run [of _ ?kind ?action] by (auto simp: records_ok_iff_run)
  then show ?thesis by (simp add: journal_rules_None abs_journal_def)
qed

subsection \<open>Journals are short\<close>

text \<open>
  How many records may still follow. A closed operation has none; each recovery attempt that is
  left is worth four records (entering, one step, the interruption and the hand-over).
\<close>

fun state_rank :: "lc_state \<Rightarrow> nat" where
  "state_rank Planned = 10"
| "state_rank Staged = 9"
| "state_rank Verified = 8"
| "state_rank Recovery_saved = 7"
| "state_rank Applying = 6"
| "state_rank Checking = 4"
| "state_rank Recovering = 4"
| "state_rank Interrupted = 2"
| "state_rank Recovery_required = 1"
| "state_rank _ = 0"

definition stepped_off :: "op_state \<Rightarrow> nat" where
  "stepped_off s = (if os_stepped s \<and> os_state s \<in> set progress_states then 1 else 0)"

definition rank :: "op_state \<Rightarrow> nat" where
  "rank s = (if os_outcome s \<noteq> None then 0
     else 4 * (max_recovery_attempts - os_attempts s) + state_rank (os_state s) - stepped_off s)"

lemma transition_rank:
  assumes "is_transition kind a b" "b \<notin> {Committed, Recovered}"
  shows "(if b = Recovering then 0 else state_rank b) + (if a \<in> set progress_states then 1 else 0) < state_rank a"
  using assms by (cases kind; cases a) (auto simp: is_transition_def progress_states_def)

lemma rank_open: "os_outcome s = None \<Longrightarrow> os_state s \<notin> {Committed, Recovered} \<Longrightarrow> 0 < rank s"
  by (cases "os_state s") (auto simp: rank_def stepped_off_def progress_states_def)

lemma lc_step_rank:
  assumes "lc_step kind action s t"
  shows "rank t < rank s"
  using assms
proof (cases rule: lc_step.cases)
  case (move t n b out)
  have live: "os_state s \<notin> {Committed, Recovered}" using move(3) by (cases kind) (auto simp: is_transition_def)
  show ?thesis
  proof (cases "out = None")
    case False
    then show ?thesis using rank_open [OF move(2) live] by (simp add: move(1) rank_def)
  next
    case True
    then have "t \<notin> {Committed, Recovered}" using move(8) by auto
    from transition_rank [OF move(3) this] move(2,5,6) True show ?thesis
      unfolding move(1) by (auto simp: rank_def stepped_off_def split: if_splits)
  qed
next
  case advance
  then show ?thesis by (auto simp: rank_def stepped_off_def progress_states_def)
qed (auto simp: rank_def stepped_off_def pre_mutation_def progress_states_def)

lemma lc_run_length: "lc_run kind action cs s \<Longrightarrow> length cs + rank s \<le> 23"
proof (induction rule: lc_run.induct)
  case (first c)
  then show ?case by (cases kind) (auto simp: rank_def first_os_def max_recovery_attempts_def stepped_off_def)
next
  case (later cs s c)
  from lc_step_rank [OF later.hyps(4)] later.IH show ?case by simp
qed

text \<open>
  C38. \<^bold>\<open>No journal outgrows its schema.\<close> Every legal journal has at most 23 records, whatever the order of
  failures, interruptions and recovery attempts; the schema admits 32.
\<close>

theorem journal_length:
  assumes "journal_rules j = None"
  shows "length (jn_checkpoints j) \<le> 23"
  using assms lc_run_length [of "jn_kind j" "jn_action j" "jn_checkpoints j"]
  by (fastforce simp: journal_rules_None records_ok_iff_run)

text \<open>A journal with 23 records: three recovery attempts, each stepped, killed and handed over, then closed by hand.\<close>

definition plain_record :: "int \<Rightarrow> lc_state \<Rightarrow> utext option \<Rightarrow> checkpoint" where
  "plain_record n st step = \<lparr>cp_sequence = n, cp_state = st, cp_at = (lit ''2026-10-02T10:00:00Z''), cp_step = step, cp_cause = None,
     cp_checkpoint = None, cp_outcome = None, cp_error = None\<rparr>"

definition abandoned_record :: "int \<Rightarrow> lc_state \<Rightarrow> checkpoint" where
  "abandoned_record n st = (plain_record n Interrupted None)\<lparr>cp_cause := Some Abandoned, cp_checkpoint := Some st\<rparr>"

definition required_record :: "int \<Rightarrow> lc_outcome option \<Rightarrow> checkpoint" where
  "required_record n out = (plain_record n Recovery_required None)\<lparr>cp_cause := Some Recovery_failed,
     cp_error := Some (MANUAL, lit ''no space''), cp_outcome := out\<rparr>"

definition attempt_records :: "int \<Rightarrow> checkpoint list" where
  "attempt_records n = [plain_record n Recovering None, plain_record (n + 1) Recovering (Some (lit ''restore'')),
     abandoned_record (n + 2) Recovering, required_record (n + 3) None]"

definition sample_digest :: utext where
  "sample_digest = lit ''sha256:'' @ replicate 64 97"

definition longest_journal :: journal where
  "longest_journal = \<lparr>jn_operation_id = (lit ''op-20261002-001''), jn_kind = Transaction, jn_action = Update, jn_adapter = Native,
     jn_generation = 23, jn_plan_digest = Some sample_digest, jn_identity_digest = None, jn_source = Some ((lit ''0.4.6''), None),
     jn_target = Some ((lit ''0.4.7''), None), jn_recovery = Some ((lit ''op-20261002-001''), sample_digest), jn_evidence = [],
     jn_started_at = (lit ''2026-10-02T10:00:00Z''), jn_updated_at = (lit ''2026-10-02T10:00:00Z''),
     jn_checkpoints =
       [plain_record 1 Planned None, plain_record 2 Staged None, plain_record 3 Verified None, plain_record 4 Recovery_saved None,
        plain_record 5 Applying None, plain_record 6 Applying (Some (lit ''swap'')), plain_record 7 Checking None,
        plain_record 8 Checking (Some (lit ''health'')), abandoned_record 9 Checking, required_record 10 None]
       @ attempt_records 11 @ attempt_records 15 @ attempt_records 19 @ [required_record 23 (Some Out_manual)]\<rparr>"

lemma longest_journal_legal: "journal_rules longest_journal = None"
  by code_simp

theorem journal_length_witness:
  "journal_rules longest_journal = None \<and> length (jn_checkpoints longest_journal) \<le> 23 \<and> length (jn_checkpoints longest_journal) = 23"
proof (intro conjI)
  show "journal_rules longest_journal = None" by (rule longest_journal_legal)
  then show "length (jn_checkpoints longest_journal) \<le> 23" by (rule journal_length)
  show "length (jn_checkpoints longest_journal) = 23" by code_simp
qed

subsection \<open>Closing a journal\<close>

text \<open>The journal with more records, as a checkpoint or a reconciliation appends them.\<close>

definition extend_journal :: "journal \<Rightarrow> checkpoint list \<Rightarrow> journal" where
  "extend_journal j cs = j\<lparr>jn_checkpoints := jn_checkpoints j @ cs, jn_generation := jn_generation j + int (length cs)\<rparr>"

lemma target_resolved_update [simp]:
  "target_resolved (j\<lparr>jn_checkpoints := cs\<rparr>) = target_resolved j" "target_resolved (j\<lparr>jn_generation := g\<rparr>) = target_resolved j"
  "target_resolved (j\<lparr>jn_updated_at := u\<rparr>) = target_resolved j" "target_resolved (j\<lparr>jn_recovery := r\<rparr>) = target_resolved j"
  "target_resolved (j\<lparr>jn_evidence := e\<rparr>) = target_resolved j"
  by (simp_all add: target_resolved_def cong: option.case_cong)

lemma extend_legal:
  assumes "journal_rules j = None"
    and "record_rules (jn_kind j) (jn_action j) (os_attempts (abs_journal j)) (last_record j) c = None"
    and "cp_state c = Recovery_saved \<longrightarrow> cp_state (last_record j) = Recovery_saved"
  shows "journal_rules (extend_journal j [c]) = None"
proof -
  have "jn_checkpoints j \<noteq> []" using assms(1) by (simp add: journal_rules_None records_ok_def)
  moreover from this have "cp_state (last_record j) \<in> cp_state ` set (jn_checkpoints j)"
    unfolding last_record_def by (intro imageI last_in_set)
  then have "cp_state c = Recovery_saved \<Longrightarrow> jn_recovery j \<noteq> None"
    using assms(1,3) by (simp add: journal_rules_None header_ok_def)
  ultimately show ?thesis using assms
    by (auto simp: journal_rules_None extend_journal_def records_ok_snoc last_record_def abs_journal_def header_ok_def)
qed

lemma extend_fields [simp]:
  "jn_kind (extend_journal j cs) = jn_kind j" "jn_action (extend_journal j cs) = jn_action j"
  "last_record (extend_journal j [c]) = c" "finished (extend_journal j [c]) \<longleftrightarrow> cp_outcome c \<noteq> None"
  by (simp_all add: extend_journal_def last_record_def finished_def)

lemma extend_twice: "extend_journal (extend_journal j [c]) [d] = extend_journal j [c, d]"
  by (simp add: extend_journal_def)

text \<open>Every accepted record obeys the rules of one record; so does the last.\<close>

lemma records_wellformed:
  assumes "records_ok kind action cs" "c \<in> set cs"
  shows "checkpoint_rules c = None"
proof -
  have "lc_run kind action cs (abs_records cs)" using assms(1) by (simp add: records_ok_iff_run)
  then show ?thesis using assms(2) by induction auto
qed

lemma last_wellformed: "journal_rules j = None \<Longrightarrow> checkpoint_rules (last_record j) = None"
  by (rule records_wellformed [of "jn_kind j" "jn_action j" "jn_checkpoints j"])
     (auto simp: journal_rules_None records_ok_def last_record_def)

definition refusal_record :: "checkpoint \<Rightarrow> checkpoint" where
  "refusal_record prev = (plain_record (cp_sequence prev + 1) (cp_state prev) None)
     \<lparr>cp_outcome := Some Out_refused, cp_error := Some (PREFLIGHT, lit ''refused'')\<rparr>"

lemma refusal_legal:
  assumes "cp_outcome prev = None" "cp_state prev \<in> set pre_mutation"
  shows "record_rules kind action n prev (refusal_record prev) = None"
  using assms by (auto simp: record_rules_None follows_def starts_attempt_def refusal_record_def plain_record_def
    checkpoint_rules_def pre_mutation_def needs_error_def)

lemma required_wellformed: "out \<in> {None, Some Out_manual} \<Longrightarrow> checkpoint_rules (required_record n out) = None"
  by (auto simp: checkpoint_rules_def required_record_def plain_record_def pre_mutation_def needs_error_def)

lemma required_fields [simp]:
  "cp_state (required_record n out) = Recovery_required" "cp_outcome (required_record n out) = out"
  "cp_sequence (required_record n out) = n" "cp_step (required_record n out) = None"
  by (simp_all add: required_record_def plain_record_def)

lemma manual_legal:
  assumes "cp_outcome prev = None" "cp_state prev = Recovery_required"
  shows "record_rules kind action n prev (required_record (cp_sequence prev + 1) (Some Out_manual)) = None"
  using assms by (simp add: record_rules_None required_wellformed follows_def starts_attempt_def)

lemma hand_over_legal:
  assumes "cp_outcome prev = None" "is_transition kind (cp_state prev) Recovery_required"
  shows "record_rules kind action n prev (required_record (cp_sequence prev + 1) None) = None"
proof -
  have "cp_state prev \<noteq> Recovery_required" using assms(2) by (cases kind) (auto simp: is_transition_def)
  then show ?thesis using assms by (simp add: record_rules_None required_wellformed follows_def starts_attempt_def)
qed

lemma close_by_hand:
  assumes "journal_rules j = None" "\<not> finished j" "cp_state (last_record j) = Recovery_required"
  shows "\<exists>c. journal_rules (extend_journal j [c]) = None \<and> finished (extend_journal j [c])"
  using assms by (intro exI [of _ "required_record (cp_sequence (last_record j) + 1) (Some Out_manual)"])
    (simp add: extend_legal manual_legal finished_def)

lemma close_open:
  assumes j: "journal_rules j = None" "\<not> finished j" and ok: "\<not> (jn_kind j = Legacy \<and> cp_state (last_record j) = Interrupted)"
  shows "\<exists>cs. length cs \<le> 2 \<and> journal_rules (extend_journal j cs) = None \<and> finished (extend_journal j cs)"
proof -
  let ?l = "last_record j"
  have open_j: "cp_outcome ?l = None" using j(2) by (simp add: finished_def)
  consider "cp_state ?l \<in> set pre_mutation" | "cp_state ?l = Recovery_required" | "is_transition (jn_kind j) (cp_state ?l) Recovery_required"
    using outcome_of_state(1,2) [OF last_wellformed [OF j(1)]] open_j ok
    by (cases "cp_state ?l"; cases "jn_kind j") (auto simp: pre_mutation_def is_transition_def)
  then show ?thesis
  proof cases
    case 1
    have "journal_rules (extend_journal j [refusal_record ?l]) = None"
      using j(1) refusal_legal [OF open_j 1] by (rule extend_legal) (simp add: refusal_record_def plain_record_def)
    then show ?thesis by (intro exI [of _ "[refusal_record ?l]"]) (simp add: refusal_record_def)
  next
    case 2
    from close_by_hand [OF j 2] obtain c where "journal_rules (extend_journal j [c]) = None" "finished (extend_journal j [c])" by blast
    then show ?thesis by (intro exI [of _ "[c]"]) simp
  next
    case 3
    let ?c = "required_record (cp_sequence ?l + 1) None"
    have "journal_rules (extend_journal j [?c]) = None"
      using j(1) hand_over_legal [OF open_j 3] by (rule extend_legal) simp
    from close_by_hand [OF this] obtain d where
      "journal_rules (extend_journal j [?c, d]) = None" "finished (extend_journal j [?c, d])"
      by (auto simp: extend_twice)
    then show ?thesis by (intro exI [of _ "[?c, d]"]) simp
  qed
qed

lemma records_ok_prefix: "records_ok kind action (cs @ ds) \<Longrightarrow> cs \<noteq> [] \<Longrightarrow> records_ok kind action cs"
  by (induction ds rule: rev_induct) (auto simp: records_ok_snoc simp flip: append_assoc)

lemma legacy_interrupted_stuck:
  assumes "records_ok Legacy action cs" "cp_state (last cs) = Interrupted" "ds \<noteq> []"
  shows "\<not> records_ok Legacy action (cs @ ds)"
proof
  have ne: "cs \<noteq> []" using assms(1) by (simp add: records_ok_def)
  assume "records_ok Legacy action (cs @ ds)"
  then have "records_ok Legacy action (cs @ [hd ds])"
    using records_ok_prefix [of Legacy action "cs @ [hd ds]" "tl ds"] assms(3) by simp
  then have r: "record_rules Legacy action (os_attempts (abs_records cs)) (last cs) (hd ds) = None"
    using ne by (simp add: records_ok_snoc)
  then have "checkpoint_rules (hd ds) = None" by (simp add: record_rules_None)
  note outcome_of_state(3,4,6) [OF this]
  with r assms(2) show False
    by (auto simp: record_rules_None is_transition_def pre_mutation_def progress_states_def split: if_splits)
qed

text \<open>
  C37. \<^bold>\<open>Every transaction can be finished.\<close> A legal journal that is not finished can be closed by at most two
  further records, from every state it can be in and however many recovery attempts it has used up:
  the only exception is a legacy journal that ends in an \<open>interrupted\<close> record, after which no record
  at all is legal.
\<close>

theorem journal_closable:
  assumes "journal_rules j = None" "\<not> finished j"
  shows "if jn_kind j = Legacy \<and> cp_state (last_record j) = Interrupted
    then \<forall>cs. cs \<noteq> [] \<longrightarrow> journal_rules (extend_journal j cs) \<noteq> None
    else \<exists>cs. length cs \<le> 2 \<and> journal_rules (extend_journal j cs) = None \<and> finished (extend_journal j cs)"
proof (cases "jn_kind j = Legacy \<and> cp_state (last_record j) = Interrupted")
  case True
  with assms(1) legacy_interrupted_stuck [of "jn_action j" "jn_checkpoints j"] show ?thesis
    by (auto simp: journal_rules_None extend_journal_def last_record_def)
next
  case False
  show ?thesis unfolding if_not_P [OF False] by (rule close_open [OF assms False])
qed

definition unfinished_journal :: journal where
  "unfinished_journal = longest_journal\<lparr>jn_checkpoints := take 20 (jn_checkpoints longest_journal)\<rparr>"

definition stuck_journal :: journal where
  "stuck_journal = longest_journal\<lparr>jn_kind := Legacy, jn_plan_digest := None, jn_recovery := None,
     jn_checkpoints := [plain_record 1 Applying None, abandoned_record 2 Applying]\<rparr>"

theorem journal_closable_witness:
  "(\<exists>cs. length cs \<le> 2 \<and> journal_rules (extend_journal unfinished_journal cs) = None \<and> finished (extend_journal unfinished_journal cs)) \<and>
   journal_rules stuck_journal = None \<and> (\<forall>c cs. journal_rules (extend_journal stuck_journal (c # cs)) \<noteq> None)"
proof -
  have "journal_rules unfinished_journal = None" "\<not> finished unfinished_journal" "jn_kind unfinished_journal = Transaction"
    by code_simp+
  moreover have "journal_rules stuck_journal = None" "\<not> finished stuck_journal"
    "jn_kind stuck_journal = Legacy \<and> cp_state (last_record stuck_journal) = Interrupted" by code_simp+
  ultimately show ?thesis using journal_closable [of unfinished_journal] journal_closable [of stuck_journal] by simp
qed

end
