(* ===== verification/Lifecycle_Schema.thy ===== *)
theory Lifecycle_Schema
  imports Lifecycle_Journal "HOL-Library.Multiset"
begin

text \<open>
  What \<open>validate_document\<close> of \<open>deploy/scripts/lifecycle-state.py\<close> asks of a journal besides its rules: the
  canonical JSON form and its size, and the constraints of the journal schema that the record types
  do not already express. A journal within the schema and the rules always fits its size limit.
\<close>

subsection \<open>Canonical JSON\<close>

datatype jval = JNull | JBool bool | JInt int | JFloat | JStr utext | JArr "jval list" | JObj "(utext \<times> jval) list"

datatype canon_error = Too_deep | Lone_surrogate | Not_a_safe_integer | Bad_key

definition MAX_SAFE :: int where
  "MAX_SAFE = 2 ^ 53 - 1"

definition MAX_DEPTH :: nat where
  "MAX_DEPTH = 32"

text \<open>\<open>json.dumps(value, ensure_ascii=False)\<close> of a string.\<close>

definition escape_json :: "int \<Rightarrow> utext" where
  "escape_json c =
     (if c = 0x22 \<or> c = 0x5C then [0x5C, c]
      else if c = 0x0A then lit [CHR 0x5C, CHR ''n'']
      else if c = 0x0D then lit [CHR 0x5C, CHR ''r'']
      else if c = 0x09 then lit [CHR 0x5C, CHR ''t'']
      else if c = 0x0C then lit [CHR 0x5C, CHR ''f'']
      else if c = 0x08 then lit [CHR 0x5C, CHR ''b'']
      else if c < 0x20 then lit [CHR 0x5C, CHR ''u'', CHR ''0'', CHR ''0'', hex_char (nat (c div 16)), hex_char (nat (c mod 16))]
      else [c])"

definition json_string :: "utext \<Rightarrow> utext" where
  "json_string s = 0x22 # concat (map escape_json s) @ [0x22]"

definition key_re :: re where
  "key_re = Seq (Cls lower_c) (Many (\<lambda>c. lower_c c \<or> digit_c c \<or> one_of ''_'' c))"

fun join :: "utext \<Rightarrow> utext list \<Rightarrow> utext" where
  "join sep [] = []"
| "join sep [t] = t"
| "join sep (t # ts) = t @ sep @ join sep ts"

text \<open>The texts of a sequence, or the first error.\<close>

fun collect :: "('e + 'a) list \<Rightarrow> 'e + 'a list" where
  "collect [] = Inr []"
| "collect (Inl e # xs) = Inl e"
| "collect (Inr a # xs) = (case collect xs of Inl e \<Rightarrow> Inl e | Inr as \<Rightarrow> Inr (a # as))"

definition member_text :: "utext \<Rightarrow> canon_error + utext \<Rightarrow> canon_error + utext" where
  "member_text key v =
     (if \<not> fullmatch key_re key then Inl Bad_key
      else case v of Inl e \<Rightarrow> Inl e | Inr t \<Rightarrow> Inr (json_string key @ lit '':'' @ t))"

function canonical :: "jval \<Rightarrow> nat \<Rightarrow> canon_error + utext" where
  "canonical value depth =
     (if depth > MAX_DEPTH then Inl Too_deep
      else case value of
        JNull \<Rightarrow> Inr (lit ''null'')
      | JBool b \<Rightarrow> Inr (if b then lit ''true'' else lit ''false'')
      | JStr s \<Rightarrow> if list_ex is_surrogate s then Inl Lone_surrogate else Inr (json_string s)
      | JInt i \<Rightarrow> if \<bar>i\<bar> > MAX_SAFE then Inl Not_a_safe_integer else Inr (lit (int_str i))
      | JFloat \<Rightarrow> Inl Not_a_safe_integer
      | JArr vs \<Rightarrow> (case collect (map (\<lambda>v. canonical v (depth + 1)) vs) of
                      Inl e \<Rightarrow> Inl e | Inr ts \<Rightarrow> Inr (lit ''['' @ join (lit '','') ts @ lit '']''))
      | JObj ms \<Rightarrow> (case collect (map (\<lambda>(k, t). member_text k t) (sort_key fst (map (\<lambda>(k, v). (k, canonical v (depth + 1))) ms))) of
                      Inl e \<Rightarrow> Inl e | Inr ts \<Rightarrow> Inr (lit ''{'' @ join (lit '','') ts @ lit ''}'')))"
  by pat_completeness auto
termination
  by (relation "measure (\<lambda>(v, d). 33 - d)") (auto simp: MAX_DEPTH_def)

definition canonicalize :: "jval \<Rightarrow> canon_error + utext" where
  "canonicalize value = canonical value 0"

definition utf8_size :: "int \<Rightarrow> nat" where
  "utf8_size c = (if c < 0x80 then 1 else if c < 0x800 then 2 else if c < 0x10000 then 3 else 4)"

definition utf8_length :: "utext \<Rightarrow> nat" where
  "utf8_length t = sum_list (map utf8_size t)"

subsection \<open>A journal as a document\<close>

fun state_name :: "lc_state \<Rightarrow> string" where
  "state_name Planned = ''planned''" | "state_name Staged = ''staged''" | "state_name Verified = ''verified''"
| "state_name Recovery_saved = ''recovery_saved''" | "state_name Applying = ''applying''" | "state_name Checking = ''checking''"
| "state_name Committed = ''committed''" | "state_name Recovering = ''recovering''" | "state_name Recovered = ''recovered''"
| "state_name Recovery_required = ''recovery_required''" | "state_name Interrupted = ''interrupted''"

fun kind_name :: "lc_kind \<Rightarrow> string" where
  "kind_name Transaction = ''transaction''" | "kind_name Legacy = ''legacy''"

fun action_name :: "lc_action \<Rightarrow> string" where
  "action_name Install = ''install''" | "action_name Update = ''update''" | "action_name Downgrade = ''downgrade''"
| "action_name Rollback = ''rollback''" | "action_name Recover = ''recover''" | "action_name Uninstall = ''uninstall''"
| "action_name Restore = ''restore''" | "action_name Migrate = ''migrate''" | "action_name Backup = ''backup''"
| "action_name Vault_recover = ''vault_recover''" | "action_name Restart = ''restart''"

fun adapter_name :: "lc_adapter \<Rightarrow> string" where
  "adapter_name Native = ''native''" | "adapter_name Mono = ''mono''" | "adapter_name Package = ''package''"
| "adapter_name Proxmox = ''proxmox''"

fun cause_name :: "lc_cause \<Rightarrow> string" where
  "cause_name By_signal = ''interrupted''" | "cause_name Abandoned = ''abandoned''" | "cause_name Apply_failed = ''apply_failed''"
| "cause_name Check_failed = ''check_failed''" | "cause_name Recovery_failed = ''recovery_failed''"

fun outcome_name :: "lc_outcome \<Rightarrow> string" where
  "outcome_name Out_committed = ''committed''" | "outcome_name Out_recovered = ''recovered''" | "outcome_name Out_refused = ''refused''"
| "outcome_name Out_interrupted = ''interrupted''" | "outcome_name Out_manual = ''manual''"

fun exit_text :: "exit_name \<Rightarrow> string" where
  "exit_text USAGE = ''USAGE''" | "exit_text UNSUPPORTED = ''UNSUPPORTED''" | "exit_text NETWORK = ''NETWORK''"
| "exit_text TRUST = ''TRUST''" | "exit_text PERMISSION = ''PERMISSION''" | "exit_text PREFLIGHT = ''PREFLIGHT''"
| "exit_text RECOVERED = ''RECOVERED''" | "exit_text MANUAL = ''MANUAL''" | "exit_text LOCKED = ''LOCKED''"
| "exit_text INTERRUPTED = ''INTERRUPTED''"

fun check_name :: "evidence_check \<Rightarrow> string" where
  "check_name E_signature = ''signature''" | "check_name E_provenance = ''provenance''" | "check_name E_digest = ''digest''"
| "check_name E_archive = ''archive''" | "check_name E_compatibility = ''compatibility''"
| "check_name E_recovery_point = ''recovery_point''" | "check_name E_health = ''health''" | "check_name E_version = ''version''"
| "check_name E_schema = ''schema''" | "check_name E_identity = ''identity''"

fun result_name :: "evidence_result \<Rightarrow> string" where
  "result_name E_passed = ''passed''" | "result_name E_failed = ''failed''" | "result_name E_skipped = ''skipped''"

definition nullable :: "('a \<Rightarrow> jval) \<Rightarrow> 'a option \<Rightarrow> jval" where
  "nullable f x = (case x of None \<Rightarrow> JNull | Some a \<Rightarrow> f a)"

definition member :: "string \<Rightarrow> ('a \<Rightarrow> jval) \<Rightarrow> 'a option \<Rightarrow> (utext \<times> jval) list" where
  "member k f x = (case x of None \<Rightarrow> [] | Some a \<Rightarrow> [(lit k, f a)])"

definition name_json :: "string \<Rightarrow> jval" where
  "name_json s = JStr (lit s)"

definition checkpoint_json :: "checkpoint \<Rightarrow> jval" where
  "checkpoint_json c = JObj (
     [(lit ''sequence'', JInt (cp_sequence c)), (lit ''state'', name_json (state_name (cp_state c))), (lit ''at'', JStr (cp_at c))] @
     member ''step'' JStr (cp_step c) @ member ''cause'' (\<lambda>x. name_json (cause_name x)) (cp_cause c) @
     member ''outcome'' (\<lambda>x. name_json (outcome_name x)) (cp_outcome c) @
     member ''checkpoint'' (\<lambda>x. name_json (state_name x)) (cp_checkpoint c) @
     member ''error'' (\<lambda>(code, reason). JObj [(lit ''code'', name_json (exit_text code)), (lit ''reason'', JStr reason)]) (cp_error c))"

definition evidence_json :: "evidence_item \<Rightarrow> jval" where
  "evidence_json e = (case e of (check, result, detail) \<Rightarrow>
     JObj [(lit ''check'', name_json (check_name check)), (lit ''result'', name_json (result_name result)),
           (lit ''detail'', nullable JStr detail)])"

definition release_json :: "utext \<times> utext option \<Rightarrow> jval" where
  "release_json r = JObj [(lit ''version'', JStr (fst r)), (lit ''artifact_digest'', nullable JStr (snd r))]"

definition recovery_json :: "utext \<times> utext \<Rightarrow> jval" where
  "recovery_json r = JObj [(lit ''operation_id'', JStr (fst r)), (lit ''manifest_digest'', JStr (snd r))]"

definition journal_json :: "journal \<Rightarrow> jval" where
  "journal_json j = JObj
     [(lit ''schema_version'', JInt 1), (lit ''operation_id'', JStr (jn_operation_id j)), (lit ''kind'', name_json (kind_name (jn_kind j))),
      (lit ''action'', name_json (action_name (jn_action j))), (lit ''adapter'', name_json (adapter_name (jn_adapter j))),
      (lit ''generation'', JInt (jn_generation j)), (lit ''plan_digest'', nullable JStr (jn_plan_digest j)),
      (lit ''identity_digest'', nullable JStr (jn_identity_digest j)), (lit ''source'', nullable release_json (jn_source j)),
      (lit ''target'', nullable release_json (jn_target j)), (lit ''recovery'', nullable recovery_json (jn_recovery j)),
      (lit ''evidence'', JArr (map evidence_json (jn_evidence j))), (lit ''started_at'', JStr (jn_started_at j)),
      (lit ''updated_at'', JStr (jn_updated_at j)), (lit ''checkpoints'', JArr (map checkpoint_json (jn_checkpoints j)))]"

subsection \<open>The schema\<close>

fun at_most :: "nat \<Rightarrow> (int \<Rightarrow> bool) \<Rightarrow> re" where
  "at_most 0 P = Eps"
| "at_most (Suc n) P = opt (Seq (Cls P) (at_most n P))"

definition digits :: "nat \<Rightarrow> re" where
  "digits n = times n (Cls digit_c)"

definition digest_re :: re where
  "digest_re = Seq (lits ''sha256:'') (times 64 (Cls (\<lambda>c. digit_c c \<or> between CHR ''a'' CHR ''f'' c)))"

definition operation_re :: re where
  "operation_re = Seq (lits ''op-'') (Seq (digits 8) (Seq (lits ''-'') (Seq (digits 3) (at_most 6 digit_c))))"

definition timestamp_re :: re where
  "timestamp_re = Seq (digits 4) (Seq (lits ''-'') (Seq (digits 2) (Seq (lits ''-'') (Seq (digits 2) (Seq (lits ''T'')
     (Seq (digits 2) (Seq (lits '':'') (Seq (digits 2) (Seq (lits '':'') (Seq (digits 2)
     (Seq (opt (Seq (lits ''.'') (Seq (Cls digit_c) (at_most 5 digit_c)))) (lits ''Z''))))))))))))"

definition step_re :: re where
  "step_re = Seq (Cls lower_c) (at_most 63 (\<lambda>c. lower_c c \<or> digit_c c \<or> one_of ''_'' c))"

text \<open>\<open>int(s[a:b])\<close> of decimal digits.\<close>

definition decimal :: "utext \<Rightarrow> int" where
  "decimal s = foldl (\<lambda>n c. 10 * n + (c - 48)) 0 s"

definition slice :: "nat \<Rightarrow> nat \<Rightarrow> utext \<Rightarrow> utext" where
  "slice a b s = take (b - a) (drop a s)"

definition real_date :: "int \<Rightarrow> int \<Rightarrow> int \<Rightarrow> bool" where
  "real_date year month day =
     (if year < 1 \<or> \<not> (1 \<le> month \<and> month \<le> 12) \<or> day < 1 then False
      else let leap = (year mod 4 = 0 \<and> (year mod 100 \<noteq> 0 \<or> year mod 400 = 0));
               days = [31, if leap then 29 else 28, 31, 30, 31, 30, 31, 31, 30, 31, 30, 31] ! nat (month - 1) in
           day \<le> days)"

definition timestamp_format :: "utext \<Rightarrow> bool" where
  "timestamp_format s =
     (real_date (decimal (slice 0 4 s)) (decimal (slice 5 7 s)) (decimal (slice 8 10 s)) \<and>
      decimal (slice 11 13 s) \<le> 23 \<and> decimal (slice 14 16 s) \<le> 59 \<and> decimal (slice 17 19 s) \<le> 59)"

definition operation_format :: "utext \<Rightarrow> bool" where
  "operation_format s = real_date (decimal (slice 3 7 s)) (decimal (slice 7 9 s)) (decimal (slice 9 11 s))"

definition is_digest :: "utext \<Rightarrow> bool" where
  "is_digest s = fullmatch digest_re s"

definition valid_operation_id :: "utext \<Rightarrow> bool" where
  "valid_operation_id s = (fullmatch operation_re s \<and> operation_format s)"

definition is_timestamp :: "utext \<Rightarrow> bool" where
  "is_timestamp s = (fullmatch timestamp_re s \<and> timestamp_format s)"

definition is_step :: "utext \<Rightarrow> bool" where
  "is_step s = fullmatch step_re s"

definition installed_version :: "utext \<Rightarrow> bool" where
  "installed_version s = (1 \<le> length s \<and> length s \<le> 64 \<and> list_all (\<lambda>c. \<not> is_control True c) s)"

definition brief_text :: "utext \<Rightarrow> bool" where
  "brief_text s = (length s \<le> 256 \<and> list_all (\<lambda>c. \<not> is_control False c) s \<and> \<not> credential_shaped s)"

definition pred_opt :: "('a \<Rightarrow> bool) \<Rightarrow> 'a option \<Rightarrow> bool" where
  "pred_opt P x = (case x of None \<Rightarrow> True | Some a \<Rightarrow> P a)"

definition checkpoint_schema :: "checkpoint \<Rightarrow> bool" where
  "checkpoint_schema c =
     (1 \<le> cp_sequence c \<and> is_timestamp (cp_at c) \<and> pred_opt is_step (cp_step c) \<and> pred_opt (\<lambda>(_, reason). brief_text reason) (cp_error c))"

definition release_schema :: "utext \<times> utext option \<Rightarrow> bool" where
  "release_schema r = (installed_version (fst r) \<and> pred_opt is_digest (snd r))"

definition recovery_schema :: "utext \<times> utext \<Rightarrow> bool" where
  "recovery_schema r = (valid_operation_id (fst r) \<and> is_digest (snd r))"

definition journal_schema :: "journal \<Rightarrow> bool" where
  "journal_schema j =
     (valid_operation_id (jn_operation_id j) \<and> 1 \<le> jn_generation j \<and> pred_opt is_digest (jn_plan_digest j) \<and>
      pred_opt is_digest (jn_identity_digest j) \<and> pred_opt release_schema (jn_source j) \<and> pred_opt release_schema (jn_target j) \<and>
      pred_opt recovery_schema (jn_recovery j) \<and>
      length (jn_evidence j) \<le> 16 \<and> list_all (\<lambda>(_, _, detail). pred_opt brief_text detail) (jn_evidence j) \<and>
      is_timestamp (jn_started_at j) \<and> is_timestamp (jn_updated_at j) \<and>
      1 \<le> length (jn_checkpoints j) \<and> length (jn_checkpoints j) \<le> 32 \<and> list_all checkpoint_schema (jn_checkpoints j))"

datatype journal_problem = Not_canonical canon_error | Too_large nat | Bad_shape | Rule_broken journal_violation

definition JOURNAL_MAX_BYTES :: nat where
  "JOURNAL_MAX_BYTES = 65536"

definition validate_journal :: "journal \<Rightarrow> journal_problem option" where
  "validate_journal j =
     (case canonicalize (journal_json j) of
        Inl e \<Rightarrow> Some (Not_canonical e)
      | Inr t \<Rightarrow>
          if utf8_length t > JOURNAL_MAX_BYTES then Some (Too_large (utf8_length t))
          else if \<not> journal_schema j then Some Bad_shape
          else map_option Rule_broken (journal_rules j))"

subsection \<open>What a pattern consumes\<close>

text \<open>The longest match of a pattern, if it is bounded, and a class all its characters are in.\<close>

primrec longest :: "re \<Rightarrow> nat option" where
  "longest Eps = Some 0"
| "longest (Cls P) = Some 1"
| "longest (Seq a b) = (case (longest a, longest b) of (Some m, Some n) \<Rightarrow> Some (m + n) | _ \<Rightarrow> None)"
| "longest (Alt a b) = (case (longest a, longest b) of (Some m, Some n) \<Rightarrow> Some (max m n) | _ \<Rightarrow> None)"
| "longest (Many P) = None"
| "longest (Few P) = None"

primrec all_in :: "(int \<Rightarrow> bool) \<Rightarrow> re \<Rightarrow> bool" where
  "all_in Q Eps = True"
| "all_in Q (Cls P) = (\<forall>c. P c \<longrightarrow> Q c)"
| "all_in Q (Seq a b) = (all_in Q a \<and> all_in Q b)"
| "all_in Q (Alt a b) = (all_in Q a \<and> all_in Q b)"
| "all_in Q (Many P) = (\<forall>c. P c \<longrightarrow> Q c)"
| "all_in Q (Few P) = (\<forall>c. P c \<longrightarrow> Q c)"

lemma longest_bound: "t \<in> set (rests r s) \<Longrightarrow> longest r = Some n \<Longrightarrow> length s \<le> length t + n"
proof (induction r arbitrary: s t n)
  case (Cls P) then show ?case by (auto simp: cls_rests_iff)
next
  case (Seq a b)
  then obtain u m k where "u \<in> set (rests a s)" "t \<in> set (rests b u)" "longest a = Some m" "longest b = Some k" "n = m + k"
    by (auto split: option.splits)
  with Seq.IH(1) [of u s m] Seq.IH(2) [of t u k] show ?case by simp
next
  case (Alt a b) then show ?case by (fastforce split: option.splits)
qed auto

lemma many_split: "t \<in> set (many_rests P s) \<Longrightarrow> \<exists>p. s = p @ t \<and> (\<forall>c\<in>set p. P c)"
proof (induction s)
  case (Cons x s)
  show ?case
  proof (cases "t = x # s")
    case False
    with Cons obtain p where "s = p @ t" "\<forall>c\<in>set p. P c" "P x" by (auto split: if_splits)
    then show ?thesis by (intro exI [of _ "x # p"]) simp
  qed simp
qed simp

lemma set_few_rests: "set (few_rests P s) = set (many_rests P s)"
  by (induction s) auto

lemma all_in_match: "t \<in> set (rests r s) \<Longrightarrow> all_in Q r \<Longrightarrow> \<exists>p. s = p @ t \<and> (\<forall>c\<in>set p. Q c)"
proof (induction r arbitrary: s t)
  case (Cls P) then show ?case by (auto simp: cls_rests_iff)
next
  case (Seq a b)
  then obtain u where "u \<in> set (rests a s)" "t \<in> set (rests b u)" by auto
  with Seq.IH(1) [of u s] Seq.IH(2) [of t u] Seq.prems(2) show ?case by fastforce
next
  case (Alt a b) then show ?case by auto
next
  case (Many P) then show ?case using many_split [of t P s] by auto
next
  case (Few P) then show ?case using many_split [of t P s] by (auto simp: set_few_rests)
qed auto

lemma fullmatch_bound:
  assumes "fullmatch r s"
  shows "longest r = Some n \<Longrightarrow> length s \<le> n" and "all_in Q r \<Longrightarrow> \<forall>c\<in>set s. Q c"
  using assms longest_bound [of "[]" r s n] all_in_match [of "[]" r s Q] by (auto simp: fullmatch_def)

subsection \<open>The size of a canonical document\<close>

text \<open>A bound that does not depend on the order of the members.\<close>

fun csize :: "jval \<Rightarrow> nat" where
  "csize JNull = 4"
| "csize (JBool b) = 5"
| "csize (JInt i) = 17"
| "csize JFloat = 0"
| "csize (JStr s) = utf8_length (json_string s)"
| "csize (JArr vs) = 2 + sum_list (map (\<lambda>v. csize v + 1) vs)"
| "csize (JObj ms) = 2 + sum_list (map (\<lambda>(k, v). utf8_length (json_string k) + 2 + csize v) ms)"

lemma utf8_length_append [simp]: "utf8_length (a @ b) = utf8_length a + utf8_length b"
  and utf8_length_Nil [simp]: "utf8_length [] = 0"
  and utf8_length_Cons [simp]: "utf8_length (c # a) = utf8_size c + utf8_length a"
  by (simp_all add: utf8_length_def)

lemma collect_Inr: "collect xs = Inr ts \<Longrightarrow> xs = map Inr ts"
  by (induction xs arbitrary: ts rule: collect.induct) (auto split: sum.splits)

lemma utf8_join: "utf8_length (join (lit '','') ts) \<le> sum_list (map (\<lambda>t. utf8_length t + 1) ts)"
  by (induction "lit '',''" ts rule: join.induct) (simp_all add: utf8_size_def)

lemma sum_list_sort: "sum_list (map g (sort_key f xs)) = sum_list (map g xs)" for g :: "'a \<Rightarrow> nat"
  by (metis mset_map mset_sort sum_mset_sum_list)

lemma sum_list_le: "length xs = length ys \<Longrightarrow> (\<And>i. i < length xs \<Longrightarrow> xs ! i \<le> ys ! i) \<Longrightarrow> sum_list xs \<le> sum_list ys"
  for xs ys :: "nat list"
proof (induction xs ys rule: list_induct2)
  case (Cons x xs y ys)
  from Cons.prems [of 0] Cons.IH Cons.prems [of "Suc i" for i] show ?case by (simp add: add_mono)
qed simp

definition member_size :: "utext \<times> (canon_error + utext) \<Rightarrow> nat" where
  "member_size m = (case m of (k, Inr t) \<Rightarrow> utf8_length (json_string k) + 1 + utf8_length t | (k, Inl e) \<Rightarrow> 0)"

lemma members_size:
  assumes "collect (map (\<lambda>(k, t). member_text k t) ms) = Inr ts"
  shows "sum_list (map (\<lambda>t. utf8_length t + 1) ts) = sum_list (map (\<lambda>m. member_size m + 1) ms)"
proof -
  from collect_Inr [OF assms] have "map (\<lambda>(k, t). member_text k t) ms = map Inr ts" .
  then show ?thesis
  proof (induction ms arbitrary: ts)
    case (Cons m ms)
    then obtain t ts' where "ts = t # ts'" by (cases ts) auto
    with Cons.prems Cons.IH [of ts'] show ?case
      by (auto simp: member_text_def member_size_def utf8_size_def split: prod.splits sum.splits if_splits)
  qed simp
qed

lemma canonical_size: "canonical v d = Inr t \<Longrightarrow> utf8_length t \<le> csize v"
proof (induction v d arbitrary: t rule: canonical.induct)
  case (1 v d)
  note res = "1.prems" [unfolded canonical.simps [of v d]]
  from res have d: "\<not> MAX_DEPTH < d" by (auto split: if_splits)
  show ?case
  proof (cases v)
    case (JInt i)
    have "utf8_length (lit cs) = length cs" if "set cs \<subseteq> insert CHR ''-'' dec_chars" for cs
      using that by (induction cs) (auto simp: utf8_size_def dec_chars_def)
    moreover have "set (int_str i) \<subseteq> insert CHR ''-'' dec_chars"
      using set_nat_str by (auto simp: int_str_def)
    moreover have "length (int_str i) \<le> 17" if "\<bar>i\<bar> \<le> MAX_SAFE"
    proof -
      have "nat \<bar>i\<bar> < 10 ^ 16" using that by (simp add: MAX_SAFE_def)
      from nat_str_length [OF this] show ?thesis by (auto simp: int_str_def)
    qed
    ultimately show ?thesis using res d JInt by (auto split: if_splits)
  next
    case (JArr vs)
    with res d obtain ts where ts: "collect (map (\<lambda>v. canonical v (d + 1)) vs) = Inr ts"
      "t = lit ''['' @ join (lit '','') ts @ lit '']''" by (auto simp del: canonical.simps split: sum.splits)
    from collect_Inr [OF ts(1)] have eq: "map (\<lambda>v. canonical v (d + 1)) vs = map Inr ts" .
    then have len: "length vs = length ts" by (rule map_eq_imp_length_eq)
    have "sum_list (map (\<lambda>t. utf8_length t + 1) ts) \<le> sum_list (map (\<lambda>v. csize v + 1) vs)"
    proof (rule sum_list_le)
      fix i assume i: "i < length (map (\<lambda>t. utf8_length t + 1) ts)"
      then have "canonical (vs ! i) (d + 1) = Inr (ts ! i)" using arg_cong [OF eq, of "\<lambda>xs. xs ! i"] len by (simp del: canonical.simps)
      from "1.IH"(1) [OF d JArr _ this] i len
      show "map (\<lambda>t. utf8_length t + 1) ts ! i \<le> map (\<lambda>v. csize v + 1) vs ! i" by simp
    qed (simp add: len)
    with utf8_join [of ts] ts(2) JArr show ?thesis by (simp add: utf8_size_def)
  next
    case (JObj ms)
    let ?ms = "map (\<lambda>(k, v). (k, canonical v (d + 1))) ms"
    from JObj res d obtain ts where ts: "collect (map (\<lambda>(k, t). member_text k t) (sort_key fst ?ms)) = Inr ts"
      "t = lit ''{'' @ join (lit '','') ts @ lit ''}''" by (auto simp del: canonical.simps split: sum.splits)
    have "sum_list (map (\<lambda>m. member_size m + 1) ?ms) \<le> sum_list (map (\<lambda>(k, v). utf8_length (json_string k) + 2 + csize v) ms)"
      unfolding map_map
    proof (rule sum_list_mono)
      fix m assume m: "m \<in> set ms"
      obtain k w where kw: "m = (k, w)" by (cases m)
      have "utf8_length u \<le> csize w" if "canonical w (d + 1) = Inr u" for u
        by (rule "1.IH"(2) [OF d JObj m kw [symmetric] that])
      then show "((\<lambda>m. member_size m + 1) \<circ> (\<lambda>(k, v). (k, canonical v (d + 1)))) m \<le> (case m of (k, v) \<Rightarrow> utf8_length (json_string k) + 2 + csize v)"
        using kw by (simp add: member_size_def del: canonical.simps split: sum.split)
    qed
    with members_size [OF ts(1)] utf8_join [of ts] ts(2) JObj show ?thesis
      by (simp add: sum_list_sort utf8_size_def del: canonical.simps)
  qed (use res d in \<open>auto simp: utf8_size_def split: if_splits\<close>)
qed

subsection \<open>Which documents have a canonical form\<close>

fun canonical_ok :: "jval \<Rightarrow> nat \<Rightarrow> bool" where
  "canonical_ok (JInt i) d = (d \<le> MAX_DEPTH \<and> \<bar>i\<bar> \<le> MAX_SAFE)"
| "canonical_ok (JStr s) d = (d \<le> MAX_DEPTH \<and> \<not> list_ex is_surrogate s)"
| "canonical_ok JFloat d = False"
| "canonical_ok (JArr vs) d = (d \<le> MAX_DEPTH \<and> (\<forall>v\<in>set vs. canonical_ok v (d + 1)))"
| "canonical_ok (JObj ms) d = (d \<le> MAX_DEPTH \<and> (\<forall>(k, v)\<in>set ms. fullmatch key_re k \<and> canonical_ok v (d + 1)))"
| "canonical_ok _ d = (d \<le> MAX_DEPTH)"

lemma collect_ok: "(\<exists>ts. collect xs = Inr ts) \<longleftrightarrow> (\<forall>x\<in>set xs. \<exists>t. x = Inr t)"
  by (induction xs rule: collect.induct) (auto split: sum.splits)

lemma member_text_ok: "(\<exists>t. member_text k v = Inr t) \<longleftrightarrow> fullmatch key_re k \<and> (\<exists>t. v = Inr t)"
  by (auto simp: member_text_def split: sum.splits)

lemma canonical_ok_iff: "(\<exists>t. canonical v d = Inr t) \<longleftrightarrow> canonical_ok v d"
proof (induction v d rule: canonical.induct)
  case (1 v d)
  show ?case
  proof (cases "MAX_DEPTH < d")
    case True
    then show ?thesis by (cases v) (simp_all add: canonical.simps [of v])
  next
    case d: False
    show ?thesis
    proof (cases v)
      case (JArr vs)
      have "(\<exists>ts. collect (map (\<lambda>v. canonical v (d + 1)) vs) = Inr ts) \<longleftrightarrow> (\<forall>v\<in>set vs. canonical_ok v (d + 1))"
        using "1.IH"(1) [OF d JArr] by (simp add: collect_ok del: canonical.simps)
      with d JArr show ?thesis by (subst canonical.simps) (auto simp del: canonical.simps split: sum.splits)
    next
      case (JObj ms)
      let ?ms = "map (\<lambda>(k, v). (k, canonical v (d + 1))) ms"
      have "(\<exists>ts. collect (map (\<lambda>(k, t). member_text k t) (sort_key fst ?ms)) = Inr ts) \<longleftrightarrow>
          (\<forall>(k, v)\<in>set ms. fullmatch key_re k \<and> canonical_ok v (d + 1))"
        using "1.IH"(2) [OF d JObj _ surjective_pairing]
        by (simp add: collect_ok member_text_ok case_prod_beta del: canonical.simps) (metis prod.collapse)
      with d JObj show ?thesis by (subst canonical.simps) (auto simp del: canonical.simps split: sum.splits)
    qed (use d in \<open>auto simp: not_less list_ex_iff\<close>)
  qed
qed

text \<open>The free parts of a journal: numbers JavaScript can represent, texts without lone surrogates.\<close>

definition no_surrogate :: "utext \<Rightarrow> bool" where
  "no_surrogate s \<longleftrightarrow> \<not> list_ex is_surrogate s"

definition journal_plain :: "journal \<Rightarrow> bool" where
  "journal_plain j \<longleftrightarrow> jn_generation j \<le> MAX_SAFE \<and> list_all (\<lambda>c. cp_sequence c \<le> MAX_SAFE \<and> pred_opt (no_surrogate \<circ> snd) (cp_error c)) (jn_checkpoints j) \<and>
     pred_opt (no_surrogate \<circ> fst) (jn_source j) \<and> pred_opt (no_surrogate \<circ> fst) (jn_target j) \<and>
     list_all (\<lambda>(_, _, detail). pred_opt no_surrogate detail) (jn_evidence j)"

definition ascii_c :: "int \<Rightarrow> bool" where
  "ascii_c c \<longleftrightarrow> 0x20 \<le> c \<and> c < 0x7f \<and> c \<noteq> 0x22 \<and> c \<noteq> 0x5C"

lemma all_in_times [simp]: "all_in Q (times n r) \<longleftrightarrow> n = 0 \<or> all_in Q r"
  by (induction n) auto

lemma all_in_at_most [simp]: "all_in Q (at_most n P) \<longleftrightarrow> n = 0 \<or> (\<forall>c. P c \<longrightarrow> Q c)"
  by (induction n) (auto simp: opt_def)

lemma longest_times [simp]: "longest r = Some m \<Longrightarrow> longest (times n r) = Some (n * m)"
  by (induction n) auto

lemma longest_at_most [simp]: "longest (at_most n P) = Some n"
  by (induction n) (auto simp: opt_def)

lemma longest_lits [simp]: "longest (lits cs) = Some (length cs)"
  by (induction cs) auto

lemmas ascii_defs = ascii_c_def digit_c_def lower_c_def between_def one_of_def

lemma ascii_strings:
  shows "is_digest s \<Longrightarrow> length s \<le> 71 \<and> (\<forall>c\<in>set s. ascii_c c)"
    and "valid_operation_id s \<Longrightarrow> length s \<le> 21 \<and> (\<forall>c\<in>set s. ascii_c c)"
    and "is_timestamp s \<Longrightarrow> length s \<le> 27 \<and> (\<forall>c\<in>set s. ascii_c c)"
    and "is_step s \<Longrightarrow> length s \<le> 64 \<and> (\<forall>c\<in>set s. ascii_c c)"
proof -
  have digest: "longest digest_re = Some 71" "all_in ascii_c digest_re"
    by (auto simp: digest_re_def ascii_defs)
  have op: "longest operation_re = Some 21" "all_in ascii_c operation_re"
    by (auto simp: operation_re_def digits_def ascii_defs)
  have stamp: "longest timestamp_re = Some 27" "all_in ascii_c timestamp_re"
    by (auto simp: timestamp_re_def digits_def ascii_defs opt_def)
  have step: "longest step_re = Some 64" "all_in ascii_c step_re"
    by (auto simp: step_re_def ascii_defs)
  show "is_digest s \<Longrightarrow> length s \<le> 71 \<and> (\<forall>c\<in>set s. ascii_c c)"
    using fullmatch_bound(1) [OF _ digest(1)] fullmatch_bound(2) [OF _ digest(2)] by (simp add: is_digest_def)
  show "valid_operation_id s \<Longrightarrow> length s \<le> 21 \<and> (\<forall>c\<in>set s. ascii_c c)"
    using fullmatch_bound(1) [OF _ op(1)] fullmatch_bound(2) [OF _ op(2)] by (auto simp: valid_operation_id_def)
  show "is_timestamp s \<Longrightarrow> length s \<le> 27 \<and> (\<forall>c\<in>set s. ascii_c c)"
    using fullmatch_bound(1) [OF _ stamp(1)] fullmatch_bound(2) [OF _ stamp(2)] by (auto simp: is_timestamp_def)
  show "is_step s \<Longrightarrow> length s \<le> 64 \<and> (\<forall>c\<in>set s. ascii_c c)"
    using fullmatch_bound(1) [OF _ step(1)] fullmatch_bound(2) [OF _ step(2)] by (simp add: is_step_def)
qed

subsection \<open>A legal journal fits its limit\<close>

lemma json_string_ascii: "\<forall>c\<in>set s. ascii_c c \<Longrightarrow> utf8_length (json_string s) = length s + 2"
  by (induction s) (auto simp: json_string_def escape_json_def ascii_c_def utf8_size_def)

lemma json_string_brief: "\<forall>c\<in>set s. \<not> is_control False c \<Longrightarrow> utf8_length (json_string s) \<le> 4 * length s + 2"
proof (induction s)
  case (Cons c s)
  have "utf8_length (escape_json c) \<le> 4"
    using Cons.prems by (auto simp: escape_json_def utf8_size_def is_control_def)
  with Cons show ?case by (simp add: json_string_def)
qed (simp add: json_string_def utf8_size_def)

lemma brief_size: "brief_text s \<Longrightarrow> csize (JStr s) \<le> 1026"
  using json_string_brief [of s] by (auto simp: brief_text_def list_all_iff)

lemma version_size: "installed_version s \<Longrightarrow> csize (JStr s) \<le> 258"
proof -
  assume v: "installed_version s"
  then have "\<forall>c\<in>set s. \<not> is_control False c" by (auto simp: installed_version_def list_all_iff is_control_def)
  with json_string_brief [of s] v show ?thesis by (auto simp: installed_version_def)
qed

lemma ascii_size:
  "is_digest s \<Longrightarrow> csize (JStr s) \<le> 73" "valid_operation_id s \<Longrightarrow> csize (JStr s) \<le> 23"
  "is_timestamp s \<Longrightarrow> csize (JStr s) \<le> 29" "is_step s \<Longrightarrow> csize (JStr s) \<le> 66"
  using ascii_strings [of s] json_string_ascii [of s] by auto

lemma name_sizes:
  shows "csize (name_json (state_name st)) \<le> 19" and "csize (name_json (kind_name k)) \<le> 13"
    and "csize (name_json (action_name a)) \<le> 15" and "csize (name_json (adapter_name d)) \<le> 9"
    and "csize (name_json (cause_name ca)) \<le> 17" and "csize (name_json (outcome_name out)) \<le> 13"
    and "csize (name_json (exit_text code)) \<le> 13" and "csize (name_json (check_name ch)) \<le> 16"
    and "csize (name_json (result_name r)) \<le> 9"
  by (cases st, simp_all add: name_json_def json_string_ascii ascii_c_def)
     (cases k, simp_all add: json_string_ascii ascii_c_def,
      cases a, simp_all add: json_string_ascii ascii_c_def, cases d, simp_all add: json_string_ascii ascii_c_def,
      cases ca, simp_all add: json_string_ascii ascii_c_def, cases out, simp_all add: json_string_ascii ascii_c_def,
      cases code, simp_all add: json_string_ascii ascii_c_def, cases ch, simp_all add: json_string_ascii ascii_c_def,
      cases r, simp_all add: json_string_ascii ascii_c_def)

text \<open>The weight of a list of members, and of an optional one.\<close>

definition weight :: "(utext \<times> jval) list \<Rightarrow> nat" where
  "weight ms = sum_list (map (\<lambda>(k, v). utf8_length (json_string k) + 2 + csize v) ms)"

lemma weight_simps [simp]:
  "weight [] = 0" "weight ((k, v) # ms) = utf8_length (json_string k) + 2 + csize v + weight ms"
  "weight (ms @ ns) = weight ms + weight ns"
  by (simp_all add: weight_def)

lemma csize_JObj: "csize (JObj ms) = 2 + weight ms"
  by (simp add: weight_def)

lemma weight_member:
  assumes "pred_opt P x" "\<And>a. P a \<Longrightarrow> csize (f a) \<le> n"
  shows "weight (member k f x) \<le> utf8_length (json_string (lit k)) + 2 + n"
  using assms by (cases x) (auto simp: member_def pred_opt_def)

lemma csize_nullable:
  assumes "pred_opt P x" "\<And>a. P a \<Longrightarrow> csize (f a) \<le> n" "4 \<le> n"
  shows "csize (nullable f x) \<le> n"
  using assms by (cases x) (auto simp: nullable_def pred_opt_def)

lemma csize_JArr: "(\<And>v. v \<in> set vs \<Longrightarrow> csize v \<le> n) \<Longrightarrow> csize (JArr vs) \<le> 2 + length vs * (n + 1)"
proof (induction vs)
  case (Cons v vs)
  have "csize v \<le> n" "csize (JArr vs) \<le> 2 + length vs * (n + 1)" using Cons by auto
  then show ?case by simp
qed simp

lemmas key_size = json_string_ascii ascii_c_def

lemma checkpoint_size:
  assumes "checkpoint_schema c"
  shows "csize (checkpoint_json c) \<le> 1320"
proof -
  have "weight (member ''step'' JStr (cp_step c)) \<le> 6 + 2 + 66"
    using assms weight_member [of is_step "cp_step c" JStr 66 "''step''"] ascii_size(4)
    by (simp add: checkpoint_schema_def key_size)
  moreover have "weight (member ''cause'' (\<lambda>x. name_json (cause_name x)) (cp_cause c)) \<le> 7 + 2 + 17"
    using weight_member [of "\<lambda>_. True" "cp_cause c" "\<lambda>x. name_json (cause_name x)" 17 "''cause''"] name_sizes(5)
    by (simp add: key_size pred_opt_def split: option.splits)
  moreover have "weight (member ''outcome'' (\<lambda>x. name_json (outcome_name x)) (cp_outcome c)) \<le> 9 + 2 + 13"
    using weight_member [of "\<lambda>_. True" "cp_outcome c" "\<lambda>x. name_json (outcome_name x)" 13 "''outcome''"] name_sizes(6)
    by (simp add: key_size pred_opt_def split: option.splits)
  moreover have "weight (member ''checkpoint'' (\<lambda>x. name_json (state_name x)) (cp_checkpoint c)) \<le> 12 + 2 + 19"
    using weight_member [of "\<lambda>_. True" "cp_checkpoint c" "\<lambda>x. name_json (state_name x)" 19 "''checkpoint''"] name_sizes(1)
    by (simp add: key_size pred_opt_def split: option.splits)
  moreover have "weight (member ''error'' (\<lambda>(code, reason). JObj [(lit ''code'', name_json (exit_text code)), (lit ''reason'', JStr reason)]) (cp_error c))
      \<le> 7 + 2 + (2 + (6 + 2 + 13) + (8 + 2 + 1026))"
  proof -
    have "csize (JObj [(lit ''code'', name_json (exit_text code)), (lit ''reason'', JStr reason)]) \<le> 2 + (6 + 2 + 13) + (8 + 2 + 1026)"
      if "brief_text reason" for code reason
      using name_sizes(7) [of code] brief_size [OF that] by (simp add: key_size)
    then show ?thesis
      using assms weight_member [of "\<lambda>(_, reason). brief_text reason" "cp_error c" _ "2 + (6 + 2 + 13) + (8 + 2 + 1026)" "''error''"]
      by (auto simp: checkpoint_schema_def key_size)
  qed
  ultimately show ?thesis
    using name_sizes(1) [of "cp_state c"] ascii_size(3) [of "cp_at c"] assms
    by (simp add: checkpoint_json_def csize_JObj key_size checkpoint_schema_def del: csize.simps(5,7))
qed

lemma evidence_size: "(case e of (_, _, detail) \<Rightarrow> pred_opt brief_text detail) \<Longrightarrow> csize (evidence_json e) \<le> 1090"
proof -
  obtain ch r detail where e: "e = (ch, r, detail)" by (cases e)
  assume "case e of (_, _, detail) \<Rightarrow> pred_opt brief_text detail"
  then have "csize (nullable JStr detail) \<le> 1026" using e csize_nullable [of brief_text detail JStr 1026] brief_size by auto
  with name_sizes(8) [of ch] name_sizes(9) [of r] e show ?thesis
    by (simp add: evidence_json_def csize_JObj key_size del: csize.simps(5,7))
qed

lemma release_size: "release_schema r \<Longrightarrow> csize (release_json r) \<le> 363"
  using version_size [of "fst r"] csize_nullable [of is_digest "snd r" JStr 73] ascii_size(1)
  by (simp add: release_schema_def release_json_def csize_JObj key_size del: csize.simps(5,7))

lemma recovery_size: "recovery_schema r \<Longrightarrow> csize (recovery_json r) \<le> 133"
  using ascii_size(1) [of "snd r"] ascii_size(2) [of "fst r"]
  by (simp add: recovery_json_def recovery_schema_def csize_JObj key_size del: csize.simps(5,7))

lemma journal_size:
  assumes j: "journal_schema j" and len: "length (jn_checkpoints j) \<le> 23"
  shows "csize (journal_json j) \<le> JOURNAL_MAX_BYTES"
proof -
  note schema = j [unfolded journal_schema_def]
  have digests: "csize (nullable JStr (jn_plan_digest j)) \<le> 73" "csize (nullable JStr (jn_identity_digest j)) \<le> 73"
    using schema ascii_size(1) by (auto intro: csize_nullable [of is_digest])
  have releases: "csize (nullable release_json (jn_source j)) \<le> 363" "csize (nullable release_json (jn_target j)) \<le> 363"
    using schema release_size by (auto intro: csize_nullable [of release_schema])
  have recovery: "csize (nullable recovery_json (jn_recovery j)) \<le> 133"
    using schema recovery_size by (auto intro!: csize_nullable [of recovery_schema])
  have "\<forall>e\<in>set (jn_evidence j). csize (evidence_json e) \<le> 1090"
    using schema by (intro ballI evidence_size) (simp add: list_all_iff)
  then have "csize (JArr (map evidence_json (jn_evidence j))) \<le> 2 + length (jn_evidence j) * 1091"
    using csize_JArr [of "map evidence_json (jn_evidence j)" 1090] by auto
  then have evidence: "csize (JArr (map evidence_json (jn_evidence j))) \<le> 2 + 16 * 1091" using schema by linarith
  have "csize (JArr (map checkpoint_json (jn_checkpoints j))) \<le> 2 + length (jn_checkpoints j) * 1321"
    using csize_JArr [of "map checkpoint_json (jn_checkpoints j)" 1320] checkpoint_size schema by (auto simp: list_all_iff)
  then have records: "csize (JArr (map checkpoint_json (jn_checkpoints j))) \<le> 2 + 23 * 1321" using len by linarith
  have rest: "csize (JStr (jn_operation_id j)) \<le> 23" "csize (JStr (jn_started_at j)) \<le> 29" "csize (JStr (jn_updated_at j)) \<le> 29"
    using schema ascii_size by auto
  show ?thesis
    using digests releases recovery evidence records rest name_sizes(2) [of "jn_kind j"] name_sizes(3) [of "jn_action j"]
      name_sizes(4) [of "jn_adapter j"]
    by (simp add: journal_json_def csize_JObj key_size JOURNAL_MAX_BYTES_def del: csize.simps(5,6,7))
qed

lemma canonical_fits:
  assumes "canonicalize (journal_json j) = Inr t" "journal_schema j" "journal_rules j = None"
  shows "utf8_length t \<le> JOURNAL_MAX_BYTES"
proof -
  have "length (jn_checkpoints j) \<le> 23"
    using assms(3) lc_run_length [of "jn_kind j" "jn_action j" "jn_checkpoints j"]
    by (fastforce simp: journal_rules_None records_ok_iff_run)
  from journal_size [OF assms(2) this] canonical_size [OF assms(1) [unfolded canonicalize_def]] show ?thesis by simp
qed

lemma ascii_no_surrogate: "\<forall>c\<in>set s. ascii_c c \<Longrightarrow> \<not> list_ex is_surrogate s"
  by (auto simp: list_ex_iff ascii_c_def is_surrogate_def)

lemma name_ok: "canonical_ok (name_json s) d \<longleftrightarrow> d \<le> MAX_DEPTH"
proof -
  have "\<not> is_surrogate (of_char c)" for c :: char
  proof -
    have "(of_char c :: int) = int (of_char c)" by (simp add: of_nat_of_char)
    moreover have "(of_char c :: nat) < 256" by simp
    ultimately show ?thesis unfolding is_surrogate_def by linarith
  qed
  then show ?thesis by (auto simp: name_json_def list_ex_iff)
qed

lemma canonical_nullable:
  "canonical_ok (nullable f x) d \<longleftrightarrow> (case x of None \<Rightarrow> d \<le> MAX_DEPTH | Some a \<Rightarrow> canonical_ok (f a) d)"
  by (simp add: nullable_def split: option.split)

lemma member_ok:
  "fullmatch key_re (lit k) \<Longrightarrow> (\<forall>(k, v)\<in>set (member k f x). fullmatch key_re k \<and> canonical_ok v d) \<longleftrightarrow> pred_opt (\<lambda>a. canonical_ok (f a) d) x"
  by (simp add: member_def pred_opt_def split: option.split)

lemma many_full: "[] \<in> set (many_rests P s) \<longleftrightarrow> (\<forall>c\<in>set s. P c)"
  by (induction s) auto

lemma key_ok: "fullmatch key_re (c # cs) \<longleftrightarrow> lower_c c \<and> (\<forall>c\<in>set cs. lower_c c \<or> digit_c c \<or> one_of ''_'' c)"
  by (simp add: fullmatch_def key_re_def many_full)

lemmas key_simps = key_ok lower_c_def digit_c_def one_of_def between_def

lemma checkpoint_ok:
  assumes "checkpoint_schema c" "d + 2 \<le> MAX_DEPTH"
  shows "canonical_ok (checkpoint_json c) d \<longleftrightarrow> cp_sequence c \<le> MAX_SAFE \<and> pred_opt (no_surrogate \<circ> snd) (cp_error c)"
proof -
  have step: "pred_opt (\<lambda>a. canonical_ok (JStr a) (d + 1)) (cp_step c)"
    using assms ascii_strings(4) ascii_no_surrogate by (auto simp: checkpoint_schema_def pred_opt_def split: option.splits)
  have stamp: "canonical_ok (JStr (cp_at c)) (d + 1)"
    using assms ascii_strings(3) [of "cp_at c"] ascii_no_surrogate [of "cp_at c"] by (simp add: checkpoint_schema_def)
  have err: "pred_opt (\<lambda>a. canonical_ok (case a of (code, reason) \<Rightarrow> JObj [(lit ''code'', name_json (exit_text code)), (lit ''reason'', JStr reason)]) (d + 1)) (cp_error c)
      \<longleftrightarrow> pred_opt (no_surrogate \<circ> snd) (cp_error c)"
    using assms(2) by (auto simp: pred_opt_def no_surrogate_def name_ok key_simps split: option.splits)
  show ?thesis
    unfolding checkpoint_json_def canonical_ok.simps set_append ball_Un
    using assms step stamp err
    by (simp add: member_ok key_simps name_ok checkpoint_schema_def pred_opt_def del: canonical_ok.simps(2,5) split: option.splits)
qed

lemma ascii_ok:
  assumes "is_digest s \<or> valid_operation_id s \<or> is_timestamp s"
  shows "canonical_ok (JStr s) d \<longleftrightarrow> d \<le> MAX_DEPTH"
  using assms ascii_strings [of s] ascii_no_surrogate [of s] by auto

lemma digest_ok: "pred_opt is_digest x \<Longrightarrow> canonical_ok (nullable JStr x) d \<longleftrightarrow> d \<le> MAX_DEPTH"
  using ascii_ok [of _ d] by (auto simp: nullable_def pred_opt_def simp del: canonical_ok.simps(2) split: option.splits)

lemma evidence_ok:
  assumes "d + 1 \<le> MAX_DEPTH"
  shows "canonical_ok (evidence_json e) d \<longleftrightarrow> (case e of (_, _, detail) \<Rightarrow> pred_opt no_surrogate detail)"
  using assms by (cases e) (simp add: evidence_json_def nullable_def pred_opt_def no_surrogate_def name_ok key_simps split: option.split)

lemma release_ok:
  assumes "release_schema r" "d + 1 \<le> MAX_DEPTH"
  shows "canonical_ok (release_json r) d \<longleftrightarrow> (no_surrogate \<circ> fst) r"
  using assms digest_ok [of "snd r" "d + 1"]
  by (simp add: release_json_def release_schema_def no_surrogate_def key_simps)

lemma recovery_ok:
  assumes "recovery_schema r" "d + 1 \<le> MAX_DEPTH"
  shows "canonical_ok (recovery_json r) d"
  using assms ascii_ok [of "fst r" "d + 1"] ascii_ok [of "snd r" "d + 1"]
  by (simp add: recovery_json_def recovery_schema_def key_simps del: canonical_ok.simps(2))

lemma journal_canonical:
  assumes "journal_schema j"
  shows "(\<exists>t. canonicalize (journal_json j) = Inr t) \<longleftrightarrow> journal_plain j"
proof -
  note schema = assms [unfolded journal_schema_def]
  have releases: "canonical_ok (nullable release_json (jn_source j)) 1 \<longleftrightarrow> pred_opt (no_surrogate \<circ> fst) (jn_source j)"
    "canonical_ok (nullable release_json (jn_target j)) 1 \<longleftrightarrow> pred_opt (no_surrogate \<circ> fst) (jn_target j)"
    using schema release_ok [of _ 1] by (auto simp: nullable_def pred_opt_def MAX_DEPTH_def split: option.splits)
  have recovery: "canonical_ok (nullable recovery_json (jn_recovery j)) 1"
    using schema recovery_ok [of _ 1] by (auto simp: nullable_def pred_opt_def MAX_DEPTH_def split: option.splits)
  have records: "canonical_ok (JArr (map checkpoint_json (jn_checkpoints j))) 1 \<longleftrightarrow>
      list_all (\<lambda>c. cp_sequence c \<le> MAX_SAFE \<and> pred_opt (no_surrogate \<circ> snd) (cp_error c)) (jn_checkpoints j)"
    using schema checkpoint_ok [of _ 2] by (auto simp: list_all_iff MAX_DEPTH_def numeral_2_eq_2)
  have evidence: "canonical_ok (JArr (map evidence_json (jn_evidence j))) 1 \<longleftrightarrow>
      list_all (\<lambda>(_, _, detail). pred_opt no_surrogate detail) (jn_evidence j)"
    using evidence_ok [of 2] by (auto simp: list_all_iff MAX_DEPTH_def numeral_2_eq_2)
  have texts: "canonical_ok (JStr (jn_operation_id j)) 1" "canonical_ok (JStr (jn_started_at j)) 1" "canonical_ok (JStr (jn_updated_at j)) 1"
    "canonical_ok (nullable JStr (jn_plan_digest j)) 1" "canonical_ok (nullable JStr (jn_identity_digest j)) 1"
    using schema ascii_ok [of _ 1] digest_ok [of _ 1] by (simp_all add: MAX_DEPTH_def del: canonical_ok.simps(2))
  have num: "canonical_ok (JInt 1) 1" "canonical_ok (JInt (jn_generation j)) 1 \<longleftrightarrow> jn_generation j \<le> MAX_SAFE"
    using schema by (auto simp: MAX_SAFE_def MAX_DEPTH_def)
  have "canonical_ok (journal_json j) 0 \<longleftrightarrow> journal_plain j"
    unfolding journal_json_def canonical_ok.simps(5)
    using releases recovery records evidence texts num
    by (simp add: key_simps name_ok journal_plain_def MAX_DEPTH_def del: canonical_ok.simps) argo
  then show ?thesis by (simp add: canonicalize_def canonical_ok_iff del: canonical.simps)
qed

text \<open>Validation without the size check, which never decides.\<close>

lemma validate_journal_None: "validate_journal j = None \<longleftrightarrow> journal_schema j \<and> journal_plain j \<and> journal_rules j = None"
proof (cases "journal_schema j")
  case True
  then show ?thesis using journal_canonical [OF True] canonical_fits [OF _ True]
    by (cases "journal_rules j") (auto simp: validate_journal_def split: sum.splits if_splits)
qed (auto simp: validate_journal_def split: sum.splits if_splits)

text \<open>Evaluation decides the schema and the rules first.\<close>

lemma validate_journal_code [code]:
  "validate_journal j =
     (if journal_schema j \<and> journal_plain j \<and> journal_rules j = None then None
      else case canonicalize (journal_json j) of
        Inl e \<Rightarrow> Some (Not_canonical e)
      | Inr t \<Rightarrow>
          if utf8_length t > JOURNAL_MAX_BYTES then Some (Too_large (utf8_length t))
          else if \<not> journal_schema j then Some Bad_shape
          else map_option Rule_broken (journal_rules j))"
  using validate_journal_None [of j] by (simp flip: validate_journal_def)

text \<open>
  C39. \<^bold>\<open>The size limit never refuses a legal journal.\<close> A journal that satisfies the schema and the
  rules takes at most 64 KiB in canonical form, with 16 evidence entries, 23 records and every reason
  256 four-byte characters long.
\<close>

theorem legal_journal_fits:
  assumes "journal_schema j" "journal_rules j = None"
  shows "case canonicalize (journal_json j) of Inr t \<Rightarrow> utf8_length t \<le> JOURNAL_MAX_BYTES | Inl e \<Rightarrow> \<not> journal_plain j"
  using canonical_fits [OF _ assms] journal_canonical [OF assms(1)] by (auto split: sum.split)

lemma longest_journal_schema: "journal_schema longest_journal"
  by code_simp

theorem legal_journal_fits_witness:
  "journal_schema longest_journal \<and>
   (case canonicalize (journal_json longest_journal) of Inr t \<Rightarrow> utf8_length t \<le> JOURNAL_MAX_BYTES | Inl e \<Rightarrow> \<not> journal_plain longest_journal)"
  using legal_journal_fits [OF longest_journal_schema longest_journal_legal] longest_journal_schema by blast

end
