(* ===== verification/Lifecycle_Store.thy ===== *)
theory Lifecycle_Store
  imports Lifecycle_Schema "HOL-Library.Product_Lexorder"
begin

text \<open>
  The state tree of the native lifecycle utility and its five requests (\<open>deploy/scripts/lifecycle-state.py\<close>):
  one directory per operation with a journal and a sequence counter, every write an atomic
  replacement that may fail before or after its rename, the reconciliation of operations whose
  process is gone, the history index and the retention of recovery points.

  A file is what reading it yields: the bytes of a journal that do not parse are \<open>Unreadable\<close>. The checks
  of owners, modes and links of the tree are the environment's (\<open>en_tree\<close>, \<open>en_held\<close>, \<open>Unreadable\<close>), and so is the
  outcome of every write. Messages are represented by the fact they report.
\<close>

subsection \<open>State\<close>

datatype journal_file = No_journal | Unreadable utext bool | Document journal

record op_dir =
  od_name :: utext
  od_sequence :: "utext option"
  od_journal :: journal_file

datatype doubt =
    Not_an_operation | Journal_missing | Journal_unreadable utext | Journal_refused journal_problem | Names_another utext

record lc_record =
  rc_name :: utext
  rc_journal :: "journal option"
  rc_doubt :: doubt
  rc_unsupported :: bool

record summary =
  sm_operation_id :: utext
  sm_kind :: lc_kind
  sm_action :: lc_action
  sm_adapter :: lc_adapter
  sm_state :: lc_state
  sm_outcome :: "lc_outcome option"
  sm_checkpoint :: "lc_state option"
  sm_started_at :: utext
  sm_updated_at :: utext
  sm_source_version :: "utext option"
  sm_target_version :: "utext option"
  sm_recovery_available :: bool

datatype index_entry = Operation summary | Inspection utext doubt

record store =
  st_ops :: "op_dir list"
  st_index :: "(utext \<times> index_entry list) option"

subsection \<open>The environment of a request\<close>

text \<open>
  An atomic write succeeds, fails before its rename, or fails after it, when only the flush of the
  directory is missing. Writing the index may also be refused by its own validation.
\<close>

datatype write_outcome = W_ok | W_lost | W_unsynced

datatype index_outcome = X_ok | X_refused | X_lost | X_unsynced

record env =
  en_tree :: bool
  en_held :: bool
  en_bound :: utext
  en_owner :: utext
  en_alive :: bool
  en_now :: utext
  en_index_now :: utext
  en_abandon_now :: "utext \<Rightarrow> utext"
  en_open :: "utext \<Rightarrow> bool"
  en_seq :: "utext \<Rightarrow> write_outcome"
  en_jrn :: "utext \<Rightarrow> write_outcome"
  en_stage :: write_outcome
  en_index :: index_outcome

datatype refusal =
    Lock_not_held | Not_an_operation_id | Lock_bound_elsewhere | Lock_bound | No_operation | Inspect_first doubt
  | Stale_generation | Incomplete_error | Incomplete_evidence | Incomplete_recovery | Other_recovery_point | Not_a_version
  | Contract journal_problem | Unfinished_first "utext list" | No_id_left | Not_durable | Bad_event | Index_refused

datatype warning =
    Cannot_open utext | No_legal_interruption utext | Needs_inspection utext doubt | Legacy_unfinished utext lc_action
  | Index_not_updated | Index_truncated nat

type_synonym state_error = "exit_name \<times> refusal \<times> warning list"

definition require_lock :: "env \<Rightarrow> state_error + utext" where
  "require_lock e =
     (if \<not> en_held e then Inl (USAGE, Lock_not_held, [])
      else if en_bound e \<noteq> [] \<and> \<not> valid_operation_id (en_bound e) then Inl (USAGE, Not_an_operation_id, [])
      else if en_owner e \<noteq> en_bound e then Inl (USAGE, Lock_bound_elsewhere, [])
      else Inr (en_bound e))"

definition locked_tree :: "env \<Rightarrow> state_error + utext" where
  "locked_tree e = (if \<not> en_tree e then Inl (USAGE, Lock_not_held, []) else require_lock e)"

definition write_atomic :: "write_outcome \<Rightarrow> ('s \<Rightarrow> 's) \<Rightarrow> 's \<Rightarrow> bool \<times> 's" where
  "write_atomic w f s = (case w of W_ok \<Rightarrow> (True, f s) | W_lost \<Rightarrow> (False, s) | W_unsynced \<Rightarrow> (False, f s))"

subsection \<open>Reading\<close>

definition read_record :: "op_dir \<Rightarrow> lc_record" where
  "read_record d =
     (let doubtful = (\<lambda>r u. \<lparr>rc_name = od_name d, rc_journal = None, rc_doubt = r, rc_unsupported = u\<rparr>) in
      if \<not> valid_operation_id (od_name d) then doubtful Not_an_operation False
      else case od_journal d of
        No_journal \<Rightarrow> doubtful Journal_missing False
      | Unreadable reason unsupported \<Rightarrow> doubtful (Journal_unreadable reason) unsupported
      | Document j \<Rightarrow>
          (case validate_journal j of
             Some p \<Rightarrow> doubtful (Journal_refused p) False
           | None \<Rightarrow>
               if jn_operation_id j \<noteq> od_name d then doubtful (Names_another (jn_operation_id j)) False
               else \<lparr>rc_name = od_name d, rc_journal = Some j, rc_doubt = Journal_missing, rc_unsupported = False\<rparr>))"

definition hidden :: "op_dir \<Rightarrow> bool" where
  "hidden d = prefix (lit ''.'') (od_name d)"

definition read_records :: "store \<Rightarrow> lc_record list" where
  "read_records s = map read_record (filter (\<lambda>d. \<not> hidden d) (sort_key od_name (st_ops s)))"

subsection \<open>The sequence counter\<close>

definition counter_text :: "int \<Rightarrow> utext" where
  "counter_text n = lit (int_str n) @ lit [CHR 0x0A]"

definition strip_text :: "utext \<Rightarrow> utext" where
  "strip_text t = (let ws = (\<lambda>c. c = 0x20 \<or> (9 \<le> c \<and> c \<le> 0x0D) \<or> (0x1C \<le> c \<and> c \<le> 0x1F)) in rev (dropWhile ws (rev (dropWhile ws t))))"

definition counter_re :: re where
  "counter_re = Seq (Cls (between CHR ''1'' CHR ''9'')) (at_most 15 digit_c)"

definition read_counter :: "op_dir \<Rightarrow> int" where
  "read_counter d =
     (case od_sequence d of
        None \<Rightarrow> 0
      | Some raw \<Rightarrow> let t = strip_text (take 32 raw) in if fullmatch counter_re t then decimal t else 0)"

definition next_sequence :: "op_dir \<Rightarrow> journal \<Rightarrow> int" where
  "next_sequence d j =
     (let durable = foldr (\<lambda>c m. max (cp_sequence c) m) (butlast (jn_checkpoints j)) (cp_sequence (last_record j)) in
      max (read_counter d) durable + 1)"

definition set_counter :: "utext \<Rightarrow> int \<Rightarrow> store \<Rightarrow> store" where
  "set_counter op n s = s\<lparr>st_ops := tbl_upd od_name op (\<lambda>d. d\<lparr>od_sequence := Some (counter_text n)\<rparr>) (st_ops s)\<rparr>"

definition set_journal :: "utext \<Rightarrow> journal \<Rightarrow> store \<Rightarrow> store" where
  "set_journal op j s = s\<lparr>st_ops := tbl_upd od_name op (\<lambda>d. d\<lparr>od_journal := Document j\<rparr>) (st_ops s)\<rparr>"

text \<open>The two durable writes of a record: the counter, then the journal.\<close>

definition write_record :: "env \<Rightarrow> utext \<Rightarrow> int \<Rightarrow> journal \<Rightarrow> store \<Rightarrow> bool \<times> store" where
  "write_record e op n j s =
     (case write_atomic (en_seq e op) (set_counter op n) s of
        (False, s) \<Rightarrow> (False, s)
      | (True, s) \<Rightarrow> write_atomic (en_jrn e op) (set_journal op j) s)"

subsection \<open>The history index and retention\<close>

definition summary_of :: "journal \<Rightarrow> summary" where
  "summary_of j = (let r = last_record j in
     \<lparr>sm_operation_id = jn_operation_id j, sm_kind = jn_kind j, sm_action = jn_action j, sm_adapter = jn_adapter j,
      sm_state = cp_state r, sm_outcome = cp_outcome r, sm_checkpoint = cp_checkpoint r, sm_started_at = jn_started_at j,
      sm_updated_at = jn_updated_at j, sm_source_version = map_option fst (jn_source j),
      sm_target_version = map_option fst (jn_target j), sm_recovery_available = (jn_recovery j \<noteq> None)\<rparr>)"

text \<open>\<open>sorted(xs, key=f, reverse=True)\<close>, which keeps the order of equal keys.\<close>

definition sorted_reverse :: "('a \<Rightarrow> 'k::linorder) \<Rightarrow> 'a list \<Rightarrow> 'a list" where
  "sorted_reverse f xs = rev (sort_key f (rev xs))"

definition journals_of :: "lc_record list \<Rightarrow> journal list" where
  "journals_of records = List.map_filter rc_journal records"

definition INDEX_MAX :: nat where
  "INDEX_MAX = 100"

definition index_entries :: "lc_record list \<Rightarrow> index_entry list" where
  "index_entries records =
     (let journals = journals_of records;
          unfinished = sorted_reverse (\<lambda>j. (jn_started_at j, jn_operation_id j)) (filter (\<lambda>j. \<not> finished j) journals);
          closed = sorted_reverse (\<lambda>j. (jn_updated_at j, jn_operation_id j)) (filter finished journals) in
      map (\<lambda>j. Operation (summary_of j)) unfinished @
      map (\<lambda>r. Inspection (rc_name r) (rc_doubt r)) (filter (\<lambda>r. rc_journal r = None) records) @
      map (\<lambda>j. Operation (summary_of j)) closed)"

definition build_index :: "utext \<Rightarrow> lc_record list \<Rightarrow> (utext \<times> index_entry list) \<times> nat" where
  "build_index now records = (let entries = index_entries records in ((now, take INDEX_MAX entries), length entries - INDEX_MAX))"

definition write_index :: "env \<Rightarrow> lc_record list \<Rightarrow> store \<Rightarrow> (exit_name + nat) \<times> store" where
  "write_index e records s =
     (case build_index (en_index_now e) records of (index, omitted) \<Rightarrow>
        let written = s\<lparr>st_index := Some index\<rparr> in
        (case en_index e of
           X_ok \<Rightarrow> (Inr omitted, written)
         | X_refused \<Rightarrow> (Inl USAGE, s)
         | X_lost \<Rightarrow> (Inl PREFLIGHT, s)
         | X_unsynced \<Rightarrow> (Inl PREFLIGHT, written)))"

definition index_quietly :: "env \<Rightarrow> lc_record list \<Rightarrow> store \<Rightarrow> warning list \<times> store" where
  "index_quietly e records s =
     (case write_index e records s of
        (Inl _, s) \<Rightarrow> ([Index_not_updated], s)
      | (Inr omitted, s) \<Rightarrow> (if omitted > 0 then [Index_truncated (length records - omitted)] else [], s))"

definition ref_of :: "utext \<times> utext \<Rightarrow> utext" where
  "ref_of r = fst r @ lit '':'' @ snd r"

definition protected_refs :: "lc_record list \<Rightarrow> utext list" where
  "protected_refs records =
     (let held = filter (\<lambda>j. jn_recovery j \<noteq> None) (journals_of records);
          committed = sort_key (\<lambda>j. (jn_updated_at j, jn_operation_id j))
                        (filter (\<lambda>j. cp_outcome (last_record j) = Some Out_committed) held);
          ref = (\<lambda>j. ref_of (the (jn_recovery j))) in
      map ref (filter (\<lambda>j. \<not> finished j) held) @ (if committed = [] then [] else [ref (last committed)]))"

definition retention :: "lc_record list \<Rightarrow> utext list \<times> utext list \<times> bool" where
  "retention records =
     (let held = List.map_filter jn_recovery (journals_of records); protected = protected_refs records;
          full = list_all (\<lambda>r. rc_journal r \<noteq> None) records;
          releasable = (if full then sort (remdups (filter (\<lambda>r. r \<notin> set protected) (map ref_of held))) else []) in
      (sort (remdups protected), releasable, full))"

subsection \<open>Reconciliation\<close>

text \<open>The \<open>interrupted\<close> record of an operation whose process is gone.\<close>

definition abandoned_entry :: "int \<Rightarrow> utext \<Rightarrow> checkpoint \<Rightarrow> checkpoint" where
  "abandoned_entry n stamp previous =
     \<lparr>cp_sequence = n, cp_state = Interrupted, cp_at = stamp, cp_step = None, cp_cause = Some Abandoned,
      cp_checkpoint = Some (cp_state previous),
      cp_outcome = (if cp_state previous \<in> set pre_mutation then Some Out_interrupted else None), cp_error = None\<rparr>"

definition abandoned_journal :: "op_dir \<Rightarrow> utext \<Rightarrow> journal \<Rightarrow> journal" where
  "abandoned_journal d stamp j =
     j\<lparr>jn_checkpoints := jn_checkpoints j @ [abandoned_entry (next_sequence d j) stamp (last_record j)],
       jn_generation := jn_generation j + 1, jn_updated_at := stamp\<rparr>"

definition op_dir_of :: "store \<Rightarrow> utext \<Rightarrow> op_dir" where
  "op_dir_of s op = the (tbl_get od_name op (st_ops s))"

definition abandon :: "env \<Rightarrow> lc_record \<Rightarrow> journal \<Rightarrow> store \<Rightarrow> (state_error + lc_record \<times> warning list) \<times> store" where
  "abandon e r j s =
     (let d = op_dir_of s (rc_name r); updated = abandoned_journal d (en_abandon_now e (rc_name r)) j in
      if \<not> en_open e (rc_name r) then (Inr (r, [Cannot_open (rc_name r)]), s)
      else if validate_journal updated \<noteq> None then (Inr (r, [No_legal_interruption (rc_name r)]), s)
      else case write_record e (rc_name r) (next_sequence d j) updated s of
             (True, s) \<Rightarrow> (Inr (r\<lparr>rc_journal := Some updated\<rparr>, []), s)
           | (False, s) \<Rightarrow> (Inl (PREFLIGHT, Not_durable, []), s))"

fun reconcile :: "env \<Rightarrow> utext \<Rightarrow> lc_record list \<Rightarrow> store \<Rightarrow> (state_error + lc_record list \<times> warning list) \<times> store" where
  "reconcile e bound [] s = (Inr ([], []), s)"
| "reconcile e bound (r # rs) s =
     (case (if rc_name r \<noteq> bound then rc_journal r else None) of
        Some j \<Rightarrow>
          if in_progress j
          then (case abandon e r j s of
                  (Inl err, s) \<Rightarrow> (Inl err, s)
                | (Inr (r', ws), s) \<Rightarrow>
                    (case reconcile e bound rs s of
                       (Inl err, s) \<Rightarrow> (Inl err, s)
                     | (Inr (rs', ws'), s) \<Rightarrow> (Inr (r' # rs', ws @ ws'), s)))
          else (case reconcile e bound rs s of
                  (Inl err, s) \<Rightarrow> (Inl err, s) | (Inr (rs', ws'), s) \<Rightarrow> (Inr (r # rs', ws'), s))
      | None \<Rightarrow> (case reconcile e bound rs s of
                  (Inl err, s) \<Rightarrow> (Inl err, s) | (Inr (rs', ws'), s) \<Rightarrow> (Inr (r # rs', ws'), s)))"

subsection \<open>Requests\<close>

record attachments =
  rq_recovery_operation_id :: "utext option"
  rq_recovery_manifest_digest :: "utext option"
  rq_evidence_check :: "evidence_check option"
  rq_evidence_result :: "evidence_result option"
  rq_evidence_detail :: "utext option"

record begin_request = attachments +
  br_kind :: lc_kind
  br_action :: lc_action
  br_adapter :: lc_adapter
  br_plan_digest :: "utext option"
  br_identity_digest :: "utext option"
  br_source_version :: "utext option"
  br_source_artifact_digest :: "utext option"
  br_target_version :: "utext option"
  br_target_artifact_digest :: "utext option"

record checkpoint_request = attachments +
  cr_operation_id :: utext
  cr_expected_generation :: int
  cr_state :: lc_state
  cr_step :: "utext option"
  cr_cause :: "lc_cause option"
  cr_outcome :: "lc_outcome option"
  cr_error_code :: "exit_name option"
  cr_error_reason :: "utext option"

definition version_of :: "utext option \<Rightarrow> lc_kind \<Rightarrow> refusal + utext option" where
  "version_of value kind =
     (case value of
        None \<Rightarrow> Inr None
      | Some v \<Rightarrow> if installed_version v then Inr (Some v) else if kind = Legacy then Inr None else Inl Not_a_version)"

definition evidence_of :: "('a attachments_scheme) \<Rightarrow> refusal + evidence_item option" where
  "evidence_of rq =
     (case (rq_evidence_check rq, rq_evidence_result rq, rq_evidence_detail rq) of
        (None, None, None) \<Rightarrow> Inr None
      | (Some check, Some result, detail) \<Rightarrow> Inr (Some (check, result, map_option (\<lambda>d. redact_text d 256 False) detail))
      | _ \<Rightarrow> Inl Incomplete_evidence)"

definition recovery_of :: "('a attachments_scheme) \<Rightarrow> refusal + (utext \<times> utext) option" where
  "recovery_of rq =
     (case (rq_recovery_operation_id rq, rq_recovery_manifest_digest rq) of
        (None, None) \<Rightarrow> Inr None
      | (Some op, Some digest) \<Rightarrow> Inr (Some (op, digest))
      | _ \<Rightarrow> Inl Incomplete_recovery)"

definition release_of :: "utext option \<Rightarrow> utext option \<Rightarrow> (utext \<times> utext option) option" where
  "release_of version digest = map_option (\<lambda>v. (v, digest)) version"

definition valid_or_usage :: "journal \<Rightarrow> refusal + journal" where
  "valid_or_usage j = (case validate_journal j of None \<Rightarrow> Inr j | Some p \<Rightarrow> Inl (Contract p))"

text \<open>The record a checkpoint request asks for, and the journal with it.\<close>

definition requested_entry :: "int \<Rightarrow> utext \<Rightarrow> checkpoint \<Rightarrow> checkpoint_request \<Rightarrow> refusal + checkpoint" where
  "requested_entry n stamp previous rq =
     (let entry = \<lparr>cp_sequence = n, cp_state = cr_state rq, cp_at = stamp, cp_step = cr_step rq, cp_cause = cr_cause rq,
                   cp_checkpoint = (if cr_state rq = Interrupted then Some (cp_state previous) else None),
                   cp_outcome = cr_outcome rq, cp_error = None\<rparr> in
      case (cr_error_code rq, cr_error_reason rq) of
        (None, None) \<Rightarrow> Inr entry
      | (Some code, Some reason) \<Rightarrow> Inr (entry\<lparr>cp_error := Some (code, redact_text reason 256 False)\<rparr>)
      | _ \<Rightarrow> Inl Incomplete_error)"

definition replaces_step :: "checkpoint \<Rightarrow> checkpoint \<Rightarrow> bool" where
  "replaces_step previous entry = (cp_step entry \<noteq> None \<and> cp_step previous \<noteq> None \<and> cp_state previous = cp_state entry)"

definition updated_journal :: "utext \<Rightarrow> journal \<Rightarrow> checkpoint \<Rightarrow> (utext \<times> utext) option \<Rightarrow> evidence_item option \<Rightarrow> journal" where
  "updated_journal stamp j entry wanted item =
     j\<lparr>jn_checkpoints := (if replaces_step (last_record j) entry then butlast (jn_checkpoints j) else jn_checkpoints j) @ [entry],
       jn_generation := jn_generation j + 1, jn_updated_at := stamp,
       jn_recovery := (if wanted \<noteq> None then wanted else jn_recovery j),
       jn_evidence := jn_evidence j @ (case item of None \<Rightarrow> [] | Some i \<Rightarrow> [i])\<rparr>"

definition next_journal :: "op_dir \<Rightarrow> utext \<Rightarrow> journal \<Rightarrow> checkpoint_request \<Rightarrow> refusal + journal \<times> checkpoint" where
  "next_journal d stamp j rq =
     bind_sum (requested_entry (next_sequence d j) stamp (last_record j) rq) (\<lambda>entry.
     bind_sum (recovery_of rq) (\<lambda>wanted.
       if wanted \<noteq> None \<and> jn_recovery j \<noteq> None \<and> jn_recovery j \<noteq> wanted then Inl Other_recovery_point else
     bind_sum (evidence_of rq) (\<lambda>item.
     bind_sum (valid_or_usage (updated_journal stamp j entry wanted item)) (\<lambda>updated.
       Inr (updated, entry)))))"

subsection \<open>Events\<close>

datatype emit_type = Phase | Progress | Diagnostic

datatype phase_status = Started | Completed | Failed | Skipped

record emit_request =
  er_operation_id :: utext
  er_type :: emit_type
  er_phase :: "utext option"
  er_status :: "phase_status option"
  er_duration_ms :: "int option"
  er_done :: "int option"
  er_total :: "int option"
  er_unit :: "utext option"
  er_level :: "utext option"
  er_message :: "utext option"
  er_code :: "exit_name option"

datatype event =
    Checkpoint_event utext int utext lc_state int
  | Emitted_event utext int utext emit_request

definition checkpoint_event :: "journal \<Rightarrow> event" where
  "checkpoint_event j = (let r = last_record j in Checkpoint_event (jn_operation_id j) (cp_sequence r) (cp_at r) (cp_state r) (jn_generation j))"

text \<open>The members each type of event takes: those it needs, and those it may have.\<close>

definition needed_members :: "emit_request \<Rightarrow> bool" where
  "needed_members rq =
     (case er_type rq of
        Phase \<Rightarrow> er_phase rq \<noteq> None \<and> er_status rq \<noteq> None
      | Progress \<Rightarrow> er_phase rq \<noteq> None \<and> er_done rq \<noteq> None \<and> er_unit rq \<noteq> None
      | Diagnostic \<Rightarrow> er_level rq \<noteq> None \<and> er_message rq \<noteq> None)"

definition only_members :: "emit_request \<Rightarrow> bool" where
  "only_members rq =
     (case er_type rq of
        Phase \<Rightarrow> er_done rq = None \<and> er_total rq = None \<and> er_unit rq = None \<and> er_level rq = None \<and> er_message rq = None \<and> er_code rq = None
      | Progress \<Rightarrow> er_status rq = None \<and> er_duration_ms rq = None \<and> er_level rq = None \<and> er_message rq = None \<and> er_code rq = None
      | Diagnostic \<Rightarrow> er_phase rq = None \<and> er_status rq = None \<and> er_duration_ms rq = None \<and> er_done rq = None \<and> er_total rq = None \<and> er_unit rq = None)"

definition event_rules_ok :: "emit_request \<Rightarrow> bool" where
  "event_rules_ok rq =
     (\<not> (er_type rq = Phase \<and> er_duration_ms rq \<noteq> None \<and> er_status rq \<notin> {Some Completed, Some Failed}) \<and>
      \<not> (er_type rq = Progress \<and> er_total rq \<noteq> None \<and> the (er_total rq) < the (er_done rq)))"

definition emitted_event :: "emit_request \<Rightarrow> int \<Rightarrow> utext \<Rightarrow> refusal + event" where
  "emitted_event rq n now =
     (if \<not> only_members rq \<or> \<not> needed_members rq then Inl Bad_event
      else let members = (if er_type rq = Diagnostic then rq\<lparr>er_message := map_option (\<lambda>m. redact_text m 900 False) (er_message rq)\<rparr> else rq) in
           if n \<le> MAX_SAFE \<and> event_rules_ok members then Inr (Emitted_event (er_operation_id rq) n now members) else Inl Bad_event)"

subsection \<open>Handlers\<close>

datatype reply =
    Began utext "warning list" event
  | Recorded utext int int lc_state "warning list" event
  | Emitted utext int event
  | Listed "lc_record list" nat "utext list" "utext list" bool "warning list"
  | Inspected utext journal string

definition day_of :: "utext \<Rightarrow> utext" where
  "day_of stamp = filter (\<lambda>c. c \<noteq> of_char CHR ''-'') (take 10 stamp)"

definition id_number :: "utext \<Rightarrow> utext \<Rightarrow> int" where
  "id_number day name =
     (let p = lit ''op-'' @ day @ lit ''-'' in
      if prefix p name \<and> fullmatch (Seq (digits 3) (at_most 6 digit_c)) (drop (length p) name) then decimal (drop (length p) name) else 0)"

definition today_ids :: "utext list \<Rightarrow> utext \<Rightarrow> int" where
  "today_ids names day = foldr (\<lambda>name m. max (id_number day name) m) names 0"

text \<open>\<open>f"op-{day}-{number:03d}"\<close>\<close>

definition operation_id :: "utext \<Rightarrow> int \<Rightarrow> utext" where
  "operation_id day n = lit ''op-'' @ day @ lit ''-'' @ lit (replicate (3 - length (int_str n)) CHR ''0'' @ int_str n)"

definition MAX_ID :: int where
  "MAX_ID = 999999999"

definition first_journal :: "utext \<Rightarrow> utext \<Rightarrow> begin_request \<Rightarrow> refusal + journal" where
  "first_journal op stamp rq =
     bind_sum (version_of (br_source_version rq) (br_kind rq)) (\<lambda>source.
     bind_sum (version_of (br_target_version rq) (br_kind rq)) (\<lambda>target.
     bind_sum (recovery_of rq) (\<lambda>recovery.
     bind_sum (evidence_of rq) (\<lambda>item.
       valid_or_usage \<lparr>jn_operation_id = op, jn_kind = br_kind rq, jn_action = br_action rq, jn_adapter = br_adapter rq,
         jn_generation = 1, jn_plan_digest = br_plan_digest rq, jn_identity_digest = br_identity_digest rq,
         jn_source = release_of source (br_source_artifact_digest rq), jn_target = release_of target (br_target_artifact_digest rq),
         jn_recovery = recovery, jn_evidence = (case item of None \<Rightarrow> [] | Some i \<Rightarrow> [i]), jn_started_at = stamp, jn_updated_at = stamp,
         jn_checkpoints = [\<lparr>cp_sequence = 1, cp_state = initial_state (br_kind rq), cp_at = stamp, cp_step = None, cp_cause = None,
                            cp_checkpoint = None, cp_outcome = None, cp_error = None\<rparr>]\<rparr>))))"

definition blocking_ops :: "lc_kind \<Rightarrow> lc_record list \<Rightarrow> utext list" where
  "blocking_ops kind records =
     map rc_name (filter (\<lambda>r. case rc_journal r of Some j \<Rightarrow> jn_kind j = Transaction \<and> \<not> finished j | None \<Rightarrow> False) records) @
     (if kind = Transaction then map rc_name (filter (\<lambda>r. rc_journal r = None) records) else [])"

definition begin_warnings :: "lc_kind \<Rightarrow> lc_record list \<Rightarrow> warning list" where
  "begin_warnings kind records =
     (let doubtful = filter (\<lambda>r. rc_journal r = None) records in
      (if kind = Transaction \<and> doubtful \<noteq> [] then [] else map (\<lambda>r. Needs_inspection (rc_name r) (rc_doubt r)) doubtful) @
      List.map_filter (\<lambda>r. case rc_journal r of
          Some j \<Rightarrow> if jn_kind j = Legacy \<and> \<not> finished j then Some (Legacy_unfinished (rc_name r) (jn_action j)) else None
        | None \<Rightarrow> None) records)"

definition remove_staging :: "store \<Rightarrow> store" where
  "remove_staging s = s\<lparr>st_ops := filter (\<lambda>d. \<not> prefix (lit ''.new-'') (od_name d)) (st_ops s)\<rparr>"

definition new_dir :: "utext \<Rightarrow> journal \<Rightarrow> op_dir" where
  "new_dir op j = \<lparr>od_name = op, od_sequence = Some (counter_text 1), od_journal = Document j\<rparr>"

definition add_dir :: "op_dir \<Rightarrow> store \<Rightarrow> store" where
  "add_dir d s = s\<lparr>st_ops := st_ops s @ [d]\<rparr>"

definition valid_record :: "utext \<Rightarrow> journal \<Rightarrow> lc_record" where
  "valid_record op j = \<lparr>rc_name = op, rc_journal = Some j, rc_doubt = Journal_missing, rc_unsupported = False\<rparr>"

definition begin_new :: "env \<Rightarrow> begin_request \<Rightarrow> lc_record list \<Rightarrow> warning list \<Rightarrow> store \<Rightarrow> (state_error + reply) \<times> store" where
  "begin_new e rq records warnings s =
     (let day = day_of (en_now e); number = today_ids (map od_name (st_ops s)) day + 1; op = operation_id day number in
      if number > MAX_ID then (Inl (PREFLIGHT, No_id_left, []), s)
      else case first_journal op (en_now e) rq of
        Inl err \<Rightarrow> (Inl (USAGE, err, []), s)
      | Inr j \<Rightarrow>
          (case write_atomic (en_stage e) (add_dir (new_dir op j)) s of
             (False, s) \<Rightarrow> (Inl (PREFLIGHT, Not_durable, []), s)
           | (True, s) \<Rightarrow>
               (case index_quietly e (records @ [valid_record op j]) s of
                  (ws, s) \<Rightarrow> (Inr (Began op (warnings @ ws) (checkpoint_event j)), s))))"

definition handle_begin :: "env \<Rightarrow> begin_request \<Rightarrow> store \<Rightarrow> (state_error + reply) \<times> store" where
  "handle_begin e rq s =
     (case locked_tree e of
        Inl err \<Rightarrow> (Inl err, s)
      | Inr bound \<Rightarrow>
          if bound \<noteq> [] then (Inl (USAGE, Lock_bound, []), s)
          else let s = remove_staging s in
          (case reconcile e bound (read_records s) s of
             (Inl err, s) \<Rightarrow> (Inl err, s)
           | (Inr (records, ws), s) \<Rightarrow>
               let blocking = blocking_ops (br_kind rq) records; warnings = ws @ begin_warnings (br_kind rq) records in
               if blocking \<noteq> [] then
                 (case index_quietly e records s of (_, s) \<Rightarrow> (Inl (MANUAL, Unfinished_first (take 5 blocking), warnings), s))
               else begin_new e rq records warnings s))"

definition find_record :: "utext \<Rightarrow> store \<Rightarrow> state_error + op_dir \<times> journal" where
  "find_record op s =
     (case tbl_get od_name op (st_ops s) of
        None \<Rightarrow> Inl (USAGE, No_operation, [])
      | Some d \<Rightarrow>
          let r = read_record d in
          (case rc_journal r of
             None \<Rightarrow> Inl (if rc_unsupported r then UNSUPPORTED else MANUAL, Inspect_first (rc_doubt r), [])
           | Some j \<Rightarrow> Inr (d, j)))"

definition handle_checkpoint :: "env \<Rightarrow> checkpoint_request \<Rightarrow> store \<Rightarrow> (state_error + reply) \<times> store" where
  "handle_checkpoint e rq s =
     (let op = cr_operation_id rq in
      case locked_tree e of
        Inl err \<Rightarrow> (Inl err, s)
      | Inr bound \<Rightarrow>
          if bound \<noteq> op then (Inl (USAGE, Lock_bound_elsewhere, []), s)
          else case find_record op s of
            Inl err \<Rightarrow> (Inl err, s)
          | Inr (d, j) \<Rightarrow>
              if cr_expected_generation rq \<noteq> jn_generation j then (Inl (MANUAL, Stale_generation, []), s)
              else case next_journal d (en_now e) j rq of
                Inl err \<Rightarrow> (Inl (USAGE, err, []), s)
              | Inr (updated, entry) \<Rightarrow>
                  (case write_record e op (cp_sequence entry) updated s of
                     (False, s) \<Rightarrow> (Inl (PREFLIGHT, Not_durable, []), s)
                   | (True, s) \<Rightarrow>
                       (case index_quietly e (map (\<lambda>r. if rc_name r \<noteq> op then r else valid_record op updated) (read_records s)) s of
                          (ws, s) \<Rightarrow> (Inr (Recorded op (jn_generation updated) (cp_sequence entry) (cp_state entry) ws (checkpoint_event updated)), s))))"

definition handle_emit :: "env \<Rightarrow> emit_request \<Rightarrow> store \<Rightarrow> (state_error + reply) \<times> store" where
  "handle_emit e rq s =
     (let op = er_operation_id rq in
      case locked_tree e of
        Inl err \<Rightarrow> (Inl err, s)
      | Inr bound \<Rightarrow>
          if bound \<noteq> op then (Inl (USAGE, Lock_bound_elsewhere, []), s)
          else case find_record op s of
            Inl err \<Rightarrow> (Inl err, s)
          | Inr (d, j) \<Rightarrow>
              let n = next_sequence d j in
              (case emitted_event rq n (en_now e) of
                 Inl err \<Rightarrow> (Inl (USAGE, err, []), s)
               | Inr ev \<Rightarrow>
                   (case write_atomic (en_seq e op) (set_counter op n) s of
                      (False, s) \<Rightarrow> (Inl (PREFLIGHT, Not_durable, []), s)
                    | (True, s) \<Rightarrow> (Inr (Emitted op n ev), s))))"

definition handle_list :: "env \<Rightarrow> store \<Rightarrow> (state_error + reply) \<times> store" where
  "handle_list e s =
     (case locked_tree e of
        Inl err \<Rightarrow> (Inl err, s)
      | Inr bound \<Rightarrow>
          (case reconcile e bound (read_records s) s of
             (Inl err, s) \<Rightarrow> (Inl err, s)
           | (Inr (records, ws), s) \<Rightarrow>
               (case write_index e records s of
                  (Inl code, s) \<Rightarrow> (Inl (code, if code = USAGE then Index_refused else Not_durable, []), s)
                | (Inr omitted, s) \<Rightarrow>
                    (case retention records of
                       (protected, releasable, full) \<Rightarrow> (Inr (Listed records omitted protected releasable full ws), s)))))"

definition op_status :: "env \<Rightarrow> journal \<Rightarrow> string" where
  "op_status e j =
     (if finished j then ''finished''
      else if \<not> in_progress j then ''unfinished''
      else if en_alive e \<and> en_owner e = jn_operation_id j then ''running'' else ''abandoned'')"

definition handle_inspect :: "env \<Rightarrow> utext \<Rightarrow> store \<Rightarrow> state_error + reply" where
  "handle_inspect e op s =
     (if \<not> en_tree e then Inl (USAGE, No_operation, [])
      else case find_record op s of Inl err \<Rightarrow> Inl err | Inr (d, j) \<Rightarrow> Inr (Inspected op j (op_status e j)))"

subsection \<open>Serving requests\<close>

datatype request = Begin begin_request | Checkpoint checkpoint_request | Emit emit_request | List_request | Inspect utext

definition serve :: "env \<times> request \<Rightarrow> store \<Rightarrow> (state_error + reply) \<times> store" where
  "serve x s =
     (case x of
        (e, Begin rq) \<Rightarrow> handle_begin e rq s
      | (e, Checkpoint rq) \<Rightarrow> handle_checkpoint e rq s
      | (e, Emit rq) \<Rightarrow> handle_emit e rq s
      | (e, List_request) \<Rightarrow> handle_list e s
      | (e, Inspect op) \<Rightarrow> (handle_inspect e op s, s))"

text \<open>The event a successful request writes to the event descriptor.\<close>

fun reply_event :: "reply \<Rightarrow> event option" where
  "reply_event (Began _ _ ev) = Some ev"
| "reply_event (Recorded _ _ _ _ _ ev) = Some ev"
| "reply_event (Emitted _ _ ev) = Some ev"
| "reply_event _ = None"

fun event_operation :: "event \<Rightarrow> utext" where
  "event_operation (Checkpoint_event op _ _ _ _) = op"
| "event_operation (Emitted_event op _ _ _) = op"

fun event_sequence :: "event \<Rightarrow> int" where
  "event_sequence (Checkpoint_event _ n _ _ _) = n"
| "event_sequence (Emitted_event _ n _ _) = n"

fun published :: "(env \<times> request) list \<Rightarrow> store \<Rightarrow> event list" where
  "published [] s = []"
| "published (x # xs) s =
     (case serve x s of
        (Inr r, t) \<Rightarrow> (case reply_event r of Some ev \<Rightarrow> [ev] | None \<Rightarrow> []) @ published xs t
      | (Inl _, t) \<Rightarrow> published xs t)"

end
