(* ===== verification/Lifecycle_Safety.thy ===== *)
theory Lifecycle_Safety
  imports Lifecycle_Store
begin

text \<open>
  What the requests of the lifecycle utility keep of its state, whatever the order of requests and
  whichever writes fail: a journal only grows and is never changed once closed, at most one
  transaction is unfinished, sequences are never reused, and a refused request writes nothing.
\<close>

subsection \<open>Reading back what was written\<close>

definition journal_at :: "op_dir \<Rightarrow> journal option" where
  "journal_at d = rc_journal (read_record d)"

lemma journal_at_iff:
  "journal_at d = Some j \<longleftrightarrow> valid_operation_id (od_name d) \<and> od_journal d = Document j \<and> validate_journal j = None \<and>
     jn_operation_id j = od_name d"
  by (auto simp: journal_at_def read_record_def Let_def split: journal_file.splits option.splits)

lemma read_record_name [simp]: "rc_name (read_record d) = od_name d"
  by (simp add: read_record_def Let_def split: journal_file.split option.split)

lemma read_record_valid: "journal_at d = Some j \<Longrightarrow> read_record d = valid_record (od_name d) j"
  by (auto simp: journal_at_iff read_record_def Let_def valid_record_def)

lemma read_record_sequence [simp]: "read_record (d\<lparr>od_sequence := x\<rparr>) = read_record d"
  by (auto simp: read_record_def Let_def split: journal_file.splits option.splits)

lemma journal_at_sequence [simp]: "journal_at (d\<lparr>od_sequence := x\<rparr>) = journal_at d"
  by (simp add: journal_at_def)

lemma digit_value: "k < 10 \<Longrightarrow> of_char (hex_char k) = 48 + int k"
  by (simp add: hex_char_def less_Suc_eq numeral_eq_Suc) (elim disjE; simp)

lemma decimal_snoc: "decimal (s @ [c]) = 10 * decimal s + (c - 48)"
  by (simp add: decimal_def)

lemma decimal_nat_str: "decimal (lit (nat_str n)) = int n"
proof (induction n rule: nat_str.induct)
  case (1 n)
  show ?case
  proof (cases "n < 10")
    case True
    then show ?thesis by (subst nat_str.simps) (simp add: decimal_def digit_value)
  next
    case False
    have "10 * int (n div 10) + int (n mod 10) = int n" by (metis mult_div_mod_eq of_nat_add of_nat_mult of_nat_numeral)
    with False "1.IH" [OF False] show ?thesis by (subst nat_str.simps) (simp add: decimal_snoc digit_value)
  qed
qed

lemma nat_str_digits: "\<forall>c\<in>set (lit (nat_str n)). digit_c c"
proof (induction n rule: nat_str.induct)
  case (1 n)
  have "digit_c (of_char (hex_char k))" if "k < 10" for k
    using that by (simp add: digit_value digit_c_def between_def)
  with 1 show ?case by (subst nat_str.simps) auto
qed

lemma nat_str_head: "0 < n \<Longrightarrow> \<exists>c cs. lit (nat_str n) = c # cs \<and> between CHR ''1'' CHR ''9'' c"
proof (induction n rule: nat_str.induct)
  case (1 n)
  show ?case
  proof (cases "n < 10")
    case True
    with 1 show ?thesis by (subst nat_str.simps) (simp add: digit_value between_def)
  next
    case False
    then have "0 < n div 10" by simp
    with "1.IH" [OF False] False show ?thesis by (subst nat_str.simps) auto
  qed
qed

lemma at_most_full: "[] \<in> set (rests (at_most n P) s) \<longleftrightarrow> length s \<le> n \<and> (\<forall>c\<in>set s. P c)"
proof (induction n arbitrary: s)
  case (Suc n)
  then show ?case by (cases s) (auto simp: opt_def)
qed auto

text \<open>\<open>strip\<close> removes nothing but the line end the writer adds.\<close>

lemma strip_line:
  assumes "s \<noteq> []" "\<forall>c\<in>set s. digit_c c"
  shows "strip_text (s @ lit [CHR 0x0A]) = s"
proof -
  define ws :: "int \<Rightarrow> bool" where "ws c = (c = 0x20 \<or> (9 \<le> c \<and> c \<le> 0x0D) \<or> (0x1C \<le> c \<and> c \<le> 0x1F))" for c
  have no: "\<not> ws c" if "digit_c c" for c using that by (auto simp: ws_def digit_c_def between_def)
  have "dropWhile ws (s @ [10]) = s @ [10]" using assms no by (cases s) auto
  moreover have "dropWhile ws (rev (s @ [10])) = rev s"
  proof -
    have "dropWhile ws (rev s) = rev s" using assms no by (simp add: dropWhile_eq_self_iff hd_rev)
    then show ?thesis by (simp add: ws_def)
  qed
  ultimately show ?thesis by (simp add: strip_text_def Let_def ws_def [abs_def])
qed

lemma MAX_SAFE_bound: "n \<le> MAX_SAFE \<Longrightarrow> nat n < 10 ^ 16"
  by (simp add: MAX_SAFE_def)

lemma read_counter_written:
  assumes "1 \<le> n" "n \<le> MAX_SAFE"
  shows "read_counter (d\<lparr>od_sequence := Some (counter_text n)\<rparr>) = n"
proof -
  let ?s = "lit (nat_str (nat n))"
  obtain c cs where s: "?s = c # cs" "between CHR ''1'' CHR ''9'' c" using nat_str_head [of "nat n"] assms(1) by auto
  have len: "length ?s \<le> 16" using nat_str_length [OF MAX_SAFE_bound [OF assms(2)]] by simp
  have written: "counter_text n = ?s @ lit [CHR 0x0A]" using assms(1) by (simp add: counter_text_def int_str_def)
  have "strip_text (take 32 (counter_text n)) = ?s"
    using strip_line [of ?s] nat_str_digits [of "nat n"] s(1) len unfolding written by simp
  moreover have "fullmatch counter_re ?s"
    using s len nat_str_digits [of "nat n"] by (simp add: fullmatch_def counter_re_def at_most_full)
  ultimately show ?thesis using decimal_nat_str [of "nat n"] assms(1) by (simp add: read_counter_def)
qed

lemma read_counter_journal [simp]: "read_counter (d\<lparr>od_journal := f\<rparr>) = read_counter d"
  by (simp add: read_counter_def)

subsection \<open>One durable write to a journal\<close>

definition same_header :: "journal \<Rightarrow> journal \<Rightarrow> bool" where
  "same_header j k \<longleftrightarrow> jn_operation_id k = jn_operation_id j \<and> jn_kind k = jn_kind j \<and> jn_action k = jn_action j \<and>
     jn_adapter k = jn_adapter j \<and> jn_plan_digest k = jn_plan_digest j \<and> jn_identity_digest k = jn_identity_digest j \<and>
     jn_source k = jn_source j \<and> jn_target k = jn_target j \<and> jn_started_at k = jn_started_at j \<and>
     prefix (jn_evidence j) (jn_evidence k) \<and> (jn_recovery j \<noteq> None \<longrightarrow> jn_recovery k = jn_recovery j)"

definition high_sequence :: "journal \<Rightarrow> int" where
  "high_sequence j = foldr (\<lambda>c m. max (cp_sequence c) m) (butlast (jn_checkpoints j)) (cp_sequence (last_record j))"

text \<open>A record is added, or replaces the last one when both are steps of the same state.\<close>

definition journal_succ :: "journal \<Rightarrow> journal \<Rightarrow> bool" where
  "journal_succ j k \<longleftrightarrow> validate_journal k = None \<and> \<not> finished j \<and> same_header j k \<and> jn_generation k = jn_generation j + 1 \<and>
     (\<exists>c. jn_checkpoints k = (if replaces_step (last_record j) c then butlast (jn_checkpoints j) else jn_checkpoints j) @ [c] \<and>
          high_sequence j < cp_sequence c)"

lemma validD:
  assumes "validate_journal j = None"
  shows "journal_schema j" "journal_plain j" "journal_rules j = None" "jn_checkpoints j \<noteq> []"
    "1 \<le> high_sequence j" "high_sequence j \<le> MAX_SAFE"
proof -
  show j: "journal_schema j" "journal_plain j" "journal_rules j = None" using assms by (simp_all add: validate_journal_None)
  show ne: "jn_checkpoints j \<noteq> []" using j(3) by (simp add: journal_rules_None records_ok_def)
  have bounds: "\<forall>c\<in>set (jn_checkpoints j). 1 \<le> cp_sequence c \<and> cp_sequence c \<le> MAX_SAFE"
    using j(1,2) by (auto simp: journal_schema_def journal_plain_def checkpoint_schema_def list_all_iff)
  have "1 \<le> foldr (\<lambda>c m. max (cp_sequence c) m) cs b \<and> foldr (\<lambda>c m. max (cp_sequence c) m) cs b \<le> MAX_SAFE"
    if "1 \<le> b" "b \<le> MAX_SAFE" "set cs \<subseteq> set (jn_checkpoints j)" for b cs
    using that bounds by (induction cs) auto
  from this [of "cp_sequence (last_record j)" "butlast (jn_checkpoints j)"] bounds ne
  show "1 \<le> high_sequence j" "high_sequence j \<le> MAX_SAFE"
    by (auto simp: high_sequence_def last_record_def dest: in_set_butlastD)
qed

lemma next_sequence_high: "next_sequence d j = max (read_counter d) (high_sequence j) + 1"
  by (simp add: next_sequence_def high_sequence_def)

lemma high_sequence_snoc: "jn_checkpoints k = cs @ [c] \<Longrightarrow> high_sequence k = foldr (\<lambda>c m. max (cp_sequence c) m) cs (cp_sequence c)"
  by (simp add: high_sequence_def last_record_def)

lemma last_sequence_high:
  assumes "journal_succ j k"
  shows "high_sequence k = cp_sequence (last_record k)"
proof -
  from assms obtain c where c: "jn_checkpoints k = (if replaces_step (last_record j) c then butlast (jn_checkpoints j) else jn_checkpoints j) @ [c]"
    and lt: "high_sequence j < cp_sequence c" by (auto simp: journal_succ_def)
  have le: "cp_sequence x \<le> high_sequence j" if "x \<in> set (jn_checkpoints j)" for x
  proof -
    have "x \<in> set (butlast (jn_checkpoints j)) \<or> x = last_record j"
      using that by (cases "jn_checkpoints j" rule: rev_cases) (auto simp: last_record_def)
    moreover have "x \<in> set cs \<Longrightarrow> cp_sequence x \<le> foldr (\<lambda>c m. max (cp_sequence c) m) cs b"
      "b \<le> foldr (\<lambda>c m. max (cp_sequence c) m) cs b" for cs b
      by (induction cs) auto
    ultimately show ?thesis by (auto simp: high_sequence_def)
  qed
  have "foldr (\<lambda>c m. max (cp_sequence c) m) cs (cp_sequence c) = cp_sequence c" if "set cs \<subseteq> set (jn_checkpoints j)" for cs
    using that le lt by (induction cs) fastforce+
  then have "foldr (\<lambda>c m. max (cp_sequence c) m) (if replaces_step (last_record j) c then butlast (jn_checkpoints j) else jn_checkpoints j) (cp_sequence c) = cp_sequence c"
    by (auto dest: in_set_butlastD)
  then show ?thesis using c high_sequence_snoc [OF c] by (simp add: last_record_def)
qed

text \<open>The record before a legal one is open: the rules say so of an appended record, and a replaced one is a step.\<close>

lemma appended_open:
  assumes "journal_rules k = None" "jn_checkpoints k = jn_checkpoints j @ [c]" "jn_checkpoints j \<noteq> []"
  shows "\<not> finished j"
  using assms by (simp add: journal_rules_None records_ok_snoc record_rules_None finished_def last_record_def)

lemma stepped_open:
  assumes "journal_rules j = None" "cp_step (last_record j) \<noteq> None"
  shows "\<not> finished j"
  using outcome_of_state [OF last_wellformed [OF assms(1)]] assms(2)
  by (cases "cp_outcome (last_record j)"; cases "the (cp_outcome (last_record j))") (auto simp: finished_def progress_states_def pre_mutation_def)

lemma requested_entry_fields:
  assumes "requested_entry n stamp previous rq = Inr c"
  shows "cp_sequence c = n" "cp_state c = cr_state rq" "cp_step c = cr_step rq" "cp_outcome c = cr_outcome rq"
  using assms by (auto simp: requested_entry_def Let_def split: option.splits)

lemma next_journal_succ:
  assumes j: "validate_journal j = None" and k: "next_journal d stamp j rq = Inr (k, c)"
  shows "journal_succ j k" "last_record k = c" "cp_sequence c = next_sequence d j" "cp_state c = cr_state rq"
proof -
  from k obtain wanted item where c: "requested_entry (next_sequence d j) stamp (last_record j) rq = Inr c"
    and other: "\<not> (wanted \<noteq> None \<and> jn_recovery j \<noteq> None \<and> jn_recovery j \<noteq> wanted)"
    and kk: "k = updated_journal stamp j c wanted item" and valid: "validate_journal k = None"
    by (auto simp: next_journal_def bind_sum_Inr valid_or_usage_def split: if_splits option.splits)
  note fields = requested_entry_fields [OF c]
  show "last_record k = c" "cp_sequence c = next_sequence d j" "cp_state c = cr_state rq"
    using kk fields by (simp_all add: last_record_def updated_journal_def)
  have open_j: "\<not> finished j"
  proof (cases "replaces_step (last_record j) c")
    case True
    then show ?thesis using stepped_open validD(3) [OF j] by (simp add: replaces_step_def)
  next
    case False
    then show ?thesis using appended_open [OF validD(3) [OF valid], of j c] validD(4) [OF j] kk by (simp add: updated_journal_def)
  qed
  have "same_header j k" using kk other by (auto simp: same_header_def updated_journal_def)
  with valid open_j show "journal_succ j k" unfolding journal_succ_def
    using fields(1) by (intro conjI exI [of _ c]) (simp_all add: kk updated_journal_def next_sequence_high)
qed

lemma abandoned_succ:
  assumes j: "validate_journal j = None" and k: "validate_journal (abandoned_journal d stamp j) = None"
  shows "journal_succ j (abandoned_journal d stamp j)"
    "cp_sequence (last_record (abandoned_journal d stamp j)) = next_sequence d j"
proof -
  let ?k = "abandoned_journal d stamp j" and ?c = "abandoned_entry (next_sequence d j) stamp (last_record j)"
  have k': "jn_checkpoints ?k = jn_checkpoints j @ [?c]" by (simp add: abandoned_journal_def)
  show "cp_sequence (last_record ?k) = next_sequence d j" using k' by (simp add: last_record_def abandoned_entry_def)
  have "\<not> finished j" using appended_open [OF validD(3) [OF k] k'] validD(4) [OF j] by simp
  moreover have "same_header j ?k" by (simp add: same_header_def abandoned_journal_def)
  moreover have "\<not> replaces_step (last_record j) ?c" by (simp add: replaces_step_def abandoned_entry_def)
  ultimately show "journal_succ j ?k" unfolding journal_succ_def
    using k k' by (intro conjI exI [of _ ?c]) (simp_all add: next_sequence_high abandoned_entry_def, simp add: abandoned_journal_def)
qed

subsection \<open>What a request does to a directory\<close>

definition high_water :: "op_dir \<Rightarrow> int" where
  "high_water d = max (read_counter d) (case journal_at d of Some j \<Rightarrow> high_sequence j | None \<Rightarrow> 0)"

text \<open>The counter moves up; the journal stays, or takes one more record with a sequence above all before it.\<close>

definition dir_step :: "op_dir \<Rightarrow> op_dir \<Rightarrow> bool" where
  "dir_step d d' \<longleftrightarrow> od_name d' = od_name d \<and> high_water d \<le> high_water d' \<and>
     (od_journal d' = od_journal d \<or>
      (\<exists>j k. journal_at d = Some j \<and> journal_at d' = Some k \<and> journal_succ j k \<and> high_water d < high_sequence k))"

lemma dir_step_refl [simp]: "dir_step d d"
  by (simp add: dir_step_def)

lemma write_record_dir:
  assumes j: "journal_at d = Some j" and succ: "journal_succ j k" and n: "n = next_sequence d j" "cp_sequence (last_record k) = n"
    and d': "d' \<in> {d, d\<lparr>od_sequence := Some (counter_text n)\<rparr>, d\<lparr>od_sequence := Some (counter_text n), od_journal := Document k\<rparr>}"
  shows "dir_step d d'"
proof -
  have k: "validate_journal k = None" and id: "jn_operation_id k = jn_operation_id j" using succ by (auto simp: journal_succ_def same_header_def)
  have hk: "high_sequence k = n" using last_sequence_high [OF succ] n(2) by simp
  have safe: "1 \<le> n" "n \<le> MAX_SAFE" using validD(5,6) [OF k] hk by simp_all
  have hw: "high_water d = max (read_counter d) (high_sequence j)" using j by (simp add: high_water_def)
  then have lt: "high_water d < n" using n(1) by (simp add: next_sequence_high)
  let ?d1 = "d\<lparr>od_sequence := Some (counter_text n)\<rparr>" and ?d2 = "d\<lparr>od_sequence := Some (counter_text n), od_journal := Document k\<rparr>"
  have d1: "high_water ?d1 = n" using lt j hw by (simp add: high_water_def read_counter_written [OF safe])
  have at: "journal_at ?d2 = Some k" using j k id by (simp add: journal_at_iff)
  have "read_counter ?d2 = n" using read_counter_written [OF safe] by simp
  then have d2: "high_water ?d2 = n" using at hk by (simp add: high_water_def)
  from d' show ?thesis using lt d1 d2 at j succ hk by (auto simp: dir_step_def)
qed

subsection \<open>How a store evolves\<close>

text \<open>
  Records are kept and others follow; only the last one may have been replaced, when it and its replacement are steps of the
  same state, by a record with a later sequence.
\<close>

definition replaced_by :: "checkpoint \<Rightarrow> checkpoint \<Rightarrow> bool" where
  "replaced_by c c' \<longleftrightarrow> cp_step c \<noteq> None \<and> cp_step c' \<noteq> None \<and> cp_state c' = cp_state c \<and> cp_sequence c < cp_sequence c'"

definition records_kept :: "checkpoint list \<Rightarrow> checkpoint list \<Rightarrow> bool" where
  "records_kept cs ds \<longleftrightarrow> prefix cs ds \<or> (\<exists>bs c c' es. cs = bs @ [c] \<and> ds = bs @ c' # es \<and> replaced_by c c')"

definition journal_le :: "journal \<Rightarrow> journal \<Rightarrow> bool" where
  "journal_le j k \<longleftrightarrow> same_header j k \<and> jn_generation j \<le> jn_generation k \<and> records_kept (jn_checkpoints j) (jn_checkpoints k) \<and>
     high_sequence j \<le> high_sequence k \<and> (finished j \<longrightarrow> k = j)"

lemma records_kept_refl [simp]: "records_kept cs cs"
  by (simp add: records_kept_def)

lemma records_kept_append: "records_kept cs ds \<Longrightarrow> records_kept cs (ds @ es)"
  by (auto simp: records_kept_def)

lemma records_kept_trans:
  assumes "records_kept cs ds" "records_kept ds fs"
  shows "records_kept cs fs"
proof (cases "prefix ds fs")
  case True
  then obtain es where "fs = ds @ es" by (auto simp: prefix_def)
  with assms(1) show ?thesis by (simp add: records_kept_append)
next
  case False
  then obtain bs d d' es where ds: "ds = bs @ [d]" "fs = bs @ d' # es" "replaced_by d d'" using assms(2) by (auto simp: records_kept_def)
  show ?thesis
  proof (cases "prefix cs bs \<or> (\<exists>xs c c' ys. cs = xs @ [c] \<and> bs = xs @ c' # ys \<and> replaced_by c c')")
    case True
    then have "records_kept cs bs" by (simp add: records_kept_def)
    then show ?thesis using ds(2) by (simp add: records_kept_append)
  next
    case new: False
    show ?thesis
    proof (cases "prefix cs ds")
      case True
      with new ds(1) have "cs = ds" by simp
      with assms(2) show ?thesis by simp
    next
      case False
      then obtain xs c c' ys where c: "cs = xs @ [c]" "ds = xs @ c' # ys" "replaced_by c c'" using assms(1) by (auto simp: records_kept_def)
      then have "ys = []" using new ds(1) by (cases ys rule: rev_cases) auto
      then have "xs = bs" "c' = d" using c(2) ds(1) by simp_all
      then have "replaced_by c d'" using c(3) ds(3) by (auto simp: replaced_by_def)
      then show ?thesis using c(1) ds(2) \<open>xs = bs\<close> by (auto simp: records_kept_def)
    qed
  qed
qed

lemma same_header_refl [simp]: "same_header j j"
  by (simp add: same_header_def)

lemma same_header_trans: "same_header i j \<Longrightarrow> same_header j k \<Longrightarrow> same_header i k"
  by (auto simp: same_header_def intro: prefix_order.trans)

lemma journal_le_refl [simp]: "journal_le j j"
  by (simp add: journal_le_def)

lemma journal_le_trans: "journal_le i j \<Longrightarrow> journal_le j k \<Longrightarrow> journal_le i k"
  by (auto simp: journal_le_def intro: same_header_trans records_kept_trans)

lemma journal_succ_le:
  assumes "journal_succ j k"
  shows "journal_le j k"
proof -
  from assms obtain c where c: "jn_checkpoints k = (if replaces_step (last_record j) c then butlast (jn_checkpoints j) else jn_checkpoints j) @ [c]"
    and lt: "high_sequence j < cp_sequence c" by (auto simp: journal_succ_def)
  have "high_sequence j \<le> high_sequence k" using last_sequence_high [OF assms] c lt by (simp add: last_record_def)
  moreover have "records_kept (jn_checkpoints j) (jn_checkpoints k)"
  proof (cases "replaces_step (last_record j) c \<and> jn_checkpoints j \<noteq> []")
    case True
    have "b \<le> foldr (\<lambda>c m. max (cp_sequence c) m) cs b" for cs b by (induction cs) auto
    then have "cp_sequence (last_record j) < cp_sequence c" using lt by (auto simp: high_sequence_def intro: le_less_trans)
    then have "replaced_by (last_record j) c" using True by (simp add: replaced_by_def replaces_step_def)
    moreover have "jn_checkpoints j = butlast (jn_checkpoints j) @ [last_record j]" using True by (simp add: last_record_def)
    ultimately show ?thesis using c True unfolding records_kept_def by auto
  qed (use c in \<open>auto simp: records_kept_def\<close>)
  ultimately show ?thesis using assms by (simp add: journal_succ_def journal_le_def)
qed

definition dir_le :: "op_dir \<Rightarrow> op_dir \<Rightarrow> bool" where
  "dir_le d d' \<longleftrightarrow> od_name d' = od_name d \<and> high_water d \<le> high_water d' \<and>
     (case journal_at d of
        None \<Rightarrow> od_journal d' = od_journal d
      | Some j \<Rightarrow> \<exists>k. journal_at d' = Some k \<and> journal_le j k)"

lemma journal_at_cong: "od_name d' = od_name d \<Longrightarrow> od_journal d' = od_journal d \<Longrightarrow> journal_at d' = journal_at d"
proof -
  assume "od_name d' = od_name d" "od_journal d' = od_journal d"
  then have "journal_at d' = Some j \<longleftrightarrow> journal_at d = Some j" for j by (simp add: journal_at_iff)
  then show ?thesis by (metis not_Some_eq)
qed

lemma dir_le_refl [simp]: "dir_le d d"
  by (simp add: dir_le_def split: option.split)

lemma dir_le_trans: "dir_le c d \<Longrightarrow> dir_le d e \<Longrightarrow> dir_le c e"
  unfolding dir_le_def
  by (cases "journal_at c"; cases "journal_at d") (auto dest: journal_at_cong intro: journal_le_trans)

lemma dir_step_le: "dir_step d d' \<Longrightarrow> dir_le d d'"
  using journal_at_cong [of d' d]
  by (cases "journal_at d") (auto simp: dir_step_def dir_le_def dest: journal_succ_le)

abbreviation dir_at :: "store \<Rightarrow> utext \<Rightarrow> op_dir option" where
  "dir_at s op \<equiv> tbl_get od_name op (st_ops s)"

definition store_evolves :: "store \<Rightarrow> store \<Rightarrow> bool" where
  "store_evolves s t \<longleftrightarrow> map od_name (st_ops t) = map od_name (st_ops s) \<and>
     (\<forall>op d. dir_at s op = Some d \<longrightarrow> (\<exists>d'. dir_at t op = Some d' \<and> dir_le d d'))"

lemma store_evolves_refl [simp]: "store_evolves s s"
  by (auto simp: store_evolves_def)

lemma store_evolvesD: "store_evolves s t \<Longrightarrow> dir_at s op = Some d \<Longrightarrow> \<exists>d'. dir_at t op = Some d' \<and> dir_le d d'"
  by (simp add: store_evolves_def)

lemma store_evolves_trans:
  assumes "store_evolves s t" "store_evolves t u"
  shows "store_evolves s u"
proof -
  have "\<exists>d'. dir_at u op = Some d' \<and> dir_le d d'" if d: "dir_at s op = Some d" for op d
  proof -
    from store_evolvesD [OF assms(1) d] obtain d1 where d1: "dir_at t op = Some d1" "dir_le d d1" by blast
    from store_evolvesD [OF assms(2) d1(1)] d1(2) show ?thesis by (blast intro: dir_le_trans)
  qed
  then show ?thesis using assms by (simp add: store_evolves_def)
qed

lemma store_evolves_same_ops: "st_ops t = st_ops s \<Longrightarrow> store_evolves s t"
  by (auto simp: store_evolves_def)

interpretation counter_row: row_update od_name "\<lambda>d. d\<lparr>od_sequence := x\<rparr>" for x
  by unfold_locales simp

interpretation journal_row: row_update od_name "\<lambda>d. d\<lparr>od_journal := f\<rparr>" for f
  by unfold_locales simp

lemma set_counter_at:
  "map od_name (st_ops (set_counter op n s)) = map od_name (st_ops s)"
  "dir_at (set_counter op n s) op = map_option (\<lambda>d. d\<lparr>od_sequence := Some (counter_text n)\<rparr>) (dir_at s op)"
  "op' \<noteq> op \<Longrightarrow> dir_at (set_counter op n s) op' = dir_at s op'"
  by (simp_all add: set_counter_def counter_row.map_key_upd counter_row.tbl_get_upd_same counter_row.tbl_get_upd_other)

lemma set_journal_at:
  "map od_name (st_ops (set_journal op j s)) = map od_name (st_ops s)"
  "dir_at (set_journal op j s) op = map_option (\<lambda>d. d\<lparr>od_journal := Document j\<rparr>) (dir_at s op)"
  "op' \<noteq> op \<Longrightarrow> dir_at (set_journal op j s) op' = dir_at s op'"
  by (simp_all add: set_journal_def journal_row.map_key_upd journal_row.tbl_get_upd_same journal_row.tbl_get_upd_other)

text \<open>A write to one operation's files, whatever becomes of it.\<close>

definition touches :: "utext \<Rightarrow> store \<Rightarrow> store \<Rightarrow> bool" where
  "touches op s t \<longleftrightarrow> map od_name (st_ops t) = map od_name (st_ops s) \<and> st_index t = st_index s \<and>
     (\<forall>op'. op' \<noteq> op \<longrightarrow> dir_at t op' = dir_at s op') \<and>
     (\<forall>d. dir_at s op = Some d \<longrightarrow> (\<exists>d'. dir_at t op = Some d' \<and> dir_step d d'))"

lemma touches_evolves: "touches op s t \<Longrightarrow> store_evolves s t"
proof -
  assume t: "touches op s t"
  have "\<exists>d'. dir_at t op' = Some d' \<and> dir_le d d'" if "dir_at s op' = Some d" for op' d
    using t that by (cases "op' = op") (auto simp: touches_def intro: dir_step_le)
  then show ?thesis using t by (simp add: touches_def store_evolves_def)
qed

lemma touches_refl [simp]: "touches op s s"
  by (auto simp: touches_def)

lemma write_record_touches:
  assumes w: "write_record e op n k s = (ok, t)" and d: "dir_at s op = Some d" "journal_at d = Some j"
    and succ: "journal_succ j k" "n = next_sequence d j" "cp_sequence (last_record k) = n"
  shows "touches op s t"
    "ok \<Longrightarrow> dir_at t op = Some (d\<lparr>od_sequence := Some (counter_text n), od_journal := Document k\<rparr>)"
    "\<exists>d'. dir_at t op = Some d' \<and> journal_at d' \<in> {Some j, Some k}"
proof -
  let ?s1 = "set_counter op n s" and ?d1 = "d\<lparr>od_sequence := Some (counter_text n)\<rparr>"
    and ?d2 = "d\<lparr>od_sequence := Some (counter_text n), od_journal := Document k\<rparr>"
  have "validate_journal k = None" "jn_operation_id k = jn_operation_id j" using succ(1) by (auto simp: journal_succ_def same_header_def)
  then have at2: "journal_at ?d2 = Some k" using d(2) by (simp add: journal_at_iff)
  consider (lost) "t = s" "\<not> ok" | (counter) "t = ?s1" "\<not> ok" | (journal) "t = set_journal op k ?s1"
    using w by (auto simp: write_record_def write_atomic_def split: write_outcome.splits)
  then have "touches op s t \<and> (ok \<longrightarrow> dir_at t op = Some ?d2) \<and> (\<exists>d'. dir_at t op = Some d' \<and> journal_at d' \<in> {Some j, Some k})"
  proof cases
    case lost
    then show ?thesis using d by simp
  next
    case counter
    have "dir_step d ?d1" by (rule write_record_dir [OF d(2) succ]) simp
    moreover have "st_index ?s1 = st_index s" by (simp add: set_counter_def)
    ultimately show ?thesis using counter d by (simp add: touches_def set_counter_at)
  next
    case journal
    have "dir_step d ?d2" by (rule write_record_dir [OF d(2) succ]) simp
    moreover have "st_index t = st_index s" using journal by (simp add: set_counter_def set_journal_def)
    ultimately show ?thesis using journal d(1) at2 by (simp add: touches_def set_counter_at set_journal_at)
  qed
  then show "touches op s t" "ok \<Longrightarrow> dir_at t op = Some ?d2" "\<exists>d'. dir_at t op = Some d' \<and> journal_at d' \<in> {Some j, Some k}"
    by simp_all
qed

lemma abandon_effect:
  assumes ab: "abandon e (read_record d) j s = (res, t)" and d: "dir_at s (od_name d) = Some d" "journal_at d = Some j"
  shows "touches (od_name d) s t" and "res = Inr (r, ws) \<Longrightarrow> \<exists>d'. dir_at t (od_name d) = Some d' \<and> r = read_record d'"
proof -
  let ?k = "abandoned_journal d (en_abandon_now e (od_name d)) j"
  have j: "validate_journal j = None" using d(2) by (simp add: journal_at_iff)
  have "touches (od_name d) s t \<and> (\<forall>r ws. res = Inr (r, ws) \<longrightarrow> (\<exists>d'. dir_at t (od_name d) = Some d' \<and> r = read_record d'))"
  proof (cases "en_open e (od_name d) \<and> validate_journal ?k = None")
    case False
    then have "t = s" "\<And>r ws. res = Inr (r, ws) \<Longrightarrow> r = read_record d"
      using ab d(1) by (auto simp: abandon_def Let_def op_dir_of_def split: if_splits)
    then show ?thesis using d(1) by auto
  next
    case True
    note succ = abandoned_succ [OF j, of d "en_abandon_now e (od_name d)"]
    obtain ok t' where w: "write_record e (od_name d) (next_sequence d j) ?k s = (ok, t')" by fastforce
    have res: "t = t'" "res = (if ok then Inr ((read_record d)\<lparr>rc_journal := Some ?k\<rparr>, []) else Inl (PREFLIGHT, Not_durable, []))"
      using ab d(1) w True by (cases ok; auto simp: abandon_def Let_def op_dir_of_def)+
    note touch = write_record_touches [OF w d succ(1) refl succ(2)]
    have k: "jn_operation_id ?k = od_name d" using d(2) by (simp add: abandoned_journal_def journal_at_iff)
    have "read_record (d\<lparr>od_sequence := q, od_journal := Document ?k\<rparr>) = valid_record (od_name d) ?k" for q
      using True k d(2) read_record_valid [of "d\<lparr>od_sequence := q, od_journal := Document ?k\<rparr>" ?k] by (simp add: journal_at_iff)
    moreover have "(read_record d)\<lparr>rc_journal := Some ?k\<rparr> = valid_record (od_name d) ?k"
      using read_record_valid [OF d(2)] by (simp add: valid_record_def)
    ultimately show ?thesis using touch True res by (auto split: if_splits)
  qed
  then show "touches (od_name d) s t" and "res = Inr (r, ws) \<Longrightarrow> \<exists>d'. dir_at t (od_name d) = Some d' \<and> r = read_record d'" by auto
qed

text \<open>One directory of the reconciliation: interrupted if it is in progress and not the lock's own.\<close>

definition settle :: "env \<Rightarrow> utext \<Rightarrow> op_dir \<Rightarrow> store \<Rightarrow> (state_error + lc_record \<times> warning list) \<times> store" where
  "settle e bound d s =
     (if od_name d \<noteq> bound \<and> (\<exists>j. journal_at d = Some j \<and> in_progress j)
      then abandon e (read_record d) (the (journal_at d)) s else (Inr (read_record d, []), s))"

lemma reconcile_Cons:
  "reconcile e bound (map read_record (d # ds)) s =
     (case settle e bound d s of
        (Inl err, s) \<Rightarrow> (Inl err, s)
      | (Inr (r, ws), s) \<Rightarrow>
          (case reconcile e bound (map read_record ds) s of
             (Inl err, t) \<Rightarrow> (Inl err, t) | (Inr (rs, ws'), t) \<Rightarrow> (Inr (r # rs, ws @ ws'), t)))"
  by (auto simp: settle_def journal_at_def split: option.splits sum.splits prod.splits)

lemma settle_effect:
  assumes "settle e bound d s = (res, t)" "dir_at s (od_name d) = Some d"
  shows "touches (od_name d) s t" and "res = Inr (r, ws) \<Longrightarrow> \<exists>d'. dir_at t (od_name d) = Some d' \<and> r = read_record d'"
  using assms abandon_effect [of e d "the (journal_at d)" s res t] by (auto simp: settle_def split: if_splits)

lemma touches_others:
  assumes "touches (od_name d) s t" "distinct (map od_name (d # ds))" "\<forall>d'\<in>set (d # ds). dir_at s (od_name d') = Some d'"
  shows "\<forall>d'\<in>set ds. dir_at t (od_name d') = Some d'"
proof
  fix d' assume d': "d' \<in> set ds"
  have "od_name d \<notin> od_name ` set ds" using assms(2) by simp
  with d' have "od_name d' \<noteq> od_name d" by (metis imageI)
  then show "dir_at t (od_name d') = Some d'" using assms(1,3) d' by (simp add: touches_def)
qed

text \<open>Reconciliation touches the given directories only, and reports each as it then is.\<close>

definition reported :: "store \<Rightarrow> op_dir list \<Rightarrow> lc_record list \<Rightarrow> bool" where
  "reported t ds rs \<longleftrightarrow> rs = map (\<lambda>d. read_record (the (dir_at t (od_name d)))) ds"

lemma reconcile_effect:
  assumes "reconcile e bound (map read_record ds) s = (res, t)" "distinct (map od_name ds)"
    and "\<forall>d\<in>set ds. dir_at s (od_name d) = Some d"
  shows "store_evolves s t \<and> st_index t = st_index s \<and> (\<forall>op. op \<notin> od_name ` set ds \<longrightarrow> dir_at t op = dir_at s op) \<and>
    (\<forall>rs ws. res = Inr (rs, ws) \<longrightarrow> reported t ds rs)"
  using assms
proof (induction ds arbitrary: s res)
  case (Cons d ds)
  obtain res1 s1 where first: "settle e bound d s = (res1, s1)" by fastforce
  have d: "dir_at s (od_name d) = Some d" using Cons.prems(3) by simp
  note touch = settle_effect(1) [OF first d] and rep = settle_effect(2) [OF first d]
  note step = reconcile_Cons [of e bound d ds s, unfolded first]
  have frame: "st_index s1 = st_index s" "\<forall>op. op \<noteq> od_name d \<longrightarrow> dir_at s1 op = dir_at s op" using touch by (auto simp: touches_def)
  show ?case
  proof (cases res1)
    case (Inl err)
    with step Cons.prems(1) have "t = s1" "res = Inl err" by auto
    then show ?thesis using touch frame touches_evolves by auto
  next
    case (Inr rw)
    obtain r ws where rw: "rw = (r, ws)" by fastforce
    obtain res2 t2 where rest: "reconcile e bound (map read_record ds) s1 = (res2, t2)" by fastforce
    have t2: "t2 = t" using step Inr rw rest Cons.prems(1) by (auto split: sum.splits)
    note ds = touches_others [OF touch Cons.prems(2,3)]
    have IH: "store_evolves s1 t" "st_index t = st_index s1" "\<forall>op. op \<notin> od_name ` set ds \<longrightarrow> dir_at t op = dir_at s1 op"
      "\<And>rs ws. res2 = Inr (rs, ws) \<Longrightarrow> reported t ds rs"
      using Cons.IH [OF rest [unfolded t2] _ ds] Cons.prems(2) by auto
    have "dir_at t (od_name d) = dir_at s1 (od_name d)" using IH(3) Cons.prems(2) by auto
    then have "r = read_record (the (dir_at t (od_name d)))" using rep Inr rw by auto
    moreover have "store_evolves s t" using store_evolves_trans [OF touches_evolves [OF touch] IH(1)] .
    ultimately show ?thesis
      using IH frame step Inr rw rest t2 Cons.prems(1) by (auto simp: reported_def split: sum.splits)
  qed
qed (simp add: reported_def)

subsection \<open>The requests\<close>

definition visible :: "store \<Rightarrow> op_dir list" where
  "visible s = filter (\<lambda>d. \<not> hidden d) (sort_key od_name (st_ops s))"

lemma visible_facts:
  assumes "keys_distinct od_name (st_ops s)"
  shows "read_records s = map read_record (visible s)" "distinct (map od_name (visible s))"
    "\<forall>d\<in>set (visible s). dir_at s (od_name d) = Some d" "set (visible s) = {d \<in> set (st_ops s). \<not> hidden d}"
proof -
  have "distinct (map od_name (sort_key od_name (st_ops s)))"
    using assms unfolding keys_distinct_def by (metis distinct_map distinct_sort set_sort)
  then show "distinct (map od_name (visible s))" unfolding visible_def by (simp add: distinct_map_filter)
qed (use assms in \<open>auto simp: read_records_def visible_def tbl_get_in\<close>)

lemma write_index_ops: "write_index e rs s = (x, t) \<Longrightarrow> st_ops t = st_ops s"
  by (auto simp: write_index_def build_index_def Let_def split: index_outcome.splits)

lemma index_quietly_ops: "index_quietly e rs s = (x, t) \<Longrightarrow> st_ops t = st_ops s"
  by (auto simp: index_quietly_def dest: write_index_ops split: prod.splits sum.splits)

lemma store_evolves_trans_ops: "store_evolves s t \<Longrightarrow> st_ops u = st_ops t \<Longrightarrow> store_evolves s u"
  by (simp add: store_evolves_def)

lemma list_evolves:
  assumes "handle_list e s = (res, t)" "keys_distinct od_name (st_ops s)"
  shows "store_evolves s t"
proof (cases "locked_tree e")
  case (Inl err)
  with assms(1) show ?thesis by (simp add: handle_list_def)
next
  case (Inr bound)
  note vis = visible_facts [OF assms(2)]
  obtain res1 s1 where r: "reconcile e bound (map read_record (visible s)) s = (res1, s1)" by fastforce
  have ev: "store_evolves s s1" using reconcile_effect [OF r vis(2,3)] by simp
  have "st_ops t = st_ops s1"
    using assms(1) Inr r vis(1) by (auto simp: handle_list_def dest: write_index_ops split: sum.splits prod.splits)
  with ev show ?thesis by (rule store_evolves_trans_ops)
qed

lemma find_record_Inr: "find_record op s = Inr (d, j) \<longleftrightarrow> dir_at s op = Some d \<and> journal_at d = Some j"
  by (auto simp: find_record_def journal_at_def Let_def split: option.splits)

lemma find_record_name: "find_record op s = Inr (d, j) \<Longrightarrow> od_name d = op \<and> validate_journal j = None \<and> jn_operation_id j = op"
  by (auto simp: find_record_Inr journal_at_iff dest: tbl_get_Some)

lemma refusals_durable:
  "locked_tree e = Inl err \<Longrightarrow> fst (snd err) \<noteq> Not_durable"
  "find_record op s = Inl err \<Longrightarrow> fst (snd err) \<noteq> Not_durable"
  "next_journal d stamp j rq = Inl r \<Longrightarrow> r \<noteq> Not_durable"
  "emitted_event eq n now = Inl r \<Longrightarrow> r \<noteq> Not_durable"
  by (auto simp: locked_tree_def require_lock_def find_record_def Let_def split: if_splits option.splits)
     (auto simp: next_journal_def bind_sum_def requested_entry_def recovery_of_def evidence_of_def valid_or_usage_def emitted_event_def Let_def
       split: sum.splits if_splits option.splits)

text \<open>What a checkpoint request comes to: a refusal that changes nothing, or the two writes of its record.\<close>

lemma checkpoint_cases:
  assumes h: "handle_checkpoint e rq s = (res, t)"
  obtains (refused) err where "res = Inl err" "t = s" "fst (snd err) \<noteq> Not_durable"
  | (written) d j k c ok s1 where "locked_tree e = Inr (cr_operation_id rq)" "find_record (cr_operation_id rq) s = Inr (d, j)"
      "cr_expected_generation rq = jn_generation j" "next_journal d (en_now e) j rq = Inr (k, c)"
      "write_record e (cr_operation_id rq) (cp_sequence c) k s = (ok, s1)" "st_ops t = st_ops s1"
      "if ok then \<exists>ws. res = Inr (Recorded (cr_operation_id rq) (jn_generation k) (cp_sequence c) (cp_state c) ws (checkpoint_event k))
       else t = s1 \<and> res = Inl (PREFLIGHT, Not_durable, [])"
proof -
  let ?op = "cr_operation_id rq"
  show thesis
  proof (cases "locked_tree e = Inr ?op")
    case False
    then have "t = s \<and> (\<exists>err. res = Inl err \<and> fst (snd err) \<noteq> Not_durable)"
      using h refusals_durable(1) by (cases "locked_tree e") (auto simp: handle_checkpoint_def Let_def)
    then show thesis using refused by blast
  next
    case lock: True
    show thesis
    proof (cases "find_record ?op s")
      case (Inl err)
      then show thesis using h lock refusals_durable(2) [OF Inl] by (intro refused [of err]) (simp_all add: handle_checkpoint_def)
    next
      case (Inr dj)
      obtain d j where find: "find_record ?op s = Inr (d, j)" using Inr by (cases dj) simp
      show thesis
      proof (cases "next_journal d (en_now e) j rq")
        case (Inl r)
        show thesis
          using h lock find Inl refusals_durable(3) [OF Inl] refused
          by (cases "cr_expected_generation rq = jn_generation j") (auto simp: handle_checkpoint_def)
      next
        case (Inr kc)
        obtain k c where k: "next_journal d (en_now e) j rq = Inr (k, c)" using Inr by (cases kc) simp
        obtain ok s1 where w: "write_record e ?op (cp_sequence c) k s = (ok, s1)" by fastforce
        show thesis
        proof (cases "cr_expected_generation rq = jn_generation j")
          case False
          then show thesis using h lock find by (intro refused [of "(MANUAL, Stale_generation, [])"]) (simp_all add: handle_checkpoint_def)
        next
          case gen: True
          obtain ws s2 where iq: "index_quietly e (map (\<lambda>r. if rc_name r \<noteq> ?op then r else valid_record ?op k) (read_records s1)) s1 = (ws, s2)"
            by fastforce
          have "(res, t) = (if ok then (Inr (Recorded ?op (jn_generation k) (cp_sequence c) (cp_state c) ws (checkpoint_event k)), s2)
              else (Inl (PREFLIGHT, Not_durable, []), s1))"
            unfolding h [symmetric] by (simp add: handle_checkpoint_def lock find gen k w iq)
          then show thesis using index_quietly_ops [OF iq] by (intro written [OF lock find gen k w]) (auto split: if_splits)
        qed
      qed
    qed
  qed
qed

lemma checkpoint_evolves:
  assumes "handle_checkpoint e rq s = (res, t)"
  shows "store_evolves s t"
  using assms
proof (cases rule: checkpoint_cases)
  case (written d j k c ok s1)
  note succ = next_journal_succ [OF _ written(4)]
  have d: "dir_at s (cr_operation_id rq) = Some d" "journal_at d = Some j" and v: "validate_journal j = None"
    using written(2) find_record_name by (auto simp: find_record_Inr)
  have "touches (cr_operation_id rq) s s1"
    using write_record_touches(1) [OF written(5) d succ(1) [OF v] succ(3) [OF v]] succ(2) [OF v] by simp
  then show ?thesis using touches_evolves store_evolves_trans_ops written(6) by blast
qed simp

lemma emit_cases:
  assumes h: "handle_emit e rq s = (res, t)"
  obtains (refused) err where "res = Inl err" "t = s" "fst (snd err) \<noteq> Not_durable"
  | (written) d j ev where "locked_tree e = Inr (er_operation_id rq)" "find_record (er_operation_id rq) s = Inr (d, j)"
      "emitted_event rq (next_sequence d j) (en_now e) = Inr ev"
      "t = s \<and> res = Inl (PREFLIGHT, Not_durable, []) \<or> t = set_counter (er_operation_id rq) (next_sequence d j) s \<and>
       res \<in> {Inl (PREFLIGHT, Not_durable, []), Inr (Emitted (er_operation_id rq) (next_sequence d j) ev)}"
proof -
  let ?op = "er_operation_id rq"
  show thesis
  proof (cases "locked_tree e = Inr ?op")
    case False
    then have "t = s \<and> (\<exists>err. res = Inl err \<and> fst (snd err) \<noteq> Not_durable)"
      using h refusals_durable(1) by (cases "locked_tree e") (auto simp: handle_emit_def Let_def)
    then show thesis using refused by blast
  next
    case lock: True
    show thesis
    proof (cases "find_record ?op s")
      case (Inl err)
      then show thesis using h lock refusals_durable(2) [OF Inl] by (intro refused [of err]) (simp_all add: handle_emit_def)
    next
      case (Inr dj)
      obtain d j where find: "find_record ?op s = Inr (d, j)" using Inr by (cases dj) simp
      show thesis
      proof (cases "emitted_event rq (next_sequence d j) (en_now e)")
        case (Inl r)
        then show thesis using h lock find refusals_durable(4) [OF Inl]
          by (intro refused [of "(USAGE, r, [])"]) (simp_all add: handle_emit_def Let_def)
      next
        case (Inr ev)
        then show thesis using h lock find
          by (intro written [OF lock find Inr]) (cases "en_seq e ?op"; simp add: handle_emit_def Let_def write_atomic_def)
      qed
    qed
  qed
qed

lemma emitted_safe: "emitted_event rq n now = Inr ev \<Longrightarrow> n \<le> MAX_SAFE"
  by (auto simp: emitted_event_def Let_def split: if_splits)

lemma counter_step:
  assumes "journal_at d = Some j" "next_sequence d j \<le> MAX_SAFE"
  shows "dir_step d (d\<lparr>od_sequence := Some (counter_text (next_sequence d j))\<rparr>)"
    "high_water (d\<lparr>od_sequence := Some (counter_text (next_sequence d j))\<rparr>) = next_sequence d j" "high_water d < next_sequence d j"
proof -
  have "1 \<le> high_sequence j" using validD(5) assms(1) by (simp add: journal_at_iff)
  then have n: "1 \<le> next_sequence d j" "high_sequence j < next_sequence d j" "high_water d < next_sequence d j"
    using assms(1) by (simp_all add: next_sequence_high high_water_def)
  then show "high_water (d\<lparr>od_sequence := Some (counter_text (next_sequence d j))\<rparr>) = next_sequence d j" "high_water d < next_sequence d j"
    using assms by (simp_all add: high_water_def read_counter_written)
  then show "dir_step d (d\<lparr>od_sequence := Some (counter_text (next_sequence d j))\<rparr>)" by (simp add: dir_step_def)
qed

lemma emit_evolves:
  assumes "handle_emit e rq s = (res, t)"
  shows "store_evolves s t"
  using assms
proof (cases rule: emit_cases)
  case (written d j ev)
  have d: "dir_at s (er_operation_id rq) = Some d" "journal_at d = Some j" using written(2) by (simp_all add: find_record_Inr)
  have "touches (er_operation_id rq) s (set_counter (er_operation_id rq) (next_sequence d j) s)"
    using counter_step(1) [OF d(2) emitted_safe [OF written(3)]] d(1)
    by (simp add: touches_def set_counter_at) (simp add: set_counter_def)
  then show ?thesis using written(4) touches_evolves by auto
qed simp

subsection \<open>Operation identifiers\<close>

lemma times_rests: "t \<in> set (rests (times n (Cls P)) s) \<longleftrightarrow> (\<exists>p. s = p @ t \<and> length p = n \<and> (\<forall>c\<in>set p. P c))"
proof (induction n arbitrary: t)
  case (Suc n)
  have "t \<in> set (rests (times (Suc n) (Cls P)) s) \<longleftrightarrow> (\<exists>c. c # t \<in> set (rests (times n (Cls P)) s) \<and> P c)"
    by (auto simp: cls_rests_iff)
  also have "\<dots> \<longleftrightarrow> (\<exists>p c. s = p @ c # t \<and> length p = n \<and> (\<forall>c\<in>set p. P c) \<and> P c)" using Suc by auto
  also have "\<dots> \<longleftrightarrow> (\<exists>p. s = p @ t \<and> length p = Suc n \<and> (\<forall>c\<in>set p. P c))"
  proof
    assume "\<exists>p c. s = p @ c # t \<and> length p = n \<and> (\<forall>c\<in>set p. P c) \<and> P c"
    then obtain p c where "s = p @ c # t" "length p = n" "\<forall>c\<in>set p. P c" "P c" by blast
    then show "\<exists>p. s = p @ t \<and> length p = Suc n \<and> (\<forall>c\<in>set p. P c)" by (intro exI [of _ "p @ [c]"]) auto
  next
    assume "\<exists>p. s = p @ t \<and> length p = Suc n \<and> (\<forall>c\<in>set p. P c)"
    then obtain p where p: "s = p @ t" "length p = Suc n" "\<forall>c\<in>set p. P c" by blast
    then obtain q c where "p = q @ [c]" by (cases p rule: rev_cases) auto
    with p show "\<exists>p c. s = p @ c # t \<and> length p = n \<and> (\<forall>c\<in>set p. P c) \<and> P c" by (intro exI [of _ q] exI [of _ c]) auto
  qed
  finally show ?case .
qed auto

lemma number_full: "fullmatch (Seq (digits 3) (at_most 6 digit_c)) s \<longleftrightarrow> 3 \<le> length s \<and> length s \<le> 9 \<and> (\<forall>c\<in>set s. digit_c c)"
proof
  assume "fullmatch (Seq (digits 3) (at_most 6 digit_c)) s"
  then obtain u where u: "u \<in> set (rests (times 3 (Cls digit_c)) s)" "[] \<in> set (rests (at_most 6 digit_c) u)"
    by (auto simp: fullmatch_def digits_def)
  then obtain p where "s = p @ u" "length p = 3" "\<forall>c\<in>set p. digit_c c" unfolding times_rests by blast
  with u(2) show "3 \<le> length s \<and> length s \<le> 9 \<and> (\<forall>c\<in>set s. digit_c c)" by (auto simp: at_most_full)
next
  assume s: "3 \<le> length s \<and> length s \<le> 9 \<and> (\<forall>c\<in>set s. digit_c c)"
  then have "drop 3 s \<in> set (rests (times 3 (Cls digit_c)) s)"
    unfolding times_rests by (intro exI [of _ "take 3 s"]) (auto dest: in_set_takeD)
  moreover have "[] \<in> set (rests (at_most 6 digit_c) (drop 3 s))" using s by (auto simp: at_most_full dest: in_set_dropD)
  ultimately show "fullmatch (Seq (digits 3) (at_most 6 digit_c)) s" by (auto simp: fullmatch_def digits_def)
qed

lemma decimal_pad: "decimal (lit (replicate k CHR ''0'') @ s) = decimal s"
proof (induction s rule: rev_induct)
  case Nil
  have "decimal (lit (replicate k CHR ''0'')) = 0" by (induction k) (simp_all add: decimal_def)
  then show ?case by (simp add: decimal_def)
next
  case (snoc c s)
  then show ?case using decimal_snoc [of "lit (replicate k CHR ''0'') @ s" c] by (simp add: decimal_snoc)
qed

lemma id_number_operation_id:
  assumes "1 \<le> n" "n \<le> MAX_ID"
  shows "id_number day (operation_id day n) = n"
proof -
  let ?d = "int_str n" and ?p = "lit ''op-'' @ day @ lit ''-''"
  let ?s = "lit (replicate (3 - length ?d) CHR ''0'' @ ?d)"
  have d: "?d = nat_str (nat n)" using assms(1) by (simp add: int_str_def)
  have len: "length ?d \<le> 9" using nat_str_length [of "nat n" 9] assms(2) d by (simp add: MAX_ID_def)
  have zero: "digit_c (of_char CHR ''0'')" by (simp add: digit_c_def between_def)
  have full: "fullmatch (Seq (digits 3) (at_most 6 digit_c)) ?s"
    using nat_str_digits [of "nat n"] len zero d by (auto simp: number_full)
  have val: "decimal ?s = n" using decimal_pad [of "3 - length ?d" "lit ?d"] decimal_nat_str [of "nat n"] assms(1) d by simp
  have "operation_id day n = ?p @ ?s" by (simp add: operation_id_def)
  then show ?thesis using full val by (simp add: id_number_def Let_def)
qed

lemma today_ids_upper: "name \<in> set names \<Longrightarrow> id_number day name \<le> today_ids names day"
  and today_ids_nonneg: "0 \<le> today_ids names day"
  by (induction names) (auto simp: today_ids_def)

subsection \<open>Beginning an operation\<close>

lemma first_journal_facts:
  assumes "first_journal op stamp rq = Inr j"
  shows "validate_journal j = None" "jn_operation_id j = op" "jn_kind j = br_kind rq" "\<not> finished j" "high_sequence j = 1"
    "jn_generation j = 1" "cp_sequence (last_record j) = 1"
  using assms by (auto simp: first_journal_def bind_sum_Inr valid_or_usage_def finished_def last_record_def high_sequence_def split: option.splits)

lemma new_dir_facts:
  assumes "first_journal op stamp rq = Inr j"
  shows "journal_at (new_dir op j) = Some j" "high_water (new_dir op j) = 1" "od_name (new_dir op j) = op"
proof -
  note j = first_journal_facts [OF assms]
  have "valid_operation_id op" using validD(1) [OF j(1)] j(2) by (simp add: journal_schema_def)
  then show at: "journal_at (new_dir op j) = Some j" using j by (simp add: journal_at_iff new_dir_def)
  have "read_counter (new_dir op j) = 1" using read_counter_written [of 1 "new_dir op j"] by (simp add: new_dir_def MAX_SAFE_def)
  then show "high_water (new_dir op j) = 1" using at j(5) by (simp add: high_water_def)
qed (simp add: new_dir_def)

definition open_tx :: "store \<Rightarrow> utext \<Rightarrow> bool" where
  "open_tx s op \<longleftrightarrow> (\<exists>d j. dir_at s op = Some d \<and> journal_at d = Some j \<and> jn_kind j = Transaction \<and> \<not> finished j)"

lemma store_evolves_open_tx:
  assumes "store_evolves s t" "open_tx t op"
  shows "open_tx s op"
proof -
  from assms(2) obtain d' k where d': "dir_at t op = Some d'" "journal_at d' = Some k" "jn_kind k = Transaction" "\<not> finished k"
    by (auto simp: open_tx_def)
  have "op \<in> set (map od_name (st_ops t))" using tbl_get_Some [OF d'(1)] by auto
  then have "op \<in> set (map od_name (st_ops s))" using assms(1) unfolding store_evolves_def by metis
  then obtain d where d: "dir_at s op = Some d" by (metis list.set_map not_Some_eq tbl_get_None)
  then have le: "dir_le d d'" using store_evolvesD [OF assms(1) d] d'(1) by simp
  show ?thesis
  proof (cases "journal_at d")
    case None
    with le have "journal_at d' = journal_at d" by (intro journal_at_cong) (auto simp: dir_le_def)
    with None d'(2) show ?thesis by simp
  next
    case (Some j)
    with le d'(2) have "journal_le j k" by (simp add: dir_le_def)
    with d d' Some show ?thesis by (auto simp: open_tx_def journal_le_def same_header_def)
  qed
qed

lemma hidden_not_operation: "hidden d \<Longrightarrow> journal_at d = None"
proof -
  assume "hidden d"
  then obtain r where "od_name d = 46 # r" by (auto simp: hidden_def prefix_def)
  then have "\<not> fullmatch operation_re (od_name d)" by (simp add: fullmatch_def operation_re_def)
  then show ?thesis by (cases "journal_at d") (auto simp: journal_at_iff valid_operation_id_def)
qed

text \<open>The records reconciliation reports are those of the store it leaves.\<close>

lemma reported_in:
  assumes "reported t (visible s) rs" "keys_distinct od_name (st_ops s)" "store_evolves s t" "dir_at t op = Some d" "journal_at d = Some j"
  shows "read_record d \<in> set rs"
proof -
  have "op \<in> set (map od_name (st_ops t))" using tbl_get_Some [OF assms(4)] by auto
  then have "op \<in> set (map od_name (st_ops s))" using assms(3) unfolding store_evolves_def by metis
  then obtain d0 where d0: "d0 \<in> set (st_ops s)" "od_name d0 = op" by auto
  have "\<not> hidden d" using hidden_not_operation assms(5) by auto
  then have "\<not> hidden d0" using tbl_get_Some [OF assms(4)] d0(2) by (simp add: hidden_def)
  then have "d0 \<in> set (visible s)" using visible_facts(4) [OF assms(2)] d0(1) by simp
  then show ?thesis using assms(1,4) d0(2) by (force simp: reported_def)
qed

lemma no_blocking:
  assumes "reported t (visible s) rs" "keys_distinct od_name (st_ops s)" "store_evolves s t" "blocking_ops kind rs = []"
  shows "\<not> open_tx t op"
proof
  assume "open_tx t op"
  then obtain d' k where d': "dir_at t op = Some d'" "journal_at d' = Some k" "jn_kind k = Transaction" "\<not> finished k"
    by (auto simp: open_tx_def)
  then have "read_record d' \<in> set rs" using reported_in [OF assms(1-3)] by blast
  then show False using assms(4) d' by (auto simp: blocking_ops_def journal_at_def filter_empty_conv)
qed

text \<open>What a begin request comes to, from the store it leaves after reconciling.\<close>

lemma begin_new_cases:
  assumes "begin_new e rq rs ws s = (res, t)"
  obtains (refused) err where "res = Inl err" "t = s"
  | (begun) n j ws' where "n = today_ids (map od_name (st_ops s)) (day_of (en_now e)) + 1" "n \<le> MAX_ID"
      "first_journal (operation_id (day_of (en_now e)) n) (en_now e) rq = Inr j"
      "st_ops t = st_ops s @ [new_dir (operation_id (day_of (en_now e)) n) j]"
      "res \<in> {Inl (PREFLIGHT, Not_durable, []), Inr (Began (operation_id (day_of (en_now e)) n) ws' (checkpoint_event j))}"
proof -
  define n where "n = today_ids (map od_name (st_ops s)) (day_of (en_now e)) + 1"
  define op where "op = operation_id (day_of (en_now e)) n"
  show thesis
  proof (cases "n \<le> MAX_ID")
    case False
    then show thesis using assms by (intro refused [of "(PREFLIGHT, No_id_left, [])"]) (simp_all add: begin_new_def n_def Let_def)
  next
    case id: True
    show thesis
    proof (cases "first_journal op (en_now e) rq")
      case (Inl r)
      then show thesis using assms id by (intro refused [of "(USAGE, r, [])"]) (simp_all add: begin_new_def op_def n_def Let_def)
    next
      case (Inr j)
      obtain ws2 s2 where iq: "index_quietly e (rs @ [valid_record op j]) (add_dir (new_dir op j) s) = (ws2, s2)" by fastforce
      have "(res, t) = (case en_stage e of W_ok \<Rightarrow> (Inr (Began op (ws @ ws2) (checkpoint_event j)), s2)
          | W_lost \<Rightarrow> (Inl (PREFLIGHT, Not_durable, []), s) | W_unsynced \<Rightarrow> (Inl (PREFLIGHT, Not_durable, []), add_dir (new_dir op j) s))"
        unfolding assms [symmetric] using id Inr iq
        unfolding op_def n_def by (simp add: begin_new_def Let_def write_atomic_def split: write_outcome.split)
      moreover have "st_ops (add_dir (new_dir op j) s) = st_ops s @ [new_dir op j]" "st_ops s2 = st_ops s @ [new_dir op j]"
        using index_quietly_ops [OF iq] by (simp_all add: add_dir_def)
      ultimately show thesis using begun [OF n_def id Inr [unfolded op_def]] refused unfolding op_def
        by (cases "en_stage e") auto
    qed
  qed
qed

lemma begin_cases:
  assumes h: "handle_begin e rq s = (res, t)" and s: "keys_distinct od_name (st_ops s)"
  obtains (kept) s0 err where "s0 = s \<or> s0 = remove_staging s" "store_evolves s0 t" "res = Inl err"
  | (begun) s1 n j ws' where "store_evolves (remove_staging s) s1" "\<forall>op. \<not> open_tx s1 op"
      "n = today_ids (map od_name (st_ops s1)) (day_of (en_now e)) + 1" "n \<le> MAX_ID"
      "first_journal (operation_id (day_of (en_now e)) n) (en_now e) rq = Inr j"
      "st_ops t = st_ops s1 @ [new_dir (operation_id (day_of (en_now e)) n) j]"
      "res \<in> {Inl (PREFLIGHT, Not_durable, []), Inr (Began (operation_id (day_of (en_now e)) n) ws' (checkpoint_event j))}"
proof -
  let ?s0 = "remove_staging s"
  show thesis
  proof (cases "locked_tree e = Inr []")
    case False
    then have "t = s \<and> (\<exists>err. res = Inl err)" using h by (auto simp: handle_begin_def split: sum.splits if_splits)
    then show thesis using kept [of s] by auto
  next
    case lock: True
    have s0: "keys_distinct od_name (st_ops ?s0)" using s by (simp add: keys_distinct_def remove_staging_def distinct_map_filter)
    note vis = visible_facts [OF s0]
    obtain res1 s1 where r: "reconcile e [] (map read_record (visible ?s0)) ?s0 = (res1, s1)" by fastforce
    note eff = reconcile_effect [OF r vis(2,3)]
    show thesis
    proof (cases res1)
      case (Inl err)
      then show thesis using h lock r vis(1) eff by (intro kept [of ?s0 err]) (simp_all add: handle_begin_def Let_def)
    next
      case (Inr rw)
      then obtain rs ws where rw: "res1 = Inr (rs, ws)" by (cases rw) simp
      let ?w = "ws @ begin_warnings (br_kind rq) rs"
      show thesis
      proof (cases "blocking_ops (br_kind rq) rs = []")
        case False
        obtain ws2 s2 where iq: "index_quietly e rs s1 = (ws2, s2)" by fastforce
        have "(res, t) = (Inl (MANUAL, Unfinished_first (take 5 (blocking_ops (br_kind rq) rs)), ?w), s2)"
          unfolding h [symmetric] using lock r rw vis(1) False iq by (simp add: handle_begin_def Let_def)
        then show thesis using kept [of ?s0] eff store_evolves_trans_ops [OF _ index_quietly_ops [OF iq]] by auto
      next
        case True
        have b: "begin_new e rq rs ?w s1 = (res, t)"
          unfolding h [symmetric] using lock r rw vis(1) True by (simp add: handle_begin_def Let_def)
        have none: "\<forall>op. \<not> open_tx s1 op" using no_blocking [OF _ s0 _ True] eff rw by auto
        from b show thesis
        proof (cases rule: begin_new_cases)
          case refused
          then show thesis using kept [of ?s0] eff by auto
        next
          case (begun n j ws')
          then show thesis using eff by (intro that(2) [OF _ none begun]) auto
        qed
      qed
    qed
  qed
qed

lemma fresh_id:
  assumes "n = today_ids names day + 1" "n \<le> MAX_ID"
  shows "operation_id day n \<notin> set names"
proof
  assume "operation_id day n \<in> set names"
  from today_ids_upper [OF this, of day] id_number_operation_id [of n day] today_ids_nonneg [of names day] assms
  show False by simp
qed

subsection \<open>Sequences of requests\<close>

definition one_tx :: "store \<Rightarrow> bool" where
  "one_tx s \<longleftrightarrow> (\<forall>a b. open_tx s a \<and> open_tx s b \<longrightarrow> a = b)"

definition water :: "store \<Rightarrow> utext \<Rightarrow> int" where
  "water s op = (case dir_at s op of Some d \<Rightarrow> high_water d | None \<Rightarrow> 0)"

text \<open>Operations with a readable journal stay, and only grow.\<close>

definition keeps :: "store \<Rightarrow> store \<Rightarrow> bool" where
  "keeps s t \<longleftrightarrow> (\<forall>op d. dir_at s op = Some d \<and> journal_at d \<noteq> None \<longrightarrow> (\<exists>d'. dir_at t op = Some d' \<and> dir_le d d'))"

lemma keeps_refl [simp]: "keeps s s"
  by (auto simp: keeps_def)

lemma keeps_trans:
  assumes "keeps s t" "keeps t u"
  shows "keeps s u"
  unfolding keeps_def
proof (intro allI impI)
  fix op d assume d: "dir_at s op = Some d \<and> journal_at d \<noteq> None"
  with assms(1) obtain d1 where d1: "dir_at t op = Some d1" "dir_le d d1" by (auto simp: keeps_def)
  then have "journal_at d1 \<noteq> None" using d by (auto simp: dir_le_def)
  with assms(2) d1 obtain d2 where "dir_at u op = Some d2" "dir_le d1 d2" by (auto simp: keeps_def)
  with d1 show "\<exists>d'. dir_at u op = Some d' \<and> dir_le d d'" by (blast intro: dir_le_trans)
qed

lemma store_evolves_keeps: "store_evolves s t \<Longrightarrow> keeps s t"
  by (auto simp: keeps_def dest: store_evolvesD)

lemma tbl_get_filter: "tbl_get key k (filter (\<lambda>r. P (key r)) rows) = (if P k then tbl_get key k rows else None)"
  by (induction rows) (auto simp: tbl_get_Cons)

lemma remove_staging_at: "dir_at (remove_staging s) op = (if prefix (lit ''.new-'') op then None else dir_at s op)"
  using tbl_get_filter [of od_name op "\<lambda>n. \<not> prefix (lit ''.new-'') n" "st_ops s"] by (simp add: remove_staging_def)

lemma staging_hidden: "dir_at s op = Some d \<Longrightarrow> prefix (lit ''.new-'') op \<Longrightarrow> hidden d"
  by (auto simp: hidden_def prefix_def dest!: tbl_get_Some)

lemma remove_staging_keeps: "keeps s (remove_staging s)"
  using hidden_not_operation staging_hidden by (auto simp: keeps_def remove_staging_at)

lemma remove_staging_tx: "open_tx (remove_staging s) op \<Longrightarrow> open_tx s op"
  by (auto simp: open_tx_def remove_staging_at split: if_splits)

lemma new_dir_at:
  assumes "st_ops t = st_ops s @ [new_dir op j]" "op \<notin> set (map od_name (st_ops s))"
  shows "dir_at t x = (if x = op then Some (new_dir op j) else dir_at s x)"
proof -
  have "dir_at s op = None" using assms(2) by (simp add: tbl_get_None)
  then show ?thesis using assms(1) by (auto simp: tbl_get_append tbl_get_Cons new_dir_def split: option.split)
qed

lemma begin_effect:
  assumes h: "handle_begin e rq s = (res, t)" and s: "keys_distinct od_name (st_ops s)"
  shows "keys_distinct od_name (st_ops t)" "keeps s t" "one_tx s \<Longrightarrow> one_tx t"
proof -
  have s0: "keys_distinct od_name (st_ops (remove_staging s))"
    using s by (simp add: keys_distinct_def remove_staging_def distinct_map_filter)
  have "keys_distinct od_name (st_ops t) \<and> keeps s t \<and> (one_tx s \<longrightarrow> one_tx t)"
    using h s
  proof (cases rule: begin_cases)
    case (kept s0' err)
    have "keys_distinct od_name (st_ops s0')" "keeps s s0'" "\<And>op. open_tx s0' op \<Longrightarrow> open_tx s op"
      using kept(1) s s0 remove_staging_keeps remove_staging_tx by auto
    moreover have "map od_name (st_ops t) = map od_name (st_ops s0')" using kept(2) by (simp add: store_evolves_def)
    ultimately show ?thesis
      using keeps_trans store_evolves_keeps [OF kept(2)] store_evolves_open_tx [OF kept(2)]
      by (auto simp: keys_distinct_def one_tx_def)
  next
    case (begun s1 n j ws')
    let ?op = "operation_id (day_of (en_now e)) n"
    have names: "map od_name (st_ops s1) = map od_name (st_ops (remove_staging s))" using begun(1) by (simp add: store_evolves_def)
    have new: "?op \<notin> set (map od_name (st_ops s1))" by (rule fresh_id [OF begun(3,4)])
    note at = new_dir_at [OF begun(6) new]
    have "keys_distinct od_name (st_ops t)" using begun(6) names new s0 by (simp add: keys_distinct_def new_dir_def)
    moreover have "dir_at s1 ?op = None" using new by (simp add: tbl_get_None)
    then have "keeps s1 t" unfolding keeps_def at by auto
    then have "keeps s t" by (rule keeps_trans [OF keeps_trans [OF remove_staging_keeps store_evolves_keeps [OF begun(1)]]])
    moreover have "open_tx t x \<Longrightarrow> x = ?op" for x
      using at begun(2) by (auto simp: open_tx_def split: if_splits)
    then have "one_tx t" by (auto simp: one_tx_def)
    ultimately show ?thesis by blast
  qed
  then show "keys_distinct od_name (st_ops t)" "keeps s t" "one_tx s \<Longrightarrow> one_tx t" by auto
qed

lemma serve_effect:
  assumes h: "serve x s = (res, t)" and s: "keys_distinct od_name (st_ops s)"
  shows "keys_distinct od_name (st_ops t)" "keeps s t" "one_tx s \<Longrightarrow> one_tx t"
proof -
  obtain e rq where x: "x = (e, rq)" by (cases x)
  have ev: "keys_distinct od_name (st_ops t) \<and> keeps s t \<and> (one_tx s \<longrightarrow> one_tx t)" if "store_evolves s t"
    using that s store_evolves_keeps store_evolves_open_tx [OF that] by (auto simp: keys_distinct_def store_evolves_def one_tx_def)
  have "keys_distinct od_name (st_ops t) \<and> keeps s t \<and> (one_tx s \<longrightarrow> one_tx t)"
    using h begin_effect [OF _ s] checkpoint_evolves emit_evolves list_evolves [OF _ s] ev x
    by (cases rq) (auto simp: serve_def)
  then show "keys_distinct od_name (st_ops t)" "keeps s t" "one_tx s \<Longrightarrow> one_tx t" by auto
qed

lemma run_effect:
  assumes "keys_distinct od_name (st_ops s)"
  shows "keys_distinct od_name (st_ops (fold (\<lambda>x s. snd (serve x s)) xs s)) \<and> keeps s (fold (\<lambda>x s. snd (serve x s)) xs s) \<and>
    (one_tx s \<longrightarrow> one_tx (fold (\<lambda>x s. snd (serve x s)) xs s))"
  using assms
proof (induction xs arbitrary: s)
  case (Cons x xs)
  obtain res t where t: "serve x s = (res, t)" by fastforce
  note eff = serve_effect [OF t Cons.prems]
  from Cons.IH [OF eff(1)] eff keeps_trans [OF eff(2)] show ?case by (simp add: t)
qed simp

interpretation lifecycle: invariant_machine "\<lambda>x s. snd (serve x s)" "\<lambda>s. keys_distinct od_name (st_ops s) \<and> one_tx s"
proof
  fix s x assume "keys_distinct od_name (st_ops s) \<and> one_tx s"
  then show "keys_distinct od_name (st_ops (snd (serve x s))) \<and> one_tx (snd (serve x s))"
    using serve_effect [of x s "fst (serve x s)" "snd (serve x s)"] by simp
qed

end
