(* ===== verification/Lifecycle_Properties.thy ===== *)
theory Lifecycle_Properties
  imports Lifecycle_Safety
begin

text \<open>
  The properties of the lifecycle utility as a whole: what any sequence of requests, under any
  pattern of failing writes, does to the journals, the operation identifiers, the sequence
  numbers and the recovery points.
\<close>

subsection \<open>Interrupting an operation whose process is gone\<close>

lemma legacy_states: "records_ok Legacy action cs \<Longrightarrow> \<forall>c\<in>set cs. cp_state c \<notin> set pre_mutation"
proof (induction cs rule: rev_induct)
  case (snoc x cs)
  show ?case
  proof (cases "cs = []")
    case True
    with snoc.prems show ?thesis by (auto simp: records_ok_def pre_mutation_def)
  next
    case False
    then have ok: "records_ok Legacy action cs" and r: "record_rules Legacy action (os_attempts (abs_records cs)) (last cs) x = None"
      using snoc.prems(1) by (simp_all add: records_ok_snoc)
    have "cp_state (last cs) \<notin> set pre_mutation" using snoc.IH [OF ok] False by simp
    moreover have "cp_state x = cp_state (last cs) \<or> is_transition Legacy (cp_state (last cs)) (cp_state x)"
      using r by (auto simp: record_rules_None split: if_splits)
    ultimately have "cp_state x \<notin> set pre_mutation"
      by (cases "cp_state (last cs)") (auto simp: is_transition_def pre_mutation_def)
    then show ?thesis using snoc.IH [OF ok] by simp
  qed
qed simp

lemma in_progress_interruptible:
  assumes "journal_rules j = None" "in_progress j"
  shows "is_transition (jn_kind j) (cp_state (last_record j)) Interrupted"
proof -
  have "jn_kind j = Legacy \<Longrightarrow> cp_state (last_record j) \<notin> set pre_mutation"
    using assms(1) legacy_states [of "jn_action j" "jn_checkpoints j"]
    by (auto simp: journal_rules_None records_ok_def last_record_def)
  then show ?thesis
    using outcome_of_state(1,2) [OF last_wellformed [OF assms(1)]] assms(2)
    by (cases "jn_kind j"; cases "cp_state (last_record j)") (auto simp: in_progress_def finished_def is_transition_def pre_mutation_def)
qed

lemma abandoned_wellformed: "checkpoint_rules (abandoned_entry n stamp previous) = None"
  by (auto simp: checkpoint_rules_def Let_def abandoned_entry_def needs_error_def progress_states_def)

lemma abandoned_record_legal:
  assumes "journal_rules j = None" "in_progress j" "cp_sequence (last_record j) < n"
  shows "record_rules (jn_kind j) (jn_action j) a (last_record j) (abandoned_entry n stamp (last_record j)) = None"
proof -
  let ?c = "abandoned_entry n stamp (last_record j)"
  have f: "cp_state ?c = Interrupted" "cp_checkpoint ?c = Some (cp_state (last_record j))" "cp_sequence ?c = n" "cp_outcome ?c \<noteq> Some Out_manual"
    "\<not> starts_attempt x ?c" for x
    by (simp_all add: abandoned_entry_def starts_attempt_def)
  have "cp_outcome (last_record j) = None" "cp_state (last_record j) \<noteq> Interrupted" using assms(2) by (auto simp: in_progress_def finished_def)
  then show ?thesis
    using assms(3) f in_progress_interruptible [OF assms(1,2)] abandoned_wellformed
    by (simp add: record_rules_None follows_def)
qed

definition numbers_left :: "op_dir \<Rightarrow> journal \<Rightarrow> bool" where
  "numbers_left d j \<longleftrightarrow> next_sequence d j \<le> MAX_SAFE \<and> jn_generation j < MAX_SAFE"

lemma abandoned_valid:
  assumes j: "validate_journal j = None" "in_progress j" and n: "numbers_left d j" and stamp: "is_timestamp stamp"
  shows "validate_journal (abandoned_journal d stamp j) = None"
proof -
  let ?k = "abandoned_journal d stamp j" and ?c = "abandoned_entry (next_sequence d j) stamp (last_record j)"
  note v = validD [OF j(1)]
  have last: "last_record j \<in> set (jn_checkpoints j)" using v(4) by (simp add: last_record_def)
  have "cp_sequence (last_record j) \<le> high_sequence j"
  proof -
    have "b \<le> foldr (\<lambda>c m. max (cp_sequence c) m) cs b" for cs b by (induction cs) auto
    then show ?thesis by (simp add: high_sequence_def)
  qed
  then have lt: "cp_sequence (last_record j) < next_sequence d j" by (simp add: next_sequence_high)
  have k: "?k = (extend_journal j [?c])\<lparr>jn_updated_at := stamp\<rparr>" by (simp add: abandoned_journal_def extend_journal_def)
  have "journal_rules (extend_journal j [?c]) = None"
    by (rule extend_legal [OF v(3) abandoned_record_legal [OF v(3) j(2) lt]]) (simp add: abandoned_entry_def)
  then have rules: "journal_rules ?k = None" unfolding k by (simp add: journal_rules_None header_ok_def)
  have len: "length (jn_checkpoints ?k) \<le> 23"
    using rules lc_run_length [of "jn_kind ?k" "jn_action ?k" "jn_checkpoints ?k"] by (fastforce simp: journal_rules_None records_ok_iff_run)
  have one: "1 \<le> next_sequence d j" using v(5) by (simp add: next_sequence_high)
  have "checkpoint_schema ?c" using one stamp by (simp add: checkpoint_schema_def abandoned_entry_def pred_opt_def)
  then have schema: "journal_schema ?k" using v(1) stamp len by (auto simp: journal_schema_def abandoned_journal_def)
  have "journal_plain ?k" using v(2) n by (simp add: journal_plain_def abandoned_journal_def numbers_left_def abandoned_entry_def pred_opt_def)
  with schema rules show ?thesis by (simp add: validate_journal_None)
qed

text \<open>What the host gives every operation with a readable journal: its directory opens, the clock is sane, no counter is exhausted.\<close>

definition can_settle :: "env \<Rightarrow> op_dir \<Rightarrow> bool" where
  "can_settle e d \<longleftrightarrow> (\<forall>j. journal_at d = Some j \<longrightarrow>
     en_open e (od_name d) \<and> is_timestamp (en_abandon_now e (od_name d)) \<and> numbers_left d j)"

lemma abandoned_settled: "\<not> in_progress (abandoned_journal d stamp j)"
  by (simp add: in_progress_def abandoned_journal_def last_record_def abandoned_entry_def)

lemma abandon_settles:
  assumes ab: "abandon e (read_record d) j s = (Inr (r, ws), t)" and d: "dir_at s (od_name d) = Some d" "journal_at d = Some j"
    and ok: "in_progress j" "can_settle e d"
  shows "rc_journal r = Some (abandoned_journal d (en_abandon_now e (od_name d)) j)" "ws = []"
proof -
  have "validate_journal (abandoned_journal d (en_abandon_now e (od_name d)) j) = None" "en_open e (od_name d)"
    using ok d(2) abandoned_valid [of j d] by (auto simp: can_settle_def journal_at_iff)
  then show "rc_journal r = Some (abandoned_journal d (en_abandon_now e (od_name d)) j)" "ws = []"
    using ab d(1) by (auto simp: abandon_def Let_def op_dir_of_def split: prod.splits bool.splits)
qed

lemma reconcile_settles:
  assumes "reconcile e bound (map read_record ds) s = (Inr (rs, ws), t)" "distinct (map od_name ds)"
    "\<forall>d\<in>set ds. dir_at s (od_name d) = Some d" "\<forall>d\<in>set ds. can_settle e d"
  shows "(\<forall>r\<in>set rs. rc_name r \<noteq> bound \<longrightarrow> (\<forall>j. rc_journal r = Some j \<longrightarrow> \<not> in_progress j)) \<and> ws = []"
  using assms
proof (induction ds arbitrary: s rs ws)
  case (Cons d ds)
  have d: "dir_at s (od_name d) = Some d" using Cons.prems(3) by simp
  obtain res1 s1 where first: "settle e bound d s = (res1, s1)" by fastforce
  with Cons.prems(1) obtain r w1 rs2 w2 where r: "res1 = Inr (r, w1)" "reconcile e bound (map read_record ds) s1 = (Inr (rs2, w2), t)"
    "rs = r # rs2" "ws = w1 @ w2"
    unfolding reconcile_Cons by (auto split: sum.splits prod.splits)
  have head: "w1 = [] \<and> (rc_name r \<noteq> bound \<longrightarrow> (\<forall>j. rc_journal r = Some j \<longrightarrow> \<not> in_progress j))"
  proof (cases "od_name d \<noteq> bound \<and> (\<exists>j. journal_at d = Some j \<and> in_progress j)")
    case True
    then obtain j where j: "journal_at d = Some j" "in_progress j" by blast
    with True first r(1) have "abandon e (read_record d) j s = (Inr (r, w1), s1)" by (simp add: settle_def)
    from abandon_settles [OF this d j] Cons.prems(4) abandoned_settled show ?thesis by simp
  next
    case False
    have "r = read_record d" "w1 = []" using first r(1) unfolding settle_def if_not_P [OF False] by simp_all
    then show ?thesis using False by (auto simp: journal_at_def)
  qed
  from Cons.IH [OF r(2) _ touches_others [OF settle_effect(1) [OF first d] Cons.prems(2,3)]] Cons.prems(2,4)
  have "(\<forall>r\<in>set rs2. rc_name r \<noteq> bound \<longrightarrow> (\<forall>j. rc_journal r = Some j \<longrightarrow> \<not> in_progress j)) \<and> w2 = []" by simp
  with head r(3,4) show ?case by simp
qed simp

lemma list_cases:
  assumes "handle_list e s = (Inr (Listed rs om pr rel full ws), t)" "keys_distinct od_name (st_ops s)"
  obtains s1 where "locked_tree e = Inr (en_bound e)" "reconcile e (en_bound e) (map read_record (visible s)) s = (Inr (rs, ws), s1)"
    "st_ops t = st_ops s1" "retention rs = (pr, rel, full)" "reported s1 (visible s) rs" "store_evolves s s1"
proof -
  from assms(1) obtain bound where lock: "locked_tree e = Inr bound" by (auto simp: handle_list_def split: sum.splits)
  then have b: "bound = en_bound e" by (auto simp: locked_tree_def require_lock_def split: if_splits)
  obtain res1 s1 where r: "reconcile e bound (map read_record (visible s)) s = (res1, s1)" by fastforce
  note eff = reconcile_effect [OF r visible_facts(2,3) [OF assms(2)]]
  have "res1 = Inr (rs, ws) \<and> st_ops t = st_ops s1 \<and> retention rs = (pr, rel, full)"
    using assms(1) lock r visible_facts(1) [OF assms(2)]
    by (auto simp: handle_list_def dest: write_index_ops split: sum.splits prod.splits if_splits)
  then show thesis using that [of s1] lock r eff b by simp
qed

subsection \<open>A sample run\<close>

definition empty_store :: store where
  "empty_store = \<lparr>st_ops = [], st_index = None\<rparr>"

definition quiet_env :: "utext \<Rightarrow> utext \<Rightarrow> env" where
  "quiet_env bound now = \<lparr>en_tree = True, en_held = True, en_bound = bound, en_owner = bound, en_alive = True, en_now = now,
     en_index_now = now, en_abandon_now = (\<lambda>_. now), en_open = (\<lambda>_. True), en_seq = (\<lambda>_. W_ok), en_jrn = (\<lambda>_. W_ok),
     en_stage = W_ok, en_index = X_ok\<rparr>"

definition sample_begin :: begin_request where
  "sample_begin = \<lparr>rq_recovery_operation_id = None, rq_recovery_manifest_digest = None, rq_evidence_check = None,
     rq_evidence_result = None, rq_evidence_detail = None, br_kind = Transaction, br_action = Update, br_adapter = Native,
     br_plan_digest = Some sample_digest, br_identity_digest = None, br_source_version = Some (lit ''0.4.6''),
     br_source_artifact_digest = None, br_target_version = Some (lit ''0.4.7''), br_target_artifact_digest = None\<rparr>"

definition sample_checkpoint :: "int \<Rightarrow> lc_state \<Rightarrow> checkpoint_request" where
  "sample_checkpoint g st = \<lparr>rq_recovery_operation_id = None, rq_recovery_manifest_digest = None, rq_evidence_check = None,
     rq_evidence_result = None, rq_evidence_detail = None, cr_operation_id = lit ''op-20261002-001'', cr_expected_generation = g,
     cr_state = st, cr_step = None, cr_cause = None, cr_outcome = None, cr_error_code = None, cr_error_reason = None\<rparr>"

definition morning :: utext where
  "morning = lit ''2026-10-02T10:00:00.000000Z''"

definition sample_requests :: "(env \<times> request) list" where
  "sample_requests =
     [(quiet_env [] morning, Begin sample_begin),
      (quiet_env (lit ''op-20261002-001'') morning, Checkpoint (sample_checkpoint 1 Staged))]"

definition begun_store :: store where
  "begun_store = snd (serve (quiet_env [] morning, Begin sample_begin) empty_store)"

lemma empty_store_ok [simp]: "keys_distinct od_name (st_ops empty_store)" "one_tx empty_store"
  by (simp_all add: empty_store_def keys_distinct_def one_tx_def open_tx_def)

lemma begun_ok [simp]: "keys_distinct od_name (st_ops begun_store)" "one_tx begun_store"
  using serve_effect [of "(quiet_env [] morning, Begin sample_begin)" empty_store "fst (serve (quiet_env [] morning, Begin sample_begin) empty_store)" begun_store]
  by (simp_all add: begun_store_def)

lemma begun_dir: "map (\<lambda>d. (od_name d, map_option (\<lambda>j. (jn_generation j, cp_state (last_record j))) (journal_at d))) (st_ops begun_store) =
    [(lit ''op-20261002-001'', Some (1, Planned))]"
  by code_simp

lemma begun_at: "\<exists>d j. tbl_get od_name (lit ''op-20261002-001'') (st_ops begun_store) = Some d \<and> journal_at d = Some j"
proof -
  have "list_all (\<lambda>d. journal_at d \<noteq> None) (st_ops begun_store) \<and> tbl_get od_name (lit ''op-20261002-001'') (st_ops begun_store) \<noteq> None"
    by code_simp
  then obtain d where d: "tbl_get od_name (lit ''op-20261002-001'') (st_ops begun_store) = Some d" "list_all (\<lambda>d. journal_at d \<noteq> None) (st_ops begun_store)" by blast
  then show ?thesis using tbl_get_Some [OF d(1)] by (auto simp: list_all_iff)
qed

subsection \<open>Journals\<close>

text \<open>
  C8. \<^bold>\<open>Journals stay valid documents and only grow.\<close> Whatever requests are served, in whatever order and
  whichever of their writes fail, an operation with a readable journal keeps one: it still validates,
  its header, evidence and recovery reference are kept, its records are kept but for a step replaced by
  a later step of the same state, its generation and sequences never go back, and once it is closed
  nothing in it changes.
\<close>

theorem journals_only_grow:
  assumes "keys_distinct od_name (st_ops s)" "tbl_get od_name op (st_ops s) = Some d" "journal_at d = Some j"
  shows "\<exists>d' k. tbl_get od_name op (st_ops (fold (\<lambda>x s. snd (serve x s)) xs s)) = Some d' \<and> journal_at d' = Some k \<and>
    validate_journal k = None \<and> journal_le j k"
proof -
  from run_effect [OF assms(1), of xs] assms(2,3) obtain d' where d': "dir_at (fold (\<lambda>x s. snd (serve x s)) xs s) op = Some d'" "dir_le d d'"
    by (auto simp: keeps_def)
  with assms(3) obtain k where "journal_at d' = Some k" "journal_le j k" by (auto simp: dir_le_def)
  with d'(1) show ?thesis by (auto simp: journal_at_iff)
qed

theorem journals_only_grow_witness:
  "\<exists>d j d' k. tbl_get od_name (lit ''op-20261002-001'') (st_ops begun_store) = Some d \<and> journal_at d = Some j \<and>
    tbl_get od_name (lit ''op-20261002-001'') (st_ops (fold (\<lambda>x s. snd (serve x s)) (tl sample_requests) begun_store)) = Some d' \<and>
    journal_at d' = Some k \<and> validate_journal k = None \<and> journal_le j k"
proof -
  obtain d j where dj: "tbl_get od_name (lit ''op-20261002-001'') (st_ops begun_store) = Some d" "journal_at d = Some j" using begun_at by blast
  from journals_only_grow [OF begun_ok(1) dj, of "tl sample_requests"] obtain d' k where
    "tbl_get od_name (lit ''op-20261002-001'') (st_ops (fold (\<lambda>x s. snd (serve x s)) (tl sample_requests) begun_store)) = Some d'"
    "journal_at d' = Some k" "validate_journal k = None" "journal_le j k" by blast
  with dj show ?thesis by (intro exI conjI)
qed

text \<open>
  C3. \<^bold>\<open>At most one transaction is unfinished.\<close> A begin request is refused while any transaction's journal is
  open (after the abandoned ones were interrupted), and no other request opens one, so no sequence of
  requests, with any failing writes, leaves two.
\<close>

theorem one_unfinished_transaction:
  assumes "keys_distinct od_name (st_ops s)" "one_tx s"
  shows "one_tx (fold (\<lambda>x s. snd (serve x s)) xs s)"
  using lifecycle.run_inv [of s xs] assms by simp

theorem one_unfinished_transaction_witness:
  "one_tx (fold (\<lambda>x s. snd (serve x s)) sample_requests empty_store) \<and> open_tx begun_store (lit ''op-20261002-001'')"
proof -
  have "list_all (\<lambda>d. case journal_at d of Some j \<Rightarrow> jn_kind j = Transaction \<and> \<not> finished j | None \<Rightarrow> False) (st_ops begun_store)"
    by code_simp
  moreover obtain d j where dj: "dir_at begun_store (lit ''op-20261002-001'') = Some d" "journal_at d = Some j" using begun_at by blast
  moreover have "d \<in> set (st_ops begun_store)" using tbl_get_Some [OF dj(1)] by simp
  ultimately have "open_tx begun_store (lit ''op-20261002-001'')" by (auto simp: open_tx_def list_all_iff)
  then show ?thesis using one_unfinished_transaction [of empty_store sample_requests] by simp
qed

text \<open>The record a request asks for, and the journal with it, member by member.\<close>

definition asked_record :: "op_dir \<Rightarrow> utext \<Rightarrow> journal \<Rightarrow> checkpoint_request \<Rightarrow> checkpoint" where
  "asked_record d now j rq =
     \<lparr>cp_sequence = max (read_counter d) (high_sequence j) + 1, cp_state = cr_state rq, cp_at = now, cp_step = cr_step rq, cp_cause = cr_cause rq,
      cp_checkpoint = (if cr_state rq = Interrupted then Some (cp_state (last (jn_checkpoints j))) else None), cp_outcome = cr_outcome rq,
      cp_error = (case (cr_error_code rq, cr_error_reason rq) of (Some code, Some reason) \<Rightarrow> Some (code, redact_text reason 256 False) | _ \<Rightarrow> None)\<rparr>"

text \<open>It replaces the last record when both are steps of the same state, and is appended otherwise.\<close>

definition asked_journal :: "op_dir \<Rightarrow> utext \<Rightarrow> journal \<Rightarrow> checkpoint_request \<Rightarrow> journal" where
  "asked_journal d now j rq =
     (let prev = last (jn_checkpoints j) in
      j\<lparr>jn_checkpoints := (if cr_step rq \<noteq> None \<and> cp_step prev \<noteq> None \<and> cp_state prev = cr_state rq then butlast (jn_checkpoints j) else jn_checkpoints j)
          @ [asked_record d now j rq],
        jn_generation := jn_generation j + 1, jn_updated_at := now,
        jn_recovery := (case (rq_recovery_operation_id rq, rq_recovery_manifest_digest rq) of (Some op, Some digest) \<Rightarrow> Some (op, digest) | _ \<Rightarrow> jn_recovery j),
        jn_evidence := jn_evidence j @ (case (rq_evidence_check rq, rq_evidence_result rq) of
          (Some check, Some result) \<Rightarrow> [(check, result, map_option (\<lambda>t. redact_text t 256 False) (rq_evidence_detail rq))] | _ \<Rightarrow> [])\<rparr>)"

lemma requested_asked: "requested_entry (next_sequence d j) now (last_record j) rq = Inr c \<Longrightarrow> c = asked_record d now j rq"
  by (auto simp: requested_entry_def asked_record_def next_sequence_high last_record_def Let_def split: option.splits)

lemma next_journal_asked:
  assumes "next_journal d now j rq = Inr (k, c)"
  shows "k = asked_journal d now j rq" "c = asked_record d now j rq"
proof -
  from assms obtain wanted item where c: "requested_entry (next_sequence d j) now (last_record j) rq = Inr c"
    and w: "recovery_of rq = Inr wanted" and i: "evidence_of rq = Inr item" and k: "k = updated_journal now j c wanted item"
    by (auto simp: next_journal_def bind_sum_Inr valid_or_usage_def split: if_splits option.splits)
  show rec: "c = asked_record d now j rq" by (rule requested_asked [OF c])
  have "(if wanted \<noteq> None then wanted else jn_recovery j) =
      (case (rq_recovery_operation_id rq, rq_recovery_manifest_digest rq) of (Some op, Some digest) \<Rightarrow> Some (op, digest) | _ \<Rightarrow> jn_recovery j)"
    using w by (auto simp: recovery_of_def split: option.splits)
  moreover have "(case item of None \<Rightarrow> [] | Some i \<Rightarrow> [i]) = (case (rq_evidence_check rq, rq_evidence_result rq) of
      (Some check, Some result) \<Rightarrow> [(check, result, map_option (\<lambda>t. redact_text t 256 False) (rq_evidence_detail rq))] | _ \<Rightarrow> [])"
    using i by (auto simp: evidence_of_def split: option.splits)
  moreover have "replaces_step (last_record j) c = (cr_step rq \<noteq> None \<and> cp_step (last_record j) \<noteq> None \<and> cp_state (last_record j) = cr_state rq)"
    by (simp add: replaces_step_def rec asked_record_def)
  ultimately show "k = asked_journal d now j rq" unfolding k updated_journal_def asked_journal_def Let_def rec last_record_def by simp
qed

text \<open>
  C11. \<^bold>\<open>A checkpoint request writes its record or nothing.\<close> A refused request (the host lock not held or bound to
  another operation, no such operation, a doubtful journal, a stale generation, a record that would break the
  contract) leaves the store as it was. When a write fails, the journal is the old one or the one that was
  asked for. When the request succeeds, the lock was bound to the operation, the caller had seen its
  last generation, and the journal on disk is exactly the one asked for: a valid document, the old journal with the next generation
  and the record of the request, member by member, in place of the last record when both are steps of the same state and at the
  end otherwise, with the evidence and the recovery reference of the request.
\<close>

theorem checkpoint_all_or_nothing:
  assumes "handle_checkpoint e rq s = (res, t)"
  shows "case res of
      Inl (code, why, ws) \<Rightarrow>
        if why \<noteq> Not_durable then t = s
        else \<exists>d j d'. find_record (cr_operation_id rq) s = Inr (d, j) \<and> validate_journal (asked_journal d (en_now e) j rq) = None \<and>
               tbl_get od_name (cr_operation_id rq) (st_ops t) = Some d' \<and> journal_at d' \<in> {Some j, Some (asked_journal d (en_now e) j rq)}
    | Inr _ \<Rightarrow>
        \<exists>d j k d'. locked_tree e = Inr (cr_operation_id rq) \<and> find_record (cr_operation_id rq) s = Inr (d, j) \<and>
          jn_generation j = cr_expected_generation rq \<and> tbl_get od_name (cr_operation_id rq) (st_ops t) = Some d' \<and>
          journal_at d' = Some k \<and> journal_succ j k \<and> cp_state (last_record k) = cr_state rq \<and> k = asked_journal d (en_now e) j rq"
  using assms
proof (cases rule: checkpoint_cases)
  case (refused err)
  then show ?thesis by (cases err) simp
next
  case (written d j k c ok s1)
  have d: "dir_at s (cr_operation_id rq) = Some d" "journal_at d = Some j" and v: "validate_journal j = None"
    using written(2) find_record_name by (auto simp: find_record_Inr)
  note succ = next_journal_succ [OF v written(4)] and asked = next_journal_asked(1) [OF written(4)]
  note touch = write_record_touches [OF written(5) d succ(1,3)]
  have k: "journal_at (d\<lparr>od_sequence := q, od_journal := Document k\<rparr>) = Some k" for q
    using succ(1) d(2) by (simp add: journal_at_iff journal_succ_def same_header_def)
  show ?thesis
  proof (cases ok)
    case True
    then have "dir_at t (cr_operation_id rq) = Some (d\<lparr>od_sequence := Some (counter_text (cp_sequence c)), od_journal := Document k\<rparr>)"
      using touch(2) succ(2) written(6) by simp
    with True written k succ asked show ?thesis by auto
  next
    case False
    have valid: "validate_journal k = None" using succ(1) by (simp add: journal_succ_def)
    have "res = Inl (PREFLIGHT, Not_durable, [])" using False written(7) by simp
    then show ?thesis using valid written(2,6) touch(3) succ(2) unfolding asked by auto
  qed
qed

theorem checkpoint_all_or_nothing_witness:
  "\<exists>r t d j k d'. handle_checkpoint (quiet_env (lit ''op-20261002-001'') morning) (sample_checkpoint 1 Staged) begun_store = (Inr r, t) \<and>
     find_record (lit ''op-20261002-001'') begun_store = Inr (d, j) \<and> tbl_get od_name (lit ''op-20261002-001'') (st_ops t) = Some d' \<and>
     journal_at d' = Some k \<and> journal_succ j k \<and> k = asked_journal d morning j (sample_checkpoint 1 Staged)"
proof -
  let ?h = "handle_checkpoint (quiet_env (lit ''op-20261002-001'') morning) (sample_checkpoint 1 Staged) begun_store"
  have "case fst ?h of Inl _ \<Rightarrow> False | Inr _ \<Rightarrow> True" by code_simp
  then obtain r t where h: "?h = (Inr r, t)" by (cases ?h; cases "fst ?h") auto
  have "cr_operation_id (sample_checkpoint 1 Staged) = lit ''op-20261002-001''" "en_now (quiet_env (lit ''op-20261002-001'') morning) = morning"
    by (simp_all add: sample_checkpoint_def quiet_env_def)
  with checkpoint_all_or_nothing [OF h] h show ?thesis by auto
qed

subsection \<open>Identifiers\<close>

lemma staging_id: "prefix (lit ''.new-'') name \<Longrightarrow> id_number day name = 0"
  by (auto simp: id_number_def prefix_def)

lemma day_ids_above:
  assumes "store_evolves (remove_staging s) s1" "n = today_ids (map od_name (st_ops s1)) day + 1" "d \<in> set (st_ops s)"
  shows "id_number day (od_name d) < n"
proof (cases "prefix (lit ''.new-'') (od_name d)")
  case True
  then show ?thesis using staging_id today_ids_nonneg [of "map od_name (st_ops s1)" day] assms(2) by simp
next
  case False
  then have "od_name d \<in> set (map od_name (st_ops (remove_staging s)))" using assms(3) by (simp add: remove_staging_def)
  then have "od_name d \<in> set (map od_name (st_ops s1))" using assms(1) unfolding store_evolves_def by metis
  from today_ids_upper [OF this] assms(2) show ?thesis by simp
qed

text \<open>
  C40. \<^bold>\<open>Operation identifiers parse back and are never reused.\<close> The identifier a begin request allocates is a
  valid operation identifier; read back with the pattern the allocation scans with, it yields the number it
  was formatted from, and that number is above the number of every directory of the same day, so no
  existing directory has that name.
\<close>

theorem begin_allocates_fresh_id:
  assumes "handle_begin e rq s = (Inr (Began op ws ev), t)" "keys_distinct od_name (st_ops s)"
  shows "valid_operation_id op \<and> 1 \<le> id_number (day_of (en_now e)) op \<and>
    op = operation_id (day_of (en_now e)) (id_number (day_of (en_now e)) op) \<and>
    (\<forall>d\<in>set (st_ops s). od_name d \<noteq> op \<and> id_number (day_of (en_now e)) (od_name d) < id_number (day_of (en_now e)) op)"
  using assms
proof (cases rule: begin_cases)
  case (begun s1 n j ws')
  let ?day = "day_of (en_now e)"
  have op: "op = operation_id ?day n" using begun(7) by simp
  have one: "1 \<le> n" using begun(3) today_ids_nonneg [of "map od_name (st_ops s1)" ?day] by simp
  then have n: "id_number ?day op = n" using id_number_operation_id begun(4) op by simp
  have valid: "valid_operation_id op"
    using validD(1) [OF first_journal_facts(1) [OF begun(5)]] first_journal_facts(2) [OF begun(5)] op by (simp add: journal_schema_def)
  have above: "od_name d \<noteq> op \<and> id_number ?day (od_name d) < n" if "d \<in> set (st_ops s)" for d
    using day_ids_above [OF begun(1,3) that] n by (metis less_irrefl)
  show ?thesis unfolding n using one op valid above by blast
qed simp

theorem begin_allocates_fresh_id_witness:
  "\<exists>ws ev t. handle_begin (quiet_env [] morning) sample_begin empty_store = (Inr (Began (lit ''op-20261002-001'') ws ev), t) \<and>
     valid_operation_id (lit ''op-20261002-001'') \<and> 1 \<le> id_number (day_of morning) (lit ''op-20261002-001'')"
proof -
  let ?h = "handle_begin (quiet_env [] morning) sample_begin empty_store"
  have "case fst ?h of Inr (Began op _ _) \<Rightarrow> op = lit ''op-20261002-001'' | _ \<Rightarrow> False" by code_simp
  then obtain ws ev t where h: "?h = (Inr (Began (lit ''op-20261002-001'') ws ev), t)"
    by (cases ?h) (auto split: sum.splits reply.splits)
  from begin_allocates_fresh_id [OF h] h show ?thesis by (simp add: quiet_env_def)
qed

subsection \<open>Sequence numbers\<close>

lemma read_counter_nonneg: "0 \<le> read_counter d"
proof (cases "od_sequence d")
  case (Some raw)
  have "0 \<le> decimal t" if "\<forall>c\<in>set t. digit_c c" for t
    using that by (induction t rule: rev_induct) (auto simp: decimal_snoc digit_c_def between_def, simp add: decimal_def)
  moreover have "\<forall>c\<in>set t. digit_c c" if "fullmatch counter_re t" for t
    using fullmatch_bound(2) [OF that, of digit_c] by (simp add: counter_re_def digit_c_def between_def)
  ultimately show ?thesis using Some by (simp add: read_counter_def Let_def)
qed (simp add: read_counter_def)

lemma water_nonneg: "0 \<le> water s op"
  using read_counter_nonneg by (auto simp: water_def high_water_def max.coboundedI1 split: option.split)

lemma store_evolves_water: "store_evolves s t \<Longrightarrow> water s op \<le> water t op"
  using water_nonneg [of t op] by (cases "dir_at s op") (auto simp: water_def dir_le_def dest: store_evolvesD)

definition fresh_event :: "store \<Rightarrow> store \<Rightarrow> event \<Rightarrow> bool" where
  "fresh_event s t ev \<longleftrightarrow> valid_operation_id (event_operation ev) \<and> water s (event_operation ev) < event_sequence ev \<and>
     event_sequence ev \<le> water t (event_operation ev)"

lemma checkpoint_water:
  assumes "handle_checkpoint e rq s = (Inr r, t)" "reply_event r = Some ev"
  shows "fresh_event s t ev"
  using assms(1)
proof (cases rule: checkpoint_cases)
  case (written d j k c ok s1)
  have d: "dir_at s (cr_operation_id rq) = Some d" "journal_at d = Some j" and v: "validate_journal j = None" "jn_operation_id j = cr_operation_id rq"
    using written(2) find_record_name by (auto simp: find_record_Inr)
  note succ = next_journal_succ [OF v(1) written(4)]
  have ok: "ok" "ev = checkpoint_event k" using written(7) assms(2) by (auto split: if_splits)
  have k: "jn_operation_id k = cr_operation_id rq" "high_sequence k = cp_sequence c"
    using succ v(2) last_sequence_high [OF succ(1)] by (auto simp: journal_succ_def same_header_def)
  then have ev: "event_operation ev = cr_operation_id rq" "event_sequence ev = cp_sequence c"
    using ok(2) succ(2) by (simp_all add: checkpoint_event_def Let_def)
  have t: "dir_at t (cr_operation_id rq) = Some (d\<lparr>od_sequence := Some (counter_text (cp_sequence c)), od_journal := Document k\<rparr>)"
    using write_record_touches(2) [OF written(5) d succ(1,3)] succ(2) ok(1) written(6) by simp
  have "journal_at (d\<lparr>od_sequence := q, od_journal := Document k\<rparr>) = Some k" for q
    using succ(1) d(2) by (simp add: journal_at_iff journal_succ_def same_header_def)
  moreover have "valid_operation_id (cr_operation_id rq)" using d(2) tbl_get_Some [OF d(1)] by (simp add: journal_at_iff)
  ultimately show ?thesis using t d succ(3) ev k by (simp add: fresh_event_def water_def high_water_def next_sequence_high)
qed (use assms in simp)

lemma emit_water:
  assumes "handle_emit e rq s = (Inr r, t)" "reply_event r = Some ev"
  shows "fresh_event s t ev"
  using assms(1)
proof (cases rule: emit_cases)
  case (written d j ev')
  have d: "dir_at s (er_operation_id rq) = Some d" "journal_at d = Some j" using written(2) by (simp_all add: find_record_Inr)
  have ev: "t = set_counter (er_operation_id rq) (next_sequence d j) s" "ev' = ev" using written(4) assms(2) by auto
  have "event_operation ev = er_operation_id rq" "event_sequence ev = next_sequence d j"
    using written(3) ev(2) by (auto simp: emitted_event_def Let_def split: if_splits)
  moreover have "valid_operation_id (er_operation_id rq)" using d(2) tbl_get_Some [OF d(1)] by (simp add: journal_at_iff)
  ultimately show ?thesis
    using counter_step(2,3) [OF d(2) emitted_safe [OF written(3)]] d(1) ev(1) by (simp add: fresh_event_def water_def set_counter_at)
qed (use assms in simp)

lemma remove_staging_water: "valid_operation_id op \<Longrightarrow> water (remove_staging s) op = water s op"
proof -
  assume "valid_operation_id op"
  moreover have "\<not> fullmatch operation_re op" if "prefix (lit ''.new-'') op"
    using that by (auto simp: prefix_def fullmatch_def operation_re_def)
  ultimately show ?thesis by (auto simp: water_def remove_staging_at valid_operation_id_def)
qed

lemma begin_water:
  assumes h: "handle_begin e rq s = (res, t)" and s: "keys_distinct od_name (st_ops s)"
  shows "valid_operation_id op \<Longrightarrow> water s op \<le> water t op"
    and "res = Inr r \<Longrightarrow> reply_event r = Some ev \<Longrightarrow> fresh_event s t ev"
proof -
  have "(valid_operation_id op \<longrightarrow> water s op \<le> water t op) \<and> (res = Inr r \<and> reply_event r = Some ev \<longrightarrow> fresh_event s t ev)"
    using h s
  proof (cases rule: begin_cases)
    case (kept s0 err)
    then show ?thesis using store_evolves_water [OF kept(2), of op] remove_staging_water [of op s] by auto
  next
    case (begun s1 n j ws')
    let ?op = "operation_id (day_of (en_now e)) n"
    have new: "?op \<notin> set (map od_name (st_ops s1))" by (rule fresh_id [OF begun(3,4)])
    note at = new_dir_at [OF begun(6) new] and j = first_journal_facts [OF begun(5)] and dir = new_dir_facts [OF begun(5)]
    have valid: "valid_operation_id ?op" using validD(1) [OF j(1)] j(2) by (simp add: journal_schema_def)
    have "dir_at s1 ?op = None" using new by (simp add: tbl_get_None)
    then have zero: "water s1 ?op = 0" by (simp add: water_def)
    then have mono: "water s1 x \<le> water t x" for x using at water_nonneg [of t x] by (auto simp: water_def)
    have t: "water t ?op = 1" using at dir by (simp add: water_def)
    have le: "water s x \<le> water s1 x" if "valid_operation_id x" for x
      using store_evolves_water [OF begun(1), of x] remove_staging_water [OF that, of s] by simp
    have "valid_operation_id op \<Longrightarrow> water s op \<le> water t op" using le mono by (meson order_trans)
    moreover have "res = Inr r \<Longrightarrow> reply_event r = Some ev \<Longrightarrow> ev = checkpoint_event j" using begun(7) by auto
    moreover have "event_operation (checkpoint_event j) = ?op" "event_sequence (checkpoint_event j) = 1"
      using j by (simp_all add: checkpoint_event_def Let_def)
    ultimately show ?thesis using valid le [OF valid] zero t by (auto simp: fresh_event_def)
  qed
  then show "valid_operation_id op \<Longrightarrow> water s op \<le> water t op"
    and "res = Inr r \<Longrightarrow> reply_event r = Some ev \<Longrightarrow> fresh_event s t ev"
    by auto
qed

lemma serve_water:
  assumes h: "serve x s = (res, t)" and s: "keys_distinct od_name (st_ops s)"
  shows "valid_operation_id op \<Longrightarrow> water s op \<le> water t op" and "res = Inr r \<Longrightarrow> reply_event r = Some ev \<Longrightarrow> fresh_event s t ev"
proof -
  obtain e rq where x: "x = (e, rq)" by (cases x)
  have "(valid_operation_id op \<longrightarrow> water s op \<le> water t op) \<and> (res = Inr r \<and> reply_event r = Some ev \<longrightarrow> fresh_event s t ev)"
  proof (cases rq)
    case (Begin b)
    then have "handle_begin e b s = (res, t)" using h x by (simp add: serve_def)
    from begin_water [OF this s] show ?thesis by blast
  next
    case (Checkpoint c)
    then have c: "handle_checkpoint e c s = (res, t)" using h x by (simp add: serve_def)
    then show ?thesis using store_evolves_water [OF checkpoint_evolves [OF c]] checkpoint_water by blast
  next
    case (Emit m)
    then have m: "handle_emit e m s = (res, t)" using h x by (simp add: serve_def)
    then show ?thesis using store_evolves_water [OF emit_evolves [OF m]] emit_water by blast
  next
    case List_request
    then have l: "handle_list e s = (res, t)" using h x by (simp add: serve_def)
    then have "reply_event r = None" if "res = Inr r"
      using that by (auto simp: handle_list_def split: sum.splits prod.splits)
    then show ?thesis using store_evolves_water [OF list_evolves [OF l s]] by auto
  next
    case (Inspect op')
    then have i: "res = handle_inspect e op' s" "t = s" using h x by (auto simp: serve_def)
    then have "reply_event r = None" if "res = Inr r"
      using that by (auto simp: handle_inspect_def split: sum.splits prod.splits if_splits)
    then show ?thesis using i by auto
  qed
  then show "valid_operation_id op \<Longrightarrow> water s op \<le> water t op" and "res = Inr r \<Longrightarrow> reply_event r = Some ev \<Longrightarrow> fresh_event s t ev"
    by auto
qed

lemma published_fresh:
  assumes "keys_distinct od_name (st_ops s)"
  shows "sorted_wrt (<) (map event_sequence (filter (\<lambda>ev. event_operation ev = op) (published xs s))) \<and>
    (\<forall>ev\<in>set (published xs s). water s (event_operation ev) < event_sequence ev \<and> valid_operation_id (event_operation ev))"
  using assms
proof (induction xs arbitrary: s)
  case (Cons x xs)
  obtain res t where t: "serve x s = (res, t)" by fastforce
  note IH = Cons.IH [OF serve_effect(1) [OF t Cons.prems]]
  have later: "\<forall>ev\<in>set (published xs t). water s (event_operation ev) < event_sequence ev \<and> valid_operation_id (event_operation ev)"
    using IH serve_water(1) [OF t Cons.prems] by (meson order.strict_trans1)
  show ?case
  proof (cases "\<exists>r ev. res = Inr r \<and> reply_event r = Some ev")
    case False
    then have "published (x # xs) s = published xs t" using t by (cases res) (auto split: option.splits)
    then show ?thesis using IH later by simp
  next
    case True
    then obtain r ev where r: "res = Inr r" "reply_event r = Some ev" by blast
    then have pub: "published (x # xs) s = ev # published xs t" using t by simp
    have ev: "fresh_event s t ev" by (rule serve_water(2) [OF t Cons.prems r])
    have "event_sequence ev < event_sequence ev'" if "ev' \<in> set (published xs t)" "event_operation ev' = event_operation ev" for ev'
      using IH that ev unfolding fresh_event_def by fastforce
    then show ?thesis using IH later ev pub by (auto simp: fresh_event_def)
  qed
qed simp

text \<open>
  C5. \<^bold>\<open>No event repeats or goes back in sequence.\<close> The events of one operation, over any sequence of requests
  and any failing writes, carry strictly increasing sequence numbers, all above the counter and the
  journal's sequences the operation had to begin with: a number whose write failed is skipped, not reused.
\<close>

theorem sequences_never_reused:
  assumes "keys_distinct od_name (st_ops s)"
  shows "sorted_wrt (<) (map event_sequence (filter (\<lambda>ev. event_operation ev = op) (published xs s))) \<and>
    (\<forall>ev\<in>set (published xs s). water s (event_operation ev) < event_sequence ev)"
  using published_fresh [OF assms] by blast

theorem sequences_never_reused_witness:
  "sorted_wrt (<) (map event_sequence (filter (\<lambda>ev. event_operation ev = lit ''op-20261002-001'') (published sample_requests empty_store))) \<and>
   map event_sequence (published sample_requests empty_store) = [1, 2]"
proof -
  have "map event_sequence (published sample_requests empty_store) = [1, 2]" by code_simp
  then show ?thesis using sequences_never_reused [OF empty_store_ok(1), of "lit ''op-20261002-001''" sample_requests] by blast
qed

subsection \<open>Listing\<close>

text \<open>
  \<^bold>\<open>Listing settles every operation whose process is gone.\<close> When a list request succeeds on a host whose
  clock and directories are sound and whose counters are not exhausted, no journal but the one of the
  operation the lock is bound to is left in progress, and none needed a warning: an interrupted record is
  legal after every state an operation can be in progress in.
\<close>

theorem list_settles:
  assumes "handle_list e s = (Inr (Listed rs om pr rel full ws), t)" "keys_distinct od_name (st_ops s)"
    and "\<forall>d\<in>set (st_ops s). can_settle e d"
  shows "ws = [] \<and> (\<forall>op d j. tbl_get od_name op (st_ops t) = Some d \<and> journal_at d = Some j \<and> in_progress j \<longrightarrow> op = en_bound e)"
  using assms(1,2)
proof (cases rule: list_cases)
  case (1 s1)
  note vis = visible_facts [OF assms(2)]
  have settled: "(\<forall>r\<in>set rs. rc_name r \<noteq> en_bound e \<longrightarrow> (\<forall>j. rc_journal r = Some j \<longrightarrow> \<not> in_progress j)) \<and> ws = []"
    using reconcile_settles [OF 1(2) vis(2,3)] vis(4) assms(3) by simp
  have "op = en_bound e" if d: "tbl_get od_name op (st_ops t) = Some d" "journal_at d = Some j" "in_progress j" for op d j
  proof -
    have "read_record d \<in> set rs" using reported_in [OF 1(5) assms(2) 1(6)] d(1,2) 1(3) by simp
    then have "od_name d = en_bound e" using settled d(2,3) by (auto simp: journal_at_def)
    then show ?thesis using tbl_get_Some [OF d(1)] by simp
  qed
  with settled show ?thesis by blast
qed

theorem list_settles_witness:
  "\<exists>rs om pr rel full t. handle_list (quiet_env [] morning) begun_store = (Inr (Listed rs om pr rel full []), t) \<and>
     (\<forall>op d j. tbl_get od_name op (st_ops t) = Some d \<and> journal_at d = Some j \<and> in_progress j \<longrightarrow> op = [])"
proof -
  let ?h = "handle_list (quiet_env [] morning) begun_store"
  have "case fst ?h of Inr (Listed _ _ _ _ _ _) \<Rightarrow> True | _ \<Rightarrow> False" by code_simp
  then obtain rs om pr rel full ws t where h: "?h = (Inr (Listed rs om pr rel full ws), t)"
    by (cases ?h) (auto split: sum.splits reply.splits)
  have "list_all (\<lambda>d. case journal_at d of Some j \<Rightarrow> next_sequence d j \<le> MAX_SAFE \<and> jn_generation j < MAX_SAFE | None \<Rightarrow> True) (st_ops begun_store)"
    "is_timestamp morning" by code_simp+
  then have ok: "\<forall>d\<in>set (st_ops begun_store). can_settle (quiet_env [] morning) d"
    by (auto simp: list_all_iff can_settle_def numbers_left_def quiet_env_def)
  from list_settles [OF h _ ok] h show ?thesis by (auto simp: quiet_env_def)
qed

lemma journals_of_iff: "j \<in> set (journals_of rs) \<longleftrightarrow> (\<exists>r\<in>set rs. rc_journal r = Some j)"
  by (force simp: journals_of_def List.map_filter_def)

text \<open>A record reconciliation reports is that of a directory of the store.\<close>

lemma reported_from:
  assumes "reported t (visible s) rs" "keys_distinct od_name (st_ops s)" "store_evolves s t" "j \<in> set (journals_of rs)"
  shows "\<exists>d. tbl_get od_name (jn_operation_id j) (st_ops t) = Some d \<and> journal_at d = Some j"
proof -
  from assms(4) obtain r where "r \<in> set rs" "rc_journal r = Some j" by (auto simp: journals_of_iff)
  with assms(1) obtain d0 where d0: "d0 \<in> set (visible s)" "rc_journal (read_record (the (dir_at t (od_name d0)))) = Some j"
    by (auto simp: reported_def)
  obtain d where d: "dir_at t (od_name d0) = Some d"
    using visible_facts(3) [OF assms(2)] d0(1) store_evolvesD [OF assms(3)] by blast
  then have "journal_at d = Some j" using d0(2) by (simp add: journal_at_def)
  then show ?thesis using d tbl_get_Some [OF d] by (auto simp: journal_at_iff)
qed

definition committed_with_point :: "journal \<Rightarrow> bool" where
  "committed_with_point j \<longleftrightarrow> jn_recovery j \<noteq> None \<and> cp_outcome (last_record j) = Some Out_committed"

text \<open>The last committed operation, when the journals are the records' own.\<close>

lemma newest_protected:
  assumes j: "j \<in> set (journals_of rs)" "committed_with_point j"
    and newest: "\<forall>k\<in>set (journals_of rs). committed_with_point k \<longrightarrow> (jn_updated_at k, jn_operation_id k) \<le> (jn_updated_at j, jn_operation_id j)"
    and inj: "\<forall>k\<in>set (journals_of rs). jn_operation_id k = jn_operation_id j \<longrightarrow> k = j"
  shows "ref_of (the (jn_recovery j)) \<in> set (protected_refs rs)"
proof -
  let ?key = "\<lambda>j. (jn_updated_at j, jn_operation_id j)"
  define cs where "cs = sort_key ?key (filter (\<lambda>j. cp_outcome (last_record j) = Some Out_committed) (filter (\<lambda>j. jn_recovery j \<noteq> None) (journals_of rs)))"
  have set: "set cs = {k \<in> set (journals_of rs). committed_with_point k}" by (auto simp: cs_def committed_with_point_def)
  then have ne: "cs \<noteq> []" and jin: "j \<in> set cs" using j by auto
  have "sorted (map ?key cs)" by (simp add: cs_def)
  from sorted_key_last_max [OF ne this jin] newest set last_in_set [OF ne] have "?key (last cs) = ?key j" by (auto intro: order.antisym)
  then have "last cs = j" using inj set last_in_set [OF ne] by auto
  then show ?thesis using ne by (auto simp: protected_refs_def Let_def cs_def)
qed

text \<open>
  \<^bold>\<open>Retention releases nothing that is still needed.\<close> Of the recovery points a list request reports, one that an
  unfinished operation references, and the one of the last committed operation, is protected and never
  releasable; and while any directory cannot be read as a journal nothing is releasable at all.
\<close>

theorem retention_keeps_needed_points:
  assumes "handle_list e s = (Inr (Listed rs om pr rel full ws), t)" "keys_distinct od_name (st_ops s)"
    and "tbl_get od_name op (st_ops t) = Some d" "journal_at d = Some j" "jn_recovery j = Some r"
    and "\<not> finished j \<or> committed_with_point j \<and>
      (\<forall>op' d' k. tbl_get od_name op' (st_ops t) = Some d' \<and> journal_at d' = Some k \<and> committed_with_point k \<longrightarrow>
         (jn_updated_at k, jn_operation_id k) \<le> (jn_updated_at j, jn_operation_id j))"
  shows "ref_of r \<in> set pr \<and> ref_of r \<notin> set rel \<and> ((\<exists>d\<in>set (st_ops t). \<not> hidden d \<and> journal_at d = None) \<longrightarrow> rel = [])"
  using assms(1,2)
proof (cases rule: list_cases)
  case (1 s1)
  have names: "map od_name (st_ops t) = map od_name (st_ops s)" using 1(3,6) by (simp add: store_evolves_def)
  have j: "j \<in> set (journals_of rs)"
    using reported_in [OF 1(5) assms(2) 1(6)] assms(3,4) 1(3) by (auto simp: journals_of_iff journal_at_def)
  have from_t: "\<exists>d. tbl_get od_name (jn_operation_id k) (st_ops t) = Some d \<and> journal_at d = Some k" if "k \<in> set (journals_of rs)" for k
    using reported_from [OF 1(5) assms(2) 1(6) that] 1(3) by simp
  have inj: "\<forall>k\<in>set (journals_of rs). jn_operation_id k = jn_operation_id j \<longrightarrow> k = j" using from_t from_t [OF j] by fastforce
  have "ref_of r \<in> set (protected_refs rs)"
  proof (cases "finished j")
    case False
    then show ?thesis using j assms(5) by (force simp: protected_refs_def Let_def)
  next
    case True
    then have c: "committed_with_point j" and n: "\<forall>k\<in>set (journals_of rs). committed_with_point k \<longrightarrow>
        (jn_updated_at k, jn_operation_id k) \<le> (jn_updated_at j, jn_operation_id j)" using assms(6) from_t by blast+
    from newest_protected [OF j c n inj] assms(5) show ?thesis by simp
  qed
  moreover have "rel = []" if "d' \<in> set (st_ops t)" "\<not> hidden d'" "journal_at d' = None" for d'
  proof -
    have "od_name d' \<in> set (map od_name (st_ops s))" using names that(1) by (metis image_eqI list.set_map)
    then obtain d0 where d0: "d0 \<in> set (st_ops s)" "od_name d0 = od_name d'" by auto
    then have "d0 \<in> set (visible s)" using visible_facts(4) [OF assms(2)] that(2) by (simp add: hidden_def)
    moreover have "keys_distinct od_name (st_ops t)" using assms(2) names by (simp add: keys_distinct_def)
    then have "dir_at s1 (od_name d') = Some d'" using tbl_get_in [OF _ that(1), of od_name] 1(3) by simp
    ultimately have "read_record d' \<in> set rs" using 1(5) d0(2) by (force simp: reported_def)
    then have "\<not> list_all (\<lambda>r. rc_journal r \<noteq> None) rs" using that(3) by (auto simp: list_all_iff journal_at_def)
    then show ?thesis using 1(4) by (auto simp: retention_def Let_def)
  qed
  ultimately show ?thesis using 1(4) by (auto simp: retention_def Let_def)
qed

definition held_store :: store where
  "held_store = \<lparr>st_ops = [new_dir (lit ''op-20261002-001'')
     (longest_journal\<lparr>jn_checkpoints := [plain_record 1 Planned None], jn_generation := 1\<rparr>)], st_index = None\<rparr>"

theorem retention_keeps_needed_points_witness:
  "\<exists>rs om pr rel full ws t. handle_list (quiet_env (lit ''op-20261002-001'') morning) held_store = (Inr (Listed rs om pr rel full ws), t) \<and>
     ref_of (lit ''op-20261002-001'', sample_digest) \<in> set pr \<and> ref_of (lit ''op-20261002-001'', sample_digest) \<notin> set rel"
proof -
  let ?h = "handle_list (quiet_env (lit ''op-20261002-001'') morning) held_store" and ?r = "(lit ''op-20261002-001'', sample_digest)"
  have "case fst ?h of Inr (Listed _ _ _ _ _ _) \<Rightarrow> True | _ \<Rightarrow> False" by code_simp
  then obtain rs om pr rel full ws t where h: "?h = (Inr (Listed rs om pr rel full ws), t)"
    by (cases ?h) (auto split: sum.splits reply.splits)
  have "case tbl_get od_name (lit ''op-20261002-001'') (st_ops (snd ?h)) of
      Some d \<Rightarrow> (case journal_at d of Some j \<Rightarrow> jn_recovery j = Some ?r \<and> \<not> finished j | None \<Rightarrow> False) | None \<Rightarrow> False" by code_simp
  then obtain d j where d: "tbl_get od_name (lit ''op-20261002-001'') (st_ops t) = Some d" "journal_at d = Some j" "jn_recovery j = Some ?r" "\<not> finished j"
    using h by (auto split: option.splits)
  have "keys_distinct od_name (st_ops held_store)" by (simp add: held_store_def keys_distinct_def)
  from retention_keeps_needed_points [OF h this d(1-3)] d(4) h show ?thesis by auto
qed

end
