(* ===== verification/Ip_Address.thy ===== *)
theory Ip_Address
  imports Canonical_Json
begin

text \<open>
  What the sources use of Python's \<open>ipaddress\<close> module (version 3.12): addresses and networks of both
  families with their zone identifiers, the parsers of \<open>ip_address\<close> and \<open>ip_network\<close>, the text
  of \<open>str\<close>, and the operations on networks. Proved of them: a network contains exactly an interval
  of addresses, and its text reads back as the same network.
\<close>

unbundle bit_operations_syntax

subsection \<open>Addresses and networks\<close>

datatype ip_version = IPv4 | IPv6

record ip_addr =
  ia_version :: ip_version
  ia_int :: int
  ia_zone :: "string option"

record ip_net =
  in_version :: ip_version
  in_int :: int
  in_zone :: "string option"
  in_prefixlen :: nat

fun max_prefixlen :: "ip_version \<Rightarrow> nat" where
  "max_prefixlen IPv4 = 32"
| "max_prefixlen IPv6 = 128"

definition ALL_ONES :: "ip_version \<Rightarrow> int" where
  "ALL_ONES v = 2 ^ max_prefixlen v - 1"

definition int_from_prefix :: "ip_version \<Rightarrow> nat \<Rightarrow> int" where
  "int_from_prefix v p = ALL_ONES v XOR drop_bit p (ALL_ONES v)"

definition netmask :: "ip_net \<Rightarrow> int" where
  "netmask n = int_from_prefix (in_version n) (in_prefixlen n)"

definition hostmask :: "ip_net \<Rightarrow> int" where
  "hostmask n = netmask n XOR ALL_ONES (in_version n)"

definition network_address :: "ip_net \<Rightarrow> ip_addr" where
  "network_address n = \<lparr>ia_version = in_version n, ia_int = in_int n, ia_zone = in_zone n\<rparr>"

definition broadcast_address :: "ip_net \<Rightarrow> ip_addr" where
  "broadcast_address n = \<lparr>ia_version = in_version n, ia_int = in_int n OR hostmask n, ia_zone = None\<rparr>"

definition num_addresses :: "ip_net \<Rightarrow> int" where
  "num_addresses n = ia_int (broadcast_address n) - ia_int (network_address n) + 1"

definition net_contains :: "ip_net \<Rightarrow> ip_addr \<Rightarrow> bool" where
  "net_contains n a = (in_version n = ia_version a \<and> ia_int a AND netmask n = in_int n)"

definition net_overlaps :: "ip_net \<Rightarrow> ip_net \<Rightarrow> bool" where
  "net_overlaps m n =
     (net_contains n (network_address m) \<or> net_contains n (broadcast_address m) \<or>
      net_contains m (network_address n) \<or> net_contains m (broadcast_address n))"

text \<open>
  The order of addresses is that of their numbers; \<open>a <= b\<close> is \<open>a < b or a == b\<close>, and two IPv6 addresses are
  equal only when their zones are.
\<close>

definition address_le :: "ip_addr \<Rightarrow> ip_addr \<Rightarrow> bool" where
  "address_le a b = (ia_int a < ia_int b \<or> a = b)"

definition subnet_of :: "ip_net \<Rightarrow> ip_net \<Rightarrow> bool" where
  "subnet_of a b = (address_le (network_address b) (network_address a) \<and> address_le (broadcast_address a) (broadcast_address b))"

subsection \<open>Reading addresses\<close>

definition is_digit :: "char \<Rightarrow> bool" where
  "is_digit c = (c \<in> set ''0123456789'')"

definition is_hex :: "char \<Rightarrow> bool" where
  "is_hex c = (c \<in> set ''0123456789ABCDEFabcdef'')"

definition parse_octet :: "string \<Rightarrow> int option" where
  "parse_octet s =
     (if s = [] \<or> \<not> list_all is_digit s \<or> length s > 3 \<or> s \<noteq> ''0'' \<and> hd s = CHR ''0'' \<or> dec_val s > 255
      then None else Some (int (dec_val s)))"

definition ip4_int_from_string :: "string \<Rightarrow> int option" where
  "ip4_int_from_string s =
     (let octets = py_split CHR ''.'' s in
      if s = [] \<or> length octets \<noteq> 4 then None
      else map_option (foldl (\<lambda>n b. n * 256 + b) 0) (those (map parse_octet octets)))"

definition hex_digit_value :: "char \<Rightarrow> int" where
  "hex_digit_value c =
     (case map_of (zip ''0123456789abcdefABCDEF'' [0, 1, 2, 3, 4, 5, 6, 7, 8, 9, 10, 11, 12, 13, 14, 15, 10, 11, 12, 13, 14, 15]) c of
        Some v \<Rightarrow> v | None \<Rightarrow> 0)"

definition parse_hextet :: "string \<Rightarrow> int option" where
  "parse_hextet s =
     (if s = [] \<or> \<not> list_all is_hex s \<or> length s > 4 then None
      else Some (foldl (\<lambda>n c. n * 16 + hex_digit_value c) 0 s))"

function hex_str :: "int \<Rightarrow> string" where
  "hex_str n = (if n < 16 then [hex_char (nat n)] else hex_str (n div 16) @ [hex_char (nat (n mod 16))])"
  by auto
termination by (relation "measure nat") auto

declare hex_str.simps [simp del]

text \<open>A dotted quad at the end stands for two hextets.\<close>

definition expand_quad :: "string list \<Rightarrow> string list option" where
  "expand_quad parts =
     (if CHR ''.'' \<in> set (last parts)
      then map_option (\<lambda>n. butlast parts @ [hex_str (n div 65536), hex_str (n mod 65536)]) (ip4_int_from_string (last parts))
      else Some parts)"

definition hextets_int :: "string list \<Rightarrow> nat \<Rightarrow> string list \<Rightarrow> int option" where
  "hextets_int high skipped low =
     (case (those (map parse_hextet high), those (map parse_hextet low)) of
        (Some hs, Some ls) \<Rightarrow> Some (foldl (\<lambda>n h. n * 65536 + h) (foldl (\<lambda>n h. n * 65536 + h) 0 hs * 65536 ^ skipped) ls)
      | _ \<Rightarrow> None)"

definition ip6_parts_int :: "string list \<Rightarrow> int option" where
  "ip6_parts_int parts =
     (case filter (\<lambda>i. parts ! i = []) [1..<length parts - 1] of
        [] \<Rightarrow> if length parts \<noteq> 8 \<or> hd parts = [] \<or> last parts = [] then None else hextets_int parts 0 []
      | [skip] \<Rightarrow>
          (let high = skip - (if hd parts = [] then 1 else 0);
               low = length parts - skip - 1 - (if last parts = [] then 1 else 0) in
           if hd parts = [] \<and> high \<noteq> 0 \<or> last parts = [] \<and> low \<noteq> 0 \<or> 8 \<le> high + low then None
           else hextets_int (take high parts) (8 - (high + low)) (drop (length parts - low) parts))
      | _ \<Rightarrow> None)"

definition ip6_int_from_string :: "string \<Rightarrow> int option" where
  "ip6_int_from_string s =
     (let parts = py_split CHR '':'' s in
      if s = [] \<or> length parts < 3 then None
      else case expand_quad parts of
        None \<Rightarrow> None
      | Some parts \<Rightarrow> if length parts > 9 then None else ip6_parts_int parts)"

definition IPv4Address :: "string \<Rightarrow> ip_addr option" where
  "IPv4Address s =
     (if CHR ''/'' \<in> set s then None
      else map_option (\<lambda>n. \<lparr>ia_version = IPv4, ia_int = n, ia_zone = None\<rparr>) (ip4_int_from_string s))"

definition split_scope_id :: "string \<Rightarrow> (string \<times> string option) option" where
  "split_scope_id s =
     (let addr = takeWhile (\<lambda>c. c \<noteq> CHR ''%'') s; zone = tl (dropWhile (\<lambda>c. c \<noteq> CHR ''%'') s) in
      if CHR ''%'' \<notin> set s then Some (addr, None)
      else if zone = [] \<or> CHR ''%'' \<in> set zone then None else Some (addr, Some zone))"

definition IPv6Address :: "string \<Rightarrow> ip_addr option" where
  "IPv6Address s =
     (if CHR ''/'' \<in> set s then None
      else case split_scope_id s of
        None \<Rightarrow> None
      | Some (addr, zone) \<Rightarrow> map_option (\<lambda>n. \<lparr>ia_version = IPv6, ia_int = n, ia_zone = zone\<rparr>) (ip6_int_from_string addr))"

definition ip_address :: "string \<Rightarrow> ip_addr option" where
  "ip_address s = (case IPv4Address s of Some a \<Rightarrow> Some a | None \<Rightarrow> IPv6Address s)"

definition ipv4_mapped :: "ip_addr \<Rightarrow> ip_addr option" where
  "ipv4_mapped a =
     (if ia_int a div 2 ^ 32 \<noteq> 0xFFFF then None
      else Some \<lparr>ia_version = IPv4, ia_int = ia_int a mod 2 ^ 32, ia_zone = None\<rparr>)"

subsection \<open>Reading networks\<close>

text \<open>An error of the address or mask lets the next family try; set host bits end the attempt.\<close>

datatype network_error = Malformed | Host_bits

fun righthand_zero_bits :: "nat \<Rightarrow> int \<Rightarrow> nat" where
  "righthand_zero_bits 0 n = 0"
| "righthand_zero_bits (Suc bits) n = (if n mod 2 = 0 then Suc (righthand_zero_bits bits (n div 2)) else 0)"

definition prefix_from_ip_int :: "int \<Rightarrow> nat option" where
  "prefix_from_ip_int n =
     (let zeroes = righthand_zero_bits 32 n; p = 32 - zeroes in
      if drop_bit zeroes n = 2 ^ p - 1 then Some p else None)"

text \<open>\<open>int\<close> refuses more than 4300 digits.\<close>

definition prefix_from_prefix_string :: "ip_version \<Rightarrow> string \<Rightarrow> nat option" where
  "prefix_from_prefix_string v s =
     (if s = [] \<or> \<not> list_all is_digit s \<or> int (length s) > 4300 \<or> dec_val s > max_prefixlen v then None else Some (dec_val s))"

definition prefix_from_ip_string :: "string \<Rightarrow> nat option" where
  "prefix_from_ip_string s =
     (case ip4_int_from_string s of
        None \<Rightarrow> None
      | Some n \<Rightarrow> (case prefix_from_ip_int n of Some p \<Rightarrow> Some p | None \<Rightarrow> prefix_from_ip_int (n XOR ALL_ONES IPv4)))"

fun make_netmask :: "ip_version \<Rightarrow> string \<Rightarrow> nat option" where
  "make_netmask IPv4 s = (case prefix_from_prefix_string IPv4 s of Some p \<Rightarrow> Some p | None \<Rightarrow> prefix_from_ip_string s)"
| "make_netmask IPv6 s = prefix_from_prefix_string IPv6 s"

fun parse_version :: "ip_version \<Rightarrow> string \<Rightarrow> ip_addr option" where
  "parse_version IPv4 s = IPv4Address s"
| "parse_version IPv6 s = IPv6Address s"

definition IPNetwork :: "ip_version \<Rightarrow> string \<Rightarrow> bool \<Rightarrow> network_error + ip_net" where
  "IPNetwork v s strict =
     (let parts = py_split CHR ''/'' s in
      if length parts > 2 then Inl Malformed
      else case (parse_version v (hd parts), if length parts > 1 then make_netmask v (parts ! 1) else Some (max_prefixlen v)) of
        (Some a, Some p) \<Rightarrow>
          if ia_int a AND int_from_prefix v p \<noteq> ia_int a
          then if strict then Inl Host_bits
               else Inr \<lparr>in_version = v, in_int = ia_int a AND int_from_prefix v p, in_zone = None, in_prefixlen = p\<rparr>
          else Inr \<lparr>in_version = v, in_int = ia_int a, in_zone = ia_zone a, in_prefixlen = p\<rparr>
      | _ \<Rightarrow> Inl Malformed)"

definition ip_network :: "string \<Rightarrow> bool \<Rightarrow> network_error + ip_net" where
  "ip_network s strict = (case IPNetwork IPv4 s strict of Inl Malformed \<Rightarrow> IPNetwork IPv6 s strict | r \<Rightarrow> r)"

subsection \<open>Writing\<close>

fun py_join :: "string \<Rightarrow> string list \<Rightarrow> string" where
  "py_join sep [] = []"
| "py_join sep [w] = w"
| "py_join sep (w # ws) = w @ sep @ py_join sep ws"

definition ip4_string :: "int \<Rightarrow> string" where
  "ip4_string n = py_join ''.'' (map (\<lambda>k. int_str (n div 256 ^ k mod 256)) [3, 2, 1, 0])"

text \<open>The first longest run of zero hextets: its start and its length.\<close>

fun zero_run :: "int \<Rightarrow> string list \<Rightarrow> int \<times> int \<Rightarrow> int \<times> int \<Rightarrow> int \<times> int" where
  "zero_run i [] best run = best"
| "zero_run i (h # hs) best (start, len) =
     (if h = ''0''
      then let run = (if start = - 1 then i else start, len + 1) in
           zero_run (i + 1) hs (if len + 1 > snd best then run else best) run
      else zero_run (i + 1) hs best (- 1, 0))"

definition compress_hextets :: "string list \<Rightarrow> string list" where
  "compress_hextets hs =
     (case zero_run 0 hs (- 1, 0) (- 1, 0) of (start, len) \<Rightarrow>
        if len > 1 then
          let first = nat start; after = nat (start + len);
              hs = (if after = length hs then hs @ [[]] else hs);
              hs = take first hs @ [[]] @ drop after hs
          in if first = 0 then [] # hs else hs
        else hs)"

definition ip6_string :: "int \<Rightarrow> string" where
  "ip6_string n = py_join '':'' (compress_hextets (map (\<lambda>k. hex_str (n div 65536 ^ k mod 65536)) [7, 6, 5, 4, 3, 2, 1, 0]))"

definition address_str :: "ip_addr \<Rightarrow> string" where
  "address_str a =
     (case ia_version a of
        IPv4 \<Rightarrow> ip4_string (ia_int a)
      | IPv6 \<Rightarrow> ip6_string (ia_int a) @ (case ia_zone a of None \<Rightarrow> [] | Some z \<Rightarrow> CHR ''%'' # z))"

definition network_str :: "ip_net \<Rightarrow> string" where
  "network_str n = address_str (network_address n) @ ''/'' @ nat_str (in_prefixlen n)"

subsection \<open>A network is an interval\<close>

definition host_bits :: "ip_net \<Rightarrow> nat" where
  "host_bits n = max_prefixlen (in_version n) - in_prefixlen n"

definition net_size :: "ip_net \<Rightarrow> int" where
  "net_size n = 2 ^ host_bits n"

fun wf_zone :: "ip_version \<Rightarrow> string option \<Rightarrow> bool" where
  "wf_zone v None = True"
| "wf_zone v (Some z) = (v = IPv6 \<and> z \<noteq> [] \<and> CHR ''%'' \<notin> set z \<and> CHR ''/'' \<notin> set z)"

definition wf_address :: "ip_addr \<Rightarrow> bool" where
  "wf_address a = (0 \<le> ia_int a \<and> ia_int a < 2 ^ max_prefixlen (ia_version a) \<and> wf_zone (ia_version a) (ia_zone a))"

definition wf_network :: "ip_net \<Rightarrow> bool" where
  "wf_network n = (wf_address (network_address n) \<and> in_prefixlen n \<le> max_prefixlen (in_version n) \<and> net_size n dvd in_int n)"

lemma ALL_ONES_mask: "ALL_ONES v = mask (max_prefixlen v)"
  by (simp add: ALL_ONES_def mask_eq_exp_minus_1)

lemma bit_int_from_prefix: "bit (int_from_prefix v p) i \<longleftrightarrow> max_prefixlen v - p \<le> i \<and> i < max_prefixlen v"
  by (auto simp: int_from_prefix_def ALL_ONES_mask bit_simps)

lemma bit_below: "0 \<le> a \<Longrightarrow> a < 2 ^ w \<Longrightarrow> bit a i \<Longrightarrow> i < w" for a :: int
  by (metis bit_take_bit_iff take_bit_int_eq_self)

lemma and_int_from_prefix:
  assumes "0 \<le> a" "a < 2 ^ max_prefixlen v"
  shows "a AND int_from_prefix v p = a - a mod 2 ^ (max_prefixlen v - p)"
proof -
  have "a AND int_from_prefix v p = push_bit (max_prefixlen v - p) (drop_bit (max_prefixlen v - p) a)"
    using bit_below [OF assms] by (intro bit_eqI) (auto simp: bit_simps bit_int_from_prefix)
  then show ?thesis by (simp add: push_bit_eq_mult drop_bit_eq_div minus_mod_eq_div_mult)
qed

lemma int_or_mask:
  fixes n :: int
  assumes "2 ^ k dvd n"
  shows "n OR mask k = n + mask k"
proof -
  from assms obtain m where "n = push_bit k m" by (auto simp: dvd_def push_bit_eq_mult mult.commute)
  then have "n AND mask k = 0" by (intro bit_eqI) (auto simp: bit_simps)
  then show ?thesis by (simp add: disjunctive_add_eq_or)
qed

lemma hostmask_mask: "hostmask n = mask (host_bits n)"
  by (intro bit_eqI) (auto simp: hostmask_def netmask_def host_bits_def ALL_ONES_mask bit_simps bit_int_from_prefix)

lemma net_size_pos: "0 < net_size n"
  by (simp add: net_size_def)

lemma broadcast_int: "wf_network n \<Longrightarrow> ia_int (broadcast_address n) = in_int n + net_size n - 1"
  using int_or_mask [of "host_bits n" "in_int n"]
  by (simp add: broadcast_address_def hostmask_mask wf_network_def net_size_def flip: mask_eq_exp_minus_1)

lemma num_addresses_size: "wf_network n \<Longrightarrow> num_addresses n = net_size n"
  by (simp add: num_addresses_def broadcast_int network_address_def)

text \<open>A multiple of the size is the start of the block a number lies in.\<close>

lemma block_start:
  fixes a m s :: int
  assumes "0 < s" "s dvd m"
  shows "a - a mod s = m \<longleftrightarrow> m \<le> a \<and> a < m + s"
proof
  assume "a - a mod s = m"
  then show "m \<le> a \<and> a < m + s" using assms pos_mod_bound [of s a] pos_mod_sign [of s a] by linarith
next
  assume r: "m \<le> a \<and> a < m + s"
  from assms(2) have "m mod s = 0" by simp
  then have "a mod s = (a - m) mod s" using mod_diff_right_eq [of a m s] by simp
  with r have "a mod s = a - m" by simp
  then show "a - a mod s = m" by simp
qed

lemma net_contains_iff:
  assumes "wf_network n" "wf_address a"
  shows "net_contains n a \<longleftrightarrow> in_version n = ia_version a \<and> in_int n \<le> ia_int a \<and> ia_int a < in_int n + net_size n"
  using assms block_start [OF net_size_pos, of n "in_int n" "ia_int a"]
  by (auto simp: net_contains_def netmask_def and_int_from_prefix wf_address_def wf_network_def net_size_def host_bits_def)

lemma network_fits: "wf_network n \<Longrightarrow> in_int n + net_size n \<le> 2 ^ max_prefixlen (in_version n)"
proof -
  assume n: "wf_network n"
  then have "net_size n dvd 2 ^ max_prefixlen (in_version n) - in_int n"
    by (auto simp: wf_network_def net_size_def host_bits_def intro!: dvd_diff le_imp_power_dvd)
  moreover have "0 < 2 ^ max_prefixlen (in_version n) - in_int n"
    using n by (simp add: wf_network_def wf_address_def network_address_def)
  ultimately have "net_size n \<le> 2 ^ max_prefixlen (in_version n) - in_int n" by (rule zdvd_imp_le)
  then show ?thesis by simp
qed

lemma wf_ends [simp]:
  assumes "wf_network n"
  shows "wf_address (network_address n)" "wf_address (broadcast_address n)"
proof -
  show "wf_address (network_address n)" using assms by (simp add: wf_network_def)
  have "0 \<le> ia_int (broadcast_address n)" "ia_int (broadcast_address n) < 2 ^ max_prefixlen (in_version n)"
    using assms network_fits [OF assms] net_size_pos [of n]
    by (simp_all add: broadcast_int) (simp add: wf_network_def wf_address_def network_address_def)
  then show "wf_address (broadcast_address n)" by (simp add: wf_address_def broadcast_address_def)
qed

lemma ends_simps [simp]:
  "ia_int (network_address n) = in_int n" "ia_version (network_address n) = in_version n"
  "ia_version (broadcast_address n) = in_version n" "ia_zone (broadcast_address n) = None" "ia_zone (network_address n) = in_zone n"
  by (simp_all add: network_address_def broadcast_address_def)

text \<open>Two blocks overlap exactly when they share an address, which is when one contains the other.\<close>

lemma net_overlaps_iff:
  assumes "wf_network m" "wf_network n" "in_version m = in_version n"
  shows "net_overlaps m n \<longleftrightarrow> in_int m < in_int n + net_size n \<and> in_int n < in_int m + net_size m"
  using assms net_size_pos [of m] net_size_pos [of n]
  by (auto simp: net_overlaps_def net_contains_iff broadcast_int)

lemma subnet_of_int:
  assumes "wf_network m" "wf_network n" "subnet_of m n"
  shows "in_int n \<le> in_int m" "in_int m + net_size m \<le> in_int n + net_size n"
proof -
  show "in_int n \<le> in_int m" using assms(3) by (auto simp: subnet_of_def address_le_def network_address_def)
  have "ia_int (broadcast_address m) \<le> ia_int (broadcast_address n)"
    using assms(3) by (auto simp: subnet_of_def address_le_def)
  then show "in_int m + net_size m \<le> in_int n + net_size n" using assms(1,2) by (simp add: broadcast_int)
qed

subsection \<open>Texts read back\<close>

lemma py_split_append: "c \<notin> set w \<Longrightarrow> py_split c (w @ c # s) = w # py_split c s"
  by (induction w) auto

lemma py_split_join: "ws \<noteq> [] \<Longrightarrow> \<forall>w\<in>set ws. c \<notin> set w \<Longrightarrow> py_split c (py_join [c] ws) = ws"
  by (induction "[c]" ws rule: py_join.induct) (auto simp: py_split_no_sep py_split_append)

lemma set_py_split: "set s \<subseteq> insert c (\<Union>w\<in>set (py_split c s). set w)"
  by (induction s) (auto split: list.splits, fastforce)

lemma set_py_join: "set (py_join sep ws) \<subseteq> set sep \<union> (\<Union>w\<in>set ws. set w)"
  by (induction sep ws rule: py_join.induct) auto

lemma those_map: "\<forall>x\<in>set xs. f x = Some (g x) \<Longrightarrow> those (map f xs) = Some (map g xs)"
  by (induction xs) auto

lemma those_Some_iff: "those xs = Some ys \<longleftrightarrow> xs = map Some ys"
  by (induction xs arbitrary: ys) (auto split: option.splits simp: map_eq_Cons_conv Cons_eq_map_conv)

lemma nat_str_hd: "0 < n \<Longrightarrow> hd (nat_str n) \<noteq> CHR ''0''"
proof (induction n rule: nat_str.induct)
  case (1 n)
  have "hex_char n \<noteq> CHR ''0''" if "n < 10" using that 1(2) hex_val_char [of n] by (cases "hex_char n = CHR ''0''") auto
  with 1 show ?case by (subst nat_str.simps) (auto simp: nat_str_not_Nil)
qed

lemma digits_nat_str: "list_all is_digit (nat_str n)"
  using set_nat_str [of n] unfolding list_all_iff is_digit_def dec_chars_def by blast

lemma parse_octet_str:
  assumes "0 \<le> n" "n < 256"
  shows "parse_octet (int_str n) = Some n"
proof -
  define m where "m = nat n"
  have m: "int_str n = nat_str m" "m < 256" "int m = n" using assms by (simp_all add: m_def int_str_def)
  have "length (nat_str m) \<le> 3" using nat_str_length [of m 3] m(2) by simp
  moreover have "nat_str m = ''0'' \<or> hd (nat_str m) \<noteq> CHR ''0''"
    using nat_str_hd [of m] by (cases "m = 0") (simp_all add: nat_str.simps [of 0] hex_char_def)
  ultimately show ?thesis using m by (auto simp: parse_octet_def digits_nat_str dec_val_nat_str nat_str_not_Nil)
qed

lemma digits_fold:
  fixes n B :: int
  assumes "0 < B"
  shows "foldl (\<lambda>x b. x * B + b) a (map (\<lambda>k. n div B ^ k mod B) (rev [0..<m])) = a * B ^ m + n mod B ^ m"
proof (induction m arbitrary: a)
  case (Suc m)
  have "n mod B ^ Suc m = B ^ m * (n div B ^ m mod B) + n mod B ^ m"
    using zmod_zmult2_eq [of B n "B ^ m"] assms by (simp add: mult.commute)
  then show ?case using Suc by (simp add: algebra_simps)
qed simp

lemma count_down: "[3, 2, 1, 0] = rev [0..<4]" "[7, 6, 5, 4, 3, 2, 1, 0] = rev [0..<8]"
  by (simp_all add: upt_rec)

lemma ip4_round_trip:
  assumes "0 \<le> n" "n < 2 ^ 32"
  shows "ip4_int_from_string (ip4_string n) = Some n"
proof -
  define ds where "ds = map (\<lambda>k. n div 256 ^ k mod 256) [3, 2, 1, 0]"
  have range: "\<forall>d\<in>set ds. 0 \<le> d \<and> d < 256" by (simp add: ds_def)
  have len: "length ds = 4" "ds \<noteq> []" by (simp_all add: ds_def)
  have str: "ip4_string n = py_join ''.'' (map int_str ds)" by (simp add: ip4_string_def ds_def)
  have digits: "list_all is_digit (int_str d)" "int_str d \<noteq> []" if "d \<in> set ds" for d
    using range that digits_nat_str nat_str_not_Nil by (auto simp: int_str_def)
  have dot: "\<not> is_digit CHR ''.''" by (simp add: is_digit_def)
  have "\<forall>w\<in>set (map int_str ds). CHR ''.'' \<notin> set w" using digits dot by (auto simp: list_all_iff)
  from py_split_join [OF _ this] len(2) have split: "py_split CHR ''.'' (ip4_string n) = map int_str ds" by (simp add: str)
  have octets: "those (map parse_octet (map int_str ds)) = Some ds"
    using those_map [of ds "parse_octet \<circ> int_str" "\<lambda>d. d"] range by (simp add: parse_octet_str)
  have "foldl (\<lambda>x b. x * 256 + b) 0 ds = n"
    unfolding ds_def count_down using assms by (subst digits_fold) simp_all
  moreover have "ip4_string n \<noteq> []" using split len digits(2) by (auto simp: ds_def)
  ultimately show ?thesis unfolding ip4_int_from_string_def Let_def split octets by (simp add: len)
qed

lemma parse_octet_Some: "parse_octet w = Some b \<Longrightarrow> list_all is_digit w \<and> 0 \<le> b \<and> b < 256"
  by (auto simp: parse_octet_def split: if_splits)

lemma ip4_chars:
  assumes "ip4_int_from_string s = Some n"
  shows "c \<in> set s \<Longrightarrow> c = CHR ''.'' \<or> is_digit c" "0 \<le> n" "n < 2 ^ 32"
proof -
  from assms obtain bs where bs: "map parse_octet (py_split CHR ''.'' s) = map Some bs" "length bs = 4"
    "n = foldl (\<lambda>n b. n * 256 + b) 0 bs"
    by (auto simp: ip4_int_from_string_def Let_def those_Some_iff split: if_splits) (metis length_map)
  have "\<exists>b. parse_octet w = Some b" if "w \<in> set (py_split CHR ''.'' s)" for w
    using arg_cong [OF bs(1), of set] that by force
  then have "list_all is_digit w" if "w \<in> set (py_split CHR ''.'' s)" for w using that parse_octet_Some by blast
  then show "c \<in> set s \<Longrightarrow> c = CHR ''.'' \<or> is_digit c" using set_py_split [of s "CHR ''.''"] unfolding list_all_iff by blast
  have "0 \<le> b \<and> b < 256" if "b \<in> set bs" for b
  proof -
    have "Some b \<in> set (map parse_octet (py_split CHR ''.'' s))" unfolding bs(1) using that by simp
    then obtain w where "parse_octet w = Some b" unfolding set_map by (metis imageE)
    then show ?thesis using parse_octet_Some by blast
  qed
  moreover from bs(2) obtain a b c d where abcd: "bs = [a, b, c, d]" by (auto simp: numeral_eq_Suc length_Suc_conv)
  ultimately have "0 \<le> a" "a < 256" "0 \<le> b" "b < 256" "0 \<le> c" "c < 256" "0 \<le> d" "d < 256" by simp_all
  with bs(3) show "0 \<le> n" "n < 2 ^ 32" by (simp_all add: abcd)
qed

lemma hex_str_length: "0 \<le> n \<Longrightarrow> n < 16 ^ Suc k \<Longrightarrow> length (hex_str n) \<le> Suc k"
proof (induction k arbitrary: n)
  case (Suc k)
  then have "n div 16 < 16 ^ Suc k" "0 \<le> n div 16" by simp_all
  from Suc.IH [OF this(2,1)] show ?case by (subst hex_str.simps) simp
qed (subst hex_str.simps, simp)

lemma hex_char_facts:
  assumes "n < 16"
  shows "is_hex (hex_char n)" "hex_digit_value (hex_char n) = int n"
  using assms by (simp_all add: hex_char_def is_hex_def hex_digit_value_def less_Suc_eq numeral_eq_Suc) (elim disjE; simp)+

lemma hex_str_hex: "list_all is_hex (hex_str n)"
proof (induction n rule: hex_str.induct)
  case (1 n)
  then show ?case by (subst hex_str.simps) (simp add: hex_char_facts nat_less_iff)
qed

lemma hex_str_not_Nil [simp]: "hex_str n \<noteq> []"
  by (subst hex_str.simps) simp

lemma special_not_hex: "\<not> is_hex CHR '':''" "\<not> is_hex CHR ''.''" "\<not> is_hex CHR ''%''" "\<not> is_hex CHR ''/''"
  by (simp_all add: is_hex_def)

lemma hex_str_value: "0 \<le> n \<Longrightarrow> foldl (\<lambda>n c. n * 16 + hex_digit_value c) 0 (hex_str n) = n"
proof (induction n rule: hex_str.induct)
  case (1 n)
  have "n div 16 * 16 + n mod 16 = n" by presburger
  with 1 show ?case by (subst hex_str.simps) (simp add: hex_char_facts nat_less_iff pos_imp_zdiv_nonneg_iff)
qed

lemma parse_hextet_str:
  assumes "0 \<le> n" "n < 65536"
  shows "parse_hextet (hex_str n) = Some n"
proof -
  have "length (hex_str n) \<le> 4" using assms hex_str_length [of n 3] by simp
  then show ?thesis using assms hex_str_value [of n] hex_str_hex by (simp add: parse_hextet_def)
qed

text \<open>The run the compression removes is a run of zeroes within the list.\<close>

lemma zero_run_inv:
  assumes "zero_run i hs best (start, len) = (bs, bl)" "0 \<le> len" "len \<le> i"
    and "length seen = nat i" "len = 0 \<longleftrightarrow> start = - 1" "0 < len \<longrightarrow> start = i - len"
    and "\<forall>k. i - len \<le> k \<and> k < i \<longrightarrow> seen ! nat k = ''0''"
    and "0 \<le> snd best" "0 < snd best \<longrightarrow> 0 \<le> fst best \<and> fst best + snd best \<le> i"
    and "\<forall>k. 0 < snd best \<and> fst best \<le> k \<and> k < fst best + snd best \<longrightarrow> seen ! nat k = ''0''"
  shows "0 < bl \<longrightarrow> 0 \<le> bs \<and> bs + bl \<le> i + int (length hs) \<and> (\<forall>k. bs \<le> k \<and> k < bs + bl \<longrightarrow> (seen @ hs) ! nat k = ''0'')"
  using assms
proof (induction hs arbitrary: i seen best start len)
  case Nil
  then show ?case by auto
next
  case (Cons h hs)
  let ?seen = "seen @ [h]"
  have i: "0 \<le> i" using Cons.prems(2,3) by simp
  have old: "?seen ! nat k = seen ! nat k" if "0 \<le> k" "k < i" for k using that Cons.prems(4) by (simp add: nth_append nat_less_iff)
  have new: "?seen ! nat i = h" using Cons.prems(4) by (simp add: nth_append)
  have keep: "\<forall>k. 0 < snd best \<and> fst best \<le> k \<and> k < fst best + snd best \<longrightarrow> ?seen ! nat k = ''0''"
    using Cons.prems(9,10) old by (metis (no_types, lifting) order.strict_trans2 order.trans)
  have app: "seen @ h # hs = ?seen @ hs" "i + int (length (h # hs)) = (i + 1) + int (length hs)" by simp_all
  show ?case
  proof (cases "h = ''0''")
    case True
    have run: "start = - 1 \<Longrightarrow> i = (i + 1) - (len + 1) \<and> len = 0" "start \<noteq> - 1 \<Longrightarrow> start = (i + 1) - (len + 1)"
      using Cons.prems(2,5,6) by auto
    have zeros: "\<forall>k. (i + 1) - (len + 1) \<le> k \<and> k < i + 1 \<longrightarrow> ?seen ! nat k = ''0''"
    proof (intro allI impI)
      fix k assume k: "(i + 1) - (len + 1) \<le> k \<and> k < i + 1"
      show "?seen ! nat k = ''0''"
        using k Cons.prems(3,7) old [of k] new True by (cases "k = i") auto
    qed
    let ?run = "(if start = - 1 then i else start, len + 1)"
    let ?best = "if len + 1 > snd best then ?run else best"
    have fr: "fst ?run = (i + 1) - (len + 1)" using run by (cases "start = - 1") auto
    show ?thesis unfolding app
      by (rule Cons.IH [where best = ?best and start = "fst ?run" and len = "len + 1"])
        (use Cons.prems(1-4,8,9) True fr zeros keep i in \<open>auto simp: Let_def split: if_splits\<close>)
  next
    case False
    show ?thesis unfolding app
      by (rule Cons.IH [where best = best and start = "- 1" and len = 0])
        (use Cons.prems(1-4,8,9) False keep i in auto)
  qed
qed

lemma skip_index:
  assumes "A \<noteq> []" "B \<noteq> []" "\<forall>i. 0 < i \<and> i < length A \<longrightarrow> A ! i \<noteq> []" "\<forall>i. Suc i < length B \<longrightarrow> B ! i \<noteq> []"
  shows "filter (\<lambda>i. (A @ [] # B) ! i = []) [1..<length (A @ [] # B) - 1] = [length A]"
proof -
  obtain b where b: "length B = Suc b" using assms(2) by (cases B) auto
  have "[1..<length (A @ [] # B) - 1] = [1..<length A] @ length A # [Suc (length A)..<length A + Suc b]"
    using assms(1) upt_add_eq_append [of 1 "length A" "Suc b"] by (simp add: b upt_conv_Cons Suc_le_eq)
  moreover have "filter (\<lambda>i. (A @ [] # B) ! i = []) [1..<length A] = []"
    using assms(3) by (auto simp: filter_empty_conv nth_append)
  moreover have "filter (\<lambda>i. (A @ [] # B) ! i = []) [Suc (length A)..<length A + Suc b] = []"
  proof -
    have r: "(A @ [] # B) ! i \<noteq> []" if "Suc (length A) \<le> i" "i < length A + Suc b" for i
    proof -
      from that obtain k where "i = length A + Suc k" "k < b" by (metis add_Suc_right add_Suc_shift less_iff_Suc_add nat_add_left_cancel_less le_Suc_ex Suc_less_eq)
      then show ?thesis using assms(4) b by (simp add: nth_append)
    qed
    show ?thesis by (rule filter_False, rule ballI, rule r) (simp_all only: set_upt atLeastLessThan_iff)
  qed
  ultimately show ?thesis by simp
qed

lemma fold_zeros: "foldl (\<lambda>n h. n * 65536 + h) a (replicate k 0) = a * 65536 ^ k" for a :: int
  by (induction k arbitrary: a) simp_all

lemma hextets_those:
  assumes "map parse_hextet ws = map Some ds" "f \<le> e" "\<forall>k. f \<le> k \<and> k < e \<longrightarrow> ws ! k = ''0''" "e \<le> length ws"
  shows "hextets_int (take f ws) (e - f) (drop e ws) = Some (foldl (\<lambda>n h. n * 65536 + h) 0 ds)"
proof -
  have len: "length ds = length ws" using assms(1) by (metis length_map)
  have zero: "parse_hextet ''0'' = Some 0" by code_simp
  have "ds ! k = 0" if "f \<le> k" "k < e" for k
    using arg_cong [OF assms(1), of "\<lambda>xs. xs ! k"] assms(3,4) that len zero by simp
  then have "take (e - f) (drop f ds) = replicate (e - f) 0"
    using assms(2,4) len by (intro nth_equalityI) simp_all
  then have ds: "ds = take f ds @ replicate (e - f) 0 @ drop e ds"
    using assms(2) by (metis append_take_drop_id drop_drop le_add_diff_inverse2)
  have "map parse_hextet (take f ws) = map Some (take f ds)" "map parse_hextet (drop e ws) = map Some (drop e ds)"
    using assms(1) by (metis take_map, metis drop_map)
  then have "those (map parse_hextet (take f ws)) = Some (take f ds)" "those (map parse_hextet (drop e ws)) = Some (drop e ds)"
    by (simp_all add: those_Some_iff)
  then have "hextets_int (take f ws) (e - f) (drop e ws) = Some (foldl (\<lambda>n h. n * 65536 + h) 0 (take f ds @ replicate (e - f) 0 @ drop e ds))"
    by (simp add: hextets_int_def fold_zeros)
  then show ?thesis using ds by simp
qed

lemma compress_round_trip:
  assumes ws: "length ws = 8" "map parse_hextet ws = map Some ds"
  shows "ip6_parts_int (compress_hextets ws) = Some (foldl (\<lambda>n h. n * 65536 + h) 0 ds)"
    and "3 \<le> length (compress_hextets ws)" "length (compress_hextets ws) \<le> 9"
    and "set (compress_hextets ws) \<subseteq> insert [] (set ws)"
proof -
  have "parse_hextet (ws ! i) \<noteq> None" if "i < 8" for i
    using arg_cong [OF ws(2), of "\<lambda>xs. xs ! i"] ws(1) that map_eq_imp_length_eq [OF ws(2)] by simp
  moreover have "parse_hextet [] = None" by (simp add: parse_hextet_def)
  ultimately have ne: "ws ! i \<noteq> []" if "i < 8" for i using that by metis
  obtain bs bl where run: "zero_run 0 ws (- 1, 0) (- 1, 0) = (bs, bl)" by fastforce
  have inv: "0 < bl \<longrightarrow> 0 \<le> bs \<and> bs + bl \<le> 8 \<and> (\<forall>k. bs \<le> k \<and> k < bs + bl \<longrightarrow> ws ! nat k = ''0'')"
  proof -
    have "0 < bl \<longrightarrow> 0 \<le> bs \<and> bs + bl \<le> 0 + int (length ws) \<and> (\<forall>k. bs \<le> k \<and> k < bs + bl \<longrightarrow> ([] @ ws) ! nat k = ''0'')"
      by (rule zero_run_inv [OF run]) auto
    then show ?thesis using ws(1) by simp
  qed
  let ?r = "foldl (\<lambda>n h. n * 65536 + h) 0 ds"
  have "ip6_parts_int (compress_hextets ws) = Some ?r \<and> 3 \<le> length (compress_hextets ws) \<and> length (compress_hextets ws) \<le> 9 \<and>
      set (compress_hextets ws) \<subseteq> insert [] (set ws)"
  proof (cases "bl > 1")
    case False
    then have c: "compress_hextets ws = ws" by (simp add: compress_hextets_def run)
    have "filter (\<lambda>i. ws ! i = []) [1..<length ws - 1] = []" using ne ws(1) by (simp add: filter_empty_conv)
    moreover have "hd ws \<noteq> []" "last ws \<noteq> []" using ne [of 0] ne [of 7] ws(1) by (cases ws; simp add: last_conv_nth)+
    moreover have "hextets_int (take 8 ws) (8 - 8) (drop 8 ws) = Some ?r" by (rule hextets_those [OF ws(2)]) (use ws(1) in auto)
    then have "hextets_int ws 0 [] = Some ?r" using ws(1) by simp
    ultimately show ?thesis unfolding c ip6_parts_int_def using ws(1) by auto
  next
    case True
    define f where "f = nat bs"
    define e where "e = nat (bs + bl)"
    have fe: "f + 2 \<le> e" "e \<le> 8" "0 \<le> bs" using inv True ws(1) by (auto simp: f_def e_def)
    have zeros: "\<forall>k. f \<le> k \<and> k < e \<longrightarrow> ws ! k = ''0''"
    proof (intro allI impI)
      fix k assume "f \<le> k \<and> k < e"
      then have "bs \<le> int k \<and> int k < bs + bl" using fe(3) by (auto simp: f_def e_def)
      then show "ws ! k = ''0''" using inv True by auto
    qed
    define A where "A = (if f = 0 then [[]] else take f ws)"
    define B where "B = (if e = 8 then [[]] else drop e ws)"
    have c: "compress_hextets ws = A @ [] # B"
      using True fe ws(1) by (simp add: compress_hextets_def run f_def [symmetric] e_def [symmetric] Let_def A_def B_def)
    have lA: "length A = (if f = 0 then 1 else f)" and lB: "length B = (if e = 8 then 1 else 8 - e)"
      using fe ws(1) by (simp_all add: A_def B_def)
    have "ws \<noteq> []" using ws(1) by auto
    then have hd: "hd (A @ [] # B) = [] \<longleftrightarrow> f = 0" using ne [of 0] fe ws(1) by (auto simp: A_def hd_conv_nth nth_append)
    have last: "last (A @ [] # B) = [] \<longleftrightarrow> e = 8" using ne [of 7] fe ws(1) by (auto simp: B_def last_drop last_conv_nth)
    have idx: "filter (\<lambda>i. (A @ [] # B) ! i = []) [1..<length (A @ [] # B) - 1] = [length A]"
      by (rule skip_index) (use ne fe ws(1) in \<open>auto simp: A_def B_def\<close>)
    define P where "P = A @ [] # B"
    have P: "take f P = take f ws" "drop (length P - (8 - e)) P = drop e ws" "length P = length A + 1 + length B"
      using fe ws(1) by (simp_all add: P_def A_def B_def)
    have ends: "length A - (if hd P = [] then 1 else 0) = f" "length P - length A - 1 - (if last P = [] then 1 else 0) = 8 - e"
      using hd last lA lB fe P(3) by (simp_all add: P_def [symmetric])
    have "\<not> (hd P = [] \<and> f \<noteq> 0 \<or> last P = [] \<and> 8 - e \<noteq> 0 \<or> 8 \<le> f + (8 - e))"
      using hd last fe unfolding P_def [symmetric] by linarith
    then have "ip6_parts_int P = hextets_int (take f ws) (8 - (f + (8 - e))) (drop e ws)"
      unfolding ip6_parts_int_def idx [folded P_def] list.case Let_def ends by (simp only: if_False P(1,2))
    moreover have "8 - (f + (8 - e)) = e - f" using fe by simp
    moreover have "hextets_int (take f ws) (e - f) (drop e ws) = Some ?r"
      by (rule hextets_those [OF ws(2) _ zeros]) (use fe ws(1) in auto)
    moreover have "set P \<subseteq> insert [] (set ws)" by (auto simp: P_def A_def B_def dest: in_set_takeD in_set_dropD)
    ultimately show ?thesis unfolding c P_def [symmetric] using fe P(3) lA lB by auto
  qed
  then show "ip6_parts_int (compress_hextets ws) = Some ?r" "3 \<le> length (compress_hextets ws)"
    "length (compress_hextets ws) \<le> 9" "set (compress_hextets ws) \<subseteq> insert [] (set ws)" by simp_all
qed

lemma ip6_round_trip:
  assumes "0 \<le> n" "n < 2 ^ 128"
  shows "ip6_int_from_string (ip6_string n) = Some n" "c \<in> set (ip6_string n) \<Longrightarrow> c = CHR '':'' \<or> is_hex c" "CHR '':'' \<in> set (ip6_string n)"
proof -
  define ds where "ds = map (\<lambda>k. n div 65536 ^ k mod 65536) [7, 6, 5, 4, 3, 2, 1, 0]"
  define ws where "ws = map hex_str ds"
  define parts where "parts = compress_hextets ws"
  have str: "ip6_string n = py_join '':'' parts" by (simp add: ip6_string_def ds_def ws_def parts_def)
  have len: "length ws = 8" by (simp add: ws_def ds_def)
  have "\<forall>d\<in>set ds. 0 \<le> d \<and> d < 65536" by (simp add: ds_def)
  then have parse: "map parse_hextet ws = map Some ds" by (simp add: ws_def parse_hextet_str)
  note c = compress_round_trip [OF len parse, folded parts_def]
  have hex: "list_all is_hex w" if "w \<in> set parts" for w using c(4) that hex_str_hex by (auto simp: ws_def)
  then have chars: "CHR '':'' \<notin> set w" "CHR ''.'' \<notin> set w" if "w \<in> set parts" for w
    using that special_not_hex by (auto simp: list_all_iff)
  have ne: "parts \<noteq> []" using c(2) by auto
  with chars(1) have split: "py_split CHR '':'' (ip6_string n) = parts" unfolding str by (intro py_split_join) auto
  have "last parts \<in> set parts" using ne by simp
  then have "expand_quad parts = Some parts" using chars(2) by (simp add: expand_quad_def)
  moreover have "foldl (\<lambda>n h. n * 65536 + h) 0 ds = n" unfolding ds_def count_down(2) using assms by (subst digits_fold) simp_all
  moreover have nonempty: "ip6_string n \<noteq> []" using split c(2) by auto
  ultimately show "ip6_int_from_string (ip6_string n) = Some n"
    unfolding ip6_int_from_string_def Let_def split using c by simp
  show "c \<in> set (ip6_string n) \<Longrightarrow> c = CHR '':'' \<or> is_hex c"
    using set_py_join [of "'':''" parts] hex unfolding str list_all_iff by fastforce
  show "CHR '':'' \<in> set (ip6_string n)" using split c(2) py_split_no_sep [of "CHR '':''" "ip6_string n"] by fastforce
qed

lemma digit_hex: "is_digit c \<Longrightarrow> is_hex c"
  by (auto simp: is_digit_def is_hex_def)

lemma ip4_string_chars:
  assumes "0 \<le> n" "n < 2 ^ 32" "c \<in> set (ip4_string n)"
  shows "c = CHR ''.'' \<or> is_digit c"
  using ip4_chars(1) [OF ip4_round_trip [OF assms(1,2)]] assms(3) by blast

lemma address_round_trip:
  assumes "wf_address a"
  shows "parse_version (ia_version a) (address_str a) = Some a" "CHR ''/'' \<notin> set (address_str a)"
    "ia_version a = IPv6 \<Longrightarrow> CHR '':'' \<in> set (address_str a)"
proof -
  have "parse_version (ia_version a) (address_str a) = Some a \<and> CHR ''/'' \<notin> set (address_str a) \<and>
      (ia_version a = IPv6 \<longrightarrow> CHR '':'' \<in> set (address_str a))"
  proof (cases "ia_version a")
    case IPv4
    with assms have n: "0 \<le> ia_int a" "ia_int a < 2 ^ 32" "ia_zone a = None" by (auto simp: wf_address_def elim: wf_zone.elims)
    have "CHR ''/'' \<notin> set (ip4_string (ia_int a))"
      using ip4_string_chars [OF n(1,2), of "CHR ''/''"] digit_hex special_not_hex by auto
    with IPv4 n show ?thesis by (simp add: address_str_def IPv4Address_def ip4_round_trip)
  next
    case IPv6
    with assms have n: "0 \<le> ia_int a" "ia_int a < 2 ^ 128" "wf_zone IPv6 (ia_zone a)" by (auto simp: wf_address_def)
    let ?s = "ip6_string (ia_int a)"
    have s: "CHR ''/'' \<notin> set ?s" "CHR ''%'' \<notin> set ?s"
      using ip6_round_trip(2) [OF n(1,2)] special_not_hex by auto
    have tw: "takeWhile (\<lambda>c. c \<noteq> CHR ''%'') (?s @ zs) = ?s @ takeWhile (\<lambda>c. c \<noteq> CHR ''%'') zs"
      "dropWhile (\<lambda>c. c \<noteq> CHR ''%'') (?s @ zs) = dropWhile (\<lambda>c. c \<noteq> CHR ''%'') zs" for zs
      using s(2) by (auto intro!: takeWhile_append2 dropWhile_append2)+
    show ?thesis
    proof (cases "ia_zone a")
      case None
      have "takeWhile (\<lambda>c. c \<noteq> CHR ''%'') ?s = ?s" using tw(1) [of "[]"] by simp
      with None s IPv6 ip6_round_trip [OF n(1,2)] show ?thesis
        by (simp add: address_str_def IPv6Address_def split_scope_id_def Let_def del: takeWhile_eq_all_conv)
    next
      case (Some z)
      with n(3) have z: "z \<noteq> []" "CHR ''%'' \<notin> set z" "CHR ''/'' \<notin> set z" by simp_all
      with s tw [of "CHR ''%'' # z"] Some IPv6 ip6_round_trip [OF n(1,2)] show ?thesis
        by (simp add: address_str_def IPv6Address_def split_scope_id_def Let_def)
    qed
  qed
  then show "parse_version (ia_version a) (address_str a) = Some a" "CHR ''/'' \<notin> set (address_str a)"
    "ia_version a = IPv6 \<Longrightarrow> CHR '':'' \<in> set (address_str a)" by simp_all
qed

lemma IPv4_no_colon: "IPv4Address s = Some a \<Longrightarrow> CHR '':'' \<notin> set s"
  using ip4_chars(1) [of s "ia_int a" "CHR '':''"] digit_hex special_not_hex by (auto simp: IPv4Address_def split: if_splits)

text \<open>The text of a network reads back as the network, whether host bits are refused or dropped.\<close>

lemma network_round_trip:
  assumes "wf_network n"
  shows "ip_network (network_str n) strict = Inr n"
proof -
  let ?a = "network_address n" and ?v = "in_version n"
  note a = address_round_trip [OF wf_ends(1) [OF assms]]
  have p: "in_prefixlen n \<le> max_prefixlen ?v" using assms by (simp add: wf_network_def)
  have "max_prefixlen ?v \<le> 128" by (cases ?v) simp_all
  then have "length (nat_str (in_prefixlen n)) \<le> 3" using p nat_str_length [of "in_prefixlen n" 3] by simp
  then have mask: "make_netmask ?v (nat_str (in_prefixlen n)) = Some (in_prefixlen n)"
    using p by (cases ?v) (simp_all add: prefix_from_prefix_string_def digits_nat_str dec_val_nat_str nat_str_not_Nil)
  have "\<not> is_digit CHR ''/''" by (simp add: is_digit_def)
  then have "CHR ''/'' \<notin> set (nat_str (in_prefixlen n))" using digits_nat_str [of "in_prefixlen n"] by (auto simp: list_all_iff)
  then have split: "py_split CHR ''/'' (network_str n) = [address_str ?a, nat_str (in_prefixlen n)]"
    using a(2) by (simp add: network_str_def py_split_append py_split_no_sep)
  have "in_int n AND int_from_prefix ?v (in_prefixlen n) = in_int n"
    using net_contains_iff [OF assms wf_ends(1) [OF assms]] net_size_pos [of n] by (simp add: net_contains_def netmask_def)
  then have parsed: "IPNetwork ?v (network_str n) strict = Inr n"
    using a(1) mask by (simp add: IPNetwork_def split network_address_def)
  show ?thesis
  proof (cases ?v)
    case IPv4
    with parsed show ?thesis by (simp add: ip_network_def)
  next
    case IPv6
    then have "IPv4Address (address_str ?a) = None" using a(3) IPv4_no_colon by (cases "IPv4Address (address_str ?a)") auto
    then have "IPNetwork IPv4 (network_str n) strict = Inl Malformed" by (simp add: IPNetwork_def split)
    with IPv6 parsed show ?thesis by (simp add: ip_network_def)
  qed
qed

subsection \<open>What is read is well formed\<close>

lemma fold_base_range:
  fixes a B :: int
  assumes "0 < B" "0 \<le> a" "\<forall>x\<in>set xs. 0 \<le> g x \<and> g x < B"
  shows "0 \<le> foldl (\<lambda>n x. n * B + g x) a xs \<and> foldl (\<lambda>n x. n * B + g x) a xs < (a + 1) * B ^ length xs"
  using assms
proof (induction xs arbitrary: a)
  case (Cons x xs)
  have x: "0 \<le> a * B + g x" "a * B + g x + 1 \<le> (a + 1) * B" using Cons.prems by (simp_all add: algebra_simps)
  have "(a * B + g x + 1) * B ^ length xs \<le> (a + 1) * B * B ^ length xs"
    using x(2) Cons.prems(1) by (intro mult_right_mono) simp_all
  also have "(a + 1) * B * B ^ length xs = (a + 1) * B ^ length (x # xs)" by simp
  finally have "(a * B + g x + 1) * B ^ length xs \<le> (a + 1) * B ^ length (x # xs)" .
  moreover have "0 \<le> foldl (\<lambda>n x. n * B + g x) (a * B + g x) xs \<and>
      foldl (\<lambda>n x. n * B + g x) (a * B + g x) xs < (a * B + g x + 1) * B ^ length xs"
    using Cons.IH [OF _ x(1)] Cons.prems by simp
  ultimately show ?case unfolding foldl_Cons by linarith
qed simp

lemma parse_hextet_range:
  assumes "parse_hextet w = Some h"
  shows "0 \<le> h \<and> h < 65536"
proof -
  have digit: "0 \<le> hex_digit_value c \<and> hex_digit_value c < 16" for c
    by (simp add: hex_digit_value_def)
  from assms have w: "list_all is_hex w" "length w \<le> 4" "h = foldl (\<lambda>n c. n * 16 + hex_digit_value c) 0 w"
    by (auto simp: parse_hextet_def split: if_splits)
  have "0 \<le> h \<and> h < (0 + 1) * 16 ^ length w"
    unfolding w(3) by (intro fold_base_range) (simp_all add: digit)
  moreover have "(16 :: int) ^ length w \<le> 16 ^ 4" using w(2) by (intro power_increasing) simp_all
  ultimately show ?thesis by simp
qed

lemmas fold_hextets_range = fold_base_range [of 65536 _ _ "\<lambda>h. h", simplified]

lemma hextets_int_range:
  assumes "hextets_int high skipped low = Some n"
  shows "0 \<le> n \<and> n < 65536 ^ (length high + skipped + length low)"
proof -
  from assms obtain hs ls where l: "map parse_hextet high = map Some hs" "map parse_hextet low = map Some ls"
    "n = foldl (\<lambda>n h. n * 65536 + h) (foldl (\<lambda>n h. n * 65536 + h) 0 hs * 65536 ^ skipped) ls"
    by (auto simp: hextets_int_def those_Some_iff split: option.splits)
  have "0 \<le> h \<and> h < 65536" if "map parse_hextet ws = map Some xs" "h \<in> set xs" for ws xs h
  proof -
    have "Some h \<in> set (map parse_hextet ws)" unfolding that(1) using that(2) by simp
    then obtain w where "parse_hextet w = Some h" unfolding set_map by (metis imageE)
    then show ?thesis by (rule parse_hextet_range)
  qed
  then have r: "\<forall>h\<in>set hs. 0 \<le> h \<and> h < 65536" "\<forall>h\<in>set ls. 0 \<le> h \<and> h < 65536" using l by blast+
  define a where "a = foldl (\<lambda>n h. n * 65536 + h) 0 hs"
  have a: "0 \<le> a" "a < 65536 ^ length hs" using fold_hextets_range [OF _ r(1), of 0] by (simp_all add: a_def)
  have len: "length high = length hs" "length low = length ls" using l(1,2) by (metis length_map)+
  have "(a * 65536 ^ skipped + 1) * 65536 ^ length ls \<le> 65536 ^ length hs * 65536 ^ skipped * 65536 ^ length ls"
  proof (intro mult_right_mono)
    have "(a + 1) * 65536 ^ skipped \<le> 65536 ^ length hs * 65536 ^ skipped" using a by (intro mult_right_mono) simp_all
    moreover have "1 \<le> (65536 :: int) ^ skipped" by simp
    ultimately show "a * 65536 ^ skipped + 1 \<le> 65536 ^ length hs * 65536 ^ skipped"
      unfolding distrib_right by linarith
  qed simp
  moreover have "0 \<le> n \<and> n < (a * 65536 ^ skipped + 1) * 65536 ^ length ls"
    using fold_hextets_range [OF _ r(2), of "a * 65536 ^ skipped"] a unfolding l(3) a_def [symmetric] by simp
  ultimately have "n < 65536 ^ length hs * 65536 ^ skipped * 65536 ^ length ls" "0 \<le> n" by linarith+
  then show ?thesis by (simp add: len power_add)
qed

lemma ip6_parts_range:
  assumes "ip6_parts_int parts = Some n"
  shows "0 \<le> n \<and> n < 2 ^ 128"
proof -
  from assms obtain high skipped low where "hextets_int high skipped low = Some n" "length high + skipped + length low \<le> 8"
    unfolding ip6_parts_int_def Let_def
    by (auto split: list.splits if_splits)
  then show ?thesis
    using hextets_int_range [of high skipped low n] power_increasing [of "length high + skipped + length low" 8 "65536 :: int"] by simp
qed

lemma address_wf: "parse_version v s = Some a \<Longrightarrow> wf_address a \<and> ia_version a = v"
proof (cases v)
  case IPv4
  assume "parse_version v s = Some a"
  with IPv4 show ?thesis using ip4_chars(2,3) [of s "ia_int a"] by (auto simp: IPv4Address_def wf_address_def split: if_splits)
next
  case IPv6
  assume "parse_version v s = Some a"
  with IPv6 obtain addr zone where z: "CHR ''/'' \<notin> set s" "split_scope_id s = Some (addr, zone)" "ip6_int_from_string addr = Some (ia_int a)"
    "a = \<lparr>ia_version = IPv6, ia_int = ia_int a, ia_zone = zone\<rparr>"
    by (auto simp: IPv6Address_def split: if_splits option.splits)
  have "0 \<le> ia_int a \<and> ia_int a < 2 ^ 128"
    using z(3) ip6_parts_range by (auto simp: ip6_int_from_string_def Let_def split: if_splits option.splits)
  moreover have "wf_zone IPv6 zone"
  proof (cases zone)
    case (Some t)
    with z(2) have t: "t = tl (dropWhile (\<lambda>c. c \<noteq> CHR ''%'') s)" "t \<noteq> []" "CHR ''%'' \<notin> set t"
      by (simp_all add: split_scope_id_def Let_def split: if_splits)
    have "CHR ''/'' \<notin> set t" using z(1) set_dropWhileD list.set_sel(2) t(1,2) by (metis tl_Nil)
    with Some t show ?thesis by simp
  qed simp
  ultimately show ?thesis using IPv6 z(4) by (metis ip_addr.simps(1-3) max_prefixlen.simps(2) wf_address_def)
qed

lemma ip_address_wf: "ip_address s = Some a \<Longrightarrow> wf_address a"
  using address_wf [of IPv4 s] address_wf [of IPv6 s] by (auto simp: ip_address_def split: option.splits)

lemma mapped_wf: "ipv4_mapped a = Some b \<Longrightarrow> wf_address b"
  by (auto simp: ipv4_mapped_def wf_address_def split: if_splits)

lemma prefix_le:
  "prefix_from_prefix_string v s = Some p \<Longrightarrow> p \<le> max_prefixlen v"
  "prefix_from_ip_string s = Some p \<Longrightarrow> p \<le> 32"
  by (auto simp: prefix_from_prefix_string_def prefix_from_ip_string_def prefix_from_ip_int_def Let_def split: if_splits option.splits)

lemma netmask_le: "make_netmask v s = Some p \<Longrightarrow> p \<le> max_prefixlen v"
  by (cases v) (auto simp: prefix_le split: option.splits dest: prefix_le)

lemma IPNetwork_wf:
  assumes "IPNetwork v s strict = Inr n"
  shows "wf_network n \<and> in_version n = v"
proof -
  from assms obtain a p where ap: "parse_version v (hd (py_split CHR ''/'' s)) = Some a" "p \<le> max_prefixlen v" "in_prefixlen n = p"
    "in_version n = v" "in_int n = ia_int a AND int_from_prefix v p" "in_zone n = None \<or> in_zone n = ia_zone a"
    by (auto simp: IPNetwork_def Let_def split: if_splits option.splits dest: netmask_le)
  note a = address_wf [OF ap(1)]
  define k :: int where "k = 2 ^ (max_prefixlen v - p)"
  have m: "in_int n = ia_int a - ia_int a mod k"
    using ap(5) and_int_from_prefix [of "ia_int a" v p] a by (auto simp: wf_address_def k_def)
  have "0 \<le> ia_int a" using a by (simp add: wf_address_def)
  then have "0 \<le> ia_int a mod k" "ia_int a mod k \<le> ia_int a" by (simp_all add: k_def zmod_le_nonneg_dividend)
  then have "0 \<le> in_int n" "in_int n \<le> ia_int a" "k dvd in_int n" by (simp_all add: m)
  then show ?thesis
    using ap a by (auto simp: wf_network_def wf_address_def net_size_def host_bits_def network_address_def k_def)
qed

lemma ip_network_wf: "ip_network s strict = Inr n \<Longrightarrow> wf_network n"
  using IPNetwork_wf [of IPv4 s strict] IPNetwork_wf [of IPv6 s strict]
  by (auto simp: ip_network_def split: sum.splits network_error.splits)

subsection \<open>Evaluation without bit operations\<close>

lemma int_from_prefix_code [code]: "int_from_prefix v p = 2 ^ max_prefixlen v - 2 ^ (max_prefixlen v - p)"
proof -
  have "int_from_prefix v p = ALL_ONES v AND int_from_prefix v p"
    by (intro bit_eqI) (auto simp: bit_simps bit_int_from_prefix ALL_ONES_mask)
  also have "\<dots> = ALL_ONES v - ALL_ONES v mod 2 ^ (max_prefixlen v - p)" by (rule and_int_from_prefix) (simp_all add: ALL_ONES_def)
  also have "ALL_ONES v mod 2 ^ (max_prefixlen v - p) = 2 ^ (max_prefixlen v - p) - 1"
    unfolding ALL_ONES_mask take_bit_eq_mod [symmetric] mask_eq_exp_minus_1 [symmetric]
    by (intro bit_eqI) (auto simp: bit_simps)
  finally show ?thesis by (simp add: ALL_ONES_def)
qed

lemma net_contains_code [code]:
  "net_contains n a =
     (in_version n = ia_version a \<and>
      (if 0 \<le> ia_int a \<and> ia_int a < 2 ^ max_prefixlen (in_version n)
       then ia_int a - ia_int a mod net_size n else ia_int a AND netmask n) = in_int n)"
  by (auto simp: net_contains_def netmask_def and_int_from_prefix net_size_def host_bits_def)

lemma broadcast_address_code [code]:
  "broadcast_address n =
     \<lparr>ia_version = in_version n,
      ia_int = (if in_int n mod net_size n = 0 then in_int n + net_size n - 1 else in_int n OR hostmask n), ia_zone = None\<rparr>"
  using int_or_mask [of "host_bits n" "in_int n"]
  by (auto simp: broadcast_address_def hostmask_mask mod_eq_0_iff_dvd net_size_def mask_eq_exp_minus_1)

lemma IPNetwork_code [code]:
  "IPNetwork v s strict =
     (let parts = py_split CHR ''/'' s in
      if length parts > 2 then Inl Malformed
      else case (parse_version v (hd parts), if length parts > 1 then make_netmask v (parts ! 1) else Some (max_prefixlen v)) of
        (Some a, Some p) \<Rightarrow>
          (let low = ia_int a mod 2 ^ (max_prefixlen v - p) in
           if low \<noteq> 0
           then if strict then Inl Host_bits
                else Inr \<lparr>in_version = v, in_int = ia_int a - low, in_zone = None, in_prefixlen = p\<rparr>
           else Inr \<lparr>in_version = v, in_int = ia_int a, in_zone = ia_zone a, in_prefixlen = p\<rparr>)
      | _ \<Rightarrow> Inl Malformed)"
proof -
  have "ia_int a AND int_from_prefix v p = ia_int a - ia_int a mod 2 ^ (max_prefixlen v - p)"
    if "parse_version v t = Some a" for t a p
    using address_wf [OF that] by (auto simp: wf_address_def and_int_from_prefix)
  then show ?thesis by (auto simp: IPNetwork_def Let_def split: option.split)
qed

end
