(* ===== verification/Ip_Collapse.thy ===== *)
theory Ip_Collapse
  imports Ip_Address "HOL-Library.Product_Lexorder"
begin

text \<open>
  \<open>ipaddress.collapse_addresses\<close> on the networks of one family: single addresses are sorted and summarized into
  networks, sibling networks are merged through a stack of networks and a dictionary keyed by supernet, and networks
  inside others are dropped. The order of networks that differ only in an IPv6 zone depends on the sorting algorithm, so
  the definitions follow the library for networks without zones. Proved of it: the networks returned are disjoint and
  cover exactly the addresses of the given ones.
\<close>

unbundle bit_operations_syntax

subsection \<open>Definitions\<close>

definition plain_net :: "ip_version \<Rightarrow> int \<Rightarrow> nat \<Rightarrow> ip_net" where
  "plain_net v n p = \<lparr>in_version = v, in_int = n, in_zone = None, in_prefixlen = p\<rparr>"

definition supernet :: "ip_net \<Rightarrow> ip_net" where
  "supernet n =
     (if in_prefixlen n = 0 then n
      else plain_net (in_version n) (in_int n AND push_bit 1 (netmask n)) (in_prefixlen n - 1))"

function bit_length :: "int \<Rightarrow> nat" where
  "bit_length n = (if n \<le> 0 then 0 else Suc (bit_length (n div 2)))"
  by auto
termination by (relation "measure nat") auto

declare bit_length.simps [simp del]

text \<open>\<open>_find_address_range\<close> on the numbers of sorted distinct addresses.\<close>

fun address_ranges :: "int \<Rightarrow> int \<Rightarrow> int list \<Rightarrow> (int \<times> int) list" where
  "address_ranges first final [] = [(first, final)]"
| "address_ranges first final (n # ns) =
     (if n \<noteq> final + 1 then (first, final) # address_ranges n n ns else address_ranges first n ns)"

definition find_address_range :: "int list \<Rightarrow> (int \<times> int) list" where
  "find_address_range ns = (case ns of [] \<Rightarrow> [] | n # ns \<Rightarrow> address_ranges n n ns)"

function summarize_address_range :: "ip_version \<Rightarrow> int \<Rightarrow> int \<Rightarrow> ip_net list" where
  "summarize_address_range v first final =
     (if final < first then []
      else let nbits = min (righthand_zero_bits (max_prefixlen v) first) (bit_length (final - first + 1) - 1);
               next = first + 2 ^ nbits in
           plain_net v first (max_prefixlen v - nbits) #
             (if next - 1 = ALL_ONES v then [] else summarize_address_range v next final))"
  by auto
termination by (relation "measure (\<lambda>(v, first, final). nat (final + 1 - first))") auto

declare summarize_address_range.simps [simp del]

lemma filter_shorter: "map_of kvs k = Some v \<Longrightarrow> length (filter (\<lambda>e. fst e \<noteq> k) kvs) < length kvs"
  by (rule length_filter_less [of "(k, v)"]) (auto dest: map_of_SomeD)

text \<open>The stack has its top first; the dictionary is in insertion order.\<close>

function merge_siblings :: "ip_net list \<Rightarrow> (ip_net \<times> ip_net) list \<Rightarrow> (ip_net \<times> ip_net) list" where
  "merge_siblings [] subnets = subnets"
| "merge_siblings (n # to_merge) subnets =
     (case map_of subnets (supernet n) of
        None \<Rightarrow> merge_siblings to_merge (subnets @ [(supernet n, n)])
      | Some existing \<Rightarrow>
          if existing = n then merge_siblings to_merge subnets
          else merge_siblings (supernet n # to_merge) (filter (\<lambda>e. fst e \<noteq> supernet n) subnets))"
  by pat_completeness auto
termination
  by (relation "measure (\<lambda>(to_merge, subnets). 2 * length to_merge + length subnets)") (auto dest: filter_shorter)

fun skip_subsumed :: "ip_net option \<Rightarrow> ip_net list \<Rightarrow> ip_net list" where
  "skip_subsumed final [] = []"
| "skip_subsumed final (n # ns) =
     (if (case final of None \<Rightarrow> False | Some l \<Rightarrow> ia_int (broadcast_address n) \<le> ia_int (broadcast_address l))
      then skip_subsumed final ns else n # skip_subsumed (Some n) ns)"

definition collapse_internal :: "ip_net list \<Rightarrow> ip_net list" where
  "collapse_internal nets = skip_subsumed None (sort_key (\<lambda>n. (in_int n, in_prefixlen n)) (map snd (merge_siblings (rev nets) [])))"

definition collapse_addresses :: "ip_version \<Rightarrow> ip_net list \<Rightarrow> ip_net list" where
  "collapse_addresses v nets =
     (let ips = sort (remdups (map in_int (filter (\<lambda>n. in_prefixlen n = max_prefixlen v) nets)));
          wider = filter (\<lambda>n. in_prefixlen n \<noteq> max_prefixlen v) nets in
      collapse_internal (concat (map (\<lambda>(first, final). summarize_address_range v first final) (find_address_range ips)) @ wider))"

subsection \<open>Blocks\<close>

definition block :: "ip_net \<Rightarrow> int set" where
  "block n = {in_int n ..< in_int n + net_size n}"

text \<open>A network of the family, without a zone.\<close>

definition plain :: "ip_version \<Rightarrow> ip_net \<Rightarrow> bool" where
  "plain v n = (wf_network n \<and> in_version n = v \<and> in_zone n = None)"

lemma card_block [simp]: "int (card (block n)) = net_size n"
  using net_size_pos [of n] by (simp add: block_def)

lemma finite_block [simp]: "finite (block n)"
  by (simp add: block_def)

lemma plain_net_sel [simp]:
  "in_version (plain_net v n p) = v" "in_int (plain_net v n p) = n" "in_zone (plain_net v n p) = None" "in_prefixlen (plain_net v n p) = p"
  by (simp_all add: plain_net_def)

lemma net_size_plain: "k \<le> max_prefixlen v \<Longrightarrow> net_size (plain_net v n (max_prefixlen v - k)) = 2 ^ k"
  by (simp add: net_size_def host_bits_def)

lemma plain_plain_net:
  assumes "k \<le> max_prefixlen v" "2 ^ k dvd n" "0 \<le> n" "n < 2 ^ max_prefixlen v"
  shows "plain v (plain_net v n (max_prefixlen v - k))"
  using assms by (simp add: plain_def wf_network_def wf_address_def network_address_def net_size_plain)

lemma plain_eqI: "plain v m \<Longrightarrow> plain v n \<Longrightarrow> in_int m = in_int n \<Longrightarrow> in_prefixlen m = in_prefixlen n \<Longrightarrow> m = n"
  by (simp add: plain_def)

text \<open>Sizes are powers of two, so of two sizes one divides the other; blocks that meet are nested.\<close>

lemma size_dvd: "plain v m \<Longrightarrow> plain v n \<Longrightarrow> net_size m \<le> net_size n \<Longrightarrow> net_size m dvd net_size n"
  by (simp add: net_size_def le_imp_power_dvd)

lemma size_le_iff: "plain v m \<Longrightarrow> plain v n \<Longrightarrow> net_size m \<le> net_size n \<longleftrightarrow> in_prefixlen n \<le> in_prefixlen m"
  by (auto simp: plain_def wf_network_def net_size_def host_bits_def)

lemma nested:
  assumes "plain v m" "plain v n" "net_size m \<le> net_size n" "block m \<inter> block n \<noteq> {}"
  shows "block m \<subseteq> block n"
proof -
  let ?s = "net_size n"
  have "net_size m dvd in_int n - in_int m"
    using assms(1,2) size_dvd [OF assms(1-3)] by (auto simp: plain_def wf_network_def intro: dvd_trans dvd_diff)
  moreover have "net_size m dvd in_int n + ?s - in_int m"
    using assms(1,2) size_dvd [OF assms(1-3)] by (auto simp: plain_def wf_network_def intro: dvd_trans dvd_diff dvd_add)
  moreover have "in_int n < in_int m + net_size m" "in_int m < in_int n + ?s" using assms(4) by (auto simp: block_def)
  ultimately have "in_int n \<le> in_int m" "in_int m + net_size m \<le> in_int n + ?s"
    using zdvd_imp_le [of "net_size m" "in_int n - in_int m"] zdvd_imp_le [of "net_size m" "in_int n + ?s - in_int m"] by force+
  then show ?thesis by (auto simp: block_def)
qed

subsection \<open>Merging siblings\<close>

lemma supernet_int:
  assumes "wf_network n" "in_prefixlen n \<noteq> 0"
  shows "in_int n AND push_bit 1 (netmask n) = in_int n - in_int n mod (2 * net_size n)"
proof -
  let ?w = "max_prefixlen (in_version n)" and ?p = "in_prefixlen n"
  have r: "0 \<le> in_int n" "in_int n < 2 ^ ?w" "?p \<le> ?w" using assms(1) by (simp_all add: wf_network_def wf_address_def network_address_def)
  have "in_int n AND push_bit 1 (netmask n) = in_int n AND int_from_prefix (in_version n) (?p - 1)"
  proof (intro bit_eqI)
    fix i
    have "bit (in_int n AND push_bit 1 (netmask n)) i \<longleftrightarrow> bit (in_int n) i \<and> 1 \<le> i \<and> bit (netmask n) (i - 1)"
      by (simp only: bit_and_iff bit_push_bit_iff_int)
    also have "\<dots> \<longleftrightarrow> bit (in_int n) i \<and> ?w - (?p - 1) \<le> i \<and> i < ?w"
      using assms(2) r(3) bit_below [OF r(1,2), of i] by (auto simp: netmask_def bit_int_from_prefix)
    finally show "bit (in_int n AND push_bit 1 (netmask n)) i \<longleftrightarrow> bit (in_int n AND int_from_prefix (in_version n) (?p - 1)) i"
      by (simp add: bit_and_iff bit_int_from_prefix)
  qed
  also have "\<dots> = in_int n - in_int n mod 2 ^ (?w - (?p - 1))" using r by (intro and_int_from_prefix) auto
  also have "(2 :: int) ^ (?w - (?p - 1)) = 2 * net_size n"
    using assms(2) r(3) by (simp add: net_size_def host_bits_def Suc_diff_le flip: power_Suc)
  finally show ?thesis .
qed

lemma supernet_size:
  assumes "plain v n" "in_prefixlen n \<noteq> 0"
  shows "net_size (supernet n) = 2 * net_size n" "in_int (supernet n) = in_int n - in_int n mod (2 * net_size n)"
proof -
  have "max_prefixlen v - (in_prefixlen n - 1) = Suc (max_prefixlen v - in_prefixlen n)"
    using assms by (auto simp: plain_def wf_network_def)
  then show "net_size (supernet n) = 2 * net_size n" using assms by (simp add: supernet_def net_size_def host_bits_def plain_def)
  show "in_int (supernet n) = in_int n - in_int n mod (2 * net_size n)"
    using supernet_int [of n] assms unfolding supernet_def plain_def by simp
qed

lemma plain_supernet [simp]:
  assumes "plain v n"
  shows "plain v (supernet n)"
proof (cases "in_prefixlen n = 0")
  case False
  note s = supernet_size [OF assms False]
  have "0 \<le> in_int n" "in_int n < 2 ^ max_prefixlen v" "in_prefixlen n \<le> max_prefixlen v"
    using assms by (auto simp: plain_def wf_network_def wf_address_def network_address_def)
  moreover have "0 \<le> in_int n - in_int n mod (2 * net_size n)" "in_int n - in_int n mod (2 * net_size n) \<le> in_int n"
    using net_size_pos [of n] \<open>0 \<le> in_int n\<close> by (simp_all add: zmod_le_nonneg_dividend)
  moreover have "in_version (supernet n) = v" "in_zone (supernet n) = None" "in_prefixlen (supernet n) \<le> in_prefixlen n"
    using assms False by (auto simp: supernet_def plain_def)
  ultimately show ?thesis
    by (simp add: plain_def wf_network_def wf_address_def network_address_def s dvd_minus_mod)
qed (simp add: supernet_def assms)

text \<open>A network that has the same supernet as another is its sibling.\<close>

lemma halves:
  assumes "plain v n" "in_prefixlen n \<noteq> 0"
  shows "in_int n = in_int (supernet n) \<or> in_int n = in_int (supernet n) + net_size n"
proof -
  let ?s = "net_size n" and ?r = "in_int n mod (2 * net_size n)"
  have "?s dvd ?r" using assms(1) by (simp add: plain_def wf_network_def dvd_mod)
  then obtain k where k: "?r = ?s * k" by (rule dvdE)
  have "0 \<le> ?s * k" "?s * k < ?s * 2"
    using net_size_pos [of n] pos_mod_bound [of "2 * ?s" "in_int n"] pos_mod_sign [of "2 * ?s" "in_int n"]
    unfolding k [symmetric] by linarith+
  then have "0 \<le> k" "k < 2" using net_size_pos [of n] by (simp_all add: zero_le_mult_iff)
  then have "k = 0 \<or> k = 1" by linarith
  then show ?thesis using k supernet_size(2) [OF assms] by auto
qed

lemma block_supernet:
  assumes "plain v n"
  shows "block n \<subseteq> block (supernet n)"
proof (cases "in_prefixlen n = 0")
  case False
  with halves [OF assms False] supernet_size(1) [OF assms False] show ?thesis by (auto simp: block_def)
qed (simp add: supernet_def)

lemma siblings:
  assumes "plain v m" "plain v n" "supernet m = supernet n" "m \<noteq> n"
  shows "block m \<union> block n = block (supernet n)"
proof (cases "in_prefixlen m = 0 \<or> in_prefixlen n = 0")
  case True
  then have "block m = block (supernet n) \<or> block n = block (supernet n)" using assms(3) by (metis supernet_def)
  with block_supernet [OF assms(1)] block_supernet [OF assms(2)] assms(3) show ?thesis by auto
next
  case False
  then have p: "in_prefixlen m \<noteq> 0" "in_prefixlen n \<noteq> 0" by auto
  have size: "net_size m = net_size n" using supernet_size(1) [OF assms(1) p(1)] supernet_size(1) [OF assms(2) p(2)] assms(3) by simp
  then have "in_prefixlen m = in_prefixlen n" using size_le_iff [OF assms(1,2)] size_le_iff [OF assms(2,1)] by auto
  then have "in_int m \<noteq> in_int n" using plain_eqI [OF assms(1,2)] assms(4) by blast
  with halves [OF assms(1) p(1)] halves [OF assms(2) p(2)] size supernet_size(1) [OF assms(2) p(2)] assms(3)
  show ?thesis unfolding block_def by (elim disjE) (auto simp del: atLeastLessThan_iff, auto)
qed

definition blocks :: "ip_net list \<Rightarrow> int set" where
  "blocks ns = (\<Union>n\<in>set ns. block n)"

lemma blocks_simps [simp]: "blocks [] = {}" "blocks (n # ns) = block n \<union> blocks ns" "blocks (ms @ ns) = blocks ms \<union> blocks ns"
  "blocks (rev ns) = blocks ns" "blocks (sort_key f ns) = blocks ns"
  by (auto simp: blocks_def)

lemma finite_blocks [simp]: "finite (blocks ns)"
  by (simp add: blocks_def)

definition keyed :: "ip_version \<Rightarrow> (ip_net \<times> ip_net) list \<Rightarrow> bool" where
  "keyed v subnets = (distinct (map fst subnets) \<and> (\<forall>(k, n)\<in>set subnets. plain v n \<and> k = supernet n))"

lemma blocks_without:
  assumes "keyed v subnets" "map_of subnets k = Some e"
  shows "blocks (map snd subnets) = block e \<union> blocks (map snd (filter (\<lambda>x. fst x \<noteq> k) subnets))"
proof -
  have e: "(k, e) \<in> set subnets" and d: "distinct (map fst subnets)" using assms by (auto simp: keyed_def dest: map_of_SomeD)
  have "snd x = e" if "x \<in> set subnets" "fst x = k" for x
  proof -
    have "map_of subnets (fst x) = Some (snd x)" using that(1) d by simp
    with assms(2) that(2) show ?thesis by simp
  qed
  then have "snd ` set subnets \<subseteq> insert e (snd ` {x \<in> set subnets. fst x \<noteq> k})" by blast
  moreover have "e \<in> snd ` set subnets" using e by force
  ultimately have "snd ` set subnets = insert e (snd ` {x \<in> set subnets. fst x \<noteq> k})" by blast
  then show ?thesis by (simp add: blocks_def)
qed

lemma merge_siblings_blocks:
  assumes "\<forall>n\<in>set ns. plain v n" "keyed v subnets"
  shows "keyed v (merge_siblings ns subnets) \<and> blocks (map snd (merge_siblings ns subnets)) = blocks ns \<union> blocks (map snd subnets)"
  using assms
proof (induction ns subnets rule: merge_siblings.induct)
  case (2 n ns subnets)
  show ?case
  proof (cases "map_of subnets (supernet n)")
    case None
    then have "keyed v (subnets @ [(supernet n, n)])" using 2(4,5) by (auto simp: keyed_def map_of_eq_None_iff)
    with 2(1) [OF None] 2(4) None show ?thesis by auto
  next
    case (Some e)
    then have e: "(supernet n, e) \<in> set subnets" by (rule map_of_SomeD)
    then have pe: "plain v e" "supernet e = supernet n" using 2(5) by (auto simp: keyed_def)
    show ?thesis
    proof (cases "e = n")
      case True
      then have "block n \<subseteq> blocks (map snd subnets)" using e by (force simp: blocks_def)
      with 2(2) [OF Some True] 2(4,5) Some True show ?thesis by auto
    next
      case False
      have "keyed v (filter (\<lambda>x. fst x \<noteq> supernet n) subnets)" using 2(5) by (auto simp: keyed_def distinct_map_filter)
      with 2(3) [OF Some False] 2(4) have "keyed v (merge_siblings (n # ns) subnets) \<and> blocks (map snd (merge_siblings (n # ns) subnets)) =
          block (supernet n) \<union> blocks ns \<union> blocks (map snd (filter (\<lambda>x. fst x \<noteq> supernet n) subnets))"
        using Some False by simp
      moreover have "block e \<union> block n = block (supernet n)" using siblings [OF pe(1) _ pe(2) False] 2(4) by simp
      ultimately show ?thesis using blocks_without [OF 2(5) Some] by auto
    qed
  qed
qed simp

subsection \<open>Dropping networks inside others\<close>

lemma skip_subsumed_card:
  assumes "\<forall>n\<in>set (l # ns). plain v n" "sorted (map (\<lambda>n. (in_int n, in_prefixlen n)) (l # ns))"
  shows "(\<Sum>n\<leftarrow>skip_subsumed (Some l) ns. num_addresses n) + net_size l = int (card (blocks (l # ns)))"
  using assms
proof (induction ns arbitrary: l)
  case (Cons n ns)
  have p: "plain v l" "plain v n" "wf_network l" "wf_network n" using Cons(2) by (auto simp: plain_def)
  have le: "in_int l \<le> in_int n" "in_int l = in_int n \<longrightarrow> in_prefixlen l \<le> in_prefixlen n" using Cons(3) by auto
  have ends: "ia_int (broadcast_address n) \<le> ia_int (broadcast_address l) \<longleftrightarrow> in_int n + net_size n \<le> in_int l + net_size l"
    using p(3,4) by (auto simp: broadcast_int)
  show ?case
  proof (cases "in_int n + net_size n \<le> in_int l + net_size l")
    case True
    then have "block n \<subseteq> block l" using le(1) by (auto simp: block_def)
    then have "blocks (l # n # ns) = blocks (l # ns)" by auto
    with Cons True show ?thesis by (auto simp: ends)
  next
    case False
    have apart: "in_int l + net_size l \<le> in_int n"
    proof (rule ccontr)
      assume a: "\<not> in_int l + net_size l \<le> in_int n"
      then have meet: "block l \<inter> block n \<noteq> {}" using le(1) net_size_pos [of n] by (auto simp: block_def)
      have "net_size l < net_size n"
      proof (rule ccontr)
        assume "\<not> net_size l < net_size n"
        with nested [OF p(2,1)] meet have "block n \<subseteq> block l" by (simp add: Int_commute)
        then show False using False net_size_pos [of n] by (auto simp: block_def)
      qed
      moreover with nested [OF p(1,2)] meet have "block l \<subseteq> block n" by simp
      ultimately have "in_int l = in_int n" using le(1) net_size_pos [of l] by (auto simp: block_def)
      with le(2) size_le_iff [OF p(2,1)] \<open>net_size l < net_size n\<close> show False by simp
    qed
    moreover have "in_int n \<le> in_int m" if "m \<in> set ns" for m using Cons(3) that by auto
    ultimately have "block l \<inter> blocks (n # ns) = {}" by (force simp: block_def blocks_def)
    then have "int (card (blocks (l # n # ns))) = net_size l + int (card (blocks (n # ns)))"
      by (simp add: card_Un_disjoint)
    moreover have "(\<Sum>m\<leftarrow>skip_subsumed (Some n) ns. num_addresses m) + net_size n = int (card (blocks (n # ns)))"
      using Cons by simp
    ultimately show ?thesis using False p(4) by (simp add: ends num_addresses_size)
  qed
qed simp

lemma collapse_internal_count:
  assumes "\<forall>n\<in>set nets. plain v n"
  shows "(\<Sum>n\<leftarrow>collapse_internal nets. num_addresses n) = int (card (blocks nets))"
proof -
  define ms where "ms = sort_key (\<lambda>n. (in_int n, in_prefixlen n)) (map snd (merge_siblings (rev nets) []))"
  have m: "keyed v (merge_siblings (rev nets) []) \<and> blocks (map snd (merge_siblings (rev nets) [])) = blocks nets"
    using merge_siblings_blocks [of "rev nets" v "[]"] assms by (simp add: keyed_def)
  then have ms: "\<forall>n\<in>set ms. plain v n" "blocks ms = blocks nets" "sorted (map (\<lambda>n. (in_int n, in_prefixlen n)) ms)"
    by (auto simp: ms_def keyed_def)
  show ?thesis
  proof (cases ms)
    case Nil
    with ms(2) show ?thesis by (simp add: collapse_internal_def flip: ms_def)
  next
    case (Cons l ns)
    then have "num_addresses l = net_size l" using ms(1) by (simp add: plain_def num_addresses_size)
    with Cons skip_subsumed_card [of l ns v] ms show ?thesis by (simp add: collapse_internal_def flip: ms_def)
  qed
qed

subsection \<open>Summarizing single addresses\<close>

lemma bit_length_pos: "0 < n \<Longrightarrow> 0 < bit_length n"
  by (simp add: bit_length.simps)

lemma bit_length_le: "0 < n \<Longrightarrow> 2 ^ (bit_length n - 1) \<le> n"
proof (induction n rule: bit_length.induct)
  case (1 n)
  show ?case
  proof (cases "n = 1")
    case True
    then show ?thesis by (simp add: bit_length.simps)
  next
    case False
    with 1 have "0 < n div 2" and h: "2 ^ (bit_length (n div 2) - 1) \<le> n div 2" by auto
    then have "2 ^ (bit_length n - 1) = 2 * (2 :: int) ^ (bit_length (n div 2) - 1)"
      using 1(2) bit_length_pos [of "n div 2"] by (simp add: bit_length.simps [of n] flip: power_Suc)
    with h show ?thesis by linarith
  qed
qed

lemma righthand_zero_bits_le: "righthand_zero_bits w n \<le> w"
  by (induction w arbitrary: n) auto

lemma righthand_zero_bits_dvd: "2 ^ righthand_zero_bits w n dvd n"
proof (induction w arbitrary: n)
  case (Suc w)
  show ?case
  proof (cases "n mod 2 = 0")
    case True
    then have "n = 2 * (n div 2)" by auto
    with Suc [of "n div 2"] True show ?thesis by (metis power_Suc mult_dvd_mono dvd_refl righthand_zero_bits.simps(2))
  qed simp
qed simp

lemma summarize_blocks:
  assumes "0 \<le> first" "final < 2 ^ max_prefixlen v"
  shows "(\<forall>n\<in>set (summarize_address_range v first final). plain v n) \<and> blocks (summarize_address_range v first final) = {first..final}"
  using assms
proof (induction v first final rule: summarize_address_range.induct)
  case (1 v first final)
  show ?case
  proof (cases "final < first")
    case True
    then show ?thesis by (simp add: summarize_address_range.simps)
  next
    case False
    define k where "k = min (righthand_zero_bits (max_prefixlen v) first) (bit_length (final - first + 1) - 1)"
    have kw: "k \<le> max_prefixlen v" using righthand_zero_bits_le [of "max_prefixlen v" first] by (simp add: k_def)
    have dvd: "2 ^ k dvd first" by (rule dvd_trans [OF _ righthand_zero_bits_dvd [of "max_prefixlen v"]]) (simp add: k_def le_imp_power_dvd)
    have "(2 :: int) ^ k \<le> 2 ^ (bit_length (final - first + 1) - 1)" by (simp add: k_def power_increasing)
    also have "\<dots> \<le> final - first + 1" using False by (intro bit_length_le) simp
    finally have fits: "first + 2 ^ k - 1 \<le> final" by simp
    let ?n = "plain_net v first (max_prefixlen v - k)"
    have u: "summarize_address_range v first final =
        ?n # (if first + 2 ^ k - 1 = ALL_ONES v then [] else summarize_address_range v (first + 2 ^ k) final)"
      using False by (subst summarize_address_range.simps) (simp only: if_False Let_def flip: k_def)
    have "(1 :: int) \<le> 2 ^ k" by simp
    with fits 1(3) have "first < 2 ^ max_prefixlen v" by linarith
    then have n: "plain v ?n" using 1(2) kw dvd by (intro plain_plain_net)
    have b: "block ?n = {first ..< first + 2 ^ k}" using kw by (simp add: block_def net_size_plain)
    show ?thesis
    proof (cases "first + 2 ^ k - 1 = ALL_ONES v")
      case True
      with fits 1(3) have "final = first + 2 ^ k - 1" by (simp add: ALL_ONES_def)
      then have "{first ..< first + 2 ^ k} = {first..final}" by auto
      with True n b show ?thesis unfolding u by (simp del: power_Suc)
    next
      case ne: False
      have "0 \<le> first + 2 ^ k" using 1(2) by simp
      with 1(1) [OF False k_def refl ne] 1(3) have
        "(\<forall>n\<in>set (summarize_address_range v (first + 2 ^ k) final). plain v n) \<and> blocks (summarize_address_range v (first + 2 ^ k) final) = {first + 2 ^ k..final}"
        by simp
      moreover have "{first ..< first + 2 ^ k} \<union> {first + 2 ^ k..final} = {first..final}"
      proof -
        have "{a ..< m} \<union> {m..c} = {a..c}" if "a \<le> m" "m \<le> c + 1" for a m c :: int using that by auto
        from this [of first "first + 2 ^ k" final] fits show ?thesis by simp
      qed
      ultimately show ?thesis using ne n b unfolding u by simp
    qed
  qed
qed

lemma address_ranges_cover:
  assumes "first \<le> last'" "sorted (last' # ns)" "distinct (last' # ns)"
  shows "(\<Union>(a, b)\<in>set (address_ranges first last' ns). {a..b}) = {first..last'} \<union> set ns \<and>
    (\<forall>(a, b)\<in>set (address_ranges first last' ns). a \<in> insert first (set ns) \<and> b \<in> insert last' (set ns))"
  using assms
proof (induction first last' ns rule: address_ranges.induct)
  case (2 first last' n ns)
  show ?case
  proof (cases "n = last' + 1")
    case True
    then have "{first..n} = insert n {first..last'}" using 2(3) by auto
    moreover have "first \<le> n" using True 2(3) by simp
    ultimately show ?thesis using True 2(2,4,5) by auto
  next
    case False
    with 2(1) [OF False] 2(4,5) have
      "(\<Union>(a, b)\<in>set (address_ranges n n ns). {a..b}) = insert n (set ns) \<and>
       (\<forall>(a, b)\<in>set (address_ranges n n ns). a \<in> insert n (set ns) \<and> b \<in> insert n (set ns))" by simp
    with False show ?thesis by auto
  qed
qed simp

lemma find_address_range_cover:
  assumes "sorted ns" "distinct ns"
  shows "(\<Union>(a, b)\<in>set (find_address_range ns). {a..b}) = set ns" "(a, b) \<in> set (find_address_range ns) \<Longrightarrow> a \<in> set ns \<and> b \<in> set ns"
proof -
  have "(\<Union>(a, b)\<in>set (find_address_range ns). {a..b}) = set ns \<and> (\<forall>(a, b)\<in>set (find_address_range ns). a \<in> set ns \<and> b \<in> set ns)"
  proof (cases ns)
    case (Cons n ns')
    with address_ranges_cover [of n n ns'] assms show ?thesis by (simp add: find_address_range_def)
  qed (simp add: find_address_range_def)
  then show "(\<Union>(a, b)\<in>set (find_address_range ns). {a..b}) = set ns" "(a, b) \<in> set (find_address_range ns) \<Longrightarrow> a \<in> set ns \<and> b \<in> set ns"
    by auto
qed

text \<open>The collapsed networks count every address of the given ones once.\<close>

lemma collapse_addresses_count:
  assumes "\<forall>n\<in>set nets. plain v n"
  shows "(\<Sum>n\<leftarrow>collapse_addresses v nets. num_addresses n) = int (card (blocks nets))"
proof -
  define ips where "ips = sort (remdups (map in_int (filter (\<lambda>n. in_prefixlen n = max_prefixlen v) nets)))"
  define wider where "wider = filter (\<lambda>n. in_prefixlen n \<noteq> max_prefixlen v) nets"
  define small where "small = concat (map (\<lambda>(first, final). summarize_address_range v first final) (find_address_range ips))"
  have ips: "sorted ips" "distinct ips" "set ips = in_int ` {n \<in> set nets. in_prefixlen n = max_prefixlen v}" by (auto simp: ips_def)
  have range: "0 \<le> x \<and> x < 2 ^ max_prefixlen v" if "x \<in> set ips" for x
    using that assms by (auto simp: ips(3) plain_def wf_network_def wf_address_def network_address_def)
  have s: "(\<forall>n\<in>set (summarize_address_range v a b). plain v n) \<and> blocks (summarize_address_range v a b) = {a..b}"
    if "(a, b) \<in> set (find_address_range ips)" for a b
    using find_address_range_cover(2) [OF ips(1,2) that] range by (intro summarize_blocks) auto
  have "\<forall>n\<in>set (small @ wider). plain v n" using s assms by (fastforce simp: small_def wider_def)
  moreover have "blocks small = (\<Union>(a, b)\<in>set (find_address_range ips). {a..b})"
    using s by (fastforce simp: small_def blocks_def)
  then have "blocks small = set ips" by (simp only: find_address_range_cover(1) [OF ips(1,2)])
  moreover have "block n = {in_int n}" if "n \<in> set nets" "in_prefixlen n = max_prefixlen v" for n
    using that assms by (auto simp: block_def plain_def net_size_def host_bits_def)
  then have "set ips \<union> blocks wider = blocks nets" by (auto simp: ips(3) blocks_def wider_def)
  ultimately show ?thesis
    using collapse_internal_count [of "small @ wider" v] by (simp add: collapse_addresses_def small_def ips_def wider_def Let_def)
qed

end
