(* ===== verification/Agent_Scope.thy ===== *)
theory Agent_Scope
  imports Ip_Collapse Monitor_Db "HOL-Library.Product_Lexorder"
begin

text \<open>
  \<open>core/agent_scope.py\<close>: what an agent may reach. The scope is derived from the networks the agent
  reported and the administrator's grant; the evaluator judges an address, a hostname by its
  resolved addresses, or a whole prefix. A function that can raise returns an option, None standing for the
  exception. SHA-256 (as hexadecimal text) and \<open>str\<close> of a JSON value that is not a string are parameters.
\<close>

subsection \<open>Vocabulary\<close>

definition SCOPE_MODE_DIRECT_PRIVATE :: string where "SCOPE_MODE_DIRECT_PRIVATE = ''direct_private''"

definition REASON_IN_SCOPE :: string where "REASON_IN_SCOPE = ''in_scope''"
definition REASON_SPECIAL_USE :: string where "REASON_SPECIAL_USE = ''special_use''"
definition REASON_EXCLUDED :: string where "REASON_EXCLUDED = ''excluded_cidr''"
definition REASON_EMPTY_SCOPE :: string where "REASON_EMPTY_SCOPE = ''empty_scope''"
definition REASON_OUT_OF_SCOPE :: string where "REASON_OUT_OF_SCOPE = ''out_of_scope''"
definition REASON_INVALID_DESTINATION :: string where "REASON_INVALID_DESTINATION = ''invalid_destination''"
definition REASON_UNRESOLVED_HOSTNAME :: string where "REASON_UNRESOLVED_HOSTNAME = ''unresolved_hostname''"
definition REASON_PREFIX_TOO_WIDE :: string where "REASON_PREFIX_TOO_WIDE = ''prefix_too_wide''"

definition MIN_SCOPE_PREFIX_V4 :: nat where "MIN_SCOPE_PREFIX_V4 = 16"
definition MIN_SCOPE_PREFIX_V6 :: nat where "MIN_SCOPE_PREFIX_V6 = 48"

definition network_opt :: "string \<Rightarrow> bool \<Rightarrow> ip_net option" where
  "network_opt t strict = (case ip_network t strict of Inr n \<Rightarrow> Some n | Inl _ \<Rightarrow> None)"

text \<open>Networks written as literals.\<close>

definition networks_of :: "string list \<Rightarrow> ip_net list" where
  "networks_of ts = List.map_filter (\<lambda>t. network_opt t True) ts"

definition RFC1918_NETWORKS :: "ip_net list" where
  "RFC1918_NETWORKS = networks_of [''10.0.0.0/8'', ''172.16.0.0/12'', ''192.168.0.0/16'']"

definition ULA_V6 :: "ip_net list" where
  "ULA_V6 = networks_of [''fc00::/7'']"

definition BLOCKED_NETWORKS :: "ip_net list" where
  "BLOCKED_NETWORKS = networks_of
     [''0.0.0.0/8'', ''127.0.0.0/8'', ''169.254.0.0/16'', ''224.0.0.0/4'', ''240.0.0.0/4'',
      ''::/128'', ''::1/128'', ''fe80::/10'', ''ff00::/8'', ''fd00:ec2::254/128'']"

definition EXCLUDED_INTERFACE_FLAGS :: "string list" where
  "EXCLUDED_INTERFACE_FLAGS = [''loopback'', ''pointtopoint'']"

record effective_scope =
  es_networks :: "string list"
  es_direct_networks :: "string list"
  es_excluded_networks :: "string list"
  es_hostnames :: "string list"
  es_version :: string

record decision =
  de_allowed :: bool
  de_reason :: string
  de_address :: "string option"

definition Decision :: "bool \<Rightarrow> string \<Rightarrow> string option \<Rightarrow> decision" where
  "Decision ok reason addr = \<lparr>de_allowed = ok, de_reason = reason, de_address = addr\<rparr>"

subsection \<open>Helpers\<close>

text \<open>\<open>_sorted_networks\<close>: the texts of a set of networks, ordered by family, address and length.\<close>

fun version_number :: "ip_version \<Rightarrow> nat" where
  "version_number IPv4 = 4"
| "version_number IPv6 = 6"

definition network_key :: "ip_net \<Rightarrow> nat \<times> int \<times> nat" where
  "network_key n = (version_number (in_version n), in_int n, in_prefixlen n)"

definition sorted_networks :: "ip_net list \<Rightarrow> string list" where
  "sorted_networks ns = map network_str (sort_key network_key (remdups ns))"

definition parse_address :: "string \<Rightarrow> ip_addr option" where
  "parse_address value =
     (case ip_address (py_strip value) of
        None \<Rightarrow> None
      | Some a \<Rightarrow> (case if ia_version a = IPv6 then ipv4_mapped a else None of Some m \<Rightarrow> Some m | None \<Rightarrow> Some a))"

definition parse_cidr :: "json \<Rightarrow> ip_net option" where
  "parse_cidr v = (case v of JStr s \<Rightarrow> network_opt (py_strip s) False | _ \<Rightarrow> None)"

definition parse_cidrs :: "json \<Rightarrow> ip_net list" where
  "parse_cidrs values = (case values of JList vs \<Rightarrow> List.map_filter parse_cidr vs | _ \<Rightarrow> [])"

definition parsed :: "string list \<Rightarrow> ip_net list option" where
  "parsed cidrs = those (map (\<lambda>c. network_opt c True) cidrs)"

definition overlaps :: "ip_net \<Rightarrow> ip_net \<Rightarrow> bool" where
  "overlaps l r = (in_version l = in_version r \<and> net_overlaps l r)"

definition contains_network :: "ip_net \<Rightarrow> ip_net \<Rightarrow> bool" where
  "contains_network outer inner = (in_version outer = in_version inner \<and> subnet_of inner outer)"

definition is_directed_broadcast :: "ip_net \<Rightarrow> ip_addr \<Rightarrow> bool" where
  "is_directed_broadcast n a =
     (if in_version n \<noteq> IPv4 \<or> in_prefixlen n > 30 then False
      else ia_version a = IPv4 \<and> a = broadcast_address n)"

definition is_private_network :: "ip_net \<Rightarrow> bool" where
  "is_private_network n =
     (case in_version n of
        IPv4 \<Rightarrow> list_ex (\<lambda>private. subnet_of n private) RFC1918_NETWORKS
      | IPv6 \<Rightarrow> list_ex (\<lambda>private. subnet_of n private) ULA_V6)"

text \<open>What a \<open>for\<close> loop over a JSON value iterates over; None when it is not iterable.\<close>

fun iter_json :: "json \<Rightarrow> json list option" where
  "iter_json (JList vs) = Some vs"
| "iter_json (JStr s) = Some (map (\<lambda>c. JStr [c]) s)"
| "iter_json (JObj d) = Some (map (\<lambda>(k, v). JStr k) d)"
| "iter_json _ = None"

definition iter_or_empty :: "json \<Rightarrow> json list option" where
  "iter_or_empty v = (if json_truthy v then iter_json v else Some [])"

definition str_of :: "(json \<Rightarrow> string) \<Rightarrow> json \<Rightarrow> string" where
  "str_of st v = (case v of JStr s \<Rightarrow> s | _ \<Rightarrow> st v)"

definition rstrip_dots :: "string \<Rightarrow> string" where
  "rstrip_dots s = rev (dropWhile (\<lambda>c. c = CHR ''.'') (rev s))"

definition canonical_hostname :: "string \<Rightarrow> string" where
  "canonical_hostname host = rstrip_dots (py_lower (py_strip host))"

subsection \<open>Validation of administrator input\<close>

datatype scope_error = Not_a_string | Not_a_cidr | Whole_space | Not_a_list | Empty_name | Too_long | Not_a_hostname | Is_an_address

definition normalize_scope_cidr :: "json \<Rightarrow> scope_error + string" where
  "normalize_scope_cidr v =
     (case v of
        JStr s \<Rightarrow> (case ip_network (py_strip s) False of
                     Inl _ \<Rightarrow> Inl Not_a_cidr
                   | Inr n \<Rightarrow> if in_prefixlen n = 0 then Inl Whole_space else Inr (network_str n))
      | _ \<Rightarrow> Inl Not_a_string)"

fun normalize_all :: "json list \<Rightarrow> scope_error + ip_net list" where
  "normalize_all [] = Inr []"
| "normalize_all (v # vs) =
     (case normalize_scope_cidr v of
        Inl e \<Rightarrow> Inl e
      | Inr t \<Rightarrow> (case ip_network t True of
                    Inl _ \<Rightarrow> Inl Not_a_cidr
                  | Inr n \<Rightarrow> (case normalize_all vs of Inl e \<Rightarrow> Inl e | Inr ns \<Rightarrow> Inr (n # ns))))"

definition normalize_scope_cidrs :: "json \<Rightarrow> scope_error + string list" where
  "normalize_scope_cidrs values =
     (case values of
        JList vs \<Rightarrow> (case normalize_all vs of Inl e \<Rightarrow> Inl e | Inr ns \<Rightarrow> Inr (sorted_networks ns))
      | _ \<Rightarrow> Inl Not_a_list)"

text \<open>\<open>_HOSTNAME_LABEL_RE.match\<close>: the final \<open>$\<close> also matches before a newline at the end.\<close>

definition label_edge :: "char \<Rightarrow> bool" where
  "label_edge c = (c \<in> set ''abcdefghijklmnopqrstuvwxyz0123456789'')"

definition label_text :: "string \<Rightarrow> bool" where
  "label_text s =
     (s \<noteq> [] \<and> length s \<le> 63 \<and> label_edge (hd s) \<and> label_edge (last s) \<and> list_all (\<lambda>c. label_edge c \<or> c = CHR ''-'') s)"

definition HOSTNAME_LABEL :: "string \<Rightarrow> bool" where
  "HOSTNAME_LABEL s = (label_text s \<or> s \<noteq> [] \<and> last s = CHR 0x0A \<and> label_text (butlast s))"

definition normalize_scope_hostname :: "json \<Rightarrow> scope_error + string" where
  "normalize_scope_hostname v =
     (case v of
        JStr s \<Rightarrow>
          (let name = canonical_hostname s;
               labels = (if py_startswith name ''*.'' then py_split CHR ''.'' (drop 2 name) else py_split CHR ''.'' name) in
           if name = [] then Inl Empty_name
           else if length name > 253 then Inl Too_long
           else if list_ex (\<lambda>l. \<not> HOSTNAME_LABEL l) labels then Inl Not_a_hostname
           else if ip_address name \<noteq> None then Inl Is_an_address
           else Inr name)
      | _ \<Rightarrow> Inl Not_a_string)"

subsection \<open>Deriving the scope\<close>

definition usable_interface :: "(json \<Rightarrow> string) \<Rightarrow> (string \<times> json) list \<Rightarrow> bool option" where
  "usable_interface st d =
     map_option (\<lambda>flags. \<not> list_ex (\<lambda>f. py_lower (str_of st f) \<in> set EXCLUDED_INTERFACE_FLAGS) flags)
       (iter_or_empty (json_get d ''flags'' JNull))"

fun direct_networks :: "(json \<Rightarrow> string) \<Rightarrow> json list \<Rightarrow> ip_net list option" where
  "direct_networks st [] = Some []"
| "direct_networks st (JObj d # facts) =
     (case usable_interface st d of
        None \<Rightarrow> None
      | Some usable \<Rightarrow>
          map_option ((@) (if usable then filter is_private_network (parse_cidrs (json_get d ''addrs'' JNull)) else []))
            (direct_networks st facts))"
| "direct_networks st (_ # facts) = direct_networks st facts"

definition scope_payload :: "string list \<Rightarrow> string list \<Rightarrow> string list \<Rightarrow> string list \<Rightarrow> string" where
  "scope_payload networks direct excluded hostnames =
     py_join ''|'' [''agent-scope/v1'', py_join '','' networks, py_join '','' direct, py_join '','' excluded, py_join '','' hostnames]"

definition scope_version :: "(string \<Rightarrow> string) \<Rightarrow> string list \<Rightarrow> string list \<Rightarrow> string list \<Rightarrow> string list \<Rightarrow> string" where
  "scope_version sha networks direct excluded hostnames = take 16 (sha (scope_payload networks direct excluded hostnames))"

text \<open>\<open>sorted\<close> on texts compares code points.\<close>

definition sorted_names :: "string list \<Rightarrow> string list" where
  "sorted_names ss = sort_key (\<lambda>s. map (of_char :: char \<Rightarrow> nat) s) (remdups ss)"

definition derive_scope ::
  "(json \<Rightarrow> string) \<Rightarrow> (string \<Rightarrow> string) \<Rightarrow> json list option \<Rightarrow> (string \<times> json) list option \<Rightarrow> effective_scope option" where
  "derive_scope st sha facts config =
     (let cfg = (case config of None \<Rightarrow> [] | Some c \<Rightarrow> c);
          mode = json_get cfg ''scope_mode'' (JStr SCOPE_MODE_DIRECT_PRIVATE);
          additional = filter (\<lambda>n. in_prefixlen n > 0) (parse_cidrs (json_get cfg ''additional_cidrs'' JNull));
          excluded = parse_cidrs (json_get cfg ''excluded_cidrs'' JNull) in
      case (if mode = JStr SCOPE_MODE_DIRECT_PRIVATE then direct_networks st (case facts of None \<Rightarrow> [] | Some f \<Rightarrow> f) else Some [],
            iter_or_empty (json_get cfg ''additional_hostnames'' JNull)) of
        (Some direct, Some hosts) \<Rightarrow>
          (let networks = sorted_networks (direct @ additional); direct_nets = sorted_networks direct;
               excluded_nets = sorted_networks excluded; hostnames = sorted_names (map (\<lambda>h. canonical_hostname (str_of st h)) hosts) in
           Some \<lparr>es_networks = networks, es_direct_networks = direct_nets, es_excluded_networks = excluded_nets,
                 es_hostnames = hostnames, es_version = scope_version sha networks direct_nets excluded_nets hostnames\<rparr>)
      | _ \<Rightarrow> None)"

subsection \<open>Judging\<close>

definition evaluate_address :: "effective_scope \<Rightarrow> ip_addr \<Rightarrow> decision option" where
  "evaluate_address scope a =
     (let text = Some (address_str a) in
      if list_ex (\<lambda>n. net_contains n a) BLOCKED_NETWORKS then Some (Decision False REASON_SPECIAL_USE text)
      else case parsed (es_networks scope) of
        None \<Rightarrow> None
      | Some networks \<Rightarrow>
          if list_ex (\<lambda>n. is_directed_broadcast n a) networks then Some (Decision False REASON_SPECIAL_USE text)
          else case parsed (es_excluded_networks scope) of
            None \<Rightarrow> None
          | Some excluded \<Rightarrow>
              if list_ex (\<lambda>n. net_contains n a) excluded then Some (Decision False REASON_EXCLUDED text)
              else if networks = [] then Some (Decision False REASON_EMPTY_SCOPE text)
              else if list_ex (\<lambda>n. net_contains n a) networks then Some (Decision True REASON_IN_SCOPE text)
              else Some (Decision False REASON_OUT_OF_SCOPE text))"

fun evaluate_resolved :: "effective_scope \<Rightarrow> string list \<Rightarrow> decision option" where
  "evaluate_resolved scope [] = Some (Decision True REASON_IN_SCOPE None)"
| "evaluate_resolved scope (c # cs) =
     (case parse_address c of
        None \<Rightarrow> Some (Decision False REASON_INVALID_DESTINATION (Some c))
      | Some a \<Rightarrow>
          (case evaluate_address scope a of
             None \<Rightarrow> None
           | Some d \<Rightarrow> if de_allowed d then evaluate_resolved scope cs else Some d))"

definition evaluate :: "effective_scope \<Rightarrow> string \<Rightarrow> string list option \<Rightarrow> decision option" where
  "evaluate scope destination resolved =
     (let host = py_strip destination in
      if host = [] then Some (Decision False REASON_INVALID_DESTINATION None)
      else case parse_address host of
        Some a \<Rightarrow> evaluate_address scope a
      | None \<Rightarrow>
          (case resolved of
             None \<Rightarrow> Some (Decision False REASON_UNRESOLVED_HOSTNAME None)
           | Some [] \<Rightarrow> Some (Decision False REASON_UNRESOLVED_HOSTNAME None)
           | Some cs \<Rightarrow> evaluate_resolved scope cs))"

definition network_in_scope :: "effective_scope \<Rightarrow> string \<Rightarrow> decision option" where
  "network_in_scope scope cidr =
     (case ip_network (py_strip cidr) False of
        Inl _ \<Rightarrow> Some (Decision False REASON_INVALID_DESTINATION None)
      | Inr n \<Rightarrow>
          (let text = Some (network_str n);
               minimum = (if in_version n = IPv4 then MIN_SCOPE_PREFIX_V4 else MIN_SCOPE_PREFIX_V6) in
           if in_prefixlen n < minimum then Some (Decision False REASON_PREFIX_TOO_WIDE text)
           else if list_ex (\<lambda>b. overlaps b n) BLOCKED_NETWORKS then Some (Decision False REASON_SPECIAL_USE text)
           else case parsed (es_excluded_networks scope) of
             None \<Rightarrow> None
           | Some excluded \<Rightarrow>
               if list_ex (\<lambda>x. overlaps x n) excluded then Some (Decision False REASON_EXCLUDED text)
               else case parsed (es_networks scope) of
                 None \<Rightarrow> None
               | Some networks \<Rightarrow>
                   if networks = [] then Some (Decision False REASON_EMPTY_SCOPE text)
                   else if list_ex (\<lambda>allowed. contains_network allowed n) networks then Some (Decision True REASON_IN_SCOPE text)
                   else Some (Decision False REASON_OUT_OF_SCOPE text)))"

definition address_count :: "string list \<Rightarrow> int" where
  "address_count cidrs =
     (let nets = parse_cidrs (JList (map JStr cidrs)) in
      (\<Sum>n\<leftarrow>collapse_addresses IPv4 (filter (\<lambda>n. in_version n = IPv4) nets). num_addresses n) +
      (\<Sum>n\<leftarrow>collapse_addresses IPv6 (filter (\<lambda>n. in_version n = IPv6) nets). num_addresses n))"

definition hostname_is_approved :: "effective_scope \<Rightarrow> string \<Rightarrow> bool" where
  "hostname_is_approved scope host =
     (let name = canonical_hostname host in
      list_ex (\<lambda>p. if py_startswith p ''*.'' then suffix (drop 1 p) name else name = p) (es_hostnames scope))"

subsection \<open>Reading a scope back\<close>

lemma network_opt_Some: "network_opt t strict = Some n \<longleftrightarrow> ip_network t strict = Inr n"
  by (simp add: network_opt_def split: sum.split)

lemma parse_cidr_Some: "parse_cidr v = Some n \<longleftrightarrow> (\<exists>s. v = JStr s \<and> ip_network (py_strip s) False = Inr n)"
  by (cases v) (simp_all add: parse_cidr_def network_opt_Some)

lemma parsed_sorted:
  assumes "\<forall>n\<in>set ns. wf_network n"
  shows "parsed (sorted_networks ns) = Some (sort_key network_key (remdups ns))"
  unfolding parsed_def sorted_networks_def map_map
  by (subst those_map [where g = "\<lambda>n. n"]) (use assms network_round_trip in \<open>auto simp: network_opt_Some\<close>)

lemma parse_cidrs_wf: "n \<in> set (parse_cidrs v) \<Longrightarrow> wf_network n"
  by (cases v) (auto simp: parse_cidrs_def parse_cidr_Some map_filter_iff dest: ip_network_wf)

definition reported :: "(json \<Rightarrow> string) \<Rightarrow> json list \<Rightarrow> ip_net \<Rightarrow> bool" where
  "reported st facts n =
     (\<exists>d. JObj d \<in> set facts \<and> usable_interface st d = Some True \<and> n \<in> set (parse_cidrs (json_get d ''addrs'' JNull)) \<and> is_private_network n)"

lemma direct_networks_iff: "direct_networks st facts = Some ns \<Longrightarrow> n \<in> set ns \<longleftrightarrow> reported st facts n"
proof (induction st facts arbitrary: ns rule: direct_networks.induct)
  case (2 st d facts)
  then show ?case by (auto simp: reported_def split: option.splits if_splits)
qed (simp_all add: reported_def)

definition granted :: "(string \<times> json) list \<Rightarrow> ip_net \<Rightarrow> bool" where
  "granted cfg n = (n \<in> set (parse_cidrs (json_get cfg ''additional_cidrs'' JNull)) \<and> in_prefixlen n > 0)"

definition excluded :: "(string \<times> json) list \<Rightarrow> ip_net \<Rightarrow> bool" where
  "excluded cfg n = (n \<in> set (parse_cidrs (json_get cfg ''excluded_cidrs'' JNull)))"

text \<open>What the two inputs permit, as sets of networks.\<close>

definition permitted_network :: "(json \<Rightarrow> string) \<Rightarrow> json list option \<Rightarrow> (string \<times> json) list option \<Rightarrow> ip_net \<Rightarrow> bool" where
  "permitted_network st facts config n =
     (let cfg = (case config of None \<Rightarrow> [] | Some c \<Rightarrow> c) in
      json_get cfg ''scope_mode'' (JStr SCOPE_MODE_DIRECT_PRIVATE) = JStr SCOPE_MODE_DIRECT_PRIVATE \<and>
        reported st (case facts of None \<Rightarrow> [] | Some f \<Rightarrow> f) n \<or> granted cfg n)"

definition excluded_network :: "(string \<times> json) list option \<Rightarrow> ip_net \<Rightarrow> bool" where
  "excluded_network config n = excluded (case config of None \<Rightarrow> [] | Some c \<Rightarrow> c) n"

lemma derive_scope_networks:
  assumes "derive_scope st sha facts config = Some sc"
  obtains networks excludes where "parsed (es_networks sc) = Some networks" "parsed (es_excluded_networks sc) = Some excludes"
    "\<forall>n. n \<in> set networks \<longleftrightarrow> permitted_network st facts config n" "\<forall>n. n \<in> set excludes \<longleftrightarrow> excluded_network config n"
    "\<forall>n\<in>set networks \<union> set excludes. wf_network n"
proof -
  let ?cfg = "case config of None \<Rightarrow> [] | Some c \<Rightarrow> c" and ?facts = "case facts of None \<Rightarrow> [] | Some f \<Rightarrow> f"
  let ?mode = "json_get ?cfg ''scope_mode'' (JStr SCOPE_MODE_DIRECT_PRIVATE) = JStr SCOPE_MODE_DIRECT_PRIVATE"
  let ?add = "filter (\<lambda>n. in_prefixlen n > 0) (parse_cidrs (json_get ?cfg ''additional_cidrs'' JNull))"
  let ?exc = "parse_cidrs (json_get ?cfg ''excluded_cidrs'' JNull)"
  from assms obtain direct where direct: "(if ?mode then direct_networks st ?facts else Some []) = Some direct"
    "es_networks sc = sorted_networks (direct @ ?add)" "es_excluded_networks sc = sorted_networks ?exc"
    by (auto simp: derive_scope_def Let_def split: option.splits)
  have mem: "n \<in> set direct \<longleftrightarrow> ?mode \<and> reported st ?facts n" for n
    using direct(1) direct_networks_iff [of st ?facts direct n] by (auto split: if_splits)
  have wf: "\<forall>n\<in>set (direct @ ?add). wf_network n" "\<forall>n\<in>set ?exc. wf_network n"
    using mem by (auto simp: reported_def dest: parse_cidrs_wf)
  show ?thesis
  proof (rule that)
    show "parsed (es_networks sc) = Some (sort_key network_key (remdups (direct @ ?add)))"
      "parsed (es_excluded_networks sc) = Some (sort_key network_key (remdups ?exc))"
      using parsed_sorted wf by (simp_all only: direct)
    show "\<forall>n. n \<in> set (sort_key network_key (remdups (direct @ ?add))) \<longleftrightarrow> permitted_network st facts config n"
      using mem by (auto simp: permitted_network_def Let_def granted_def)
    show "\<forall>n. n \<in> set (sort_key network_key (remdups ?exc)) \<longleftrightarrow> excluded_network config n"
      by (simp add: excluded_network_def excluded_def)
    show "\<forall>n\<in>set (sort_key network_key (remdups (direct @ ?add))) \<union> set (sort_key network_key (remdups ?exc)). wf_network n"
      using wf by auto
  qed
qed

lemma parse_address_wf: "parse_address s = Some a \<Longrightarrow> wf_address a"
  by (auto simp: parse_address_def split: option.splits if_splits dest: ip_address_wf mapped_wf)

lemma networks_of_wf: "n \<in> set (networks_of ts) \<Longrightarrow> wf_network n"
  by (auto simp: networks_of_def map_filter_iff network_opt_Some dest: ip_network_wf)

lemma blocked_wf: "n \<in> set BLOCKED_NETWORKS \<Longrightarrow> wf_network n"
  unfolding BLOCKED_NETWORKS_def by (rule networks_of_wf)

subsection \<open>The reference: which addresses may be reached\<close>

definition in_block :: "ip_net \<Rightarrow> ip_addr \<Rightarrow> bool" where
  "in_block n a = (in_version n = ia_version a \<and> in_int n \<le> ia_int a \<and> ia_int a < in_int n + net_size n)"

definition reachable :: "(json \<Rightarrow> string) \<Rightarrow> json list option \<Rightarrow> (string \<times> json) list option \<Rightarrow> ip_addr \<Rightarrow> bool" where
  "reachable st facts config a =
     ((\<exists>n. permitted_network st facts config n \<and> in_block n a) \<and>
      \<not> (\<exists>n. excluded_network config n \<and> in_block n a) \<and>
      \<not> (\<exists>n\<in>set BLOCKED_NETWORKS. in_block n a) \<and>
      \<not> (\<exists>n. permitted_network st facts config n \<and> in_version n = IPv4 \<and> in_prefixlen n \<le> 30 \<and>
            ia_version a = IPv4 \<and> ia_int a = in_int n + net_size n - 1))"

lemma contains_block: "wf_network n \<Longrightarrow> wf_address a \<Longrightarrow> net_contains n a \<longleftrightarrow> in_block n a"
  by (simp add: net_contains_iff in_block_def)

lemma broadcast_iff:
  assumes "wf_network n" "wf_address a"
  shows "is_directed_broadcast n a \<longleftrightarrow>
    in_version n = IPv4 \<and> in_prefixlen n \<le> 30 \<and> ia_version a = IPv4 \<and> ia_int a = in_int n + net_size n - 1"
proof -
  have "a = broadcast_address n \<longleftrightarrow> ia_int a = in_int n + net_size n - 1" if "ia_version a = IPv4" "in_version n = IPv4"
  proof -
    have "ia_zone a = None" using assms(2) that by (auto simp: wf_address_def elim: wf_zone.elims)
    then show ?thesis using that broadcast_int [OF assms(1)] by (auto intro: ip_addr.equality simp: broadcast_address_def)
  qed
  then show ?thesis by (auto simp: is_directed_broadcast_def)
qed

lemma evaluate_address_exact:
  assumes "derive_scope st sha facts config = Some sc" "wf_address a"
  obtains d where "evaluate_address sc a = Some d" "de_allowed d \<longleftrightarrow> reachable st facts config a"
proof -
  obtain networks excludes where p: "parsed (es_networks sc) = Some networks" "parsed (es_excluded_networks sc) = Some excludes"
    "\<forall>n. n \<in> set networks \<longleftrightarrow> permitted_network st facts config n" "\<forall>n. n \<in> set excludes \<longleftrightarrow> excluded_network config n"
    "\<forall>n\<in>set networks \<union> set excludes. wf_network n"
    by (rule derive_scope_networks [OF assms(1)])
  have ex: "list_ex (\<lambda>n. net_contains n a) BLOCKED_NETWORKS \<longleftrightarrow> (\<exists>n\<in>set BLOCKED_NETWORKS. in_block n a)"
    "list_ex (\<lambda>n. net_contains n a) networks \<longleftrightarrow> (\<exists>n. permitted_network st facts config n \<and> in_block n a)"
    "list_ex (\<lambda>n. net_contains n a) excludes \<longleftrightarrow> (\<exists>n. excluded_network config n \<and> in_block n a)"
    "list_ex (\<lambda>n. is_directed_broadcast n a) networks \<longleftrightarrow>
      (\<exists>n. permitted_network st facts config n \<and> in_version n = IPv4 \<and> in_prefixlen n \<le> 30 \<and>
           ia_version a = IPv4 \<and> ia_int a = in_int n + net_size n - 1)"
    using p(3-5) contains_block [OF _ assms(2)] blocked_wf broadcast_iff [OF _ assms(2)] by (force simp: list_ex_iff)+
  have "\<exists>d. evaluate_address sc a = Some d \<and> (de_allowed d \<longleftrightarrow> reachable st facts config a)"
    unfolding evaluate_address_def Let_def p option.case ex reachable_def Decision_def
    using ex(2) by (cases "networks = []") auto
  then show ?thesis using that by blast
qed

text \<open>The addresses that decide about a destination, None for an answer that is not an address.\<close>

definition judged :: "string \<Rightarrow> string list option \<Rightarrow> ip_addr option list" where
  "judged destination resolved =
     (let host = py_strip destination in
      if host = [] then []
      else case parse_address host of
        Some a \<Rightarrow> [Some a]
      | None \<Rightarrow> map parse_address (case resolved of None \<Rightarrow> [] | Some cs \<Rightarrow> cs))"

lemma evaluate_resolved_exact:
  assumes "derive_scope st sha facts config = Some sc"
  shows "\<exists>d. evaluate_resolved sc cs = Some d \<and>
    (de_allowed d \<longleftrightarrow> (\<forall>x\<in>set (map parse_address cs). \<exists>a. x = Some a \<and> reachable st facts config a))"
proof (induction cs)
  case (Cons c cs)
  show ?case
  proof (cases "parse_address c")
    case (Some a)
    obtain d where "evaluate_address sc a = Some d" "de_allowed d \<longleftrightarrow> reachable st facts config a"
      by (rule evaluate_address_exact [OF assms parse_address_wf [OF Some]])
    with Some Cons show ?thesis by auto
  qed (simp add: Decision_def)
qed (simp add: Decision_def)

lemma evaluate_decides:
  assumes "derive_scope st sha facts config = Some sc"
  shows "\<exists>d. evaluate sc destination resolved = Some d \<and>
    (de_allowed d \<longleftrightarrow> judged destination resolved \<noteq> [] \<and>
       (\<forall>x\<in>set (judged destination resolved). \<exists>a. x = Some a \<and> reachable st facts config a))"
proof (cases "parse_address (py_strip destination)")
  case (Some a)
  obtain d where "evaluate_address sc a = Some d" "de_allowed d \<longleftrightarrow> reachable st facts config a"
    by (rule evaluate_address_exact [OF assms parse_address_wf [OF Some]])
  with Some show ?thesis by (simp add: evaluate_def judged_def Let_def Decision_def)
next
  case None
  with evaluate_resolved_exact [OF assms, of "the resolved"] show ?thesis
    by (auto simp: evaluate_def judged_def Let_def Decision_def simp del: evaluate_resolved.simps split: option.split list.split)
qed

text \<open>
  \<^bold>\<open>The scope evaluator decides exactly what the report and the grant permit.\<close> For a scope derived from
  an agent's report and its grant, evaluating a destination never raises, and allows it exactly when the addresses
  that decide about it exist, are all addresses, and each lies in a private network of a usable interface or in a
  granted network, in no excluded and no special-use network, and is not the broadcast address of a permitted network.
\<close>

theorem evaluate_exact:
  assumes "derive_scope st sha facts config = Some sc"
  shows "\<exists>d. evaluate sc destination resolved = Some d \<and>
    (de_allowed d \<longleftrightarrow> judged destination resolved \<noteq> [] \<and>
       (\<forall>x\<in>set (judged destination resolved). \<exists>a. x = Some a \<and> reachable st facts config a))"
  by (rule evaluate_decides [OF assms])

subsection \<open>Prefixes\<close>

lemma overlaps_block:
  assumes "wf_network m" "wf_network n" "in_block m a" "in_block n a"
  shows "overlaps m n"
  using assms by (auto simp: overlaps_def net_overlaps_iff in_block_def)

lemma contained_block:
  assumes "wf_network m" "wf_network n" "contains_network m n" "in_block n a"
  shows "in_block m a"
  using assms subnet_of_int [of n m] by (auto simp: contains_network_def in_block_def)

lemma prefix_reachable:
  assumes "derive_scope st sha facts config = Some sc" "network_in_scope sc cidr = Some d" "de_allowed d"
  shows "\<exists>n. ip_network (py_strip cidr) False = Inr n \<and> (if in_version n = IPv4 then 16 else 48) \<le> in_prefixlen n \<and>
    (\<forall>a. wf_address a \<and> in_block n a \<longrightarrow>
       reachable st facts config a \<or> (\<exists>m. permitted_network st facts config m \<and> is_directed_broadcast m a))"
proof -
  obtain networks excludes where p: "parsed (es_networks sc) = Some networks" "parsed (es_excluded_networks sc) = Some excludes"
    "\<forall>n. n \<in> set networks \<longleftrightarrow> permitted_network st facts config n" "\<forall>n. n \<in> set excludes \<longleftrightarrow> excluded_network config n"
    "\<forall>n\<in>set networks \<union> set excludes. wf_network n"
    by (rule derive_scope_networks [OF assms(1)])
  from assms(2,3) obtain n where n: "ip_network (py_strip cidr) False = Inr n"
    by (auto simp: network_in_scope_def Decision_def split: sum.splits)
  note wf = ip_network_wf [OF n]
  have judge: "(if in_version n = IPv4 then 16 else 48) \<le> in_prefixlen n" "\<forall>b\<in>set BLOCKED_NETWORKS. \<not> overlaps b n"
    "\<forall>x\<in>set excludes. \<not> overlaps x n" "\<exists>m\<in>set networks. contains_network m n"
    using assms(2,3) by (auto simp: network_in_scope_def n p Let_def Decision_def MIN_SCOPE_PREFIX_V4_def MIN_SCOPE_PREFIX_V6_def
        list_ex_iff split: if_splits)
  have "reachable st facts config a \<or> (\<exists>m. permitted_network st facts config m \<and> is_directed_broadcast m a)"
    if a: "wf_address a" "in_block n a" for a
  proof -
    have "\<not> in_block b a" if "b \<in> set BLOCKED_NETWORKS \<or> b \<in> set excludes" for b
      using that overlaps_block [OF _ wf _ a(2), of b] judge(2,3) blocked_wf [of b] p(5) by blast
    moreover obtain m where "m \<in> set networks" "in_block m a" using judge(4) contained_block [OF _ wf _ a(2)] p(5) by blast
    ultimately show ?thesis using p(3-5) broadcast_iff [OF _ a(1)] unfolding reachable_def by (metis UnI1)
  qed
  with n judge(1) show ?thesis by blast
qed

text \<open>
  \<^bold>\<open>A prefix in scope holds only reachable addresses.\<close> A prefix the evaluator allows for dispatch is no wider than
  a /16 (IPv4) or a /48 (IPv6), and every address in it may be reached, except that it may hold the broadcast
  address of a permitted network, which the evaluation of the address alone refuses.
\<close>

theorem prefix_in_scope_sound:
  assumes "derive_scope st sha facts config = Some sc" "network_in_scope sc cidr = Some d" "de_allowed d"
  shows "\<exists>n. ip_network (py_strip cidr) False = Inr n \<and> (if in_version n = IPv4 then 16 else 48) \<le> in_prefixlen n \<and>
    (\<forall>a. wf_address a \<and> in_block n a \<longrightarrow>
       reachable st facts config a \<or> (\<exists>m. permitted_network st facts config m \<and> is_directed_broadcast m a))"
  by (rule prefix_reachable [OF assms])

subsection \<open>Counting addresses\<close>

text \<open>The addresses of the targets that are networks, by family and number.\<close>

definition target_addresses :: "string list \<Rightarrow> (ip_version \<times> int) set" where
  "target_addresses cidrs =
     {(v, x). \<exists>c\<in>set cidrs. \<exists>n. ip_network (py_strip c) False = Inr n \<and> in_version n = v \<and> in_int n \<le> x \<and> x < in_int n + net_size n}"

lemma target_networks:
  "n \<in> set (parse_cidrs (JList (map JStr cidrs))) \<longleftrightarrow> (\<exists>c\<in>set cidrs. ip_network (py_strip c) False = Inr n)"
  by (auto simp: parse_cidrs_def map_filter_iff parse_cidr_Some)

lemma address_count_card:
  assumes "\<forall>n\<in>set (parse_cidrs (JList (map JStr cidrs))). in_zone n = None"
  shows "address_count cidrs = int (card (target_addresses cidrs))"
proof -
  define nets where "nets = parse_cidrs (JList (map JStr cidrs))"
  define fam where "fam v = blocks (filter (\<lambda>n. in_version n = v) nets)" for v
  have "\<forall>n\<in>set (filter (\<lambda>n. in_version n = v) nets). plain v n" for v
    using assms parse_cidrs_wf by (auto simp: plain_def nets_def)
  then have count: "(\<Sum>n\<leftarrow>collapse_addresses v (filter (\<lambda>n. in_version n = v) nets). num_addresses n) = int (card (fam v))" for v
    unfolding fam_def by (rule collapse_addresses_count)
  have "target_addresses cidrs = Pair IPv4 ` fam IPv4 \<union> Pair IPv6 ` fam IPv6"
  proof (intro equalityI subsetI)
    fix a assume "a \<in> target_addresses cidrs"
    then show "a \<in> Pair IPv4 ` fam IPv4 \<union> Pair IPv6 ` fam IPv6"
      using target_networks [of _ cidrs] by (cases "fst a") (force simp: target_addresses_def fam_def nets_def blocks_def block_def)+
  qed (use target_networks [of _ cidrs] in \<open>fastforce simp: target_addresses_def fam_def nets_def blocks_def block_def\<close>)
  moreover have "card (Pair IPv4 ` fam IPv4 \<union> Pair IPv6 ` fam IPv6) = card (fam IPv4) + card (fam IPv6)"
    by (subst card_Un_disjoint) (auto simp: fam_def card_image inj_on_def)
  ultimately show ?thesis by (simp add: address_count_def Let_def count flip: nets_def)
qed

text \<open>
  \<^bold>\<open>Duplicates and overlaps of targets are counted once.\<close> For targets without IPv6 zones the address count is the
  number of distinct addresses that lie in a target that reads as a network, however the targets overlap, touch or repeat.
\<close>

theorem address_count_exact:
  assumes "\<forall>c\<in>set cidrs. \<forall>n. ip_network (py_strip c) False = Inr n \<longrightarrow> in_zone n = None"
  shows "address_count cidrs = int (card (target_addresses cidrs))"
  using assms target_networks [of _ cidrs] by (intro address_count_card) blast

subsection \<open>The version\<close>

lemma sorted_networks_cong:
  assumes "set ns = set ms" "\<forall>n\<in>set ns. in_zone n = None"
  shows "sorted_networks ns = sorted_networks ms"
proof -
  have inj: "inj_on network_key (set ns)"
    using assms(2) by (auto simp: inj_on_def network_key_def elim!: version_number.elims intro!: ip_net.equality)
  have dist: "distinct (map network_key (sort_key network_key (remdups xs)))" if "set xs = set ns" for xs
    using inj that by (simp add: distinct_map)
  have "sort_key network_key (remdups ns) = sort_key network_key (remdups ms)"
    by (rule map_sorted_distinct_set_unique [where f = network_key]) (use inj dist assms(1) in simp_all)
  then show ?thesis by (simp add: sorted_networks_def)
qed

lemma direct_networks_None: "direct_networks st facts = None \<longleftrightarrow> (\<exists>d. JObj d \<in> set facts \<and> usable_interface st d = None)"
  by (induction st facts rule: direct_networks.induct) (auto split: option.splits)

text \<open>
  \<^bold>\<open>The scope does not depend on the order of the report.\<close> Two reports with the same interfaces, in whatever
  order and with whatever repetitions, derive the same scope, version included, so a repeated report cancels no work
  (for addresses without zone identifiers; two networks that differ only in the zone sort as equals).
\<close>

theorem scope_order_independent:
  assumes "set facts = set facts'" "\<forall>n. permitted_network st (Some facts) config n \<longrightarrow> in_zone n = None"
  shows "derive_scope st sha (Some facts) config = derive_scope st sha (Some facts') config"
proof -
  define cfg where "cfg = (case config of None \<Rightarrow> [] | Some c \<Rightarrow> c)"
  define direct where "direct f = (if json_get cfg ''scope_mode'' (JStr SCOPE_MODE_DIRECT_PRIVATE) = JStr SCOPE_MODE_DIRECT_PRIVATE
      then direct_networks st f else Some [])" for f
  define add where "add = filter (\<lambda>n. in_prefixlen n > 0) (parse_cidrs (json_get cfg ''additional_cidrs'' JNull))"
  have same: "direct facts = None \<longleftrightarrow> direct facts' = None" using assms(1) by (simp add: direct_def direct_networks_None)
  show ?thesis
  proof (cases "direct facts")
    case None
    with same show ?thesis unfolding derive_scope_def Let_def cfg_def [symmetric] direct_def [symmetric] option.case by simp
  next
    case (Some ds)
    with same obtain ds' where ds': "direct facts' = Some ds'" by auto
    have mem: "n \<in> set ds \<longleftrightarrow> n \<in> set ds'" for n
      using Some ds' direct_networks_iff [of st facts ds n] direct_networks_iff [of st facts' ds' n] assms(1)
      by (auto simp: direct_def reported_def split: if_splits)
    have "permitted_network st (Some facts) config n" if "n \<in> set (ds @ add)" for n
      using that Some direct_networks_iff [of st facts ds n]
      by (auto simp: permitted_network_def Let_def cfg_def [symmetric] granted_def add_def direct_def split: if_splits)
    then have zones: "\<forall>n\<in>set (ds @ add). in_zone n = None" using assms(2) by blast
    have "sorted_networks (ds @ add) = sorted_networks (ds' @ add)" "sorted_networks ds = sorted_networks ds'"
      by (rule sorted_networks_cong; use mem zones in auto)+
    with Some ds' show ?thesis
      unfolding derive_scope_def Let_def cfg_def [symmetric] direct_def [symmetric] add_def [symmetric] option.case
      by (cases "iter_or_empty (json_get cfg ''additional_hostnames'' JNull)") simp_all
  qed
qed

lemma py_join_inj:
  assumes "py_join [c] ws = py_join [c] vs" "\<forall>w\<in>set ws \<union> set vs. w \<noteq> [] \<and> c \<notin> set w"
  shows "ws = vs"
proof -
  have nil: "py_join [c] xs = [] \<longleftrightarrow> xs = []" if "\<forall>w\<in>set xs. w \<noteq> []" for xs
    using that by (cases "([c], xs)" rule: py_join.cases) auto
  show ?thesis
  proof (cases "ws = [] \<or> vs = []")
    case True
    then show ?thesis using assms nil [of ws] nil [of vs] by auto
  next
    case False
    then have "py_split c (py_join [c] ws) = ws" "py_split c (py_join [c] vs) = vs" using assms(2) by (simp_all add: py_split_join)
    then show ?thesis using assms(1) by metis
  qed
qed

definition plain_name :: "string \<Rightarrow> bool" where
  "plain_name s = (s \<noteq> [] \<and> CHR '','' \<notin> set s \<and> CHR ''|'' \<notin> set s)"

lemma network_str_plain:
  assumes "wf_network n" "in_zone n = None"
  shows "plain_name (network_str n)"
proof -
  have "c = CHR '':'' \<or> c = CHR ''.'' \<or> is_hex c" if "c \<in> set (address_str (network_address n))" for c
  proof (cases "in_version n")
    case IPv4
    with that assms ip4_string_chars [of "in_int n" c] digit_hex show ?thesis
      by (auto simp: address_str_def wf_network_def wf_address_def)
  next
    case IPv6
    with that assms ip6_round_trip(2) [of "in_int n" c] show ?thesis by (auto simp: address_str_def wf_network_def wf_address_def)
  qed
  moreover have "\<forall>c\<in>set (nat_str (in_prefixlen n)). is_hex c" using digits_nat_str digit_hex by (auto simp: list_all_iff)
  moreover have "\<not> is_hex CHR '',''" "\<not> is_hex CHR ''|''" by (simp_all add: is_hex_def)
  ultimately show ?thesis by (auto simp: plain_name_def network_str_def)
qed

lemma plain_join: "\<forall>w\<in>set ws. plain_name w \<Longrightarrow> CHR ''|'' \<notin> set (py_join '','' ws)"
  using set_py_join [of "'',''" ws] by (auto simp: plain_name_def)

lemma payload_inj:
  assumes "scope_payload a b c d = scope_payload a' b' c' d'" "\<forall>w\<in>set (a @ b @ c @ d @ a' @ b' @ c' @ d'). plain_name w"
  shows "a = a' \<and> b = b' \<and> c = c' \<and> d = d'"
proof -
  have join: "CHR ''|'' \<notin> set (py_join '','' ws)" if "set ws \<subseteq> set (a @ b @ c @ d @ a' @ b' @ c' @ d')" for ws
    using plain_join assms(2) that by blast
  have split: "py_split CHR ''|'' (scope_payload w x y z) = [''agent-scope/v1'', py_join '','' w, py_join '','' x, py_join '','' y, py_join '','' z]"
    if "set (w @ x @ y @ z) \<subseteq> set (a @ b @ c @ d @ a' @ b' @ c' @ d')" for w x y z
    unfolding scope_payload_def using that join by (subst py_split_join) auto
  have "py_join '','' a = py_join '','' a' \<and> py_join '','' b = py_join '','' b' \<and> py_join '','' c = py_join '','' c' \<and> py_join '','' d = py_join '','' d'"
  proof -
    have "py_split CHR ''|'' (scope_payload a b c d) = [''agent-scope/v1'', py_join '','' a, py_join '','' b, py_join '','' c, py_join '','' d]"
      "py_split CHR ''|'' (scope_payload a' b' c' d') = [''agent-scope/v1'', py_join '','' a', py_join '','' b', py_join '','' c', py_join '','' d']"
      by (rule split; auto)+
    then show ?thesis using assms(1) by simp
  qed
  then show ?thesis using assms(2) by (auto intro!: py_join_inj [where c = "CHR '',''"] simp: plain_name_def)
qed

lemma derived_names_plain:
  assumes "derive_scope st sha facts config = Some sc"
    and "\<forall>n. permitted_network st facts config n \<or> excluded_network config n \<longrightarrow> in_zone n = None"
  shows "\<forall>w\<in>set (es_networks sc @ es_direct_networks sc @ es_excluded_networks sc). plain_name w"
    and "es_version sc = take 16 (sha (scope_payload (es_networks sc) (es_direct_networks sc) (es_excluded_networks sc) (es_hostnames sc)))"
proof -
  let ?cfg = "case config of None \<Rightarrow> [] | Some c \<Rightarrow> c" and ?facts = "case facts of None \<Rightarrow> [] | Some f \<Rightarrow> f"
  let ?mode = "json_get ?cfg ''scope_mode'' (JStr SCOPE_MODE_DIRECT_PRIVATE) = JStr SCOPE_MODE_DIRECT_PRIVATE"
  let ?add = "filter (\<lambda>n. in_prefixlen n > 0) (parse_cidrs (json_get ?cfg ''additional_cidrs'' JNull))"
  let ?exc = "parse_cidrs (json_get ?cfg ''excluded_cidrs'' JNull)"
  from assms(1) obtain direct where d: "(if ?mode then direct_networks st ?facts else Some []) = Some direct"
    "es_networks sc = sorted_networks (direct @ ?add)" "es_excluded_networks sc = sorted_networks ?exc"
    "es_direct_networks sc = sorted_networks direct"
    and v: "es_version sc = take 16 (sha (scope_payload (es_networks sc) (es_direct_networks sc) (es_excluded_networks sc) (es_hostnames sc)))"
    by (auto simp: derive_scope_def Let_def scope_version_def split: option.splits)
  show "es_version sc = take 16 (sha (scope_payload (es_networks sc) (es_direct_networks sc) (es_excluded_networks sc) (es_hostnames sc)))" by (rule v)
  have "permitted_network st facts config n \<or> excluded_network config n" if "n \<in> set (direct @ ?add @ ?exc)" for n
    using that d(1) direct_networks_iff [of st ?facts direct n]
    by (auto simp: permitted_network_def Let_def granted_def excluded_network_def excluded_def split: if_splits)
  moreover have "wf_network n" if "n \<in> set (direct @ ?add @ ?exc)" for n
    using that d(1) direct_networks_iff [of st ?facts direct n] by (auto simp: reported_def dest: parse_cidrs_wf split: if_splits)
  ultimately have "plain_name (network_str n)" if "n \<in> set (direct @ ?add @ ?exc)" for n
    using that assms(2) network_str_plain by blast
  then show "\<forall>w\<in>set (es_networks sc @ es_direct_networks sc @ es_excluded_networks sc). plain_name w"
    by (auto simp: d(2-4) sorted_networks_def)
qed

text \<open>
  \<^bold>\<open>A scope that moved moves its version.\<close> Two derived scopes with the same version have the same
  networks, directly connected networks, exclusions and hostnames, unless the truncated digest collides (for
  networks without zone identifiers and hostnames as the validation of the grant leaves them).
\<close>

theorem version_identifies_scope:
  assumes "derive_scope st sha facts config = Some sc" "derive_scope st' sha facts' config' = Some sc'" "es_version sc = es_version sc'"
    and "\<forall>n. permitted_network st facts config n \<or> excluded_network config n \<longrightarrow> in_zone n = None"
    and "\<forall>n. permitted_network st' facts' config' n \<or> excluded_network config' n \<longrightarrow> in_zone n = None"
    and "\<forall>h\<in>set (es_hostnames sc @ es_hostnames sc'). plain_name h"
  shows "sc = sc' \<or> (\<exists>p p'. p \<noteq> p' \<and> take 16 (sha p) = take 16 (sha p'))"
proof -
  note d = derived_names_plain [OF assms(1,4)] and d' = derived_names_plain [OF assms(2,5)]
  have "sc = sc'" if "scope_payload (es_networks sc) (es_direct_networks sc) (es_excluded_networks sc) (es_hostnames sc) =
      scope_payload (es_networks sc') (es_direct_networks sc') (es_excluded_networks sc') (es_hostnames sc')"
    using payload_inj [OF that] d(1) d'(1) assms(3,6) by (auto intro!: effective_scope.equality)
  then show ?thesis using d(2) d'(2) assms(3) by metis
qed

subsection \<open>Instances\<close>

definition demo_facts :: "json list" where
  "demo_facts =
     [JObj [(''name'', JStr ''eth0''), (''flags'', JList [JStr ''up'']), (''addrs'', JList [JStr ''10.0.0.5/24'', JStr ''8.8.8.8/24''])],
      JObj [(''name'', JStr ''lo''), (''flags'', JList [JStr ''Loopback'']), (''addrs'', JList [JStr ''10.9.0.1/24''])]]"

definition demo_config :: "(string \<times> json) list" where
  "demo_config = [(''additional_cidrs'', JList [JStr ''fd00:1::/48'']), (''excluded_cidrs'', JList [JStr ''10.0.0.64/28''])]"

definition demo_scope :: effective_scope where
  "demo_scope =
     \<lparr>es_networks = [''10.0.0.0/24'', ''fd00:1::/48''], es_direct_networks = [''10.0.0.0/24''],
      es_excluded_networks = [''10.0.0.64/28''], es_hostnames = [], es_version = ''agent-scope/v1|1''\<rparr>"

lemma demo_derived: "derive_scope (\<lambda>_. []) (\<lambda>s. s) (Some demo_facts) (Some demo_config) = Some demo_scope"
  by code_simp

lemma demo_zones:
  assumes n: "permitted_network (\<lambda>_. []) (Some demo_facts) (Some demo_config) n \<or> excluded_network (Some demo_config) n"
  shows "in_zone n = None"
proof -
  have "case (parsed (es_networks demo_scope), parsed (es_excluded_networks demo_scope)) of
      (Some ns, Some xs) \<Rightarrow> list_all (\<lambda>n. in_zone n = None) (ns @ xs) | _ \<Rightarrow> True" by code_simp
  moreover obtain ns xs where "parsed (es_networks demo_scope) = Some ns" "parsed (es_excluded_networks demo_scope) = Some xs"
    "\<forall>n. n \<in> set ns \<longleftrightarrow> permitted_network (\<lambda>_. []) (Some demo_facts) (Some demo_config) n"
    "\<forall>n. n \<in> set xs \<longleftrightarrow> excluded_network (Some demo_config) n"
    by (rule derive_scope_networks [OF demo_derived])
  ultimately show ?thesis using n by (auto simp: list_all_iff)
qed

theorem evaluate_exact_witness:
  "evaluate demo_scope ''10.0.0.7'' None = Some (Decision True REASON_IN_SCOPE (Some ''10.0.0.7'')) \<and>
   reachable (\<lambda>_. []) (Some demo_facts) (Some demo_config) \<lparr>ia_version = IPv4, ia_int = 167772167, ia_zone = None\<rparr> \<and>
   \<not> reachable (\<lambda>_. []) (Some demo_facts) (Some demo_config) \<lparr>ia_version = IPv4, ia_int = 2130706433, ia_zone = None\<rparr>"
proof -
  have "judged ''10.0.0.7'' None = [Some \<lparr>ia_version = IPv4, ia_int = 167772167, ia_zone = None\<rparr>]"
    "evaluate demo_scope ''10.0.0.7'' None = Some (Decision True REASON_IN_SCOPE (Some ''10.0.0.7''))"
    "judged ''::ffff:127.0.0.1'' None = [Some \<lparr>ia_version = IPv4, ia_int = 2130706433, ia_zone = None\<rparr>]"
    "evaluate demo_scope ''::ffff:127.0.0.1'' None = Some (Decision False REASON_SPECIAL_USE (Some ''127.0.0.1''))"
    by code_simp+
  with evaluate_exact [OF demo_derived, of "''10.0.0.7''" None] evaluate_exact [OF demo_derived, of "''::ffff:127.0.0.1''" None]
  show ?thesis by (simp add: Decision_def)
qed

theorem prefix_in_scope_sound_witness:
  "\<exists>n. ip_network (py_strip ''10.0.0.128/25'') False = Inr n \<and> 16 \<le> in_prefixlen n \<and>
     in_block n \<lparr>ia_version = IPv4, ia_int = 167772289, ia_zone = None\<rparr> \<and>
     reachable (\<lambda>_. []) (Some demo_facts) (Some demo_config) \<lparr>ia_version = IPv4, ia_int = 167772289, ia_zone = None\<rparr> \<and>
     in_block n \<lparr>ia_version = IPv4, ia_int = 167772415, ia_zone = None\<rparr> \<and>
     evaluate demo_scope ''10.0.0.255'' None = Some (Decision False REASON_SPECIAL_USE (Some ''10.0.0.255''))"
proof -
  let ?n = "\<lparr>in_version = IPv4, in_int = 167772288, in_zone = None, in_prefixlen = 25\<rparr>"
  let ?a = "\<lparr>ia_version = IPv4, ia_int = 167772289, ia_zone = None\<rparr>"
  have allowed: "network_in_scope demo_scope ''10.0.0.128/25'' = Some (Decision True REASON_IN_SCOPE (Some ''10.0.0.128/25''))"
    and n: "ip_network (py_strip ''10.0.0.128/25'') False = Inr ?n"
    and a: "wf_address ?a" "in_block ?n ?a" "in_block ?n \<lparr>ia_version = IPv4, ia_int = 167772415, ia_zone = None\<rparr>"
    and refused: "evaluate demo_scope ''10.0.0.255'' None = Some (Decision False REASON_SPECIAL_USE (Some ''10.0.0.255''))"
    and networks: "case parsed (es_networks demo_scope) of Some ns \<Rightarrow> \<not> list_ex (\<lambda>m. is_directed_broadcast m ?a) ns | None \<Rightarrow> True"
    by code_simp+
  obtain ns where "parsed (es_networks demo_scope) = Some ns" "\<forall>n. n \<in> set ns \<longleftrightarrow> permitted_network (\<lambda>_. []) (Some demo_facts) (Some demo_config) n"
    by (rule derive_scope_networks [OF demo_derived])
  with networks have "\<not> (\<exists>m. permitted_network (\<lambda>_. []) (Some demo_facts) (Some demo_config) m \<and> is_directed_broadcast m ?a)"
    by (auto simp: list_ex_iff)
  with prefix_in_scope_sound [OF demo_derived allowed] n a refused show ?thesis by (auto simp: Decision_def)
qed

theorem address_count_exact_witness:
  "address_count [''10.0.0.0/24'', ''10.0.0.128/25'', ''10.0.1.0/24'', ''10.0.2.7'', ''not a network'', ''fd00::/126''] = 517 \<and>
   card (target_addresses [''10.0.0.0/24'', ''10.0.0.128/25'', ''10.0.1.0/24'', ''10.0.2.7'', ''not a network'', ''fd00::/126'']) = 517"
proof -
  let ?ts = "[''10.0.0.0/24'', ''10.0.0.128/25'', ''10.0.1.0/24'', ''10.0.2.7'', ''not a network'', ''fd00::/126'']"
  have "list_all (\<lambda>c. case ip_network (py_strip c) False of Inl _ \<Rightarrow> True | Inr n \<Rightarrow> in_zone n = None) ?ts" by code_simp
  then have "\<forall>c\<in>set ?ts. \<forall>n. ip_network (py_strip c) False = Inr n \<longrightarrow> in_zone n = None"
    unfolding list_all_iff by (auto simp del: set_simps)
  note exact = address_count_exact [OF this]
  have "address_count ?ts = 517" by code_simp
  with exact show ?thesis by linarith
qed

theorem scope_order_independent_witness:
  "derive_scope (\<lambda>_. []) (\<lambda>s. s) (Some (rev demo_facts @ demo_facts)) (Some demo_config) = Some demo_scope"
  using scope_order_independent [of demo_facts "rev demo_facts @ demo_facts" "\<lambda>_. []" "Some demo_config" "\<lambda>s. s"] demo_zones
  by (simp add: demo_derived)

theorem version_identifies_scope_witness:
  "\<exists>sc. derive_scope (\<lambda>_. []) (\<lambda>s. s) (Some (rev demo_facts)) (Some demo_config) = Some sc \<and>
     (demo_scope = sc \<or> (\<exists>p p'. p \<noteq> p' \<and> take 16 p = take 16 (p' :: string)))"
proof -
  have d: "derive_scope (\<lambda>_. []) (\<lambda>s. s) (Some (rev demo_facts)) (Some demo_config) = Some demo_scope"
    by code_simp
  have zones: "\<forall>n. permitted_network (\<lambda>_. []) (Some (rev demo_facts)) (Some demo_config) n \<or> excluded_network (Some demo_config) n \<longrightarrow> in_zone n = None"
    using demo_zones by (simp add: permitted_network_def reported_def)
  have "\<forall>h\<in>set (es_hostnames demo_scope @ es_hostnames demo_scope). plain_name h" by (simp add: demo_scope_def)
  from version_identifies_scope [OF demo_derived d refl _ zones this] demo_zones d show ?thesis by blast
qed

end
