(* ===== verification/Agent_Capabilities.thy ===== *)
theory Agent_Capabilities
  imports Agent_Scope "HOL-Library.AList"
begin

text \<open>
  \<open>services/agent_capabilities.py\<close>: the registry of capabilities an agent can be granted, their default
  configurations and the normalizers a requested configuration passes before it is stored. A configuration is
  a dictionary in its insertion order; a normalizer returns an error or the configuration to persist.
\<close>

subsection \<open>Dictionaries\<close>

type_synonym config = "(string \<times> json) list"

text \<open>\<open>a | b\<close>: the values of b win, a key of a keeps its place.\<close>

definition dict_merge :: "('k \<times> 'v) list \<Rightarrow> ('k \<times> 'v) list \<Rightarrow> ('k \<times> 'v) list" where
  "dict_merge a b = fold (\<lambda>(k, v). AList.update k v) b a"

text \<open>A comprehension over a list whose body may raise.\<close>

fun traverse :: "('a \<Rightarrow> 'e + 'b) \<Rightarrow> 'a list \<Rightarrow> 'e + 'b list" where
  "traverse f [] = Inr []"
| "traverse f (x # xs) = bind_sum (f x) (\<lambda>y. bind_sum (traverse f xs) (\<lambda>ys. Inr (y # ys)))"

subsection \<open>Default configurations\<close>

text \<open>The registry keeps list-valued defaults as tuples.\<close>

datatype default_value = Plain json | Tuple "json list"

definition materialized :: "(string \<times> default_value) list \<Rightarrow> config" where
  "materialized defaults = map (\<lambda>(k, v). (k, case v of Plain j \<Rightarrow> j | Tuple vs \<Rightarrow> JList vs)) defaults"

definition HOST_TELEMETRY_DEFAULT_CONFIG :: "(string \<times> default_value) list" where
  "HOST_TELEMETRY_DEFAULT_CONFIG =
     [(''interval_s'', Plain (JInt 30)), (''include_filesystems'', Plain (JBool True)), (''include_disks'', Plain (JBool True)),
      (''include_network'', Plain (JBool True)), (''include_temperatures'', Plain (JBool True)),
      (''include_virtual'', Plain (JBool False)), (''include_docker'', Plain (JBool False))]"

definition REMOTE_PROBE_DEFAULT_CONFIG :: "(string \<times> default_value) list" where
  "REMOTE_PROBE_DEFAULT_CONFIG =
     [(''max_concurrent'', Plain (JInt 20)), (''scope_mode'', Plain (JStr SCOPE_MODE_DIRECT_PRIVATE)),
      (''excluded_cidrs'', Tuple []), (''additional_cidrs'', Tuple []), (''additional_hostnames'', Tuple [])]"

definition LOCAL_DISCOVERY_DEFAULT_CONFIG :: "(string \<times> default_value) list" where
  "LOCAL_DISCOVERY_DEFAULT_CONFIG =
     [(''scope_mode'', Plain (JStr SCOPE_MODE_DIRECT_PRIVATE)), (''excluded_cidrs'', Tuple []), (''additional_cidrs'', Tuple []),
      (''max_addresses_per_job'', Plain (JInt 1024)), (''max_concurrent_hosts'', Plain (JInt 64)),
      (''tcp_ports'', Tuple (map JInt [22, 53, 80, 443, 445, 3389, 8000, 8080, 8443])),
      (''host_timeout_ms'', Plain (JInt 1500)), (''job_timeout_seconds'', Plain (JInt 300)),
      (''auto_discovery_paused'', Plain (JBool False))]"

definition LOCAL_DISCOVERY_BOUNDS :: "(string \<times> int \<times> int) list" where
  "LOCAL_DISCOVERY_BOUNDS =
     [(''max_addresses_per_job'', 1, 4096), (''max_concurrent_hosts'', 1, 256), (''host_timeout_ms'', 100, 10000),
      (''job_timeout_seconds'', 30, 1800)]"

definition MAX_TCP_PORTS :: nat where "MAX_TCP_PORTS = 32"

subsection \<open>Normalizers\<close>

datatype grant_error =
    Unknown_settings "string list"
  | Bad_interval
  | Bad_include
  | Bad_max_concurrent
  | Bad_scope_mode
  | Bad_scope string scope_error
  | Hostnames_not_a_list
  | Bad_bound string
  | Bad_paused
  | Ports_not_a_list
  | Too_many_ports
  | Bad_port
  | Unknown_capability
  | Bad_grant
  | Bad_grant_config

fun is_bool :: "json \<Rightarrow> bool" where
  "is_bool (JBool b) = True"
| "is_bool _ = False"

text \<open>An integer that is no boolean, within bounds.\<close>

fun int_between :: "int \<Rightarrow> int \<Rightarrow> json \<Rightarrow> bool" where
  "int_between low high (JInt n) = (low \<le> n \<and> n \<le> high)"
| "int_between low high _ = False"

definition unknown_keys :: "(string \<times> default_value) list \<Rightarrow> config \<Rightarrow> string list" where
  "unknown_keys defaults config = filter (\<lambda>k. k \<notin> set (map fst defaults)) (map fst config)"

definition normalize_host_telemetry_config :: "config \<Rightarrow> grant_error + config" where
  "normalize_host_telemetry_config config =
     (let unknown = unknown_keys HOST_TELEMETRY_DEFAULT_CONFIG config;
          normalized = dict_merge (materialized HOST_TELEMETRY_DEFAULT_CONFIG) config in
      if unknown \<noteq> [] then Inl (Unknown_settings (sorted_names unknown))
      else if \<not> int_between 10 900 (json_get normalized ''interval_s'' JNull) then Inl Bad_interval
      else if list_ex (\<lambda>(k, v). k \<noteq> ''interval_s'' \<and> \<not> is_bool v) normalized then Inl Bad_include
      else Inr normalized)"

definition known_mode :: "json \<Rightarrow> bool" where
  "known_mode v = (v = JStr SCOPE_MODE_DIRECT_PRIVATE)"

definition normalize_cidrs_field :: "string \<Rightarrow> config \<Rightarrow> grant_error + config" where
  "normalize_cidrs_field field c =
     (case normalize_scope_cidrs (json_get c field JNull) of
        Inl e \<Rightarrow> Inl (Bad_scope field e)
      | Inr texts \<Rightarrow> Inr (AList.update field (JList (map JStr texts)) c))"

definition normalize_hostnames_field :: "config \<Rightarrow> grant_error + config" where
  "normalize_hostnames_field c =
     (case json_get c ''additional_hostnames'' JNull of
        JList names \<Rightarrow>
          (case traverse normalize_scope_hostname names of
             Inl e \<Rightarrow> Inl (Bad_scope ''additional_hostnames'' e)
           | Inr hs \<Rightarrow> Inr (AList.update ''additional_hostnames'' (JList (map JStr (sorted_names hs))) c))
      | _ \<Rightarrow> Inl Hostnames_not_a_list)"

definition normalize_remote_probe_config :: "config \<Rightarrow> grant_error + config" where
  "normalize_remote_probe_config config =
     (let unknown = unknown_keys REMOTE_PROBE_DEFAULT_CONFIG config;
          normalized = dict_merge (materialized REMOTE_PROBE_DEFAULT_CONFIG) config in
      if unknown \<noteq> [] then Inl (Unknown_settings (sorted_names unknown))
      else if \<not> int_between 1 100 (json_get normalized ''max_concurrent'' JNull) then Inl Bad_max_concurrent
      else if \<not> known_mode (json_get normalized ''scope_mode'' JNull) then Inl Bad_scope_mode
      else bind_sum (normalize_cidrs_field ''excluded_cidrs'' normalized) (\<lambda>c.
           bind_sum (normalize_cidrs_field ''additional_cidrs'' c) normalize_hostnames_field))"

fun first_bad_bound :: "(string \<times> int \<times> int) list \<Rightarrow> config \<Rightarrow> string option" where
  "first_bad_bound [] c = None"
| "first_bad_bound ((field, low, high) # bs) c =
     (if int_between low high (json_get c field JNull) then first_bad_bound bs c else Some field)"

fun port_numbers :: "json list \<Rightarrow> int list option" where
  "port_numbers [] = Some []"
| "port_numbers (v # vs) =
     (case v of
        JInt n \<Rightarrow> if 1 \<le> n \<and> n \<le> 65535 then map_option ((#) n) (port_numbers vs) else None
      | _ \<Rightarrow> None)"

definition normalize_ports_field :: "config \<Rightarrow> grant_error + config" where
  "normalize_ports_field c =
     (case json_get c ''tcp_ports'' JNull of
        JList vs \<Rightarrow>
          if length vs > MAX_TCP_PORTS then Inl Too_many_ports
          else (case port_numbers vs of
                  None \<Rightarrow> Inl Bad_port
                | Some ports \<Rightarrow> Inr (AList.update ''tcp_ports'' (JList (map JInt (sort (remdups ports)))) c))
      | _ \<Rightarrow> Inl Ports_not_a_list)"

definition normalize_local_discovery_config :: "config \<Rightarrow> grant_error + config" where
  "normalize_local_discovery_config config =
     (let unknown = unknown_keys LOCAL_DISCOVERY_DEFAULT_CONFIG config;
          normalized = dict_merge (materialized LOCAL_DISCOVERY_DEFAULT_CONFIG) config in
      if unknown \<noteq> [] then Inl (Unknown_settings (sorted_names unknown))
      else case first_bad_bound LOCAL_DISCOVERY_BOUNDS normalized of
        Some field \<Rightarrow> Inl (Bad_bound field)
      | None \<Rightarrow>
          if \<not> is_bool (json_get normalized ''auto_discovery_paused'' JNull) then Inl Bad_paused
          else bind_sum (normalize_ports_field normalized) (\<lambda>c.
               if \<not> known_mode (json_get c ''scope_mode'' JNull) then Inl Bad_scope_mode
               else bind_sum (normalize_cidrs_field ''excluded_cidrs'' c) (normalize_cidrs_field ''additional_cidrs'')))"

subsection \<open>The registry\<close>

record capability_definition =
  cd_name :: string
  cd_default_enabled :: bool
  cd_default_config :: "(string \<times> default_value) list"
  cd_normalize :: "config \<Rightarrow> grant_error + config"

definition CAPABILITY_DEFINITIONS :: "(string \<times> capability_definition) list" where
  "CAPABILITY_DEFINITIONS =
     [(''host_telemetry'', \<lparr>cd_name = ''host_telemetry'', cd_default_enabled = True,
         cd_default_config = HOST_TELEMETRY_DEFAULT_CONFIG, cd_normalize = normalize_host_telemetry_config\<rparr>),
      (''remote_probe'', \<lparr>cd_name = ''remote_probe'', cd_default_enabled = True,
         cd_default_config = REMOTE_PROBE_DEFAULT_CONFIG, cd_normalize = normalize_remote_probe_config\<rparr>),
      (''local_discovery'', \<lparr>cd_name = ''local_discovery'', cd_default_enabled = True,
         cd_default_config = LOCAL_DISCOVERY_DEFAULT_CONFIG, cd_normalize = normalize_local_discovery_config\<rparr>)]"

text \<open>A requested grant: a bare boolean or an object with \<open>enabled\<close> and \<open>config\<close>.\<close>

definition grant_parts :: "json \<Rightarrow> grant_error + bool \<times> config" where
  "grant_parts v =
     (case v of
        JBool b \<Rightarrow> Inr (b, [])
      | JObj d \<Rightarrow>
          (case json_get d ''enabled'' JNull of
             JBool enabled \<Rightarrow>
               (let config = json_get d ''config'' JNull in
                if json_truthy config then (case config of JObj c \<Rightarrow> Inr (enabled, c) | _ \<Rightarrow> Inl Bad_grant_config)
                else Inr (enabled, []))
           | _ \<Rightarrow> Inl Bad_grant)
      | _ \<Rightarrow> Inl Bad_grant)"

definition merged_config :: "capability_definition \<Rightarrow> config option \<Rightarrow> config \<Rightarrow> config" where
  "merged_config d current supplied =
     dict_merge (dict_merge (materialized (cd_default_config d)) (case current of None \<Rightarrow> [] | Some c \<Rightarrow> c)) supplied"

definition normalize_grant :: "string \<Rightarrow> json \<Rightarrow> config option \<Rightarrow> grant_error + bool \<times> config" where
  "normalize_grant capability v current =
     (case map_of CAPABILITY_DEFINITIONS capability of
        None \<Rightarrow> Inl Unknown_capability
      | Some d \<Rightarrow>
          bind_sum (grant_parts v) (\<lambda>(enabled, supplied).
          bind_sum (cd_normalize d (merged_config d current supplied)) (\<lambda>config. Inr (enabled, config))))"

definition default_config_for :: "string \<Rightarrow> config" where
  "default_config_for capability =
     (case map_of CAPABILITY_DEFINITIONS capability of None \<Rightarrow> [] | Some d \<Rightarrow> materialized (cd_default_config d))"

subsection \<open>Laws of the helpers\<close>

lemma dict_merge_Nil [simp]: "dict_merge a [] = a"
  by (simp add: dict_merge_def)

lemma dict_merge_Cons: "dict_merge a ((k, v) # b) = dict_merge (AList.update k v a) b"
  by (simp add: dict_merge_def)

lemma map_of_dict_merge: "distinct (map fst b) \<Longrightarrow> map_of (dict_merge a b) = map_of a ++ map_of b"
proof (induction b arbitrary: a)
  case (Cons p b)
  obtain k v where p: "p = (k, v)" by (cases p)
  from Cons have "map_of (dict_merge a (p # b)) = map_of (AList.update k v a) ++ map_of b" by (simp add: p dict_merge_Cons)
  also have "\<dots> = map_of a ++ map_of (p # b)"
  proof
    fix j show "(map_of (AList.update k v a) ++ map_of b) j = (map_of a ++ map_of (p # b)) j"
      using Cons.prems map_of_eq_None_iff [of b k] by (cases "j = k") (simp_all add: p update_conv' map_add_def split: option.split)
  qed
  finally show ?case .
qed simp

lemma keys_update: "k \<in> set (map fst a) \<Longrightarrow> map fst (AList.update k v a) = map fst a"
  by (induction a) auto

lemma keys_dict_merge: "set (map fst b) \<subseteq> set (map fst a) \<Longrightarrow> map fst (dict_merge a b) = map fst a"
proof (induction b arbitrary: a)
  case (Cons p b)
  obtain k v where p: "p = (k, v)" by (cases p)
  with Cons.prems have k: "k \<in> set (map fst a)" by simp
  have "set (map fst b) \<subseteq> set (map fst (AList.update k v a))" using Cons.prems by (simp only: keys_update [OF k]) simp
  from Cons.IH [OF this] show ?case by (simp only: p dict_merge_Cons keys_update [OF k])
qed simp

lemma dict_eqI:
  assumes "map fst xs = map fst ys" "distinct (map fst xs)" "map_of xs = map_of ys"
  shows "xs = ys"
proof -
  have "zs = map (\<lambda>k. (k, the (map_of zs k))) (map fst zs)" if "distinct (map fst zs)" for zs :: "('a \<times> 'b) list"
    using that by (auto simp: map_of_eq_Some_iff intro!: map_idI [symmetric])
  with assms show ?thesis by metis
qed

lemma dict_merge_same_keys:
  assumes "map fst a = map fst b" "distinct (map fst b)"
  shows "dict_merge a b = b"
proof (rule dict_eqI)
  have "set (map fst b) \<subseteq> set (map fst a)" by (simp only: assms(1))
  then show keys: "map fst (dict_merge a b) = map fst b" by (simp only: keys_dict_merge assms(1))
  from assms(2) show "distinct (map fst (dict_merge a b))" by (simp only: keys)
  have "fst ` set a = fst ` set b" using arg_cong [OF assms(1), of set] by simp
  then have "map_of a j = None" if "map_of b j = None" for j using that by (simp add: map_of_eq_None_iff)
  then show "map_of (dict_merge a b) = map_of b"
    using assms(2) by (auto simp: map_of_dict_merge map_add_def fun_eq_iff split: option.split)
qed

lemma json_get_update [simp]: "json_get (AList.update k v c) j d = (if j = k then v else json_get c j d)"
  by (simp add: json_get_def update_conv')

lemma traverse_Inr: "traverse f xs = Inr ys \<longleftrightarrow> list_all2 (\<lambda>x y. f x = Inr y) xs ys"
  by (induction xs arbitrary: ys) (auto simp: bind_sum_Inr list_all2_Cons1)

lemma port_numbers_Some: "port_numbers vs = Some ns \<longleftrightarrow> vs = map JInt ns \<and> (\<forall>n\<in>set ns. 1 \<le> n \<and> n \<le> 65535)"
  by (induction vs arbitrary: ns) (auto split: json.splits)

lemma first_bad_bound_None:
  "first_bad_bound bs c = None \<longleftrightarrow> (\<forall>(field, low, high)\<in>set bs. int_between low high (json_get c field JNull))"
  by (induction bs c rule: first_bad_bound.induct) auto

lemma int_between_iff: "int_between low high v \<longleftrightarrow> (\<exists>n. v = JInt n \<and> low \<le> n \<and> n \<le> high)"
  by (cases v) auto

subsection \<open>Stored scope entries\<close>

lemma py_split_chars: "x \<in> set s \<Longrightarrow> x = c \<or> (\<exists>w\<in>set (py_split c s). x \<in> set w)"
  by (induction s) (auto split: list.splits)

text \<open>The text of a network starts and ends with a character that is not stripped.\<close>

lemma network_str_strip:
  assumes "wf_network n"
  shows "py_strip (network_str n) = network_str n"
proof (rule py_strip_no_space, rule disjI2, rule conjI)
  let ?digits = "nat_str (in_prefixlen n)" and ?a = "address_str (network_address n)"
  have hex: "\<not> py_space c" if "is_hex c \<or> c = CHR '':'' \<or> c = CHR ''.''" for c
    using that by (auto simp: is_hex_def py_space_def)
  have "?digits \<noteq> []" by (rule nat_str_not_Nil)
  then have "last (network_str n) \<in> set ?digits" by (simp add: network_str_def)
  then show "\<not> py_space (last (network_str n))" using digits_nat_str digit_hex hex by (auto simp: list_all_iff)
  have "?a \<noteq> [] \<and> \<not> py_space (hd ?a)"
  proof (cases "in_version n")
    case IPv4
    with assms have n: "0 \<le> in_int n" "in_int n < 2 ^ 32" "in_zone n = None"
      by (auto simp: wf_network_def wf_address_def elim: wf_zone.elims)
    have "ip4_string (in_int n) \<noteq> []" by (simp add: ip4_string_def)
    with IPv4 n ip4_string_chars [of "in_int n" "hd (ip4_string (in_int n))"] digit_hex hex show ?thesis
      by (auto simp: address_str_def)
  next
    case IPv6
    with assms have n: "0 \<le> in_int n" "in_int n < 2 ^ 128" by (auto simp: wf_network_def wf_address_def)
    have "ip6_string (in_int n) \<noteq> []" using ip6_round_trip(3) [OF n] by auto
    with IPv6 ip6_round_trip(2) [OF n, of "hd (ip6_string (in_int n))"] hex show ?thesis
      by (auto simp: address_str_def split: option.split)
  qed
  then show "\<not> py_space (hd (network_str n))" by (simp add: network_str_def)
qed

definition scope_entry :: "json \<Rightarrow> ip_net \<Rightarrow> bool" where
  "scope_entry v n = (\<exists>s. v = JStr s \<and> ip_network (py_strip s) False = Inr n \<and> 0 < in_prefixlen n)"

lemma normalize_scope_cidr_entry: "normalize_scope_cidr v = Inr t \<longleftrightarrow> (\<exists>n. scope_entry v n \<and> t = network_str n)"
  by (cases v) (auto simp: normalize_scope_cidr_def scope_entry_def split: sum.splits)

lemma scope_entry_wf: "scope_entry v n \<Longrightarrow> wf_network n"
  by (auto simp: scope_entry_def dest: ip_network_wf)

lemma normalize_all_Inr: "normalize_all vs = Inr ns \<longleftrightarrow> list_all2 scope_entry vs ns"
proof (induction vs arbitrary: ns)
  case (Cons v vs)
  have fun_n: "m = n" if "scope_entry v n" "scope_entry v m" for m n using that by (auto simp: scope_entry_def)
  show ?case
  proof (cases "normalize_scope_cidr v")
    case (Inl e)
    then have "\<not> scope_entry v n" for n using normalize_scope_cidr_entry [of v "network_str n"] by auto
    with Inl show ?thesis by (auto simp: list_all2_Cons1)
  next
    case (Inr t)
    then obtain n where n: "scope_entry v n" "t = network_str n" by (auto simp: normalize_scope_cidr_entry)
    with Inr network_round_trip [OF scope_entry_wf [OF n(1)]] fun_n show ?thesis
      by (auto simp: list_all2_Cons1 Cons.IH [symmetric] split: sum.splits)
  qed
qed (auto split: sum.splits)

lemma normalize_scope_cidrs_Inr:
  "normalize_scope_cidrs v = Inr texts \<longleftrightarrow> (\<exists>vs ns. v = JList vs \<and> list_all2 scope_entry vs ns \<and> texts = sorted_networks ns)"
  by (cases v) (auto simp: normalize_scope_cidrs_def normalize_all_Inr [symmetric] split: sum.splits)

lemma scope_entry_unique: "scope_entry v a \<Longrightarrow> scope_entry v b \<Longrightarrow> a = b"
  by (auto simp: scope_entry_def)

lemma entries_iff: "list_all2 scope_entry vs ns \<Longrightarrow> n \<in> set ns \<longleftrightarrow> (\<exists>v\<in>set vs. scope_entry v n)"
  by (induction rule: list_all2_induct) (auto dest: scope_entry_unique)

lemma sorted_networks_again:
  assumes "list_all2 scope_entry vs ns"
  shows "normalize_scope_cidrs (JList (map JStr (sorted_networks ns))) = Inr (sorted_networks ns)"
proof -
  define ms where "ms = sort_key network_key (remdups ns)"
  have wf: "wf_network n \<and> 0 < in_prefixlen n" if "n \<in> set ns" for n
    using that scope_entry_wf by (auto simp: entries_iff [OF assms] scope_entry_def dest: ip_network_wf)
  have "list_all2 scope_entry (map JStr (map network_str ms)) ms"
    using wf network_round_trip network_str_strip
    by (auto simp: list.rel_map scope_entry_def ms_def intro!: list.rel_refl_strong)
  moreover have "sorted_networks ms = map network_str ms"
    by (simp add: sorted_networks_def ms_def distinct_remdups_id sort_key_id_if_sorted)
  moreover have "map network_str ms = sorted_networks ns" by (simp add: sorted_networks_def ms_def)
  ultimately show ?thesis by (auto simp: normalize_scope_cidrs_Inr)
qed

text \<open>What the evaluator reads from a stored list is what the entries of the request denote.\<close>

lemma stored_networks:
  assumes "list_all2 scope_entry vs ns"
  shows "n \<in> set (parse_cidrs (JList (map JStr (sorted_networks ns)))) \<longleftrightarrow> (\<exists>v\<in>set vs. scope_entry v n)"
    "n \<in> set (parse_cidrs (JList (map JStr (sorted_networks ns)))) \<Longrightarrow> 0 < in_prefixlen n"
proof -
  note mem = entries_iff [OF assms]
  have "parse_cidr (JStr (network_str n)) = Some n" if "n \<in> set ns" for n
    using that mem scope_entry_wf network_str_strip network_round_trip by (auto simp: parse_cidr_Some)
  then have "n \<in> set (parse_cidrs (JList (map JStr (sorted_networks ns)))) \<longleftrightarrow> n \<in> set ns" for n
    by (auto simp: parse_cidrs_def map_filter_iff sorted_networks_def)
  with mem show "n \<in> set (parse_cidrs (JList (map JStr (sorted_networks ns)))) \<longleftrightarrow> (\<exists>v\<in>set vs. scope_entry v n)"
    "n \<in> set (parse_cidrs (JList (map JStr (sorted_networks ns)))) \<Longrightarrow> 0 < in_prefixlen n" by (auto simp: scope_entry_def)
qed

lemma lower_rstrip: "py_lower (rstrip_dots (py_lower s)) = rstrip_dots (py_lower s)"
proof -
  have "\<forall>c\<in>set (rstrip_dots (py_lower s)). lower_char c = c"
    using set_dropWhileD by (fastforce simp: rstrip_dots_def py_lower_def)
  then show ?thesis by (simp add: py_lower_def map_idI)
qed

lemma label_text_chars: "HOSTNAME_LABEL l \<Longrightarrow> c \<in> set l \<Longrightarrow> c = CHR 0x0A \<or> \<not> py_space c"
proof -
  have edge: "label_edge c \<or> c = CHR ''-'' \<Longrightarrow> \<not> py_space c" for c by (auto simp: label_edge_def py_space_def)
  assume l: "HOSTNAME_LABEL l" "c \<in> set l"
  have "l = butlast l @ [last l]" using l(2) by (cases l rule: rev_cases) simp_all
  then have "c \<in> set (butlast l) \<or> c = last l" using l(2) by (metis in_set_butlastD rotate1.simps(2) set_ConsD set_rotate1)
  with l edge show ?thesis by (auto simp: HOSTNAME_LABEL_def label_text_def list_all_iff)
qed

lemma normalized_hostname_again:
  assumes "normalize_scope_hostname v = Inr h" "CHR 0x0A \<notin> set h"
  shows "normalize_scope_hostname (JStr h) = Inr h"
proof -
  from assms(1) obtain s where v: "v = JStr s" and h: "h = canonical_hostname s" "h \<noteq> []" "length h \<le> 253" "ip_address h = None"
    "\<forall>l\<in>set (py_split CHR ''.'' (if py_startswith h ''*.'' then drop 2 h else h)). HOSTNAME_LABEL l"
    by (cases v) (auto simp: normalize_scope_hostname_def Let_def list_ex_iff not_less split: if_splits)
  let ?rest = "if py_startswith h ''*.'' then drop 2 h else h"
  have rest: "\<not> py_space c" if "c \<in> set ?rest" for c
  proof -
    have "c = CHR ''.'' \<or> (\<exists>w\<in>set (py_split CHR ''.'' ?rest). c \<in> set w)" using py_split_chars [OF that] .
    moreover have "c \<noteq> CHR 0x0A" using that assms(2) by (auto split: if_splits dest: in_set_dropD)
    ultimately show ?thesis using h(5) label_text_chars by (auto simp: py_space_def)
  qed
  have "\<not> py_space c" if "c \<in> set h" for c
  proof (cases "py_startswith h ''*.''")
    case True
    then obtain t where "h = ''*.'' @ t" by (auto simp: py_startswith_def prefix_def)
    with that rest [of c] True show ?thesis by (auto simp: py_space_def)
  qed (use that rest [of c] in simp)
  then have "py_strip h = h" using h(2) by (intro py_strip_no_space) simp
  moreover have "rstrip_dots h = h" by (simp add: h(1) canonical_hostname_def rstrip_dots_def)
  moreover have "py_lower h = h" using lower_rstrip by (simp add: h(1) canonical_hostname_def)
  ultimately have "canonical_hostname h = h" by (simp add: canonical_hostname_def)
  with h show ?thesis by (auto simp: normalize_scope_hostname_def Let_def list_ex_iff split: if_splits)
qed

lemma sorted_names_again: "sorted_names (sorted_names hs) = sorted_names hs"
  by (simp add: sorted_names_def distinct_remdups_id sort_key_id_if_sorted)

lemma set_sorted_names [simp]: "set (sorted_names hs) = set hs"
  by (simp add: sorted_names_def)

subsection \<open>Normalized configurations\<close>

text \<open>What a stored configuration of each capability looks like.\<close>

definition canonical_cidrs :: "json \<Rightarrow> bool" where
  "canonical_cidrs v = (\<exists>vs ns. list_all2 scope_entry vs ns \<and> v = JList (map JStr (sorted_networks ns)))"

definition canonical_hostnames :: "json \<Rightarrow> bool" where
  "canonical_hostnames v = (\<exists>vs hs. list_all2 (\<lambda>v h. normalize_scope_hostname v = Inr h) vs hs \<and> v = JList (map JStr (sorted_names hs)))"

definition canonical_ports :: "json \<Rightarrow> bool" where
  "canonical_ports v =
     (\<exists>ports. v = JList (map JInt ports) \<and> sorted ports \<and> distinct ports \<and> length ports \<le> MAX_TCP_PORTS \<and>
        (\<forall>p\<in>set ports. 1 \<le> p \<and> p \<le> 65535))"

definition host_telemetry_ok :: "config \<Rightarrow> bool" where
  "host_telemetry_ok c =
     (map fst c = map fst HOST_TELEMETRY_DEFAULT_CONFIG \<and> int_between 10 900 (json_get c ''interval_s'' JNull) \<and>
      (\<forall>(k, v)\<in>set c. k \<noteq> ''interval_s'' \<longrightarrow> is_bool v))"

definition remote_probe_ok :: "config \<Rightarrow> bool" where
  "remote_probe_ok c =
     (map fst c = map fst REMOTE_PROBE_DEFAULT_CONFIG \<and> int_between 1 100 (json_get c ''max_concurrent'' JNull) \<and>
      known_mode (json_get c ''scope_mode'' JNull) \<and> canonical_cidrs (json_get c ''excluded_cidrs'' JNull) \<and>
      canonical_cidrs (json_get c ''additional_cidrs'' JNull) \<and> canonical_hostnames (json_get c ''additional_hostnames'' JNull))"

definition local_discovery_ok :: "config \<Rightarrow> bool" where
  "local_discovery_ok c =
     (map fst c = map fst LOCAL_DISCOVERY_DEFAULT_CONFIG \<and>
      (\<forall>(field, low, high)\<in>set LOCAL_DISCOVERY_BOUNDS. int_between low high (json_get c field JNull)) \<and>
      is_bool (json_get c ''auto_discovery_paused'' JNull) \<and> canonical_ports (json_get c ''tcp_ports'' JNull) \<and>
      known_mode (json_get c ''scope_mode'' JNull) \<and> canonical_cidrs (json_get c ''excluded_cidrs'' JNull) \<and>
      canonical_cidrs (json_get c ''additional_cidrs'' JNull))"

definition config_ok :: "string \<Rightarrow> config \<Rightarrow> bool" where
  "config_ok capability c =
     (capability = ''host_telemetry'' \<and> host_telemetry_ok c \<or> capability = ''remote_probe'' \<and> remote_probe_ok c \<or>
      capability = ''local_discovery'' \<and> local_discovery_ok c)"

lemma canonical_cidrsI: "list_all2 scope_entry vs ns \<Longrightarrow> canonical_cidrs (JList (map JStr (sorted_networks ns)))"
  by (auto simp: canonical_cidrs_def)

lemma canonical_hostnamesI:
  "list_all2 (\<lambda>v h. normalize_scope_hostname v = Inr h) vs hs \<Longrightarrow> canonical_hostnames (JList (map JStr (sorted_names hs)))"
  by (auto simp: canonical_hostnames_def)

lemmas defaults_defs = HOST_TELEMETRY_DEFAULT_CONFIG_def REMOTE_PROBE_DEFAULT_CONFIG_def LOCAL_DISCOVERY_DEFAULT_CONFIG_def

lemma keys_materialized: "map fst (materialized d) = map fst d"
  by (auto simp: materialized_def)

lemma keys_merged:
  assumes "unknown_keys d config = []"
  shows "map fst (dict_merge (materialized d) config) = map fst d"
proof -
  have "set (map fst config) \<subseteq> set (map fst (materialized d))"
    using assms by (auto simp: unknown_keys_def filter_empty_conv keys_materialized)
  from keys_dict_merge [OF this] show ?thesis by (simp only: keys_materialized)
qed

lemma normalize_cidrs_field_Inr:
  "normalize_cidrs_field f c = Inr c' \<longleftrightarrow>
    (\<exists>vs ns. json_get c f JNull = JList vs \<and> list_all2 scope_entry vs ns \<and> c' = AList.update f (JList (map JStr (sorted_networks ns))) c)"
  by (auto simp: normalize_cidrs_field_def normalize_scope_cidrs_Inr split: sum.splits)
     (metis Inr_inject normalize_scope_cidrs_Inr sum.distinct(1))+

lemma normalize_hostnames_field_Inr:
  "normalize_hostnames_field c = Inr c' \<longleftrightarrow>
    (\<exists>vs hs. json_get c ''additional_hostnames'' JNull = JList vs \<and> list_all2 (\<lambda>v h. normalize_scope_hostname v = Inr h) vs hs \<and>
       c' = AList.update ''additional_hostnames'' (JList (map JStr (sorted_names hs))) c)"
  by (auto simp: normalize_hostnames_field_def traverse_Inr [symmetric] split: sum.splits json.splits)

lemma normalize_ports_field_Inr:
  "normalize_ports_field c = Inr c' \<longleftrightarrow>
    (\<exists>ports. json_get c ''tcp_ports'' JNull = JList (map JInt ports) \<and> length ports \<le> MAX_TCP_PORTS \<and>
       (\<forall>p\<in>set ports. 1 \<le> p \<and> p \<le> 65535) \<and> c' = AList.update ''tcp_ports'' (JList (map JInt (sort (remdups ports)))) c)"
  by (cases "json_get c ''tcp_ports'' JNull")
     (auto simp: normalize_ports_field_def not_less port_numbers_Some inj_map_eq_map inj_def split: option.splits if_splits, (metis port_numbers_Some option.distinct(1))?)

lemma keys_update_in: "k \<in> fst ` set a \<Longrightarrow> map fst (AList.update k v a) = map fst a"
  by (simp add: keys_update)

lemma set_keys_update: "fst ` set (AList.update k v a) = insert k (fst ` set a)"
  by (simp add: dom_update)

lemma keys_set: "map fst a = map fst d \<Longrightarrow> fst ` set a = fst ` set d"
  by (metis list.set_map)

lemma normalized_ok:
  "normalize_host_telemetry_config config = Inr c \<Longrightarrow> host_telemetry_ok c"
  "normalize_remote_probe_config config = Inr c \<Longrightarrow> remote_probe_ok c"
  "normalize_local_discovery_config config = Inr c \<Longrightarrow> local_discovery_ok c"
proof -
  assume "normalize_host_telemetry_config config = Inr c"
  then show "host_telemetry_ok c"
    by (auto simp: normalize_host_telemetry_config_def host_telemetry_ok_def keys_merged Let_def list_ex_iff split: if_splits)
next
  let ?m = "dict_merge (materialized REMOTE_PROBE_DEFAULT_CONFIG) config"
  assume "normalize_remote_probe_config config = Inr c"
  then have u: "unknown_keys REMOTE_PROBE_DEFAULT_CONFIG config = []" and b: "int_between 1 100 (json_get ?m ''max_concurrent'' JNull)"
    "known_mode (json_get ?m ''scope_mode'' JNull)" and c: "bind_sum (normalize_cidrs_field ''excluded_cidrs'' ?m) (\<lambda>c.
      bind_sum (normalize_cidrs_field ''additional_cidrs'' c) normalize_hostnames_field) = Inr c"
    by (auto simp: normalize_remote_probe_config_def Let_def split: if_splits)
  have in_m: "k \<in> fst ` set ?m" if "k \<in> set [''excluded_cidrs'', ''additional_cidrs'', ''additional_hostnames'']" for k
    using that by (simp only: keys_set [OF keys_merged [OF u]]) (auto simp: REMOTE_PROBE_DEFAULT_CONFIG_def)
  from c b show "remote_probe_ok c"
    by (auto simp: bind_sum_Inr normalize_cidrs_field_Inr normalize_hostnames_field_Inr remote_probe_ok_def keys_update_in set_keys_update
        in_m keys_merged [OF u] intro: canonical_cidrsI canonical_hostnamesI)
next
  let ?m = "dict_merge (materialized LOCAL_DISCOVERY_DEFAULT_CONFIG) config"
  assume "normalize_local_discovery_config config = Inr c"
  then have u: "unknown_keys LOCAL_DISCOVERY_DEFAULT_CONFIG config = []" and b: "first_bad_bound LOCAL_DISCOVERY_BOUNDS ?m = None"
    "is_bool (json_get ?m ''auto_discovery_paused'' JNull)"
    and c: "bind_sum (normalize_ports_field ?m) (\<lambda>c. if \<not> known_mode (json_get c ''scope_mode'' JNull) then Inl Bad_scope_mode
        else bind_sum (normalize_cidrs_field ''excluded_cidrs'' c) (normalize_cidrs_field ''additional_cidrs'')) = Inr c"
    by (auto simp: normalize_local_discovery_config_def Let_def split: if_splits option.splits)
  have in_m: "k \<in> fst ` set ?m" if "k \<in> set [''excluded_cidrs'', ''additional_cidrs'', ''tcp_ports'']" for k
    using that by (simp only: keys_set [OF keys_merged [OF u]]) (auto simp: LOCAL_DISCOVERY_DEFAULT_CONFIG_def)
  have "canonical_ports (JList (map JInt (sort (remdups ports))))" if "length ports \<le> MAX_TCP_PORTS" "\<forall>p\<in>set ports. 1 \<le> p \<and> p \<le> 65535" for ports
    using that order_trans [OF length_remdups_leq [of ports]] by (auto simp: canonical_ports_def intro!: exI [of _ "sort (remdups ports)"])
  with c b show "local_discovery_ok c"
    by (auto simp: bind_sum_Inr normalize_cidrs_field_Inr normalize_ports_field_Inr local_discovery_ok_def first_bad_bound_None
        LOCAL_DISCOVERY_BOUNDS_def keys_update_in set_keys_update in_m keys_merged [OF u] intro: canonical_cidrsI split: if_splits)
qed

subsection \<open>A stored configuration is a fixed point\<close>

lemma update_same: "json_get c k JNull = v \<Longrightarrow> v \<noteq> JNull \<Longrightarrow> AList.update k v c = c"
  by (auto simp: json_get_def intro!: update_triv split: option.splits)

lemma cidrs_field_again: "canonical_cidrs (json_get c f JNull) \<Longrightarrow> normalize_cidrs_field f c = Inr c"
  using sorted_networks_again by (auto simp: canonical_cidrs_def normalize_cidrs_field_def update_same)

lemma ports_field_again: "canonical_ports (json_get c ''tcp_ports'' JNull) \<Longrightarrow> normalize_ports_field c = Inr c"
proof -
  assume "canonical_ports (json_get c ''tcp_ports'' JNull)"
  then obtain ports where ports: "json_get c ''tcp_ports'' JNull = JList (map JInt ports)" "sorted ports" "distinct ports"
    "length ports \<le> MAX_TCP_PORTS" "\<forall>p\<in>set ports. 1 \<le> p \<and> p \<le> 65535"
    by (auto simp: canonical_ports_def)
  then have "AList.update ''tcp_ports'' (JList (map JInt (sort (remdups ports)))) c = c"
    by (simp add: distinct_remdups_id sorted_sort_id update_same)
  with ports show ?thesis unfolding normalize_ports_field_Inr by (intro exI [of _ ports]) simp
qed

definition hostnames_clean :: "config \<Rightarrow> bool" where
  "hostnames_clean c = list_all (\<lambda>v. case v of JStr h \<Rightarrow> CHR 0x0A \<notin> set h | _ \<Rightarrow> True)
     (case json_get c ''additional_hostnames'' JNull of JList vs \<Rightarrow> vs | _ \<Rightarrow> [])"

lemma hostnames_field_again:
  assumes "canonical_hostnames (json_get c ''additional_hostnames'' JNull)" "hostnames_clean c"
  shows "normalize_hostnames_field c = Inr c"
proof -
  from assms(1) obtain vs hs where hs: "list_all2 (\<lambda>v h. normalize_scope_hostname v = Inr h) vs hs"
    "json_get c ''additional_hostnames'' JNull = JList (map JStr (sorted_names hs))"
    by (auto simp: canonical_hostnames_def)
  have clean: "\<forall>h\<in>set hs. CHR 0x0A \<notin> set h" using assms(2) by (simp add: hs(2) hostnames_clean_def list_all_iff)
  have "\<exists>v. normalize_scope_hostname v = Inr h" if "h \<in> set hs" for h
    using hs(1) that by (auto simp: list_all2_conv_all_nth in_set_conv_nth)
  then have again: "normalize_scope_hostname (JStr h) = Inr h" if "h \<in> set hs" for h
    using that clean normalized_hostname_again by blast
  show ?thesis unfolding normalize_hostnames_field_Inr
  proof (intro exI conjI)
    show "list_all2 (\<lambda>v h. normalize_scope_hostname v = Inr h) (map JStr (sorted_names hs)) (sorted_names hs)"
      using again by (auto simp: list.rel_map intro!: list.rel_refl_strong)
    show "c = AList.update ''additional_hostnames'' (JList (map JStr (sorted_names (sorted_names hs)))) c"
      using hs(2) by (simp add: sorted_names_again update_same)
  qed (rule hs(2))
qed

lemma defaults_distinct: "distinct (map fst HOST_TELEMETRY_DEFAULT_CONFIG)" "distinct (map fst REMOTE_PROBE_DEFAULT_CONFIG)"
  "distinct (map fst LOCAL_DISCOVERY_DEFAULT_CONFIG)"
  by (simp_all add: defaults_defs)

lemma merge_defaults: "map fst c = map fst d \<Longrightarrow> distinct (map fst d) \<Longrightarrow> dict_merge (materialized d) c = c"
  by (rule dict_merge_same_keys) (simp_all only: keys_materialized)

lemma no_unknown: "map fst c = map fst d \<Longrightarrow> unknown_keys d c = []"
  by (auto simp: unknown_keys_def filter_empty_conv simp del: set_map)

lemma normalize_again:
  "host_telemetry_ok c \<Longrightarrow> normalize_host_telemetry_config c = Inr c"
  "remote_probe_ok c \<Longrightarrow> hostnames_clean c \<Longrightarrow> normalize_remote_probe_config c = Inr c"
  "local_discovery_ok c \<Longrightarrow> normalize_local_discovery_config c = Inr c"
proof -
  assume "host_telemetry_ok c"
  then show "normalize_host_telemetry_config c = Inr c"
    by (auto simp: host_telemetry_ok_def normalize_host_telemetry_config_def Let_def no_unknown merge_defaults defaults_distinct list_ex_iff)
next
  assume "remote_probe_ok c" "hostnames_clean c"
  then show "normalize_remote_probe_config c = Inr c"
    by (simp add: remote_probe_ok_def normalize_remote_probe_config_def Let_def no_unknown merge_defaults defaults_distinct
        cidrs_field_again hostnames_field_again)
next
  assume "local_discovery_ok c"
  then show "normalize_local_discovery_config c = Inr c"
    using first_bad_bound_None [of LOCAL_DISCOVERY_BOUNDS c]
    by (auto simp: local_discovery_ok_def normalize_local_discovery_config_def Let_def no_unknown merge_defaults defaults_distinct
        cidrs_field_again ports_field_again)
qed

lemma normalize_grant_ok:
  assumes "normalize_grant capability v current = Inr (enabled, c)"
  shows "config_ok capability c"
  using assms by (auto simp: normalize_grant_def CAPABILITY_DEFINITIONS_def bind_sum_Inr config_ok_def normalized_ok split: if_splits)

lemma ok_keys:
  "host_telemetry_ok c \<Longrightarrow> map fst c = map fst HOST_TELEMETRY_DEFAULT_CONFIG"
  "remote_probe_ok c \<Longrightarrow> map fst c = map fst REMOTE_PROBE_DEFAULT_CONFIG"
  "local_discovery_ok c \<Longrightarrow> map fst c = map fst LOCAL_DISCOVERY_DEFAULT_CONFIG"
  by (simp_all add: host_telemetry_ok_def remote_probe_ok_def local_discovery_ok_def)

lemma merged_again:
  assumes "map fst c = map fst (cd_default_config d)" "distinct (map fst (cd_default_config d))"
  shows "merged_config d (Some c) [] = c"
  using merge_defaults [OF assms] by (simp add: merged_config_def)

text \<open>
  C21. \<^bold>\<open>Stored grants are within bounds and stable.\<close> Whatever request, current configuration and capability,
  a grant that is accepted has a configuration of its capability's shape: exactly its known keys, numbers within their
  hard limits, at most 32 ports in order without repetition, scope entries in canonical form. Granting it again (a bare
  boolean on top of what is stored) changes nothing, provided no approved hostname carries a newline.
\<close>

theorem stored_grant_stable:
  assumes "normalize_grant capability v current = Inr (enabled, c)"
  shows "config_ok capability c \<and> (hostnames_clean c \<longrightarrow> normalize_grant capability (JBool enabled) (Some c) = Inr (enabled, c))"
proof (intro conjI impI)
  show ok: "config_ok capability c" by (rule normalize_grant_ok [OF assms])
  assume "hostnames_clean c"
  with ok show "normalize_grant capability (JBool enabled) (Some c) = Inr (enabled, c)"
    unfolding config_ok_def
    by (elim disjE conjE)
      (simp_all add: normalize_grant_def grant_parts_def normalize_again CAPABILITY_DEFINITIONS_def merged_again ok_keys defaults_distinct)
qed

subsection \<open>What is saved is what is evaluated\<close>

definition entries :: "config \<Rightarrow> string \<Rightarrow> json list" where
  "entries c field = (case json_get c field JNull of JList vs \<Rightarrow> vs | _ \<Rightarrow> [])"

definition saved_field :: "config \<Rightarrow> config \<Rightarrow> string \<Rightarrow> bool" where
  "saved_field m c f =
     (\<exists>vs ns. json_get m f JNull = JList vs \<and> list_all2 scope_entry vs ns \<and> json_get c f JNull = JList (map JStr (sorted_networks ns)))"

lemma normalized_scope:
  assumes "normalize_remote_probe_config config = Inr c \<and> d = REMOTE_PROBE_DEFAULT_CONFIG \<or>
    normalize_local_discovery_config config = Inr c \<and> d = LOCAL_DISCOVERY_DEFAULT_CONFIG"
  shows "saved_field (dict_merge (materialized d) config) c ''excluded_cidrs'' \<and>
    saved_field (dict_merge (materialized d) config) c ''additional_cidrs'' \<and>
    json_get c ''scope_mode'' (JStr SCOPE_MODE_DIRECT_PRIVATE) = JStr SCOPE_MODE_DIRECT_PRIVATE \<and>
    iter_or_empty (json_get c ''additional_hostnames'' JNull) \<noteq> None"
proof -
  have mode: "json_get m ''scope_mode'' (JStr SCOPE_MODE_DIRECT_PRIVATE) = JStr SCOPE_MODE_DIRECT_PRIVATE"
    if "known_mode (json_get m ''scope_mode'' JNull)" for m
    using that by (auto simp: known_mode_def json_get_def split: option.splits)
  have iter: "\<exists>y. iter_or_empty (JList vs) = Some y" for vs by (simp add: iter_or_empty_def)
  from assms show ?thesis
  proof (elim disjE conjE)
    assume "normalize_remote_probe_config config = Inr c" "d = REMOTE_PROBE_DEFAULT_CONFIG"
    then show ?thesis
      by (auto simp: normalize_remote_probe_config_def Let_def bind_sum_Inr normalize_cidrs_field_Inr normalize_hostnames_field_Inr
          saved_field_def mode iter split: if_splits)
  next
    let ?m = "dict_merge (materialized LOCAL_DISCOVERY_DEFAULT_CONFIG) config"
    assume c: "normalize_local_discovery_config config = Inr c" "d = LOCAL_DISCOVERY_DEFAULT_CONFIG"
    have "''additional_hostnames'' \<notin> fst ` set c" using keys_set [OF ok_keys(3) [OF normalized_ok(3) [OF c(1)]]]
      by (simp add: LOCAL_DISCOVERY_DEFAULT_CONFIG_def)
    then have "json_get c ''additional_hostnames'' JNull = JNull" by (simp add: json_get_def map_of_eq_None_iff [THEN iffD2])
    then have "iter_or_empty (json_get c ''additional_hostnames'' JNull) \<noteq> None" by (simp add: iter_or_empty_def)
    with c show ?thesis
      by (auto simp: normalize_local_discovery_config_def Let_def bind_sum_Inr normalize_cidrs_field_Inr normalize_ports_field_Inr
          saved_field_def mode split: if_splits option.splits)
  qed
qed

lemma list_all2_left: "list_all2 R vs ns \<Longrightarrow> \<forall>v\<in>set vs. \<exists>n. R v n"
  by (induction rule: list_all2_induct) auto

lemma distinct_dict_merge: "distinct (map fst a) \<Longrightarrow> distinct (map fst (dict_merge a b))"
  by (induction b arbitrary: a) (auto simp: dict_merge_Cons distinct_update)

lemma keys_kept: "fst ` set a \<subseteq> fst ` set (dict_merge a b)"
proof (induction b arbitrary: a)
  case (Cons p b)
  then show ?case using Cons [of "AList.update (fst p) (snd p) a"] by (cases p) (auto simp: dict_merge_Cons set_keys_update)
qed simp

lemma remerged:
  assumes "distinct (map fst (cd_default_config d))" "f \<in> fst ` set (cd_default_config d)"
  shows "json_get (dict_merge (materialized (cd_default_config d)) (merged_config d current supplied)) f JNull =
    json_get (merged_config d current supplied) f JNull"
proof -
  let ?D = "materialized (cd_default_config d)" and ?m = "merged_config d current supplied"
  have "distinct (map fst ?m)" unfolding merged_config_def
    by (intro distinct_dict_merge) (simp only: keys_materialized assms(1))
  moreover have "f \<in> fst ` set ?D" using assms(2) by (simp only: keys_set [OF keys_materialized])
  then have "f \<in> fst ` set ?m" unfolding merged_config_def by (intro subsetD [OF keys_kept])
  then have "map_of ?m f \<noteq> None" by (simp add: map_of_eq_None_iff)
  ultimately show ?thesis by (auto simp: json_get_def map_of_dict_merge map_add_def)
qed

text \<open>
  C22. \<^bold>\<open>The scope derived from a saved grant is the one the administrator wrote.\<close> When a grant of remote probing or local
  discovery is accepted, every additional and excluded entry of the merged request denotes a network that is not the whole
  address space. Whatever interfaces the agent reports, deriving a scope from what is stored raises only if the report makes it;
  the networks of the derived scope, read back, are exactly the reported private ones and those the additional entries denote,
  and its excluded networks are exactly those the excluded entries denote.
\<close>

theorem saved_scope_evaluated:
  assumes "normalize_grant capability v current = Inr (enabled, c)" "capability = ''remote_probe'' \<or> capability = ''local_discovery''"
  shows "\<exists>d supplied. map_of CAPABILITY_DEFINITIONS capability = Some d \<and> grant_parts v = Inr (enabled, supplied) \<and>
    (let m = merged_config d current supplied in
       (\<forall>w\<in>set (entries m ''additional_cidrs'' @ entries m ''excluded_cidrs''). \<exists>n. scope_entry w n) \<and>
       (\<forall>st sha facts. case derive_scope st sha (Some facts) (Some c) of
          None \<Rightarrow> direct_networks st facts = None
        | Some sc \<Rightarrow> \<exists>networks excludes. parsed (es_networks sc) = Some networks \<and> parsed (es_excluded_networks sc) = Some excludes \<and>
            (\<forall>n. n \<in> set networks \<longleftrightarrow> reported st facts n \<or> (\<exists>w\<in>set (entries m ''additional_cidrs''). scope_entry w n)) \<and>
            (\<forall>n. n \<in> set excludes \<longleftrightarrow> (\<exists>w\<in>set (entries m ''excluded_cidrs''). scope_entry w n))))"
proof -
  from assms(1) obtain d supplied where d: "map_of CAPABILITY_DEFINITIONS capability = Some d" "grant_parts v = Inr (enabled, supplied)"
    "cd_normalize d (merged_config d current supplied) = Inr c"
    by (auto simp: normalize_grant_def bind_sum_Inr split: option.splits)
  let ?m = "merged_config d current supplied" and ?D = "cd_default_config d"
  have D: "cd_normalize d = normalize_remote_probe_config \<and> ?D = REMOTE_PROBE_DEFAULT_CONFIG \<or>
      cd_normalize d = normalize_local_discovery_config \<and> ?D = LOCAL_DISCOVERY_DEFAULT_CONFIG"
    using d(1) assms(2) by (auto simp: CAPABILITY_DEFINITIONS_def)
  then have "distinct (map fst ?D)" "\<forall>f\<in>{''additional_cidrs'', ''excluded_cidrs''}. f \<in> fst ` set ?D"
    by (auto simp: defaults_distinct defaults_defs)
  then have same: "saved_field (dict_merge (materialized ?D) ?m) c f = saved_field ?m c f" if "f \<in> {''additional_cidrs'', ''excluded_cidrs''}" for f
    using that remerged [of d f current supplied] by (auto simp only: saved_field_def)
  have norm: "normalize_remote_probe_config ?m = Inr c \<and> ?D = REMOTE_PROBE_DEFAULT_CONFIG \<or>
      normalize_local_discovery_config ?m = Inr c \<and> ?D = LOCAL_DISCOVERY_DEFAULT_CONFIG"
    using D d(3) by (elim disjE conjE) simp_all
  have s: "saved_field ?m c ''excluded_cidrs''" "saved_field ?m c ''additional_cidrs''"
    "json_get c ''scope_mode'' (JStr SCOPE_MODE_DIRECT_PRIVATE) = JStr SCOPE_MODE_DIRECT_PRIVATE"
    "iter_or_empty (json_get c ''additional_hostnames'' JNull) \<noteq> None"
    using normalized_scope [OF norm] by (simp_all only: same insert_iff simp_thms)
  from s(1,2) obtain xs xn ys yn where f: "entries ?m ''excluded_cidrs'' = xs" "list_all2 scope_entry xs xn"
    "json_get c ''excluded_cidrs'' JNull = JList (map JStr (sorted_networks xn))"
    "entries ?m ''additional_cidrs'' = ys" "list_all2 scope_entry ys yn"
    "json_get c ''additional_cidrs'' JNull = JList (map JStr (sorted_networks yn))"
    by (auto simp: saved_field_def entries_def)
  have entry: "\<forall>w\<in>set (ys @ xs). \<exists>n. scope_entry w n"
    using list_all2_left [OF f(2)] list_all2_left [OF f(5)] by auto
  have ex: "excluded_network (Some c) n \<longleftrightarrow> (\<exists>w\<in>set xs. scope_entry w n)" for n
    using stored_networks(1) [OF f(2)] by (simp add: excluded_network_def excluded_def f(3))
  have per: "permitted_network st (Some facts) (Some c) n \<longleftrightarrow> reported st facts n \<or> (\<exists>w\<in>set ys. scope_entry w n)" for st facts n
    using stored_networks [OF f(5), of n] by (auto simp: permitted_network_def granted_def f(6) s(3) Let_def)
  have none: "derive_scope st sha (Some facts) (Some c) = None \<Longrightarrow> direct_networks st facts = None" for st sha facts
    using s(3,4) by (auto simp: derive_scope_def Let_def split: option.splits)
  have some: "\<exists>networks excludes. parsed (es_networks sc) = Some networks \<and> parsed (es_excluded_networks sc) = Some excludes \<and>
      (\<forall>n. n \<in> set networks \<longleftrightarrow> reported st facts n \<or> (\<exists>w\<in>set ys. scope_entry w n)) \<and> (\<forall>n. n \<in> set excludes \<longleftrightarrow> (\<exists>w\<in>set xs. scope_entry w n))"
    if sc: "derive_scope st sha (Some facts) (Some c) = Some sc" for st sha facts sc
    by (rule derive_scope_networks [OF sc]) (use per ex in simp)
  show ?thesis
    by (rule exI [of _ d], rule exI [of _ supplied]) (use d f(1,4) entry none some in \<open>auto simp: Let_def split: option.split\<close>)
qed

text \<open>A request that names a host address with its prefix, spaces and a repeated port.\<close>

definition demo_request :: json where
  "demo_request = JObj [(''enabled'', JBool True),
     (''config'', JObj [(''excluded_cidrs'', JList [JStr '' 10.0.0.5/24'']), (''tcp_ports'', JList [JInt 443, JInt 22, JInt 443])])]"

definition demo_granted :: config where
  "demo_granted =
     [(''scope_mode'', JStr ''direct_private''), (''excluded_cidrs'', JList [JStr ''10.0.0.0/24'']), (''additional_cidrs'', JList []),
      (''max_addresses_per_job'', JInt 1024), (''max_concurrent_hosts'', JInt 64), (''tcp_ports'', JList [JInt 22, JInt 443]),
      (''host_timeout_ms'', JInt 1500), (''job_timeout_seconds'', JInt 300), (''auto_discovery_paused'', JBool False)]"

lemma demo_normalized: "normalize_grant ''local_discovery'' demo_request None = Inr (True, demo_granted)"
  by code_simp

theorem stored_grant_stable_witness:
  "config_ok ''local_discovery'' demo_granted \<and> normalize_grant ''local_discovery'' (JBool True) (Some demo_granted) = Inr (True, demo_granted)"
proof -
  have "hostnames_clean demo_granted" by code_simp
  with stored_grant_stable [OF demo_normalized] show ?thesis by blast
qed

theorem saved_scope_evaluated_witness:
  "\<exists>sc excludes. derive_scope (\<lambda>_. []) id (Some []) (Some demo_granted) = Some sc \<and> parsed (es_excluded_networks sc) = Some excludes \<and>
     \<lparr>in_version = IPv4, in_int = 167772160, in_zone = None, in_prefixlen = 24\<rparr> \<in> set excludes"
proof -
  let ?n = "\<lparr>in_version = IPv4, in_int = 167772160, in_zone = None, in_prefixlen = 24\<rparr>"
  have n: "ip_network (py_strip '' 10.0.0.5/24'') False = Inr ?n" by code_simp
  have "direct_networks (\<lambda>_. []) [] \<noteq> None" by simp
  with saved_scope_evaluated [OF demo_normalized] obtain d supplied sc excludes where
    d: "map_of CAPABILITY_DEFINITIONS ''local_discovery'' = Some d" "grant_parts demo_request = Inr (True, supplied)"
    and sc: "derive_scope (\<lambda>_. []) id (Some []) (Some demo_granted) = Some sc" "parsed (es_excluded_networks sc) = Some excludes"
    "\<forall>n. n \<in> set excludes \<longleftrightarrow> (\<exists>w\<in>set (entries (merged_config d None supplied) ''excluded_cidrs''). scope_entry w n)"
    unfolding Let_def by (fastforce split: option.splits)
  have "d = \<lparr>cd_name = ''local_discovery'', cd_default_enabled = True,
      cd_default_config = LOCAL_DISCOVERY_DEFAULT_CONFIG, cd_normalize = normalize_local_discovery_config\<rparr>"
    "supplied = [(''excluded_cidrs'', JList [JStr '' 10.0.0.5/24'']), (''tcp_ports'', JList [JInt 443, JInt 22, JInt 443])]"
    using d(1,2) by (simp_all add: CAPABILITY_DEFINITIONS_def grant_parts_def demo_request_def json_get_def)
  then have "entries (merged_config d None supplied) ''excluded_cidrs'' = [JStr '' 10.0.0.5/24'']"
    by (simp add: merged_config_def entries_def json_get_def dict_merge_def LOCAL_DISCOVERY_DEFAULT_CONFIG_def materialized_def)
  then have "?n \<in> set excludes" using sc(3) n by (simp add: scope_entry_def)
  with sc(1,2) show ?thesis by blast
qed

end
