(* ===== verification/Agent_Registry.thy ===== *)
theory Agent_Registry
  imports Agent_Capabilities
begin

text \<open>
  \<open>services/agent_registry.py\<close> and \<open>services/agent_enrollment_tokens.py\<close>: the agents, their capability
  grants, reported networks and timeline, the rotation of device keys, and the tokens that enroll agents
  unattended (\<open>db/models/agents.py\<close>). The columns of an agent are grouped in records. An operation that can raise
  returns an error or the new state; the caller of a raising operation rolls back. The fingerprint of a key and the text
  of an instant are parameters of the events that carry them.
\<close>

subsection \<open>Tables\<close>

datatype agent_status = AS_pending | AS_active | AS_revoked | AS_rejected

text \<open>What the device reports about itself.\<close>

record device_facts =
  df_hostname :: "string option"
  df_machine_id_hash :: "string option"
  df_os :: "string option"
  df_os_version :: "string option"
  df_arch :: "string option"
  df_agent_version :: "string option"
  df_primary_macs :: "string list option"

record spool_facts =
  sp_depth :: "int option"
  sp_bytes :: "int option"
  sp_reported_at :: "instant option"
  sp_evicted_frames :: "int option"
  sp_evicted_bytes :: "int option"
  sp_evicted_oldest_at :: "instant option"
  sp_evicted_newest_at :: "instant option"
  sp_evicted_reported_at :: "instant option"
  sp_refused_frames :: "int option"
  sp_refused_last_at :: "instant option"
  sp_refused_last_reason :: "string option"

record pin_facts =
  pf_server_current_at :: "instant option"
  pf_server_successor_at :: "instant option"
  pf_tls_current_at :: "instant option"
  pf_tls_successor_at :: "instant option"
  pf_tls_successor_fingerprint :: "string option"
  pf_data_ack :: "bool option"

record agent =
  an_id :: int
  an_device_pk :: string
  an_pending_pk :: "string option"
  an_pending_expiry :: "instant option"
  an_status :: agent_status
  an_facts :: device_facts
  an_pending_update_version :: "string option"
  an_enrolled_via :: "string option"
  an_token_id :: "int option"
  an_hardware_id :: "int option"
  an_tenant_id :: "int option"
  an_enrolled_at :: instant
  an_approved_at :: "instant option"
  an_approved_by :: "int option"
  an_revoked_at :: "instant option"
  an_revoked_by :: "int option"
  an_revoke_reason :: "string option"
  an_spool :: spool_facts
  an_pins :: pin_facts

record capability_grant =
  cg_agent :: int
  cg_capability :: string
  cg_enabled :: bool
  cg_config :: config
  cg_granted_by :: "int option"
  cg_granted_at :: instant

record network_facts =
  nf_name :: string
  nf_flags :: "string list"
  nf_addrs :: "string list"

record agent_network =
  nw_agent :: int
  nw_generation :: int
  nw_observed_at :: instant
  nw_facts :: "network_facts list"

record enrollment_token =
  et_id :: int
  et_hash :: string
  et_endpoint_url :: string
  et_capabilities :: config
  et_max_uses :: int
  et_uses :: int
  et_expires_at :: instant
  et_revoked_at :: "instant option"
  et_created_by :: "int option"

record agent_event =
  ae_agent :: int
  ae_type :: string
  ae_actor :: "int option"
  ae_detail :: "config option"
  ae_at :: instant

text \<open>The last component collects the entries handed to the hash-chained audit log.\<close>

record registry =
  rg_agents :: "agent list"
  rg_grants :: "capability_grant list"
  rg_networks :: "agent_network list"
  rg_tokens :: "enrollment_token list"
  rg_events :: "agent_event list"
  rg_audit :: "agent_event list"
  rg_next_agent :: int
  rg_next_token :: int
  rg_clock :: instant

record registry_env =
  re_fingerprint :: "string \<Rightarrow> string"
  re_isoformat :: "instant \<Rightarrow> string"
  re_token_hash :: "string \<Rightarrow> string"

datatype registry_error = Agent_not_found | Invalid_grant grant_error | Integrity_error

definition MAX_CONCURRENT_PENDING_AGENTS :: nat where "MAX_CONCURRENT_PENDING_AGENTS = 100"
definition DEVICE_KEY_ROTATION_WINDOW_SECONDS :: int where "DEVICE_KEY_ROTATION_WINDOW_SECONDS = 15 * 60"
definition LAST_SEEN_WRITE_THROTTLE_SECONDS :: int where "LAST_SEEN_WRITE_THROTTLE_SECONDS = 60"
definition SPOOL_FRESH_SECONDS :: int where "SPOOL_FRESH_SECONDS = 120"
definition PENDING_EXPIRY_DAYS :: int where "PENDING_EXPIRY_DAYS = 7"
definition MAX_TTL_SECONDS :: int where "MAX_TTL_SECONDS = 24 * 3600"

definition CHAINED_EVENT_TYPES :: "string list" where
  "CHAINED_EVENT_TYPES = [''enrolled'', ''approved'', ''rejected'', ''revoked'', ''capability_changed'', ''key_rotation_started'',
     ''key_rotated'', ''key_rotation_rejected'', ''key_rotation_expired'', ''update_queued'']"

subsection \<open>Access\<close>

definition get_agent :: "registry \<Rightarrow> int \<Rightarrow> agent option" where
  "get_agent rg i = tbl_get an_id i (rg_agents rg)"

definition upd_agent :: "int \<Rightarrow> (agent \<Rightarrow> agent) \<Rightarrow> registry \<Rightarrow> registry" where
  "upd_agent i f rg = rg\<lparr>rg_agents := tbl_upd an_id i f (rg_agents rg)\<rparr>"

definition get_agent_by_device_pk :: "registry \<Rightarrow> string \<Rightarrow> agent option" where
  "get_agent_by_device_pk rg pk = tbl_get an_device_pk pk (rg_agents rg)"

definition count_pending_agents :: "registry \<Rightarrow> nat" where
  "count_pending_agents rg = length (filter (\<lambda>a. an_status a = AS_pending) (rg_agents rg))"

definition record_event :: "int \<Rightarrow> string \<Rightarrow> int option \<Rightarrow> config option \<Rightarrow> registry \<Rightarrow> registry" where
  "record_event agent_id event_type actor detail rg =
     (let e = \<lparr>ae_agent = agent_id, ae_type = event_type, ae_actor = actor, ae_detail = detail, ae_at = rg_clock rg\<rparr> in
      rg\<lparr>rg_events := rg_events rg @ [e],
         rg_audit := (if event_type \<in> set CHAINED_EVENT_TYPES then rg_audit rg @ [e] else rg_audit rg)\<rparr>)"

subsection \<open>Enrollment\<close>

definition no_spool :: spool_facts where
  "no_spool = \<lparr>sp_depth = None, sp_bytes = None, sp_reported_at = None, sp_evicted_frames = None, sp_evicted_bytes = None,
     sp_evicted_oldest_at = None, sp_evicted_newest_at = None, sp_evicted_reported_at = None,
     sp_refused_frames = None, sp_refused_last_at = None, sp_refused_last_reason = None\<rparr>"

definition no_pins :: pin_facts where
  "no_pins = \<lparr>pf_server_current_at = None, pf_server_successor_at = None, pf_tls_current_at = None, pf_tls_successor_at = None,
     pf_tls_successor_fingerprint = None, pf_data_ack = None\<rparr>"

text \<open>\<open>create_pending_agent\<close>: the new agent's id and the state; the unique index on \<open>device_pk\<close> refuses a second row.\<close>

definition create_pending_agent :: "string \<Rightarrow> device_facts \<Rightarrow> string option \<Rightarrow> registry \<Rightarrow> registry_error + int \<times> registry" where
  "create_pending_agent pk facts via rg =
     (if get_agent_by_device_pk rg pk \<noteq> None then Inl Integrity_error
      else let i = rg_next_agent rg;
               a = \<lparr>an_id = i, an_device_pk = pk, an_pending_pk = None, an_pending_expiry = None, an_status = AS_pending,
                    an_facts = facts, an_pending_update_version = None, an_enrolled_via = via, an_token_id = None,
                    an_hardware_id = None, an_tenant_id = None, an_enrolled_at = rg_clock rg, an_approved_at = None,
                    an_approved_by = None, an_revoked_at = None, an_revoked_by = None, an_revoke_reason = None,
                    an_spool = no_spool, an_pins = no_pins\<rparr> in
           Inr (i, record_event i ''enrolled'' None None (rg\<lparr>rg_agents := rg_agents rg @ [a], rg_next_agent := i + 1\<rparr>)))"

definition opt_json :: "('a \<Rightarrow> json) \<Rightarrow> 'a option \<Rightarrow> json" where
  "opt_json f v = (case v of None \<Rightarrow> JNull | Some x \<Rightarrow> f x)"

definition default_grants :: config where
  "default_grants = map (\<lambda>(name, d). (name, JBool (cd_default_enabled d))) CAPABILITY_DEFINITIONS"

definition approve_detail :: "int option \<Rightarrow> string option \<Rightarrow> string option \<Rightarrow> config option" where
  "approve_detail hardware_id host_link_action via =
     (let base = (if hardware_id \<noteq> None \<or> host_link_action \<noteq> None
                  then Some [(''hardware_id'', opt_json JInt hardware_id), (''host_link_action'', opt_json JStr host_link_action)] else None) in
      case via of
        None \<Rightarrow> base
      | Some v \<Rightarrow> Some ((case base of None \<Rightarrow> [] | Some d \<Rightarrow> d) @ [(''via'', JStr v)]))"

definition new_grant :: "int \<Rightarrow> int option \<Rightarrow> instant \<Rightarrow> string \<times> bool \<times> config \<Rightarrow> capability_grant" where
  "new_grant agent_id by now g =
     \<lparr>cg_agent = agent_id, cg_capability = fst g, cg_enabled = fst (snd g), cg_config = snd (snd g), cg_granted_by = by, cg_granted_at = now\<rparr>"

definition normalized_grants :: "config \<Rightarrow> registry_error + (string \<times> bool \<times> config) list" where
  "normalized_grants grants =
     traverse (\<lambda>(capability, v). case normalize_grant capability v None of
        Inl e \<Rightarrow> Inl (Invalid_grant e) | Inr (enabled, config) \<Rightarrow> Inr (capability, enabled, config)) grants"

definition approve_agent ::
  "int \<Rightarrow> int option \<Rightarrow> int option \<Rightarrow> string option \<Rightarrow> config option \<Rightarrow> string option \<Rightarrow> registry \<Rightarrow> registry_error + registry" where
  "approve_agent agent_id by hardware_id host_link_action overrides via rg =
     (case get_agent rg agent_id of
        None \<Rightarrow> Inl Agent_not_found
      | Some _ \<Rightarrow>
          bind_sum (normalized_grants (dict_merge default_grants (case overrides of None \<Rightarrow> [] | Some o' \<Rightarrow> o'))) (\<lambda>grants.
          if list_ex (\<lambda>g. cg_agent g = agent_id \<and> cg_capability g \<in> set (map fst grants)) (rg_grants rg) then Inl Integrity_error
          else Inr (record_event agent_id ''approved'' by (approve_detail hardware_id host_link_action via)
            (upd_agent agent_id (\<lambda>a. a\<lparr>an_status := AS_active, an_approved_at := Some (rg_clock rg), an_approved_by := by,
                an_hardware_id := (case hardware_id of None \<Rightarrow> an_hardware_id a | Some h \<Rightarrow> Some h)\<rparr>)
              (rg\<lparr>rg_grants := rg_grants rg @ map (new_grant agent_id by (rg_clock rg)) grants\<rparr>)))))"

text \<open>What one use of a token grants.\<close>

record consumed_token =
  ct_id :: int
  ct_endpoint_url :: string
  ct_capabilities :: config
  ct_created_by :: "int option"

definition create_enrolled_agent :: "string \<Rightarrow> device_facts \<Rightarrow> consumed_token \<Rightarrow> registry \<Rightarrow> registry_error + int \<times> registry" where
  "create_enrolled_agent pk facts tok rg =
     bind_sum (create_pending_agent pk facts (Some (ct_endpoint_url tok)) rg) (\<lambda>(i, rg1).
     bind_sum (approve_agent i (ct_created_by tok) None None (if ct_capabilities tok = [] then None else Some (ct_capabilities tok))
        (Some ''enrollment_token'') (upd_agent i (\<lambda>a. a\<lparr>an_token_id := Some (ct_id tok)\<rparr>) rg1)) (\<lambda>rg2. Inr (i, rg2)))"

subsection \<open>Decisions of the operator\<close>

definition set_hardware_link :: "int \<Rightarrow> int option \<Rightarrow> int option \<Rightarrow> registry \<Rightarrow> registry_error + registry" where
  "set_hardware_link agent_id hardware_id actor rg =
     (case get_agent rg agent_id of
        None \<Rightarrow> Inl Agent_not_found
      | Some a \<Rightarrow>
          if an_hardware_id a = hardware_id then Inr rg
          else Inr (record_event agent_id ''host_link_changed'' actor
                 (Some [(''previous_hardware_id'', opt_json JInt (an_hardware_id a)), (''hardware_id'', opt_json JInt hardware_id)])
                 (upd_agent agent_id (\<lambda>a. a\<lparr>an_hardware_id := hardware_id\<rparr>) rg)))"

definition reject_agent :: "int \<Rightarrow> int option \<Rightarrow> registry \<Rightarrow> registry_error + registry" where
  "reject_agent agent_id actor rg =
     (case get_agent rg agent_id of
        None \<Rightarrow> Inl Agent_not_found
      | Some a \<Rightarrow> Inr (record_event agent_id ''rejected'' actor None (upd_agent agent_id (\<lambda>a. a\<lparr>an_status := AS_rejected\<rparr>) rg)))"

definition revoke_agent :: "int \<Rightarrow> int option \<Rightarrow> string option \<Rightarrow> string option \<Rightarrow> registry \<Rightarrow> registry_error + registry" where
  "revoke_agent agent_id actor reason via rg =
     (case get_agent rg agent_id of
        None \<Rightarrow> Inl Agent_not_found
      | Some a \<Rightarrow>
          Inr (record_event agent_id ''revoked'' actor
            (Some ((''reason'', opt_json JStr reason) # (case via of None \<Rightarrow> [] | Some v \<Rightarrow> [(''via'', JStr v)])))
            (upd_agent agent_id (\<lambda>a. a\<lparr>an_status := AS_revoked, an_revoked_at := Some (rg_clock rg), an_revoked_by := actor,
               an_revoke_reason := reason\<rparr>) rg)))"

definition expire_stale_pending_agents :: "registry \<Rightarrow> nat \<times> registry" where
  "expire_stale_pending_agents rg =
     (let cutoff = rg_clock rg - seconds (PENDING_EXPIRY_DAYS * 86400);
          stale = filter (\<lambda>a. an_status a = AS_pending \<and> an_enrolled_at a < cutoff) (rg_agents rg) in
      (length stale,
       fold (\<lambda>a r. record_event (an_id a) ''rejected'' None (Some [(''reason'', JStr ''pending_expired'')])
               (upd_agent (an_id a) (\<lambda>a. a\<lparr>an_status := AS_rejected\<rparr>) r)) stale rg))"

subsection \<open>Device keys\<close>

text \<open>\<open>agent_crypto.device_identity_matches\<close>.\<close>

definition device_identity_matches :: "string \<Rightarrow> string \<Rightarrow> string option \<Rightarrow> instant option \<Rightarrow> instant \<Rightarrow> bool" where
  "device_identity_matches pk current pending expiry now =
     (if pk = current then True
      else case (pending, expiry) of
        (Some p, Some e) \<Rightarrow> pk = p \<and> now \<le> e
      | _ \<Rightarrow> False)"

definition resolve_agent_for_handshake :: "registry \<Rightarrow> string \<Rightarrow> agent option" where
  "resolve_agent_for_handshake rg pk =
     (case get_agent_by_device_pk rg pk of
        Some a \<Rightarrow> Some a
      | None \<Rightarrow>
          (case find (\<lambda>a. an_pending_pk a = Some pk) (rg_agents rg) of
             None \<Rightarrow> None
           | Some a \<Rightarrow>
               if device_identity_matches pk (an_device_pk a) (an_pending_pk a) (an_pending_expiry a) (rg_clock rg) then Some a else None))"

definition HEX_PK :: "string \<Rightarrow> bool" where
  "HEX_PK s = (length s = 64 \<and> list_all (\<lambda>c. c \<in> set ''0123456789abcdef'') s)"

definition rotation_rejected :: "int \<Rightarrow> string \<Rightarrow> registry \<Rightarrow> bool \<times> registry" where
  "rotation_rejected i reason rg = (False, record_event i ''key_rotation_rejected'' None (Some [(''reason'', JStr reason)]) rg)"

definition start_device_key_rotation :: "registry_env \<Rightarrow> agent \<Rightarrow> string \<Rightarrow> int option \<Rightarrow> registry \<Rightarrow> bool \<times> registry" where
  "start_device_key_rotation env a successor window_seconds rg =
     (if \<not> HEX_PK successor then rotation_rejected (an_id a) ''successor_pk_malformed'' rg
      else if successor = an_device_pk a then rotation_rejected (an_id a) ''successor_matches_current'' rg
      else if list_ex (\<lambda>b. (an_device_pk b = successor \<or> an_pending_pk b = Some successor) \<and> an_id b \<noteq> an_id a) (rg_agents rg)
      then rotation_rejected (an_id a) ''successor_key_in_use'' rg
      else let window = (case window_seconds of None \<Rightarrow> DEVICE_KEY_ROTATION_WINDOW_SECONDS | Some w \<Rightarrow> w);
               expiry = rg_clock rg + seconds window in
           (True, record_event (an_id a) ''key_rotation_started'' None
              (Some [(''successor_fingerprint'', JStr (take 16 (re_fingerprint env successor))), (''expires_at'', JStr (re_isoformat env expiry))])
              (upd_agent (an_id a) (\<lambda>b. b\<lparr>an_pending_pk := Some successor, an_pending_expiry := Some expiry\<rparr>) rg)))"

text \<open>Promoting the pending key violates the unique index when another agent holds it.\<close>

definition settle_device_key_rotation :: "registry_env \<Rightarrow> agent \<Rightarrow> string \<Rightarrow> registry \<Rightarrow> registry_error + registry" where
  "settle_device_key_rotation env a key rg =
     (if an_pending_pk a = Some key
      then if list_ex (\<lambda>b. an_device_pk b = key \<and> an_id b \<noteq> an_id a) (rg_agents rg) then Inl Integrity_error
           else Inr (record_event (an_id a) ''key_rotated'' None
             (Some [(''old_fingerprint'', JStr (take 16 (re_fingerprint env (an_device_pk a)))),
                    (''new_fingerprint'', JStr (take 16 (re_fingerprint env key)))])
             (upd_agent (an_id a) (\<lambda>b. b\<lparr>an_device_pk := key, an_pending_pk := None, an_pending_expiry := None\<rparr>) rg))
      else case (an_pending_pk a, an_pending_expiry a) of
        (Some _, Some expiry) \<Rightarrow>
          if expiry < rg_clock rg
          then Inr (record_event (an_id a) ''key_rotation_expired'' None None
                 (upd_agent (an_id a) (\<lambda>b. b\<lparr>an_pending_pk := None, an_pending_expiry := None\<rparr>) rg))
          else Inr rg
      | _ \<Rightarrow> Inr rg)"

subsection \<open>Grants\<close>

definition get_grant :: "registry \<Rightarrow> int \<Rightarrow> string \<Rightarrow> capability_grant option" where
  "get_grant rg i capability = tbl_get (\<lambda>g. (cg_agent g, cg_capability g)) (i, capability) (rg_grants rg)"

definition put_grant :: "int \<Rightarrow> int option \<Rightarrow> string \<Rightarrow> bool \<Rightarrow> config \<Rightarrow> registry \<Rightarrow> registry" where
  "put_grant i actor capability enabled c rg =
     (case get_grant rg i capability of
        None \<Rightarrow> rg\<lparr>rg_grants := rg_grants rg @ [new_grant i actor (rg_clock rg) (capability, enabled, c)]\<rparr>
      | Some _ \<Rightarrow>
          rg\<lparr>rg_grants := tbl_upd (\<lambda>g. (cg_agent g, cg_capability g)) (i, capability)
               (\<lambda>g. g\<lparr>cg_enabled := enabled, cg_config := c, cg_granted_by := actor, cg_granted_at := rg_clock rg\<rparr>) (rg_grants rg)\<rparr>)"

text \<open>The loop of \<open>set_capability_grants\<close>: the rows read before the loop are the merge bases.\<close>

fun set_grants :: "registry \<Rightarrow> int \<Rightarrow> int option \<Rightarrow> config \<Rightarrow> config \<Rightarrow> registry \<Rightarrow> registry_error + config \<times> registry" where
  "set_grants before i actor [] detail rg = Inr (detail, rg)"
| "set_grants before i actor ((capability, v) # grants) detail rg =
     (case normalize_grant capability v (map_option cg_config (get_grant before i capability)) of
        Inl e \<Rightarrow> Inl (Invalid_grant e)
      | Inr (enabled, c) \<Rightarrow>
          set_grants before i actor grants (detail @ [(capability, JObj [(''enabled'', JBool enabled), (''config'', JObj c)])])
            (put_grant i actor capability enabled c rg))"

definition set_capability_grants :: "int \<Rightarrow> config \<Rightarrow> int option \<Rightarrow> registry \<Rightarrow> registry_error + registry" where
  "set_capability_grants i grants actor rg =
     bind_sum (set_grants rg i actor grants [] rg) (\<lambda>(detail, rg'). Inr (record_event i ''capability_changed'' actor (Some detail) rg'))"

definition grants_dict :: "registry \<Rightarrow> int \<Rightarrow> (string \<times> bool) list" where
  "grants_dict rg i = map (\<lambda>g. (cg_capability g, cg_enabled g)) (filter (\<lambda>g. cg_agent g = i) (rg_grants rg))"

record structured_grant =
  sg_enabled :: bool
  sg_config :: config

definition structured_grant_of :: "capability_grant \<Rightarrow> structured_grant" where
  "structured_grant_of g = \<lparr>sg_enabled = cg_enabled g, sg_config = dict_merge (default_config_for (cg_capability g)) (cg_config g)\<rparr>"

definition structured_grants_dict :: "registry \<Rightarrow> int \<Rightarrow> (string \<times> structured_grant) list" where
  "structured_grants_dict rg i = map (\<lambda>g. (cg_capability g, structured_grant_of g)) (filter (\<lambda>g. cg_agent g = i) (rg_grants rg))"

definition bulk_structured_grants_dict :: "registry \<Rightarrow> int list \<Rightarrow> (int \<times> (string \<times> structured_grant) list) list" where
  "bulk_structured_grants_dict rg ids = map (\<lambda>i. (i, structured_grants_dict rg i)) (remdups ids)"

subsection \<open>Reports\<close>

definition sorted_texts :: "string list \<Rightarrow> string list" where
  "sorted_texts = sort_key (\<lambda>s. map (of_char :: char \<Rightarrow> nat) s)"

definition normalized_network_facts :: "network_facts list \<Rightarrow> network_facts list" where
  "normalized_network_facts networks =
     sort_key (\<lambda>n. map (of_char :: char \<Rightarrow> nat) (nf_name n))
       (map (\<lambda>n. n\<lparr>nf_flags := sorted_texts (nf_flags n), nf_addrs := sorted_texts (nf_addrs n)\<rparr>) networks)"

definition store_network_facts :: "int \<Rightarrow> network_facts list \<Rightarrow> registry \<Rightarrow> bool \<times> registry" where
  "store_network_facts i networks rg =
     (let facts = normalized_network_facts networks in
      case tbl_get nw_agent i (rg_networks rg) of
        None \<Rightarrow> (True, rg\<lparr>rg_networks := rg_networks rg @ [\<lparr>nw_agent = i, nw_generation = 1, nw_observed_at = rg_clock rg, nw_facts = facts\<rparr>]\<rparr>)
      | Some row \<Rightarrow>
          if nw_facts row = facts then (False, rg)
          else (True, rg\<lparr>rg_networks := tbl_upd nw_agent i
                 (\<lambda>r. r\<lparr>nw_generation := nw_generation r + 1, nw_observed_at := rg_clock rg, nw_facts := facts\<rparr>) (rg_networks rg)\<rparr>))"

definition spool_report_is_due :: "spool_facts \<Rightarrow> instant \<Rightarrow> bool" where
  "spool_report_is_due s now =
     (case sp_reported_at s of None \<Rightarrow> True | Some t \<Rightarrow> seconds LAST_SEEN_WRITE_THROTTLE_SECONDS \<le> now - t)"

definition record_spool_stats :: "int \<Rightarrow> int option \<Rightarrow> instant \<Rightarrow> spool_facts \<Rightarrow> bool \<times> spool_facts" where
  "record_spool_stats depth size_bytes now s =
     (let changed = (sp_depth s \<noteq> Some depth \<or> (size_bytes \<noteq> None \<and> sp_bytes s \<noteq> size_bytes)) in
      if \<not> changed \<and> \<not> spool_report_is_due s now then (False, s)
      else (True, s\<lparr>sp_depth := Some depth, sp_bytes := (if size_bytes = None then sp_bytes s else size_bytes), sp_reported_at := Some now\<rparr>))"

definition spool_reading_is_stale :: "spool_facts \<Rightarrow> instant \<Rightarrow> bool" where
  "spool_reading_is_stale s now =
     (case sp_reported_at s of None \<Rightarrow> True | Some t \<Rightarrow> seconds SPOOL_FRESH_SECONDS < now - t)"

definition evictions :: "int \<Rightarrow> int \<Rightarrow> instant option \<Rightarrow> instant option \<Rightarrow> instant \<Rightarrow> spool_facts \<Rightarrow> spool_facts" where
  "evictions frames bytes oldest newest now s =
     s\<lparr>sp_evicted_frames := Some frames, sp_evicted_bytes := Some bytes, sp_evicted_oldest_at := oldest,
       sp_evicted_newest_at := newest, sp_evicted_reported_at := Some now\<rparr>"

definition record_spool_evictions ::
  "registry_env \<Rightarrow> agent \<Rightarrow> int \<Rightarrow> int \<Rightarrow> instant option \<Rightarrow> instant option \<Rightarrow> registry \<Rightarrow> bool \<times> registry" where
  "record_spool_evictions env a frames bytes oldest newest rg =
     (let s = an_spool a; previous = sp_evicted_frames s; base = (case previous of None \<Rightarrow> 0 | Some p \<Rightarrow> p) in
      if previous = Some frames \<and> sp_evicted_bytes s = Some bytes \<and> sp_evicted_oldest_at s = oldest \<and> sp_evicted_newest_at s = newest
      then (False, rg)
      else let rg1 =
          (if previous \<noteq> None \<and> frames < base
           then record_event (an_id a) ''spool_eviction_counter_reset'' None
                  (Some [(''previous_frames'', JInt base), (''previous_bytes'', opt_json JInt (sp_evicted_bytes s)),
                         (''reported_frames'', JInt frames), (''reported_bytes'', JInt bytes)]) rg
           else if frames > base
           then record_event (an_id a) ''spool_evicted'' None
                  (Some [(''frames'', JInt frames), (''bytes'', JInt bytes), (''new_frames'', JInt (frames - base)),
                         (''oldest_dropped_at'', opt_json (\<lambda>t. JStr (re_isoformat env t)) oldest),
                         (''newest_dropped_at'', opt_json (\<lambda>t. JStr (re_isoformat env t)) newest)]) rg
           else rg) in
        (True, upd_agent (an_id a) (\<lambda>b. b\<lparr>an_spool := evictions frames bytes oldest newest (rg_clock rg) (an_spool b)\<rparr>) rg1))"

definition record_refused_frame :: "string \<Rightarrow> instant \<Rightarrow> spool_facts \<Rightarrow> spool_facts" where
  "record_refused_frame reason now s =
     s\<lparr>sp_refused_frames := Some ((case sp_refused_frames s of None \<Rightarrow> 0 | Some n \<Rightarrow> n) + 1), sp_refused_last_at := Some now,
       sp_refused_last_reason := Some (take 64 reason)\<rparr>"

definition record_data_ack_negotiated :: "bool \<Rightarrow> pin_facts \<Rightarrow> bool \<times> pin_facts" where
  "record_data_ack_negotiated negotiated p =
     (if pf_data_ack p = Some negotiated then (False, p) else (True, p\<lparr>pf_data_ack := Some negotiated\<rparr>))"

definition record_server_key_pin :: "string \<Rightarrow> instant \<Rightarrow> pin_facts \<Rightarrow> pin_facts" where
  "record_server_key_pin key_kind now p =
     (if key_kind = ''successor'' then p\<lparr>pf_server_successor_at := Some now\<rparr> else p\<lparr>pf_server_current_at := Some now\<rparr>)"

definition record_tls_pin :: "string \<Rightarrow> bool \<Rightarrow> string option \<Rightarrow> instant \<Rightarrow> pin_facts \<Rightarrow> pin_facts" where
  "record_tls_pin pin_kind successor_ready fingerprint now p =
     (let p1 = (if pin_kind = ''successor'' \<or> successor_ready
                then p\<lparr>pf_tls_successor_at := Some now, pf_tls_successor_fingerprint := fingerprint\<rparr> else p) in
      if pin_kind = ''current'' then p1\<lparr>pf_tls_current_at := Some now\<rparr> else p1)"
text \<open>The stored report as the JSON column the scope is derived from.\<close>

definition facts_json :: "network_facts list \<Rightarrow> json list" where
  "facts_json facts = map (\<lambda>n. JObj [(''name'', JStr (nf_name n)), (''flags'', JList (map JStr (nf_flags n))),
     (''addrs'', JList (map JStr (nf_addrs n)))]) facts"

definition agent_network_facts :: "registry \<Rightarrow> int \<Rightarrow> json list option" where
  "agent_network_facts rg i = map_option (\<lambda>r. facts_json (nw_facts r)) (tbl_get nw_agent i (rg_networks rg))"

text \<open>A hello: the fields it carried (\<open>model_fields_set\<close>), a nullable one twice optional.\<close>

record hello_payload =
  hp_os :: "string option option"
  hp_os_version :: "string option option"
  hp_arch :: "string option option"
  hp_agent_version :: "string option option"
  hp_primary_macs :: "string list option"
  hp_networks :: "network_facts list option"
  hp_spool_depth :: "int option"
  hp_spool_evicted :: "(int \<times> int \<times> instant option \<times> instant option) option"
  hp_tls_pin_kind :: "string option"
  hp_tls_successor_ready :: bool
  hp_tls_successor_fingerprint :: "string option"
  hp_ack_data :: bool

definition hello_facts :: "hello_payload \<Rightarrow> device_facts \<Rightarrow> device_facts" where
  "hello_facts p f =
     f\<lparr>df_os := (case hp_os p of None \<Rightarrow> df_os f | Some v \<Rightarrow> v),
       df_os_version := (case hp_os_version p of None \<Rightarrow> df_os_version f | Some v \<Rightarrow> v),
       df_arch := (case hp_arch p of None \<Rightarrow> df_arch f | Some v \<Rightarrow> v),
       df_agent_version := (case hp_agent_version p of None \<Rightarrow> df_agent_version f | Some v \<Rightarrow> v),
       df_primary_macs := (case hp_primary_macs p of None \<Rightarrow> df_primary_macs f | Some v \<Rightarrow> Some v)\<rparr>"

definition resolve_update :: "int \<Rightarrow> hello_payload \<Rightarrow> agent \<Rightarrow> registry \<Rightarrow> registry" where
  "resolve_update i p a rg =
     (case hp_agent_version p of
        Some (Some v) \<Rightarrow>
          if an_pending_update_version a = Some v
          then upd_agent i (\<lambda>b. b\<lparr>an_pending_update_version := None\<rparr>)
                 (record_event i ''version_changed'' None (Some [(''version'', JStr v)]) rg)
          else rg
      | _ \<Rightarrow> rg)"

text \<open>\<open>update_hello_metadata\<close>; the flag says whether the reported networks changed.\<close>

definition update_hello_metadata :: "registry_env \<Rightarrow> agent \<Rightarrow> hello_payload \<Rightarrow> registry \<Rightarrow> bool \<times> registry" where
  "update_hello_metadata env a p rg =
     (let i = an_id a;
          rg1 = resolve_update i p a (upd_agent i (\<lambda>b. b\<lparr>an_facts := hello_facts p (an_facts b)\<rparr>) rg);
          (changed, rg2) = (case hp_networks p of None \<Rightarrow> (False, rg1) | Some ns \<Rightarrow> store_network_facts i ns rg1);
          rg3 = (case hp_spool_depth p of None \<Rightarrow> rg2
                 | Some d \<Rightarrow> upd_agent i (\<lambda>b. b\<lparr>an_spool := snd (record_spool_stats d None (rg_clock rg2) (an_spool b))\<rparr>) rg2);
          rg4 = (case hp_spool_evicted p of None \<Rightarrow> rg3
                 | Some (frames, bytes, oldest, newest) \<Rightarrow> snd (record_spool_evictions env a frames bytes oldest newest rg3)) in
      (changed, rg4))"

subsection \<open>Enrollment tokens\<close>

datatype token_error = Bad_ttl | Bad_max_uses | Token_scope grant_error | Token_exists

text \<open>The scope of a token is validated when it is minted (\<open>api/agents.py\<close>, \<open>_token_capability_scope\<close>).\<close>

definition token_capability_scope :: "config \<Rightarrow> token_error + config" where
  "token_capability_scope capabilities =
     bind_sum (traverse (\<lambda>(name, v). case normalize_grant name v None of Inl e \<Rightarrow> Inl (Token_scope e) | Inr _ \<Rightarrow> Inr (name, v)) capabilities)
       (\<lambda>scope. Inr (dict_merge [] scope))"

definition mint_token ::
  "registry_env \<Rightarrow> string \<Rightarrow> string \<Rightarrow> config \<Rightarrow> int \<Rightarrow> int \<Rightarrow> int option \<Rightarrow> registry \<Rightarrow> token_error + registry" where
  "mint_token env plaintext endpoint capabilities ttl max_uses by rg =
     (if \<not> (0 < ttl \<and> ttl \<le> MAX_TTL_SECONDS) then Inl Bad_ttl
      else if max_uses < 1 then Inl Bad_max_uses
      else if list_ex (\<lambda>t. et_hash t = re_token_hash env plaintext) (rg_tokens rg) then Inl Token_exists
      else Inr (rg\<lparr>rg_tokens := rg_tokens rg @ [\<lparr>et_id = rg_next_token rg, et_hash = re_token_hash env plaintext, et_endpoint_url = endpoint,
                et_capabilities = capabilities, et_max_uses = max_uses, et_uses = 0, et_expires_at = rg_clock rg + seconds ttl,
                et_revoked_at = None, et_created_by = by\<rparr>],
              rg_next_token := rg_next_token rg + 1\<rparr>))"

definition token_live :: "instant \<Rightarrow> enrollment_token \<Rightarrow> bool" where
  "token_live now t = (et_uses t < et_max_uses t \<and> et_revoked_at t = None \<and> now < et_expires_at t)"

text \<open>One statement: the row of the hash, if it is live, with one use more.\<close>

definition consume_token :: "registry_env \<Rightarrow> string \<Rightarrow> registry \<Rightarrow> (consumed_token \<times> registry) option" where
  "consume_token env plaintext rg =
     (case find (\<lambda>t. et_hash t = re_token_hash env plaintext \<and> token_live (rg_clock rg) t) (rg_tokens rg) of
        None \<Rightarrow> None
      | Some t \<Rightarrow>
          Some (\<lparr>ct_id = et_id t, ct_endpoint_url = et_endpoint_url t, ct_capabilities = et_capabilities t, ct_created_by = et_created_by t\<rparr>,
                rg\<lparr>rg_tokens := tbl_upd et_id (et_id t) (\<lambda>t. t\<lparr>et_uses := et_uses t + 1\<rparr>) (rg_tokens rg)\<rparr>))"

definition revoke_token :: "int \<Rightarrow> registry \<Rightarrow> registry" where
  "revoke_token token_id rg =
     rg\<lparr>rg_tokens := tbl_upd et_id token_id
         (\<lambda>t. t\<lparr>et_revoked_at := (case et_revoked_at t of None \<Rightarrow> Some (rg_clock rg) | Some r \<Rightarrow> Some r)\<rparr>) (rg_tokens rg)\<rparr>"

definition agent_counts :: "registry \<Rightarrow> int \<Rightarrow> nat" where
  "agent_counts rg token_id = length (filter (\<lambda>a. an_token_id a = Some token_id) (rg_agents rg))"

end
