(* ===== verification/Agent_Enrollment.thy ===== *)
theory Agent_Enrollment
  imports Agent_Registry
begin

text \<open>
  The requests that change the registry of agents, as a machine: the enrollment and link handshakes of
  \<open>api/ws_agents.py\<close> (what they do to the database, after the Noise handshake has authenticated the device key), the
  operator's decisions of \<open>api/agents.py\<close>, the frames of \<open>services/agent_link.py\<close> that touch the agent's row, and the
  nightly expiry. A request that raises is rolled back. The answers of Redis (the enrollment lock) are parts of the request.
\<close>

subsection \<open>Requests\<close>

datatype enroll_outcome =
    Enroll_closed int
  | Already_enrolled
  | Enrolled_active int
  | Awaiting_approval int
  | Enroll_raised

definition pin_server :: "int \<Rightarrow> string \<Rightarrow> registry \<Rightarrow> registry" where
  "pin_server i key_kind rg = upd_agent i (\<lambda>a. a\<lparr>an_pins := record_server_key_pin key_kind (rg_clock rg) (an_pins a)\<rparr>) rg"

text \<open>\<open>enroll_stream\<close>.\<close>

definition enroll ::
  "registry_env \<Rightarrow> string \<Rightarrow> device_facts \<Rightarrow> string option \<Rightarrow> string option \<Rightarrow> bool \<Rightarrow> string \<Rightarrow> registry \<Rightarrow> enroll_outcome \<times> registry" where
  "enroll env pk facts server_url token lock_acquired key_kind rg =
     (let existing = get_agent_by_device_pk rg pk; status = map_option an_status existing in
      if status = Some AS_revoked \<or> status = Some AS_rejected then (Enroll_closed 1008, rg)
      else if status = Some AS_active then (Already_enrolled, rg)
      else if token \<noteq> None \<and> token \<noteq> Some [] then
        (case consume_token env (the token) rg of
           None \<Rightarrow> (Enroll_closed 1008, rg)
         | Some (tok, rg1) \<Rightarrow>
             (case create_enrolled_agent pk facts tok rg1 of
                Inl _ \<Rightarrow> (Enroll_raised, rg)
              | Inr (i, rg2) \<Rightarrow> (Enrolled_active i, pin_server i key_kind rg2)))
      else case existing of
        Some a \<Rightarrow> (Awaiting_approval (an_id a), pin_server (an_id a) key_kind rg)
      | None \<Rightarrow>
          if \<not> lock_acquired then (Enroll_closed 1013, rg)
          else if MAX_CONCURRENT_PENDING_AGENTS \<le> count_pending_agents rg then (Enroll_closed 1013, rg)
          else (case create_pending_agent pk facts server_url rg of
                  Inl _ \<Rightarrow> (Enroll_raised, rg)
                | Inr (i, rg1) \<Rightarrow> (Awaiting_approval i, pin_server i key_kind rg1)))"

datatype link_outcome = Link_refused | Link_open int | Link_raised

definition hello_step :: "registry_env \<Rightarrow> int \<Rightarrow> hello_payload option \<Rightarrow> registry \<Rightarrow> registry" where
  "hello_step env i hello rg =
     (case (hello, get_agent rg i) of
        (Some p, Some a) \<Rightarrow>
          snd (update_hello_metadata env a p
            (upd_agent i (\<lambda>a. a\<lparr>an_pins := record_tls_pin (case hp_tls_pin_kind p of None \<Rightarrow> [] | Some k \<Rightarrow> k) (hp_tls_successor_ready p)
               (hp_tls_successor_fingerprint p) (rg_clock rg) (an_pins a)\<rparr>) rg))
      | _ \<Rightarrow> rg)"

text \<open>\<open>link_stream\<close> up to its first commit; a hello whose payload does not validate is None.\<close>

definition linked :: "registry_env \<Rightarrow> int \<Rightarrow> hello_payload option \<Rightarrow> string \<Rightarrow> registry \<Rightarrow> registry" where
  "linked env i hello key_kind rg =
     (let ack = (case hello of None \<Rightarrow> False | Some p \<Rightarrow> hp_ack_data p) in
      record_event i ''connected'' None None
        (upd_agent i (\<lambda>a. a\<lparr>an_pins := snd (record_data_ack_negotiated ack (an_pins a))\<rparr>)
          (hello_step env i hello (pin_server i key_kind rg))))"

definition link :: "registry_env \<Rightarrow> string \<Rightarrow> hello_payload option \<Rightarrow> string \<Rightarrow> registry \<Rightarrow> link_outcome \<times> registry" where
  "link env pk hello key_kind rg =
     (case resolve_agent_for_handshake rg pk of
        None \<Rightarrow> (Link_refused, rg)
      | Some a \<Rightarrow>
          if an_status a \<noteq> AS_active then (Link_refused, rg)
          else (case settle_device_key_rotation env a pk rg of
                  Inl _ \<Rightarrow> (Link_raised, rg)
                | Inr rg1 \<Rightarrow> (Link_open (an_id a), linked env (an_id a) hello key_kind rg1)))"

definition heartbeat ::
  "registry_env \<Rightarrow> int \<Rightarrow> (int \<times> int option) option \<Rightarrow> (int \<times> int \<times> instant option \<times> instant option) option \<Rightarrow> registry \<Rightarrow> registry" where
  "heartbeat env i spool evicted rg =
     (let rg1 = (case spool of None \<Rightarrow> rg
                 | Some (d, b) \<Rightarrow> upd_agent i (\<lambda>a. a\<lparr>an_spool := snd (record_spool_stats d b (rg_clock rg) (an_spool a))\<rparr>) rg) in
      case (evicted, get_agent rg1 i) of
        (Some (frames, bytes, oldest, newest), Some a) \<Rightarrow> snd (record_spool_evictions env a frames bytes oldest newest rg1)
      | _ \<Rightarrow> rg1)"

text \<open>\<open>delete_agent\<close>: refused while monitors or discovery profiles name the agent, else the row and what cascades from it.\<close>

definition delete_agent :: "int \<Rightarrow> nat \<Rightarrow> nat \<Rightarrow> registry \<Rightarrow> registry" where
  "delete_agent i assigned profiles rg =
     (if assigned > 0 \<or> profiles > 0 then rg
      else rg\<lparr>rg_agents := filter (\<lambda>a. an_id a \<noteq> i) (rg_agents rg), rg_grants := filter (\<lambda>g. cg_agent g \<noteq> i) (rg_grants rg),
              rg_networks := filter (\<lambda>n. nw_agent n \<noteq> i) (rg_networks rg), rg_events := filter (\<lambda>e. ae_agent e \<noteq> i) (rg_events rg)\<rparr>)"

definition or_rollback :: "registry \<Rightarrow> 'e + registry \<Rightarrow> registry" where
  "or_rollback rg r = (case r of Inl _ \<Rightarrow> rg | Inr rg' \<Rightarrow> rg')"

datatype agent_request =
    Enroll string device_facts "string option" "string option" bool string
  | Link string "hello_payload option" string
  | Heartbeat int "(int \<times> int option) option" "(int \<times> int \<times> instant option \<times> instant option) option"
  | Rotate_key int string
  | Uninstall int
  | Approve int "int option" "int option" "string option" "config option"
  | Reject int "int option"
  | Revoke int "int option" string
  | Put_capabilities int config "int option"
  | Relink int "int option" "int option"
  | Delete int nat nat
  | Expire_pending
  | Mint_token string string config int int "int option"
  | Revoke_token int
  | Tick nat

fun registry_step :: "registry_env \<Rightarrow> agent_request \<Rightarrow> registry \<Rightarrow> registry" where
  "registry_step env (Enroll pk facts url token lock kind) rg = snd (enroll env pk facts url token lock kind rg)"
| "registry_step env (Link pk hello kind) rg = snd (link env pk hello kind rg)"
| "registry_step env (Heartbeat i spool evicted) rg = heartbeat env i spool evicted rg"
| "registry_step env (Rotate_key i successor) rg =
     (case get_agent rg i of None \<Rightarrow> rg | Some a \<Rightarrow> snd (start_device_key_rotation env a successor None rg))"
| "registry_step env (Uninstall i) rg = or_rollback rg (revoke_agent i None (Some ''uninstalled by agent'') None rg)"
| "registry_step env (Approve i by hw act overrides) rg = or_rollback rg (approve_agent i by hw act overrides None rg)"
| "registry_step env (Reject i actor) rg = or_rollback rg (reject_agent i actor rg)"
| "registry_step env (Revoke i actor reason) rg =
     (if length (py_strip reason) < 3 then rg else or_rollback rg (revoke_agent i actor (Some reason) None rg))"
| "registry_step env (Put_capabilities i grants actor) rg =
     (if get_agent rg i = None then rg else or_rollback rg (set_capability_grants i grants actor rg))"
| "registry_step env (Relink i hw actor) rg = or_rollback rg (set_hardware_link i hw actor rg)"
| "registry_step env (Delete i assigned profiles) rg = delete_agent i assigned profiles rg"
| "registry_step env Expire_pending rg = snd (expire_stale_pending_agents rg)"
| "registry_step env (Mint_token plaintext endpoint caps ttl uses by) rg =
     or_rollback rg (bind_sum (token_capability_scope caps) (\<lambda>scope. mint_token env plaintext endpoint scope ttl uses by rg))"
| "registry_step env (Revoke_token t) rg = revoke_token t rg"
| "registry_step env (Tick d) rg = rg\<lparr>rg_clock := rg_clock rg + int d\<rparr>"

definition empty_registry :: "instant \<Rightarrow> registry" where
  "empty_registry now = \<lparr>rg_agents = [], rg_grants = [], rg_networks = [], rg_tokens = [], rg_events = [], rg_audit = [],
     rg_next_agent = 1, rg_next_token = 1, rg_clock = now\<rparr>"

subsection \<open>What the invariant speaks about\<close>

record agent_core =
  co_id :: int
  co_pk :: string
  co_pending :: "string option"
  co_status :: agent_status
  co_approved :: bool
  co_token :: "int option"

definition core :: "agent \<Rightarrow> agent_core" where
  "core a = \<lparr>co_id = an_id a, co_pk = an_device_pk a, co_pending = an_pending_pk a, co_status = an_status a, co_approved = (an_approved_at a \<noteq> None), co_token = an_token_id a\<rparr>"

definition cores :: "registry \<Rightarrow> agent_core list" where
  "cores rg = map core (rg_agents rg)"

definition valid_scope :: "config \<Rightarrow> bool" where
  "valid_scope caps = list_all (\<lambda>(name, v). \<not> isl (normalize_grant name v None)) caps"

abbreviation grant_key :: "capability_grant \<Rightarrow> int \<times> string" where
  "grant_key g \<equiv> (cg_agent g, cg_capability g)"

definition agents_ok :: "agent_core list \<Rightarrow> int \<Rightarrow> bool" where
  "agents_ok cs na = (distinct (map co_id cs) \<and> distinct (map co_pk cs) \<and> (\<forall>c\<in>set cs. co_id c < na \<and> (co_status c = AS_active \<longrightarrow> co_approved c)) \<and>
     length (filter (\<lambda>c. co_status c = AS_pending) cs) \<le> MAX_CONCURRENT_PENDING_AGENTS)"

definition grants_ok :: "agent_core list \<Rightarrow> capability_grant list \<Rightarrow> int \<Rightarrow> bool" where
  "grants_ok cs gs na = (keys_distinct grant_key gs \<and> (\<forall>g\<in>set gs. cg_agent g < na \<and> config_ok (cg_capability g) (cg_config g)) \<and>
     (\<forall>c\<in>set cs. co_approved c \<longrightarrow> (\<forall>(cap, _)\<in>set CAPABILITY_DEFINITIONS. (co_id c, cap) \<in> grant_key ` set gs)))"

definition tokens_ok :: "agent_core list \<Rightarrow> enrollment_token list \<Rightarrow> int \<Rightarrow> bool" where
  "tokens_ok cs ts nt = (distinct (map et_id ts) \<and> distinct (map et_hash ts) \<and>
     (\<forall>t\<in>set ts. et_id t < nt \<and> et_uses t \<le> et_max_uses t \<and> valid_scope (et_capabilities t) \<and>
        int (length (filter (\<lambda>c. co_token c = Some (et_id t)) cs)) \<le> et_uses t) \<and>
     (\<forall>c\<in>set cs. \<forall>t. co_token c = Some t \<longrightarrow> t < nt))"

definition registry_ok :: "registry \<Rightarrow> bool" where
  "registry_ok rg = (agents_ok (cores rg) (rg_next_agent rg) \<and> grants_ok (cores rg) (rg_grants rg) (rg_next_agent rg) \<and>
     tokens_ok (cores rg) (rg_tokens rg) (rg_next_token rg))"

lemmas ok_defs = agents_ok_def grants_ok_def tokens_ok_def

subsection \<open>Steps that leave the core alone\<close>

definition same_core :: "registry \<Rightarrow> registry \<Rightarrow> bool" where
  "same_core rg rg' = (cores rg' = cores rg \<and> rg_grants rg' = rg_grants rg \<and> rg_tokens rg' = rg_tokens rg \<and>
     rg_next_agent rg' = rg_next_agent rg \<and> rg_next_token rg' = rg_next_token rg)"

lemma same_core_ok: "same_core rg rg' \<Longrightarrow> registry_ok rg \<Longrightarrow> registry_ok rg'"
  by (simp add: same_core_def registry_ok_def)

lemma same_core_refl [simp, intro]: "same_core rg rg"
  by (simp add: same_core_def)

lemma same_core_trans: "same_core a b \<Longrightarrow> same_core b c \<Longrightarrow> same_core a c"
  by (simp add: same_core_def)

lemma record_event_frame [simp]:
  "rg_agents (record_event i ty act d rg) = rg_agents rg" "rg_grants (record_event i ty act d rg) = rg_grants rg"
  "rg_tokens (record_event i ty act d rg) = rg_tokens rg" "rg_networks (record_event i ty act d rg) = rg_networks rg"
  "rg_next_agent (record_event i ty act d rg) = rg_next_agent rg" "rg_next_token (record_event i ty act d rg) = rg_next_token rg"
  "rg_clock (record_event i ty act d rg) = rg_clock rg"
  by (simp_all add: record_event_def Let_def)

lemma upd_agent_frame [simp]:
  "rg_grants (upd_agent i f rg) = rg_grants rg" "rg_tokens (upd_agent i f rg) = rg_tokens rg" "rg_networks (upd_agent i f rg) = rg_networks rg"
  "rg_next_agent (upd_agent i f rg) = rg_next_agent rg" "rg_next_token (upd_agent i f rg) = rg_next_token rg"
  "rg_clock (upd_agent i f rg) = rg_clock rg" "rg_events (upd_agent i f rg) = rg_events rg" "rg_audit (upd_agent i f rg) = rg_audit rg"
  by (simp_all add: upd_agent_def)

lemma cores_frame [simp]: "cores (record_event i ty act d rg) = cores rg"
  by (simp add: cores_def)

lemma same_core_event [intro!]: "same_core rg rg' \<Longrightarrow> same_core rg (record_event i ty act d rg')"
  by (simp add: same_core_def)

lemma same_core_record: "same_core rg (record_event i ty act d rg)"
  by (simp add: same_core_def)

lemma core_tbl_upd: "(\<And>a. core (f a) = core a) \<Longrightarrow> map core (tbl_upd an_id i f rows) = map core rows"
  by (auto simp: tbl_upd_def)

lemma same_core_upd [intro!]: "same_core rg rg' \<Longrightarrow> (\<And>a. core (f a) = core a) \<Longrightarrow> same_core rg (upd_agent i f rg')"
  by (simp add: same_core_def cores_def upd_agent_def core_tbl_upd)

lemma same_core_networks [intro!]: "same_core rg rg' \<Longrightarrow> same_core rg (rg'\<lparr>rg_networks := ns\<rparr>)"
  by (simp add: same_core_def cores_def)

lemma same_core_store: "same_core rg rg' \<Longrightarrow> same_core rg (snd (store_network_facts i ns rg'))"
  by (auto simp: store_network_facts_def Let_def split: option.split)

lemma same_core_evictions: "same_core rg rg' \<Longrightarrow> same_core rg (snd (record_spool_evictions env a f b o' n rg'))"
  by (auto simp: record_spool_evictions_def Let_def core_def)

lemma same_core_hello: "same_core rg rg' \<Longrightarrow> same_core rg (snd (update_hello_metadata env a p rg'))"
proof -
  assume rg: "same_core rg rg'"
  have "same_core rg (resolve_update (an_id a) p a (upd_agent (an_id a) (\<lambda>b. b\<lparr>an_facts := hello_facts p (an_facts b)\<rparr>) rg'))"
    using rg by (auto simp: resolve_update_def core_def split: option.split)
  then show ?thesis
    by (auto simp: update_hello_metadata_def Let_def core_def split: option.split prod.split
        intro!: same_core_evictions dest: same_core_store [where ns = "the (hp_networks p)" and i = "an_id a"])
qed

lemma same_core_hello_step: "same_core rg rg' \<Longrightarrow> same_core rg (hello_step env i hello rg')"
  by (auto simp: hello_step_def core_def intro!: same_core_hello split: option.split)

lemma same_core_pin: "same_core rg rg' \<Longrightarrow> same_core rg (pin_server i k rg')"
  by (auto simp: pin_server_def core_def)

lemma same_core_heartbeat: "same_core rg (heartbeat env i spool evicted rg)"
  by (auto simp: heartbeat_def Let_def core_def intro!: same_core_evictions split: option.split)

lemma same_core_relink: "set_hardware_link i hw actor rg = Inr rg' \<Longrightarrow> same_core rg rg'"
  by (auto simp: set_hardware_link_def core_def split: option.splits if_splits)

subsection \<open>Steps that change the core\<close>

lemma cores_upd:
  assumes "\<And>a. core (f a) = g (core a)"
  shows "cores (upd_agent i f rg) = map (\<lambda>c. if co_id c = i then g c else c) (cores rg)"
  using assms by (auto simp: cores_def upd_agent_def tbl_upd_def core_def)

lemma filter_map_le: "(\<And>c. c \<in> set cs \<Longrightarrow> P (g c) \<Longrightarrow> P c) \<Longrightarrow> length (filter P (map g cs)) \<le> length (filter P cs)"
  by (induction cs) (auto simp: le_SucI)

lemma agents_ok_map:
  assumes "agents_ok cs na"
    "\<And>c. c \<in> set cs \<Longrightarrow> co_id (g c) = co_id c \<and> co_pk (g c) = co_pk c \<and> (co_status (g c) = AS_active \<longrightarrow> co_approved (g c)) \<and>
       (co_status (g c) = AS_pending \<longrightarrow> co_status c = AS_pending)"
  shows "agents_ok (map g cs) na"
proof -
  have keys: "map co_id (map g cs) = map co_id cs" "map co_pk (map g cs) = map co_pk cs" using assms(2) by auto
  have "length (filter (\<lambda>c. co_status c = AS_pending) (map g cs)) \<le> length (filter (\<lambda>c. co_status c = AS_pending) cs)"
    using assms(2) by (intro filter_map_le) auto
  with assms show ?thesis unfolding agents_ok_def keys by auto
qed

lemma grants_ok_map:
  assumes "grants_ok cs gs na" "\<And>c. c \<in> set cs \<Longrightarrow> co_id (g c) = co_id c \<and> (co_approved (g c) \<longrightarrow> co_approved c)"
  shows "grants_ok (map g cs) gs na"
  using assms by (auto simp: grants_ok_def)

lemma tokens_ok_map:
  assumes "tokens_ok cs ts nt" "\<And>c. c \<in> set cs \<Longrightarrow> co_token (g c) = co_token c"
  shows "tokens_ok (map g cs) ts nt"
proof -
  have "length (filter (\<lambda>c. co_token c = Some t) (map g cs)) = length (filter (\<lambda>c. co_token c = Some t) cs)" for t
    using assms(2) by (induction cs) auto
  then show ?thesis using assms by (auto simp: tokens_ok_def)
qed

text \<open>Leaving the fleet: revocation, rejection, expiry.\<close>

lemma leave_ok:
  assumes "registry_ok rg" "s = AS_revoked \<or> s = AS_rejected" "\<And>a. core (f a) = (core a)\<lparr>co_status := s\<rparr>"
  shows "registry_ok (record_event j ty act d (upd_agent i f rg))"
proof -
  let ?g = "\<lambda>c. if co_id c = i then c\<lparr>co_status := s\<rparr> else c"
  have c: "cores (record_event j ty act d (upd_agent i f rg)) = map ?g (cores rg)"
    using cores_upd [of f "\<lambda>c. c\<lparr>co_status := s\<rparr>"] assms(3) by simp
  show ?thesis unfolding registry_ok_def c
    using assms(1,2) by (intro conjI agents_ok_map grants_ok_map tokens_ok_map) (auto simp: registry_ok_def agents_ok_def)
qed

lemma expire_ok: "registry_ok rg \<Longrightarrow> registry_ok (snd (expire_stale_pending_agents rg))"
  unfolding expire_stale_pending_agents_def Let_def snd_conv
  by (rule fold_invariant [where Q = "\<lambda>_. True"]) (auto intro!: leave_ok [of _ AS_rejected] simp: core_def)

subsection \<open>Approval\<close>

lemma normalized_grants_Inr:
  assumes "normalized_grants gs = Inr grants"
  shows "map fst grants = map fst gs" "(cap, enabled, c) \<in> set grants \<Longrightarrow> config_ok cap c"
proof -
  have "list_all2 (\<lambda>(cap, v) g. \<exists>enabled c. normalize_grant cap v None = Inr (enabled, c) \<and> g = (cap, enabled, c)) gs grants"
    using assms unfolding normalized_grants_def traverse_Inr by (rule list_all2_mono) (auto split: sum.splits prod.splits)
  then show "map fst grants = map fst gs" "(cap, enabled, c) \<in> set grants \<Longrightarrow> config_ok cap c"
    by (induction rule: list_all2_induct) (auto dest: normalize_grant_ok)
qed

lemma keys_default_grants: "map fst default_grants = map fst CAPABILITY_DEFINITIONS"
  by (auto simp: default_grants_def)

lemma requested_keys:
  assumes "normalized_grants (dict_merge default_grants ov) = Inr grants"
  shows "distinct (map fst grants)" "cap \<in> fst ` set CAPABILITY_DEFINITIONS \<Longrightarrow> cap \<in> fst ` set grants"
proof -
  have "distinct (map fst default_grants)" by (simp add: keys_default_grants CAPABILITY_DEFINITIONS_def)
  then show "distinct (map fst grants)" by (simp only: normalized_grants_Inr(1) [OF assms] distinct_dict_merge)
  show "cap \<in> fst ` set grants" if "cap \<in> fst ` set CAPABILITY_DEFINITIONS"
    using that keys_kept [of default_grants ov] keys_set [OF keys_default_grants] keys_set [OF normalized_grants_Inr(1) [OF assms]] by auto
qed

text \<open>A row of the core and its grants join the tables.\<close>

lemma grants_ok_join:
  assumes "grants_ok cs gs na" "normalized_grants (dict_merge default_grants ov) = Inr grants" "i < na'" "na \<le> na'"
    "\<forall>g\<in>set gs. cg_agent g = i \<longrightarrow> cg_capability g \<notin> fst ` set grants"
    "\<And>c. c \<in> set cs' \<Longrightarrow> co_approved c \<Longrightarrow> co_id c = i \<or> (\<exists>c'\<in>set cs. co_id c' = co_id c \<and> co_approved c')"
  shows "grants_ok cs' (gs @ map (new_grant i by now) grants) na'"
proof -
  have new: "grant_key (new_grant i by now g) = (i, fst g)" for g by (simp add: new_grant_def)
  have "distinct (map grant_key (map (new_grant i by now) grants))"
    using requested_keys(1) [OF assms(2)] by (auto simp: new distinct_map inj_on_def new_grant_def)
  moreover have "set (map grant_key gs) \<inter> set (map grant_key (map (new_grant i by now) grants)) = {}"
    using assms(5) by (auto simp: new_grant_def)
  ultimately have "keys_distinct grant_key (gs @ map (new_grant i by now) grants)"
    using assms(1) by (simp add: grants_ok_def keys_distinct_def)
  moreover have "cg_agent g < na' \<and> config_ok (cg_capability g) (cg_config g)" if "g \<in> set (gs @ map (new_grant i by now) grants)" for g
    using that assms(1,3,4) normalized_grants_Inr(2) [OF assms(2)] by (force simp: grants_ok_def new_grant_def)
  moreover have "(co_id c, cap) \<in> grant_key ` set (gs @ map (new_grant i by now) grants)"
    if "c \<in> set cs'" "co_approved c" "(cap, d) \<in> set CAPABILITY_DEFINITIONS" for c cap d
  proof (cases "co_id c = i")
    case True
    have "cap \<in> fst ` set grants" using requested_keys(2) [OF assms(2)] that(3) by force
    with True show ?thesis by (force simp: new_grant_def)
  next
    case False
    with assms(6) [OF that(1,2)] obtain c' where "c' \<in> set cs" "co_id c' = co_id c" "co_approved c'" by blast
    with assms(1) that(3) show ?thesis by (fastforce simp: grants_ok_def)
  qed
  ultimately show ?thesis by (auto simp: grants_ok_def)
qed

lemma approve_Inr:
  assumes "approve_agent i by hw act ov via rg = Inr rg'"
  obtains grants where "normalized_grants (dict_merge default_grants (case ov of None \<Rightarrow> [] | Some o' \<Rightarrow> o')) = Inr grants"
    "\<forall>g\<in>set (rg_grants rg). cg_agent g = i \<longrightarrow> cg_capability g \<notin> fst ` set grants" "get_agent rg i \<noteq> None"
    "cores rg' = map (\<lambda>c. if co_id c = i then c\<lparr>co_status := AS_active, co_approved := True\<rparr> else c) (cores rg)"
    "rg_grants rg' = rg_grants rg @ map (new_grant i by (rg_clock rg)) grants" "rg_tokens rg' = rg_tokens rg"
    "rg_next_agent rg' = rg_next_agent rg" "rg_next_token rg' = rg_next_token rg"
proof -
  from assms obtain grants where g: "normalized_grants (dict_merge default_grants (case ov of None \<Rightarrow> [] | Some o' \<Rightarrow> o')) = Inr grants"
    "\<not> list_ex (\<lambda>g. cg_agent g = i \<and> cg_capability g \<in> set (map fst grants)) (rg_grants rg)" "get_agent rg i \<noteq> None"
    "rg' = record_event i ''approved'' by (approve_detail hw act via)
      (upd_agent i (\<lambda>a. a\<lparr>an_status := AS_active, an_approved_at := Some (rg_clock rg), an_approved_by := by,
          an_hardware_id := (case hw of None \<Rightarrow> an_hardware_id a | Some h \<Rightarrow> Some h)\<rparr>)
        (rg\<lparr>rg_grants := rg_grants rg @ map (new_grant i by (rg_clock rg)) grants\<rparr>))"
    by (auto simp: approve_agent_def bind_sum_Inr split: option.splits if_splits)
  have "cores rg' = map (\<lambda>c. if co_id c = i then c\<lparr>co_status := AS_active, co_approved := True\<rparr> else c) (cores rg)"
    unfolding g(4) cores_frame by (subst cores_upd [where g = "\<lambda>c. c\<lparr>co_status := AS_active, co_approved := True\<rparr>"]) (auto simp: core_def cores_def)
  with g show ?thesis by (intro that) (auto simp: list_ex_iff)
qed

lemma approve_ok:
  assumes "registry_ok rg" "approve_agent i by hw act ov via rg = Inr rg'"
  shows "registry_ok rg'"
proof -
  obtain grants where g: "normalized_grants (dict_merge default_grants (case ov of None \<Rightarrow> [] | Some o' \<Rightarrow> o')) = Inr grants"
    "\<forall>g\<in>set (rg_grants rg). cg_agent g = i \<longrightarrow> cg_capability g \<notin> fst ` set grants" "get_agent rg i \<noteq> None"
    "cores rg' = map (\<lambda>c. if co_id c = i then c\<lparr>co_status := AS_active, co_approved := True\<rparr> else c) (cores rg)"
    "rg_grants rg' = rg_grants rg @ map (new_grant i by (rg_clock rg)) grants" "rg_tokens rg' = rg_tokens rg"
    "rg_next_agent rg' = rg_next_agent rg" "rg_next_token rg' = rg_next_token rg"
    by (rule approve_Inr [OF assms(2)])
  let ?g = "\<lambda>c. if co_id c = i then c\<lparr>co_status := AS_active, co_approved := True\<rparr> else c"
  have "i < rg_next_agent rg" using assms(1) g(3)
    by (auto simp: registry_ok_def agents_ok_def cores_def core_def get_agent_def dest!: tbl_get_Some)
  then have "grants_ok (map ?g (cores rg)) (rg_grants rg @ map (new_grant i by (rg_clock rg)) grants) (rg_next_agent rg)"
    using assms(1) g(1,2) by (intro grants_ok_join [of "cores rg"]) (auto simp: registry_ok_def split: if_splits)
  then show ?thesis unfolding registry_ok_def g
    using assms(1) by (intro conjI agents_ok_map tokens_ok_map) (auto simp: registry_ok_def agents_ok_def)
qed

subsection \<open>New agents\<close>

definition new_core :: "int \<Rightarrow> string \<Rightarrow> agent_status \<Rightarrow> int option \<Rightarrow> agent_core" where
  "new_core i pk s t = \<lparr>co_id = i, co_pk = pk, co_pending = None, co_status = s, co_approved = (s = AS_active), co_token = t\<rparr>"

lemma create_pending_Inr:
  assumes "create_pending_agent pk facts via rg = Inr (i, rg')"
  shows "i = rg_next_agent rg" "cores rg' = cores rg @ [new_core i pk AS_pending None]" "pk \<notin> co_pk ` set (cores rg)"
    "rg_grants rg' = rg_grants rg" "rg_tokens rg' = rg_tokens rg" "rg_next_agent rg' = i + 1" "rg_next_token rg' = rg_next_token rg"
    "rg_clock rg' = rg_clock rg"
  using assms by (auto simp: create_pending_agent_def Let_def get_agent_by_device_pk_def tbl_get_None cores_def core_def new_core_def
      image_image split: if_splits)

lemma agents_ok_append:
  assumes "agents_ok cs na" "pk \<notin> co_pk ` set cs"
    "s \<noteq> AS_pending \<or> length (filter (\<lambda>c. co_status c = AS_pending) cs) < MAX_CONCURRENT_PENDING_AGENTS"
  shows "agents_ok (cs @ [new_core na pk s t]) (na + 1)"
  using assms by (force simp: agents_ok_def new_core_def)

lemma tokens_ok_append:
  assumes "tokens_ok cs ts nt"
  shows "tokens_ok (cs @ [new_core i pk s None]) ts nt"
  using assms by (auto simp: tokens_ok_def new_core_def)

lemma create_pending_ok:
  assumes "registry_ok rg" "create_pending_agent pk facts via rg = Inr (i, rg')" "count_pending_agents rg < MAX_CONCURRENT_PENDING_AGENTS"
  shows "registry_ok rg'"
proof -
  note c = create_pending_Inr [OF assms(2)]
  have "length (filter (\<lambda>c. co_status c = AS_pending) (cores rg)) < MAX_CONCURRENT_PENDING_AGENTS"
    using assms(3) by (simp add: count_pending_agents_def cores_def filter_map comp_def core_def)
  moreover have "grants_ok (cores rg @ [new_core i pk AS_pending None]) (rg_grants rg) (rg_next_agent rg + 1)"
    using assms(1) by (auto simp: registry_ok_def grants_ok_def new_core_def)
  ultimately show ?thesis unfolding registry_ok_def c(2-)
    using assms(1) c(1,3) agents_ok_append [of "cores rg" "rg_next_agent rg" pk AS_pending None] tokens_ok_append
    by (auto simp: registry_ok_def)
qed

lemma create_enrolled_Inr:
  assumes "registry_ok rg" "create_enrolled_agent pk facts tok rg = Inr (i, rg')"
  obtains grants where "i = rg_next_agent rg" "pk \<notin> co_pk ` set (cores rg)"
    "normalized_grants (dict_merge default_grants (ct_capabilities tok)) = Inr grants"
    "cores rg' = cores rg @ [new_core i pk AS_active (Some (ct_id tok))]"
    "rg_grants rg' = rg_grants rg @ map (new_grant i (ct_created_by tok) (rg_clock rg)) grants"
    "rg_tokens rg' = rg_tokens rg" "rg_next_agent rg' = i + 1" "rg_next_token rg' = rg_next_token rg"
proof -
  let ?ov = "if ct_capabilities tok = [] then None else Some (ct_capabilities tok)"
  from assms(2) obtain rg1 where rg1: "create_pending_agent pk facts (Some (ct_endpoint_url tok)) rg = Inr (i, rg1)"
    and a: "approve_agent i (ct_created_by tok) None None ?ov (Some ''enrollment_token'')
      (upd_agent i (\<lambda>a. a\<lparr>an_token_id := Some (ct_id tok)\<rparr>) rg1) = Inr rg'"
    by (auto simp: create_enrolled_agent_def bind_sum_Inr)
  note c = create_pending_Inr [OF rg1]
  have fresh: "\<forall>c\<in>set (cores rg). co_id c \<noteq> i" using assms(1) c(1) by (auto simp: registry_ok_def agents_ok_def)
  have "cores (upd_agent i (\<lambda>a. a\<lparr>an_token_id := Some (ct_id tok)\<rparr>) rg1) =
      map (\<lambda>c. if co_id c = i then c\<lparr>co_token := Some (ct_id tok)\<rparr> else c) (cores rg1)"
    by (rule cores_upd) (simp add: core_def)
  also have "\<dots> = cores rg @ [(new_core i pk AS_pending None)\<lparr>co_token := Some (ct_id tok)\<rparr>]"
    using fresh by (auto simp: c(2) new_core_def intro!: map_idI)
  finally have t: "cores (upd_agent i (\<lambda>a. a\<lparr>an_token_id := Some (ct_id tok)\<rparr>) rg1) =
      cores rg @ [(new_core i pk AS_pending None)\<lparr>co_token := Some (ct_id tok)\<rparr>]" .
  show ?thesis
  proof (rule approve_Inr [OF a], goal_cases)
    case (1 grants)
    have "(case ?ov of None \<Rightarrow> [] | Some o' \<Rightarrow> o') = ct_capabilities tok" by simp
    moreover have "cores rg' = cores rg @ [new_core i pk AS_active (Some (ct_id tok))]"
      unfolding 1(4) t using fresh by (auto simp: new_core_def intro!: map_idI)
    ultimately show ?thesis using that 1 c by (simp del: option.case)
  qed
qed

lemma create_enrolled_ok:
  assumes "registry_ok rg" "create_enrolled_agent pk facts tok rg = Inr (i, rg')" "ct_id tok < rg_next_token rg"
    "\<forall>t\<in>set (rg_tokens rg). et_id t = ct_id tok \<longrightarrow>
       int (length (filter (\<lambda>c. co_token c = Some (ct_id tok)) (cores rg))) < et_uses t"
  shows "registry_ok rg'"
proof -
  obtain grants where c: "i = rg_next_agent rg" "pk \<notin> co_pk ` set (cores rg)"
    "normalized_grants (dict_merge default_grants (ct_capabilities tok)) = Inr grants"
    "cores rg' = cores rg @ [new_core i pk AS_active (Some (ct_id tok))]"
    "rg_grants rg' = rg_grants rg @ map (new_grant i (ct_created_by tok) (rg_clock rg)) grants"
    "rg_tokens rg' = rg_tokens rg" "rg_next_agent rg' = i + 1" "rg_next_token rg' = rg_next_token rg"
    by (rule create_enrolled_Inr [OF assms(1,2)])
  have "agents_ok (cores rg') (rg_next_agent rg')"
    unfolding c(1,4,7) using assms(1) c(2) by (intro agents_ok_append) (simp_all add: registry_ok_def)
  moreover have "grants_ok (cores rg') (rg_grants rg') (rg_next_agent rg')"
    unfolding c(4,5,7) using assms(1) c(1,3)
    by (intro grants_ok_join [of "cores rg"]) (auto simp: registry_ok_def grants_ok_def new_core_def)
  moreover have "tokens_ok (cores rg') (rg_tokens rg') (rg_next_token rg')"
    unfolding c(4,6,8) using assms(1,3,4) by (auto simp: registry_ok_def tokens_ok_def new_core_def)
  ultimately show ?thesis by (simp add: registry_ok_def)
qed

subsection \<open>Tokens\<close>

lemma tokens_ok_upd:
  assumes "tokens_ok cs ts nt"
    "\<And>t. t \<in> set ts \<Longrightarrow> et_id t = i \<Longrightarrow> et_id (f t) = et_id t \<and> et_hash (f t) = et_hash t \<and> et_capabilities (f t) = et_capabilities t \<and>
       et_max_uses (f t) = et_max_uses t \<and> et_uses t \<le> et_uses (f t) \<and> et_uses (f t) \<le> et_max_uses t"
  shows "tokens_ok cs (tbl_upd et_id i f ts) nt"
proof -
  have keys: "map et_id (tbl_upd et_id i f ts) = map et_id ts" "map et_hash (tbl_upd et_id i f ts) = map et_hash ts"
    using assms(2) by (auto simp: tbl_upd_def)
  have "et_id t < nt \<and> et_uses t \<le> et_max_uses t \<and> valid_scope (et_capabilities t) \<and>
      int (length (filter (\<lambda>c. co_token c = Some (et_id t)) cs)) \<le> et_uses t" if "t \<in> set (tbl_upd et_id i f ts)" for t
  proof -
    from that obtain u where u: "u \<in> set ts" "t = (if et_id u = i then f u else u)" by (auto simp: tbl_upd_def)
    with assms(1) assms(2) [OF u(1)] show ?thesis by (auto simp: tokens_ok_def intro: order_trans)
  qed
  with assms(1) show ?thesis unfolding tokens_ok_def keys by blast
qed

lemma consume_Some:
  assumes "consume_token env plaintext rg = Some (tok, rg')"
  obtains t where "t \<in> set (rg_tokens rg)" "token_live (rg_clock rg) t" "et_hash t = re_token_hash env plaintext"
    "tok = \<lparr>ct_id = et_id t, ct_endpoint_url = et_endpoint_url t, ct_capabilities = et_capabilities t, ct_created_by = et_created_by t\<rparr>"
    "rg' = rg\<lparr>rg_tokens := tbl_upd et_id (et_id t) (\<lambda>t. t\<lparr>et_uses := et_uses t + 1\<rparr>) (rg_tokens rg)\<rparr>"
  using assms by (auto simp: consume_token_def split: option.splits dest!: find_Some_conv)

lemma consume_ok:
  assumes "registry_ok rg" "consume_token env plaintext rg = Some (tok, rg')"
  shows "registry_ok rg'" "cores rg' = cores rg" "ct_id tok < rg_next_token rg'"
    "\<forall>t\<in>set (rg_tokens rg'). et_id t = ct_id tok \<longrightarrow>
       int (length (filter (\<lambda>c. co_token c = Some (ct_id tok)) (cores rg'))) < et_uses t"
proof -
  obtain t where t: "t \<in> set (rg_tokens rg)" "token_live (rg_clock rg) t"
    "tok = \<lparr>ct_id = et_id t, ct_endpoint_url = et_endpoint_url t, ct_capabilities = et_capabilities t, ct_created_by = et_created_by t\<rparr>"
    "rg' = rg\<lparr>rg_tokens := tbl_upd et_id (et_id t) (\<lambda>t. t\<lparr>et_uses := et_uses t + 1\<rparr>) (rg_tokens rg)\<rparr>"
    by (rule consume_Some [OF assms(2)])
  have tok: "tokens_ok (cores rg) (rg_tokens rg) (rg_next_token rg)" using assms(1) by (simp add: registry_ok_def)
  have same: "u = t" if "u \<in> set (rg_tokens rg)" "et_id u = et_id t" for u
    using that t(1) tok by (auto simp: tokens_ok_def distinct_map inj_on_def)
  show cs: "cores rg' = cores rg" by (simp add: t(4) cores_def)
  have "tokens_ok (cores rg) (tbl_upd et_id (et_id t) (\<lambda>t. t\<lparr>et_uses := et_uses t + 1\<rparr>) (rg_tokens rg)) (rg_next_token rg)"
    using tok t(2) by (intro tokens_ok_upd) (auto simp: token_live_def dest!: same)
  with assms(1) show "registry_ok rg'" by (simp add: registry_ok_def cs) (simp add: t(4))
  show "ct_id tok < rg_next_token rg'" using tok t(1) by (simp add: t(3,4) tokens_ok_def)
  show "\<forall>u\<in>set (rg_tokens rg'). et_id u = ct_id tok \<longrightarrow> int (length (filter (\<lambda>c. co_token c = Some (ct_id tok)) (cores rg'))) < et_uses u"
    unfolding cs using tok by (auto simp: t(3,4) tbl_upd_def tokens_ok_def split: if_splits)
qed

lemma valid_scope_merge: "list_all P b \<Longrightarrow> list_all P a \<Longrightarrow> list_all P (dict_merge a b)"
proof (induction b arbitrary: a)
  case (Cons p b)
  obtain k v where p: "p = (k, v)" by (cases p)
  have "list_all P (AList.update k v a)" using Cons.prems by (induction a) (auto simp: p)
  with Cons show ?case by (simp add: p dict_merge_Cons)
qed simp

lemma token_scope_valid: "token_capability_scope caps = Inr scope \<Longrightarrow> valid_scope scope"
proof -
  assume "token_capability_scope caps = Inr scope"
  then obtain s where s: "list_all2 (\<lambda>(name, v) w. (case normalize_grant name v None of Inl e \<Rightarrow> Inl (Token_scope e) | Inr _ \<Rightarrow> Inr (name, v)) = Inr w) caps s"
    "scope = dict_merge [] s"
    by (auto simp: token_capability_scope_def bind_sum_Inr traverse_Inr case_prod_beta')
  have "valid_scope s" using s(1) unfolding valid_scope_def
    by (induction rule: list_all2_induct) (auto split: sum.splits)
  then show ?thesis unfolding s(2) valid_scope_def by (intro valid_scope_merge) simp_all
qed

lemma mint_ok:
  assumes "registry_ok rg" "mint_token env plaintext endpoint caps ttl uses by rg = Inr rg'" "valid_scope caps"
  shows "registry_ok rg'"
proof -
  have none: "filter (\<lambda>c. co_token c = Some (rg_next_token rg)) (cores rg) = []"
    using assms(1) by (auto simp: registry_ok_def tokens_ok_def filter_empty_conv)
  from assms(2) obtain t where t: "rg' = rg\<lparr>rg_tokens := rg_tokens rg @ [t], rg_next_token := rg_next_token rg + 1\<rparr>"
    "et_id t = rg_next_token rg" "et_uses t = 0" "1 \<le> et_max_uses t" "et_capabilities t = caps" "et_hash t \<notin> et_hash ` set (rg_tokens rg)"
    by (force simp: mint_token_def list_ex_iff split: if_splits)
  have "tokens_ok (cores rg) (rg_tokens rg @ [t]) (rg_next_token rg + 1)"
    using assms(1,3) none t(2-) by (force simp: registry_ok_def tokens_ok_def)
  with assms(1) show ?thesis by (simp add: t(1) registry_ok_def cores_def)
qed

lemma revoke_token_ok: "registry_ok rg \<Longrightarrow> registry_ok (revoke_token i rg)"
proof -
  assume "registry_ok rg"
  moreover from this have "tokens_ok (cores rg) (rg_tokens (revoke_token i rg)) (rg_next_token rg)"
    unfolding revoke_token_def by (simp, intro tokens_ok_upd) (auto simp: registry_ok_def tokens_ok_def)
  ultimately show ?thesis by (simp add: registry_ok_def revoke_token_def cores_def)
qed

subsection \<open>Grants and keys\<close>

lemma keys_upd_grant:
  "map grant_key (tbl_upd grant_key k (\<lambda>g. g\<lparr>cg_enabled := e, cg_config := c, cg_granted_by := b, cg_granted_at := t\<rparr>) gs) = map grant_key gs"
  by (rule row_update.map_key_upd [OF row_update.intro]) simp

lemma put_grant_frame: "rg_agents (put_grant i actor cap e c rg) = rg_agents rg" "rg_tokens (put_grant i actor cap e c rg) = rg_tokens rg"
  "rg_next_agent (put_grant i actor cap e c rg) = rg_next_agent rg" "rg_next_token (put_grant i actor cap e c rg) = rg_next_token rg"
  by (simp_all add: put_grant_def split: option.split)

lemma put_grant_ok:
  assumes "registry_ok rg" "config_ok cap c" "i < rg_next_agent rg"
  shows "registry_ok (put_grant i actor cap e c rg)"
proof -
  let ?f = "\<lambda>g. g\<lparr>cg_enabled := e, cg_config := c, cg_granted_by := actor, cg_granted_at := rg_clock rg\<rparr>"
  have g: "grants_ok (cores rg) (rg_grants rg) (rg_next_agent rg)" using assms(1) by (simp add: registry_ok_def)
  have "grants_ok (cores rg) (rg_grants (put_grant i actor cap e c rg)) (rg_next_agent rg)"
  proof (cases "get_grant rg i cap")
    case None
    then have "(i, cap) \<notin> grant_key ` set (rg_grants rg)" by (simp add: get_grant_def tbl_get_None)
    with None g assms(2,3) show ?thesis by (auto simp: put_grant_def grants_ok_def keys_distinct_def new_grant_def)
  next
    case (Some h)
    let ?gs = "tbl_upd grant_key (i, cap) ?f (rg_grants rg)"
    have keys: "map grant_key ?gs = map grant_key (rg_grants rg)" by (rule keys_upd_grant)
    have "grant_key ` set ?gs = grant_key ` set (rg_grants rg)" using arg_cong [OF keys, of set] by (simp only: set_map)
    moreover have "keys_distinct grant_key ?gs" using g by (simp only: grants_ok_def keys_distinct_def keys)
    moreover have "cg_agent h < rg_next_agent rg \<and> config_ok (cg_capability h) (cg_config h)" if "h \<in> set ?gs" for h
      using that g assms(2) by (auto simp: grants_ok_def tbl_upd_def)
    ultimately show ?thesis using Some g by (simp add: put_grant_def grants_ok_def)
  qed
  with assms(1) show ?thesis by (simp add: registry_ok_def cores_def put_grant_frame)
qed

lemma set_grants_ok:
  "set_grants before i actor grants detail rg = Inr (detail', rg') \<Longrightarrow> registry_ok rg \<Longrightarrow> i < rg_next_agent rg \<Longrightarrow> registry_ok rg'"
proof (induction before i actor grants detail rg rule: set_grants.induct)
  case (2 before i actor cap v grants detail rg)
  then obtain e c where n: "normalize_grant cap v (map_option cg_config (get_grant before i cap)) = Inr (e, c)"
    and rest: "set_grants before i actor grants (detail @ [(cap, JObj [(''enabled'', JBool e), (''config'', JObj c)])])
      (put_grant i actor cap e c rg) = Inr (detail', rg')"
    by (auto split: sum.splits prod.splits)
  show ?case
    using 2(1) [OF n refl rest] put_grant_ok [OF 2(3) normalize_grant_ok [OF n] 2(4)] 2(4) by (simp add: put_grant_frame)
qed simp

text \<open>Starting a rotation and settling one change the keys of one row.\<close>

lemma keys_ok:
  assumes "registry_ok rg" "cores rg' = map (\<lambda>c. if co_id c = i then c\<lparr>co_pk := k c, co_pending := p\<rparr> else c) (cores rg)"
    "rg_grants rg' = rg_grants rg" "rg_tokens rg' = rg_tokens rg" "rg_next_agent rg' = rg_next_agent rg" "rg_next_token rg' = rg_next_token rg"
    "\<And>c b. c \<in> set (cores rg) \<Longrightarrow> b \<in> set (cores rg) \<Longrightarrow> co_id c = i \<Longrightarrow> co_pk b = k c \<Longrightarrow> co_id b = i"
  shows "registry_ok rg'"
proof -
  let ?g = "\<lambda>c. if co_id c = i then c\<lparr>co_pk := k c, co_pending := p\<rparr> else c"
  have ok: "agents_ok (cores rg) (rg_next_agent rg)" using assms(1) by (simp add: registry_ok_def)
  have one: "c = b" if "c \<in> set (cores rg)" "b \<in> set (cores rg)" "co_id c = co_id b" for b c
    using ok that by (auto simp: agents_ok_def distinct_map inj_on_def)
  have pk: "c = b" if "c \<in> set (cores rg)" "b \<in> set (cores rg)" "co_pk c = co_pk b" for b c
    using ok that by (auto simp: agents_ok_def distinct_map inj_on_def)
  have "distinct (cores rg)" using ok by (simp add: agents_ok_def distinct_map)
  moreover have "inj_on (co_pk \<circ> ?g) (set (cores rg))"
  proof (rule inj_onI)
    fix c b assume m: "c \<in> set (cores rg)" "b \<in> set (cores rg)" and e: "(co_pk \<circ> ?g) c = (co_pk \<circ> ?g) b"
    then have "co_id c = i \<longleftrightarrow> co_id b = i"
      using assms(7) [OF m(1) m(2)] assms(7) [OF m(2) m(1)] by (auto split: if_splits)
    with e show "c = b" using one [OF m] pk [OF m] by (cases "co_id c = i") simp_all
  qed
  ultimately have "distinct (map co_pk (map ?g (cores rg)))" by (simp add: distinct_map)
  moreover have ids: "map co_id (map ?g (cores rg)) = map co_id (cores rg)" by auto
  moreover have "length (filter (\<lambda>c. co_status c = AS_pending) (map ?g (cores rg))) \<le> length (filter (\<lambda>c. co_status c = AS_pending) (cores rg))"
    by (rule filter_map_le) (auto split: if_splits)
  ultimately have "agents_ok (map ?g (cores rg)) (rg_next_agent rg)"
    using ok unfolding agents_ok_def ids by (auto split: if_splits)
  with assms(1) show ?thesis unfolding registry_ok_def assms(2-6)
    by (auto simp: registry_ok_def intro!: grants_ok_map tokens_ok_map split: if_splits)
qed

lemma rotation_ok: "registry_ok rg \<Longrightarrow> registry_ok (snd (start_device_key_rotation env a s w rg))"
proof -
  assume ok: "registry_ok rg"
  have "registry_ok (upd_agent (an_id a) (\<lambda>b. b\<lparr>an_pending_pk := Some s, an_pending_expiry := Some e\<rparr>) rg)" for e
    by (rule keys_ok [OF ok cores_upd [where g = "\<lambda>c. c\<lparr>co_pk := co_pk c, co_pending := Some s\<rparr>"]])
      (use ok in \<open>auto simp: core_def registry_ok_def agents_ok_def distinct_map inj_on_def\<close>)
  then show ?thesis using ok same_core_ok [OF same_core_record]
    by (simp add: start_device_key_rotation_def rotation_rejected_def Let_def)
qed

text \<open>What a settlement does to the core: nothing, a dropped pending key, or a promoted one.\<close>

lemma settle_cores:
  assumes "settle_device_key_rotation env a key rg = Inr rg'"
  obtains "same_core rg rg'" "an_pending_pk a \<noteq> Some key"
    | "same_core (upd_agent (an_id a) (\<lambda>b. b\<lparr>an_pending_pk := None, an_pending_expiry := None\<rparr>) rg) rg'" "an_pending_pk a \<noteq> Some key"
    | "same_core (upd_agent (an_id a) (\<lambda>b. b\<lparr>an_device_pk := key, an_pending_pk := None, an_pending_expiry := None\<rparr>) rg) rg'"
      "\<forall>c\<in>set (cores rg). co_pk c = key \<longrightarrow> co_id c = an_id a" "an_pending_pk a = Some key"
  using assms by (auto simp: settle_device_key_rotation_def list_ex_iff cores_def core_def same_core_record split: option.splits if_splits)

lemma settle_ok:
  assumes "registry_ok rg" "settle_device_key_rotation env a key rg = Inr rg'"
  shows "registry_ok rg'"
proof (rule settle_cores [OF assms(2)])
  assume "same_core rg rg'"
  then show ?thesis using assms(1) by (rule same_core_ok)
next
  assume s: "same_core (upd_agent (an_id a) (\<lambda>b. b\<lparr>an_pending_pk := None, an_pending_expiry := None\<rparr>) rg) rg'"
  show ?thesis
    by (rule same_core_ok [OF s keys_ok [OF assms(1) cores_upd [where g = "\<lambda>c. c\<lparr>co_pk := co_pk c, co_pending := None\<rparr>"]]])
      (use assms(1) in \<open>auto simp: core_def registry_ok_def agents_ok_def distinct_map inj_on_def\<close>)
next
  assume s: "same_core (upd_agent (an_id a) (\<lambda>b. b\<lparr>an_device_pk := key, an_pending_pk := None, an_pending_expiry := None\<rparr>) rg) rg'"
    "\<forall>c\<in>set (cores rg). co_pk c = key \<longrightarrow> co_id c = an_id a"
  show ?thesis
    by (rule same_core_ok [OF s(1) keys_ok [OF assms(1) cores_upd [where g = "\<lambda>c. c\<lparr>co_pk := key, co_pending := None\<rparr>"]]])
      (use s(2) in \<open>auto simp: core_def\<close>)
qed

subsection \<open>Every request keeps the invariant\<close>

lemma same_core_linked: "same_core rg (linked env i hello kind rg)"
  unfolding linked_def Let_def
  by (intro same_core_event same_core_upd same_core_hello_step same_core_pin same_core_refl) (simp add: core_def)

lemma link_ok:
  assumes "registry_ok rg"
  shows "registry_ok (snd (link env pk hello kind rg))"
  using assms settle_ok [OF assms] same_core_ok [OF same_core_linked] by (simp add: link_def split: option.split sum.split)

lemma enroll_ok:
  assumes "registry_ok rg"
  shows "registry_ok (snd (enroll env pk facts url token lock kind rg))"
proof -
  have pin: "registry_ok (pin_server i kind r)" if "registry_ok r" for i r
    using same_core_ok [OF same_core_pin [OF same_core_refl] that] .
  have tok: "registry_ok rg2" if "consume_token env p rg = Some (t, rg1)" "create_enrolled_agent pk facts t rg1 = Inr (i, rg2)" for p t rg1 i rg2
    using consume_ok [OF assms that(1)] create_enrolled_ok [OF _ that(2)] by blast
  show ?thesis
    using assms by (auto simp: enroll_def Let_def not_le split: option.split sum.split intro!: pin dest: tok create_pending_ok)
qed

lemma delete_ok:
  assumes "registry_ok rg"
  shows "registry_ok (delete_agent i n m rg)"
proof -
  have c: "cores (rg\<lparr>rg_agents := filter (\<lambda>a. an_id a \<noteq> i) (rg_agents rg)\<rparr>) = filter (\<lambda>c. co_id c \<noteq> i) (cores rg)"
    by (simp add: cores_def filter_map comp_def core_def)
  have len: "length (filter P (filter Q cs)) \<le> length (filter P cs)" for P Q and cs :: "agent_core list"
    by (induction cs) auto
  have "agents_ok (filter (\<lambda>c. co_id c \<noteq> i) cs) na" if "agents_ok cs na" for cs na
    using that order_trans [OF len] by (auto simp: agents_ok_def distinct_map_filter simp del: filter_filter)
  moreover have "grants_ok (filter (\<lambda>c. co_id c \<noteq> i) cs) (filter (\<lambda>g. cg_agent g \<noteq> i) gs) na" if "grants_ok cs gs na" for cs gs na
    using that by (fastforce simp: grants_ok_def keys_distinct_def distinct_map_filter)
  moreover have "tokens_ok (filter (\<lambda>c. co_id c \<noteq> i) cs) ts nt" if "tokens_ok cs ts nt" for cs ts nt
    using that order_trans [OF of_nat_mono [OF len, where 'a = int]] by (auto simp: tokens_ok_def simp del: filter_filter)
  ultimately show ?thesis using assms c by (simp add: delete_agent_def registry_ok_def cores_def)
qed

lemma or_rollback_ok: "registry_ok rg \<Longrightarrow> (\<And>rg'. r = Inr rg' \<Longrightarrow> registry_ok rg') \<Longrightarrow> registry_ok (or_rollback rg r)"
  by (simp add: or_rollback_def split: sum.split)

lemma decision_ok:
  "registry_ok rg \<Longrightarrow> revoke_agent i actor reason via rg = Inr rg' \<Longrightarrow> registry_ok rg'"
  "registry_ok rg \<Longrightarrow> reject_agent i actor rg = Inr rg' \<Longrightarrow> registry_ok rg'"
  using leave_ok [of rg AS_revoked] leave_ok [of rg AS_rejected]
  by (auto simp: revoke_agent_def reject_agent_def core_def split: option.splits)

lemma registry_step_ok: "registry_ok rg \<Longrightarrow> registry_ok (registry_step env r rg)"
proof (induction env r rg rule: registry_step.induct)
  case (9 env i grants actor rg)
  have "i < rg_next_agent rg" if "get_agent rg i \<noteq> None"
    using 9 that by (auto simp: registry_ok_def agents_ok_def cores_def core_def get_agent_def dest!: tbl_get_Some)
  with 9 show ?case
    by (auto simp: set_capability_grants_def bind_sum_Inr intro!: or_rollback_ok same_core_ok [OF same_core_event [OF same_core_refl]] dest: set_grants_ok)
next
  case (13 env plaintext endpoint caps ttl n u rg)
  then show ?case using mint_ok token_scope_valid by (auto simp: bind_sum_Inr intro!: or_rollback_ok)
next
  case (4 env i s rg)
  then show ?case by (auto simp: rotation_ok split: option.split)
next
  case (15 env d rg)
  then show ?case by (simp add: registry_ok_def cores_def)
qed (auto simp: enroll_ok link_ok delete_ok expire_ok revoke_token_ok dest: approve_ok decision_ok same_core_relink
      intro!: or_rollback_ok same_core_ok [OF same_core_heartbeat] elim: same_core_ok [rotated])

lemma empty_registry_ok: "registry_ok (empty_registry now)"
  by (simp add: registry_ok_def empty_registry_def cores_def agents_ok_def grants_ok_def tokens_ok_def keys_distinct_def)

interpretation fleet: invariant_machine "registry_step env" registry_ok for env
  by unfold_locales (rule registry_step_ok)

lemma reachable_ok: "registry_ok (fold (registry_step env) rs (empty_registry now))"
  by (rule fleet.run_inv [OF empty_registry_ok])

subsection \<open>Who can become active\<close>

text \<open>Across a request a row is new or comes from a row that keeps its approval and is not activated if it was approved.\<close>

definition evolves :: "registry \<Rightarrow> registry \<Rightarrow> bool" where
  "evolves rg rg' = (rg_next_agent rg \<le> rg_next_agent rg' \<and>
     (\<forall>c'\<in>set (cores rg'). rg_next_agent rg \<le> co_id c' \<or>
        (\<exists>c\<in>set (cores rg). co_id c = co_id c' \<and> (co_approved c \<longrightarrow> co_approved c') \<and>
           (co_status c' = AS_active \<longrightarrow> co_status c = AS_active \<or> \<not> co_approved c))))"

lemma evolves_same: "same_core rg rg' \<Longrightarrow> evolves rg rg'"
  by (auto simp: evolves_def same_core_def)

lemma evolves_map:
  assumes "cores rg' = map g (cores rg)" "rg_next_agent rg' = rg_next_agent rg"
    "\<And>c. c \<in> set (cores rg) \<Longrightarrow> co_id (g c) = co_id c \<and> (co_approved c \<longrightarrow> co_approved (g c)) \<and>
       (co_status (g c) = AS_active \<longrightarrow> co_status c = AS_active \<or> \<not> co_approved c)"
  shows "evolves rg rg'"
  using assms(2,3) unfolding evolves_def assms(1) by fastforce

lemma fleet_evolves_trans:
  assumes "evolves a b" "evolves b c"
  shows "evolves a c"
proof -
  have "rg_next_agent a \<le> co_id z \<or> (\<exists>x\<in>set (cores a). co_id x = co_id z \<and> (co_approved x \<longrightarrow> co_approved z) \<and>
      (co_status z = AS_active \<longrightarrow> co_status x = AS_active \<or> \<not> co_approved x))" if "z \<in> set (cores c)" for z
  proof (cases "rg_next_agent b \<le> co_id z")
    case False
    with assms(2) that obtain y where y: "y \<in> set (cores b)" "co_id y = co_id z" "co_approved y \<longrightarrow> co_approved z"
      "co_status z = AS_active \<longrightarrow> co_status y = AS_active \<or> \<not> co_approved y"
      unfolding evolves_def by blast
    with assms(1) show ?thesis unfolding evolves_def by metis
  qed (use assms in \<open>auto simp: evolves_def\<close>)
  with assms show ?thesis by (auto simp: evolves_def)
qed

lemma evolves_upd:
  assumes "\<And>a. core (f a) = g (core a)"
    "\<And>c. co_id (g c) = co_id c \<and> (co_approved c \<longrightarrow> co_approved (g c)) \<and> (co_status (g c) = AS_active \<longrightarrow> co_status c = AS_active)"
  shows "evolves rg (upd_agent i f rg)"
  by (rule evolves_map [OF cores_upd [where g = g]]) (use assms in auto)

lemma evolves_leave:
  assumes "\<And>a. core (f a) = (core a)\<lparr>co_status := s\<rparr>" "s \<noteq> AS_active"
  shows "evolves rg (record_event j ty act d (upd_agent i f rg))"
  by (rule fleet_evolves_trans [OF evolves_upd [where g = "\<lambda>c. c\<lparr>co_status := s\<rparr>"] evolves_same [OF same_core_record]]) (use assms in auto)

lemma evolves_approve:
  assumes "registry_ok rg" "approve_agent i by' hw act ov via rg = Inr rg'"
  shows "evolves rg rg'"
proof (rule approve_Inr [OF assms(2)], goal_cases)
  case (1 grants)
  have "\<not> co_approved c" if "c \<in> set (cores rg)" "co_id c = i" for c
  proof
    assume "co_approved c"
    then have "\<forall>(cap, _)\<in>set CAPABILITY_DEFINITIONS. (i, cap) \<in> grant_key ` set (rg_grants rg)"
      using assms(1) that by (auto simp: registry_ok_def grants_ok_def)
    then obtain g where g: "g \<in> set (rg_grants rg)" "cg_agent g = i" "cg_capability g = ''host_telemetry''"
      by (auto simp: CAPABILITY_DEFINITIONS_def)
    have "''host_telemetry'' \<in> fst ` set grants"
      by (rule requested_keys(2) [OF 1(1)]) (simp add: CAPABILITY_DEFINITIONS_def)
    then have "cg_capability g \<in> fst ` set grants" unfolding g(3) .
    then show False using 1(2) g(1,2) by blast
  qed
  with 1(7) show ?case by (intro evolves_map [OF 1(4)]) auto
qed

lemma evolves_append: "cores rg' = cores rg @ [c] \<Longrightarrow> rg_next_agent rg \<le> co_id c \<Longrightarrow> rg_next_agent rg \<le> rg_next_agent rg' \<Longrightarrow> evolves rg rg'"
  by (auto simp: evolves_def)

lemma evolves_enroll:
  assumes "registry_ok rg"
  shows "evolves rg (snd (enroll env pk facts url token lock kind rg))"
proof -
  have pin: "evolves rg (pin_server i kind r)" if "evolves rg r" for i r
    using fleet_evolves_trans [OF that evolves_same [OF same_core_pin [OF same_core_refl]]] .
  have tok: "evolves rg rg2" if t: "consume_token env p rg = Some (t, rg1)" and e: "create_enrolled_agent pk facts t rg1 = Inr (i, rg2)" for p t rg1 i rg2
  proof -
    note ok = consume_ok [OF assms t]
    have n: "rg_next_agent rg1 = rg_next_agent rg" by (rule consume_Some [OF t]) simp
    obtain c where c: "i = rg_next_agent rg1" "cores rg2 = cores rg1 @ [c]" "co_id c = i" "rg_next_agent rg2 = i + 1"
      by (rule create_enrolled_Inr [OF ok(1) e]) (simp add: new_core_def)
    then show ?thesis using ok(2) n by (intro evolves_append [of _ _ c]) simp_all
  qed
  have new: "evolves rg rg1" if "create_pending_agent pk facts url rg = Inr (i, rg1)" for i rg1
    using create_pending_Inr [OF that] by (auto intro!: evolves_append simp: new_core_def)
  show ?thesis
    using evolves_same [OF same_core_refl [of rg]]
    by (auto simp: enroll_def Let_def split: option.split sum.split intro!: pin dest: tok new)
qed

lemma evolves_settle:
  assumes "settle_device_key_rotation env a key rg = Inr rg'"
  shows "evolves rg rg'"
proof (rule settle_cores [OF assms])
  assume "same_core rg rg'"
  then show ?thesis by (rule evolves_same)
next
  assume s: "same_core (upd_agent (an_id a) (\<lambda>b. b\<lparr>an_pending_pk := None, an_pending_expiry := None\<rparr>) rg) rg'"
  show ?thesis
    by (rule fleet_evolves_trans [OF evolves_upd [where g = "\<lambda>c. c\<lparr>co_pending := None\<rparr>"] evolves_same [OF s]]) (auto simp: core_def)
next
  assume s: "same_core (upd_agent (an_id a) (\<lambda>b. b\<lparr>an_device_pk := key, an_pending_pk := None, an_pending_expiry := None\<rparr>) rg) rg'"
  show ?thesis
    by (rule fleet_evolves_trans [OF evolves_upd [where g = "\<lambda>c. c\<lparr>co_pk := key, co_pending := None\<rparr>"] evolves_same [OF s]]) (auto simp: core_def)
qed

lemma evolves_link: "evolves rg (snd (link env pk hello kind rg))"
  using evolves_settle fleet_evolves_trans [OF _ evolves_same [OF same_core_linked]] evolves_same [OF same_core_refl]
  by (simp add: link_def split: option.split sum.split)

lemma evolves_grants: "set_grants before i actor gs detail rg = Inr (d, rg') \<Longrightarrow> evolves rg rg'"
proof (induction before i actor gs detail rg rule: set_grants.induct)
  case (2 before i actor cap v gs detail rg)
  then obtain e c where n: "normalize_grant cap v (map_option cg_config (get_grant before i cap)) = Inr (e, c)"
    and rest: "set_grants before i actor gs (detail @ [(cap, JObj [(''enabled'', JBool e), (''config'', JObj c)])])
      (put_grant i actor cap e c rg) = Inr (d, rg')"
    by (auto split: sum.splits prod.splits)
  from 2(1) [OF n refl rest] show ?case by (simp add: evolves_def cores_def put_grant_frame)
qed (simp add: evolves_same)

lemma evolves_rotation: "evolves rg (snd (start_device_key_rotation env a s w rg))"
proof -
  have "evolves rg (upd_agent (an_id a) (\<lambda>b. b\<lparr>an_pending_pk := Some s, an_pending_expiry := Some e\<rparr>) rg)" for e
    by (rule evolves_upd [where g = "\<lambda>c. c\<lparr>co_pending := Some s\<rparr>"]) (auto simp: core_def)
  then show ?thesis using fleet_evolves_trans [OF _ evolves_same [OF same_core_record]] evolves_same [OF same_core_record]
    by (simp add: start_device_key_rotation_def rotation_rejected_def Let_def)
qed

lemma evolves_back: "(\<And>rg'. x = Inr rg' \<Longrightarrow> evolves rg rg') \<Longrightarrow> evolves rg (or_rollback rg x)"
  by (auto simp: or_rollback_def intro: evolves_same split: sum.split)

lemma evolves_step:
  assumes "registry_ok rg"
  shows "evolves rg (registry_step env r rg)"
proof -
  note same = evolves_same [OF same_core_refl]
  show ?thesis
  proof (cases r)
    case (Put_capabilities i gs actor)
    then show ?thesis using fleet_evolves_trans [OF evolves_grants evolves_same [OF same_core_record]]
      by (auto simp: set_capability_grants_def bind_sum_Inr same intro!: evolves_back)
  next
    case (Mint_token p e caps ttl n u)
    have "evolves rg rg'" if "mint_token env p e scope ttl n u rg = Inr rg'" for scope rg'
      using that by (auto simp: mint_token_def evolves_def cores_def split: if_splits)
    with Mint_token show ?thesis by (auto simp: bind_sum_Inr intro!: evolves_back)
  next
    case (Delete i n m)
    then show ?thesis by (auto simp: delete_agent_def evolves_def cores_def)
  next
    case Expire_pending
    have "evolves rg (fold (\<lambda>a r. record_event (an_id a) ''rejected'' None (Some [(''reason'', JStr ''pending_expired'')])
               (upd_agent (an_id a) (\<lambda>a. a\<lparr>an_status := AS_rejected\<rparr>) r)) stale rg)" for stale
      by (rule fold_invariant [where Q = "\<lambda>_. True"])
        (auto intro: same intro!: fleet_evolves_trans [OF _ evolves_leave [of _ AS_rejected]] simp: core_def)
    with Expire_pending show ?thesis by (simp add: expire_stale_pending_agents_def Let_def)
  next
    case (Approve i u hw act ov)
    then show ?thesis using evolves_approve [OF assms] by (auto intro: evolves_back)
  next
    case (Uninstall i)
    then show ?thesis
      by (auto simp: revoke_agent_def core_def intro!: evolves_back evolves_leave [of _ AS_revoked] split: option.splits)
  next
    case (Revoke i u re)
    then show ?thesis
      by (auto simp: revoke_agent_def core_def same intro!: evolves_back evolves_leave [of _ AS_revoked] split: option.splits)
  next
    case (Reject i u)
    then show ?thesis
      by (auto simp: reject_agent_def core_def intro!: evolves_back evolves_leave [of _ AS_rejected] split: option.splits)
  next
    case (Revoke_token i)
    then show ?thesis by (auto simp: revoke_token_def evolves_def cores_def)
  next
    case (Tick d)
    then show ?thesis by (auto simp: evolves_def cores_def)
  qed (auto simp: evolves_enroll assms evolves_link evolves_rotation same intro: evolves_same same_core_heartbeat
      intro!: evolves_back dest: same_core_relink split: option.split)
qed

text \<open>An agent that was approved and is out stays out.\<close>

definition barred :: "int \<Rightarrow> registry \<Rightarrow> bool" where
  "barred i rg = (registry_ok rg \<and> i < rg_next_agent rg \<and> (\<forall>c\<in>set (cores rg). co_id c = i \<longrightarrow> co_approved c \<and> co_status c \<noteq> AS_active))"

lemma barred_step: "barred i rg \<Longrightarrow> barred i (registry_step env r rg)"
  using evolves_step [of rg env r] registry_step_ok [of rg env r] unfolding barred_def evolves_def by fastforce

interpretation barring: invariant_machine "registry_step env" "barred i" for env i
  by unfold_locales (rule barred_step)

lemma get_agent_core: "get_agent rg i = Some a \<Longrightarrow> core a \<in> set (cores rg) \<and> an_id a = i"
  by (auto simp: get_agent_def cores_def dest: tbl_get_Some)

lemma barred_no_link:
  assumes "barred i rg"
  shows "fst (link env pk hello kind rg) \<noteq> Link_open i"
proof
  assume "fst (link env pk hello kind rg) = Link_open i"
  then obtain a where a: "resolve_agent_for_handshake rg pk = Some a" "an_status a = AS_active" "an_id a = i"
    by (auto simp: link_def split: option.splits sum.splits if_splits)
  then have "core a \<in> set (cores rg)"
    by (auto simp: resolve_agent_for_handshake_def get_agent_by_device_pk_def cores_def split: option.splits if_splits
        dest!: tbl_get_Some find_Some_conv)
  with assms a show False by (auto simp: barred_def core_def)
qed

lemma barredI:
  assumes ok: "registry_ok rg" and "get_agent rg i = Some a" "an_approved_at a \<noteq> None" "an_status a \<noteq> AS_active"
  shows "barred i rg"
proof -
  have one: "c = core a" if "c \<in> set (cores rg)" "co_id c = i" for c
    using ok that get_agent_core [OF assms(2)] by (auto simp: registry_ok_def agents_ok_def distinct_map inj_on_def core_def)
  have "co_approved c \<and> co_status c \<noteq> AS_active" if "c \<in> set (cores rg)" "co_id c = i" for c
    unfolding one [OF that] using assms(3,4) by (simp add: core_def)
  moreover have "co_id (core a) < rg_next_agent rg"
    using ok get_agent_core [OF assms(2)] unfolding registry_ok_def agents_ok_def by blast
  ultimately show ?thesis using ok get_agent_core [OF assms(2)] by (simp add: barred_def core_def)
qed

text \<open>
  C16. \<^bold>\<open>A revoked agent never comes back.\<close> In every state the requests can reach, once an agent has been approved and
  is then revoked, rejected or uninstalled, no further sequence of requests (approvals of it, enrollments, links, key rotations,
  capability edits) makes it active again or opens a link for it: only a new enrollment under a new identity does.
\<close>

theorem revoked_never_active:
  assumes "rg = fold (registry_step env) rs (empty_registry now)" "get_agent rg i = Some a" "an_approved_at a \<noteq> None" "an_status a \<noteq> AS_active"
  shows "(\<forall>b. get_agent (fold (registry_step env) rs' rg) i = Some b \<longrightarrow> an_status b \<noteq> AS_active) \<and>
    fst (link env pk hello kind (fold (registry_step env) rs' rg)) \<noteq> Link_open i"
proof -
  have ok: "registry_ok rg" unfolding assms(1) by (rule reachable_ok)
  from barredI [OF ok assms(2-4)] have b: "barred i (fold (registry_step env) rs' rg)" by (rule barring.run_inv)
  have "an_status b \<noteq> AS_active" if "get_agent (fold (registry_step env) rs' rg) i = Some b" for b
    using b get_agent_core [OF that] by (auto simp: barred_def core_def)
  with barred_no_link [OF b] show ?thesis by blast
qed

text \<open>
  C18. \<^bold>\<open>Tokens and pending enrollments are bounded.\<close> Whatever requests arrive, in whatever order: no more agents carry an
  enrollment token than it was minted for, no more than 100 agents wait for approval, and no two agents share a device key.
\<close>

theorem fleet_bounded:
  assumes "rg = fold (registry_step env) rs (empty_registry now)"
  shows "(\<forall>t\<in>set (rg_tokens rg). int (agent_counts rg (et_id t)) \<le> et_max_uses t) \<and> count_pending_agents rg \<le> 100 \<and>
    distinct (map an_device_pk (rg_agents rg))"
proof -
  have ok: "registry_ok rg" unfolding assms by (rule reachable_ok)
  then have "int (length (filter (\<lambda>c. co_token c = Some (et_id t)) (cores rg))) \<le> et_max_uses t" if "t \<in> set (rg_tokens rg)" for t
    using that by (force simp: registry_ok_def tokens_ok_def)
  with ok show ?thesis
    by (simp add: registry_ok_def agents_ok_def MAX_CONCURRENT_PENDING_AGENTS_def count_pending_agents_def agent_counts_def
        cores_def filter_map comp_def core_def)
qed

subsection \<open>Enrollment by token\<close>

lemma traverse_total: "list_all (\<lambda>x. \<not> isl (f x)) xs \<Longrightarrow> \<exists>ys. traverse f xs = Inr ys"
  by (induction xs) (auto simp: bind_sum_Inr isl_def split: sum.splits, metis sum.exhaust)

lemma default_grants_valid: "valid_scope default_grants"
  by code_simp

lemma normalized_total:
  assumes "valid_scope caps"
  shows "\<exists>grants. normalized_grants (dict_merge default_grants caps) = Inr grants"
proof -
  have "valid_scope (dict_merge default_grants caps)"
    using assms default_grants_valid unfolding valid_scope_def by (rule valid_scope_merge)
  then have "list_all (\<lambda>x. \<not> isl (case x of (capability, v) \<Rightarrow> (case normalize_grant capability v None of
      Inl e \<Rightarrow> Inl (Invalid_grant e) | Inr (enabled, config) \<Rightarrow> Inr (capability, enabled, config)))) (dict_merge default_grants caps)"
    unfolding valid_scope_def by (auto simp: list_all_iff isl_def split: sum.splits prod.splits)
  then show ?thesis unfolding normalized_grants_def by (rule traverse_total)
qed

lemma core_unique:
  assumes "registry_ok rg" "c \<in> set (cores rg)" "b \<in> set (cores rg)" "co_id c = co_id b \<or> co_pk c = co_pk b"
  shows "c = b"
  using assms by (auto simp: registry_ok_def agents_ok_def distinct_map inj_on_def)

lemma get_agent_upd: "(\<And>a. an_id (f a) = an_id a) \<Longrightarrow> get_agent (upd_agent i f rg) i = map_option f (get_agent rg i)"
  using row_update.tbl_get_upd_same [OF row_update.intro, of an_id f i "rg_agents rg"] by (simp add: get_agent_def upd_agent_def)

lemma create_enrolled_total:
  assumes "registry_ok rg" "get_agent_by_device_pk rg pk = None" "valid_scope (ct_capabilities tok)"
  shows "\<exists>i rg'. create_enrolled_agent pk facts tok rg = Inr (i, rg')"
proof -
  from assms(2) obtain rg1 where p: "create_pending_agent pk facts (Some (ct_endpoint_url tok)) rg = Inr (rg_next_agent rg, rg1)"
    by (auto simp: create_pending_agent_def Let_def)
  let ?i = "rg_next_agent rg" and ?rg = "upd_agent (rg_next_agent rg) (\<lambda>a. a\<lparr>an_token_id := Some (ct_id tok)\<rparr>) rg1"
  have "?i \<in> co_id ` set (cores rg1)" using create_pending_Inr(2) [OF p] by (simp add: new_core_def)
  then have "get_agent rg1 ?i \<noteq> None" by (auto simp: get_agent_def tbl_get_None cores_def core_def image_iff)
  then have "get_agent ?rg ?i \<noteq> None" by (simp add: get_agent_upd)
  moreover have "\<not> list_ex (\<lambda>g. cg_agent g = ?i \<and> P g) (rg_grants ?rg)" for P
    using assms(1) create_pending_Inr(4) [OF p] by (auto simp: list_ex_iff registry_ok_def grants_ok_def)
  moreover obtain grants where "normalized_grants (dict_merge default_grants (ct_capabilities tok)) = Inr grants"
    using normalized_total [OF assms(3)] by blast
  ultimately show ?thesis using p by (auto simp: create_enrolled_agent_def approve_agent_def)
qed

text \<open>The device presents a token that is known and can still be spent.\<close>

definition live_token :: "registry_env \<Rightarrow> string \<Rightarrow> registry \<Rightarrow> bool" where
  "live_token env p rg = list_ex (\<lambda>t. et_hash t = re_token_hash env p \<and> token_live (rg_clock rg) t) (rg_tokens rg)"

lemma consume_dead: "\<not> live_token env p rg \<Longrightarrow> consume_token env p rg = None"
  using find_None_conv [of "\<lambda>t. et_hash t = re_token_hash env p \<and> token_live (rg_clock rg) t" "rg_tokens rg"]
  by (auto simp: live_token_def list_ex_iff consume_token_def split: option.split)

lemma consume_live:
  assumes "registry_ok rg" "live_token env p rg"
  obtains tok rg1 where "consume_token env p rg = Some (tok, rg1)" "valid_scope (ct_capabilities tok)" "rg_agents rg1 = rg_agents rg"
proof -
  let ?P = "\<lambda>t. et_hash t = re_token_hash env p \<and> token_live (rg_clock rg) t"
  from assms(2) obtain t where t: "find ?P (rg_tokens rg) = Some t"
    using find_None_conv [of ?P "rg_tokens rg"] by (cases "find ?P (rg_tokens rg)") (auto simp: live_token_def list_ex_iff)
  then have "valid_scope (et_capabilities t)" using assms(1) find_Some_conv [OF t] by (auto simp: registry_ok_def tokens_ok_def)
  with t show ?thesis by (simp add: consume_token_def that)
qed

text \<open>What an enrollment by token leaves behind for a new device.\<close>

definition enrolled_active :: "string \<Rightarrow> int \<Rightarrow> registry \<Rightarrow> bool" where
  "enrolled_active pk i rg =
     (list_ex (\<lambda>a. an_id a = i \<and> an_device_pk a = pk \<and> an_status a = AS_active) (rg_agents rg) \<and>
      list_all (\<lambda>(cap, _). get_grant rg i cap \<noteq> None) CAPABILITY_DEFINITIONS)"

lemma enroll_new:
  assumes ok: "registry_ok rg" and n: "get_agent_by_device_pk rg pk = None" and l: "live_token env p rg" "p \<noteq> []"
  obtains i rg' where "enroll env pk facts url (Some p) lock kind rg = (Enrolled_active i, rg')" "enrolled_active pk i rg'"
proof -
  from consume_live [OF ok l(1)] obtain tok rg1 where
    c: "consume_token env p rg = Some (tok, rg1)" "valid_scope (ct_capabilities tok)" "rg_agents rg1 = rg_agents rg" .
  note ok1 = consume_ok [OF ok c(1)]
  from create_enrolled_total [OF ok1(1) _ c(2), of pk facts] n c(3) obtain i rg2 where
    e: "create_enrolled_agent pk facts tok rg1 = Inr (i, rg2)" by (auto simp: get_agent_by_device_pk_def)
  let ?rg = "pin_server i kind rg2"
  have step: "enroll env pk facts url (Some p) lock kind rg = (Enrolled_active i, ?rg)"
    using n c(1) e l(2) by (simp add: enroll_def)
  have same: "same_core rg2 ?rg" by (rule same_core_pin) simp
  have "new_core i pk AS_active (Some (ct_id tok)) \<in> set (cores rg2)" by (rule create_enrolled_Inr [OF ok1(1) e]) simp
  then have core: "new_core i pk AS_active (Some (ct_id tok)) \<in> set (cores ?rg)" using same by (simp add: same_core_def)
  moreover have "registry_ok ?rg" using enroll_ok [OF ok, of env pk facts url "Some p" lock kind] step by simp
  ultimately have "\<forall>(cap, _)\<in>set CAPABILITY_DEFINITIONS. (i, cap) \<in> grant_key ` set (rg_grants ?rg)"
    unfolding registry_ok_def grants_ok_def by (fastforce simp: new_core_def)
  then have "list_all (\<lambda>(cap, _). get_grant ?rg i cap \<noteq> None) CAPABILITY_DEFINITIONS"
    by (auto simp: get_grant_def tbl_get_None list_all_iff)
  moreover have "list_ex (\<lambda>a. an_id a = i \<and> an_device_pk a = pk \<and> an_status a = AS_active) (rg_agents ?rg)"
    using core by (auto simp: cores_def core_def new_core_def list_ex_iff)
  ultimately show ?thesis using step that by (simp add: enrolled_active_def)
qed

lemma enroll_pending:
  assumes "registry_ok rg" "get_agent_by_device_pk rg pk = Some a" "an_status a = AS_pending" "p \<noteq> []"
  shows "enroll env pk facts url (Some p) lock kind rg = (if live_token env p rg then Enroll_raised else Enroll_closed 1008, rg)"
proof (cases "live_token env p rg")
  case True
  from consume_live [OF assms(1) True] obtain tok rg1 where c: "consume_token env p rg = Some (tok, rg1)" "rg_agents rg1 = rg_agents rg" .
  then have "create_enrolled_agent pk facts tok rg1 = Inl Integrity_error"
    using assms(2) by (simp add: create_enrolled_agent_def create_pending_agent_def get_agent_by_device_pk_def)
  with c(1) True assms show ?thesis by (simp add: enroll_def)
next
  case False
  with consume_dead assms show ?thesis by (simp add: enroll_def)
qed

text \<open>
  C17. \<^bold>\<open>A token enrolls exactly a new device while it is live.\<close> In every reachable state: a device that has no row is enrolled
  by a token, active and with all its grants, exactly when the token is known, unspent, not revoked and not expired; a
  device that is active, revoked or rejected is answered without spending a use; and a device that already waits for
  approval cannot use a token at all: the handler raises on the unique key and the use is rolled back.
\<close>

theorem token_enrollment_exact:
  assumes "rg = fold (registry_step env) rs (empty_registry now)" "p \<noteq> []"
  shows "case map_option an_status (get_agent_by_device_pk rg pk) of
      None \<Rightarrow>
        (if live_token env p rg
         then \<exists>i rg'. enroll env pk facts url (Some p) lock kind rg = (Enrolled_active i, rg') \<and> enrolled_active pk i rg'
         else enroll env pk facts url (Some p) lock kind rg = (Enroll_closed 1008, rg))
    | Some AS_pending \<Rightarrow>
        enroll env pk facts url (Some p) lock kind rg = (if live_token env p rg then Enroll_raised else Enroll_closed 1008, rg)
    | Some AS_active \<Rightarrow> enroll env pk facts url (Some p) lock kind rg = (Already_enrolled, rg)
    | Some _ \<Rightarrow> enroll env pk facts url (Some p) lock kind rg = (Enroll_closed 1008, rg)"
proof -
  have ok: "registry_ok rg" unfolding assms(1) by (rule reachable_ok)
  show ?thesis
  proof (cases "get_agent_by_device_pk rg pk")
    case None
    have "\<exists>i rg'. enroll env pk facts url (Some p) lock kind rg = (Enrolled_active i, rg') \<and> enrolled_active pk i rg'"
      if "live_token env p rg"
      by (rule enroll_new [OF ok None that assms(2), of facts url lock kind]) blast
    with None consume_dead assms(2) show ?thesis by (auto simp: enroll_def)
  next
    case (Some a)
    with enroll_pending [OF ok Some _ assms(2)] show ?thesis by (cases "an_status a") (simp_all add: enroll_def)
  qed
qed

subsection \<open>Grants change by decisions only\<close>

text \<open>Whether a request decides about a capability of an agent.\<close>

fun decides :: "registry \<Rightarrow> agent_request \<Rightarrow> int \<Rightarrow> string \<Rightarrow> bool" where
  "decides rg (Approve j _ _ _ _) i cap = (j = i)"
| "decides rg (Put_capabilities j grants _) i cap = (j = i \<and> cap \<in> fst ` set grants)"
| "decides rg (Enroll _ _ _ token _ _) i cap = (i = rg_next_agent rg \<and> token \<noteq> None)"
| "decides rg (Delete j _ _) i cap = (j = i)"
| "decides rg _ i cap = False"

lemma get_grant_same: "rg_grants rg' = rg_grants rg \<Longrightarrow> get_grant rg' i cap = get_grant rg i cap"
  by (simp add: get_grant_def)

lemma get_grant_join:
  assumes "rg_grants rg' = rg_grants rg @ map (new_grant j u t) grants" "j \<noteq> i"
  shows "get_grant rg' i cap = get_grant rg i cap"
proof -
  have "tbl_get grant_key (i, cap) (map (new_grant j u t) grants) = None"
    using assms(2) by (auto simp: tbl_get_None new_grant_def)
  with assms(1) show ?thesis by (simp add: get_grant_def tbl_get_append split: option.split)
qed

lemma get_grant_put:
  assumes "(j, c) \<noteq> (i, cap)"
  shows "get_grant (put_grant j u c e k rg) i cap = get_grant rg i cap"
proof (cases "get_grant rg j c")
  case None
  have "tbl_get grant_key (i, cap) [new_grant j u (rg_clock rg) (c, e, k)] = None"
    using assms by (auto simp: tbl_get_None new_grant_def)
  with None show ?thesis by (simp add: put_grant_def get_grant_def tbl_get_append split: option.split)
next
  case (Some g)
  then show ?thesis
    using assms row_update.tbl_get_upd_other [OF row_update.intro, of grant_key "\<lambda>g. g\<lparr>cg_enabled := e, cg_config := k, cg_granted_by := u, cg_granted_at := rg_clock rg\<rparr>" "(i, cap)" "(j, c)" "rg_grants rg"]
    by (fastforce simp: put_grant_def get_grant_def)
qed

lemma get_grant_set:
  "set_grants before j u gs detail rg = Inr (d, rg') \<Longrightarrow> \<not> (j = i \<and> cap \<in> fst ` set gs) \<Longrightarrow> get_grant rg' i cap = get_grant rg i cap"
proof (induction before j u gs detail rg rule: set_grants.induct)
  case (2 before j u c v gs detail rg)
  then obtain e k where n: "normalize_grant c v (map_option cg_config (get_grant before j c)) = Inr (e, k)"
    and rest: "set_grants before j u gs (detail @ [(c, JObj [(''enabled'', JBool e), (''config'', JObj k)])]) (put_grant j u c e k rg) = Inr (d, rg')"
    by (auto split: sum.splits prod.splits)
  from 2(3) have "\<not> (j = i \<and> cap \<in> fst ` set gs)" "(j, c) \<noteq> (i, cap)" by auto
  with 2(1) [OF n refl rest] show ?case by (simp add: get_grant_put)
qed simp

lemma enroll_grants:
  assumes "registry_ok rg" "\<not> (i = rg_next_agent rg \<and> token \<noteq> None)"
  shows "get_grant (snd (enroll env pk facts url token lock kind rg)) i cap = get_grant rg i cap"
proof -
  have pin: "get_grant (pin_server j kind r) i cap = get_grant r i cap" for j r by (simp add: pin_server_def get_grant_def)
  have new: "get_grant rg1 i cap = get_grant rg i cap" if "create_pending_agent pk facts url rg = Inr (j, rg1)" for j rg1
    using create_pending_Inr(4) [OF that] by (simp add: get_grant_def)
  have tok: "get_grant rg2 i cap = get_grant rg i cap"
    if t: "consume_token env p rg = Some (t, rg1)" and e: "create_enrolled_agent pk facts t rg1 = Inr (j, rg2)" and n: "i \<noteq> rg_next_agent rg" for p t rg1 j rg2
  proof -
    have c: "rg_next_agent rg1 = rg_next_agent rg" "rg_grants rg1 = rg_grants rg" by (rule consume_Some [OF t]; simp)+
    obtain u k grants where "j = rg_next_agent rg1" "rg_grants rg2 = rg_grants rg1 @ map (new_grant j u k) grants"
      by (rule create_enrolled_Inr [OF consume_ok(1) [OF assms(1) t] e])
    with c n show ?thesis using get_grant_join [of rg2 rg1 j u k grants i cap] by (simp add: get_grant_def)
  qed
  show ?thesis
    using assms(2) by (auto simp: enroll_def Let_def pin new split: option.split sum.split dest: tok)
qed

lemma store_grants [simp]: "rg_grants (snd (store_network_facts i ns rg)) = rg_grants rg"
  by (simp add: store_network_facts_def Let_def split: option.split)

lemma or_rollback_grant:
  "(\<And>rg'. x = Inr rg' \<Longrightarrow> get_grant rg' i cap = get_grant rg i cap) \<Longrightarrow> get_grant (or_rollback rg x) i cap = get_grant rg i cap"
  by (simp add: or_rollback_def split: sum.split)

lemma link_grants: "rg_grants (snd (link env pk hello kind rg)) = rg_grants rg"
proof -
  have "rg_grants rg1 = rg_grants rg" if "settle_device_key_rotation env a pk rg = Inr rg1" for a rg1
    using that by (auto simp: settle_device_key_rotation_def split: option.splits if_splits)
  moreover have "rg_grants (linked env i hello kind r) = rg_grants r" for i r
    using same_core_linked by (simp add: same_core_def)
  ultimately show ?thesis by (simp add: link_def split: option.split sum.split)
qed

lemma expire_grants: "rg_grants (snd (expire_stale_pending_agents rg)) = rg_grants rg"
  unfolding expire_stale_pending_agents_def Let_def snd_conv by (rule fold_keeps) simp

lemma grant_kept:
  assumes ok: "registry_ok rg" and n: "\<not> decides rg r i cap"
  shows "get_grant (registry_step env r rg) i cap = get_grant rg i cap"
proof (cases r)
  case (Approve j u hw act ov)
  with n have "get_grant rg' i cap = get_grant rg i cap" if "approve_agent j u hw act ov None rg = Inr rg'" for rg'
    by (auto intro: approve_Inr [OF that] get_grant_join)
  with Approve show ?thesis by (auto intro: or_rollback_grant)
next
  case (Put_capabilities j gs u)
  with n have "get_grant rg' i cap = get_grant rg i cap" if "set_capability_grants j gs u rg = Inr rg'" for rg'
    using that get_grant_set [where i = i and cap = cap] get_grant_same [OF record_event_frame(2)]
    by (auto simp: set_capability_grants_def bind_sum_Inr)
  with Put_capabilities show ?thesis by (auto intro: or_rollback_grant)
next
  case (Delete j a b)
  with n have "tbl_get grant_key (i, cap) (filter (\<lambda>g. cg_agent g \<noteq> j) gs) = tbl_get grant_key (i, cap) gs" for gs
    by (induction gs) (auto simp: tbl_get_Cons)
  with Delete show ?thesis by (simp add: delete_agent_def get_grant_def)
next
  case (Enroll pk facts url token lock kind)
  with n show ?thesis using enroll_grants [OF ok] by simp
next
  case (Mint_token p e caps ttl k u)
  have "get_grant rg' i cap = get_grant rg i cap"
    if "bind_sum (token_capability_scope caps) (\<lambda>scope. mint_token env p e scope ttl k u rg) = Inr rg'" for rg'
    using that by (auto simp: bind_sum_Inr mint_token_def get_grant_def split: if_splits)
  with Mint_token show ?thesis by (auto intro: or_rollback_grant)
qed (auto simp: link_grants expire_grants same_core_heartbeat [unfolded same_core_def] start_device_key_rotation_def rotation_rejected_def Let_def
    revoke_agent_def reject_agent_def set_hardware_link_def revoke_token_def intro!: get_grant_same or_rollback_grant split: option.splits if_splits)

text \<open>
  Whether a request may switch a capability of an agent on: an approval of the agent, its own enrollment by token, or an update
  that names the capability as enabled. Updates that disable or only describe a capability as disabled, and the deletion of the
  agent, do not.
\<close>

definition asks_enabled :: "json \<Rightarrow> bool" where
  "asks_enabled v = (case grant_parts v of Inr (True, supplied) \<Rightarrow> True | _ \<Rightarrow> False)"

fun enables :: "registry \<Rightarrow> agent_request \<Rightarrow> int \<Rightarrow> string \<Rightarrow> bool" where
  "enables rg (Approve j _ _ _ _) i cap = (j = i)"
| "enables rg (Put_capabilities j grants _) i cap = (j = i \<and> list_ex (\<lambda>(c, v). c = cap \<and> asks_enabled v) grants)"
| "enables rg (Enroll _ _ _ token _ _) i cap = (i = rg_next_agent rg \<and> token \<noteq> None)"
| "enables rg _ i cap = False"

fun never_enabled :: "registry_env \<Rightarrow> agent_request list \<Rightarrow> registry \<Rightarrow> int \<Rightarrow> string \<Rightarrow> bool" where
  "never_enabled env [] rg i cap = True"
| "never_enabled env (r # rs) rg i cap = (\<not> enables rg r i cap \<and> never_enabled env rs (registry_step env r rg) i cap)"

definition switched_off :: "registry \<Rightarrow> int \<Rightarrow> string \<Rightarrow> bool" where
  "switched_off rg i cap = (\<forall>g. get_grant rg i cap = Some g \<longrightarrow> \<not> cg_enabled g)"

lemma put_grant_off:
  assumes "switched_off rg i cap"
  shows "switched_off (put_grant j u c e k rg) i cap \<or> ((j, c) = (i, cap) \<and> e)"
proof (cases "(j, c) = (i, cap)")
  case True
  show ?thesis
  proof (cases "get_grant rg i cap")
    case None
    then have "get_grant (put_grant i u cap e k rg) i cap = Some (new_grant i u (rg_clock rg) (cap, e, k))"
      by (simp add: put_grant_def get_grant_def tbl_get_append tbl_get_Cons new_grant_def split: option.split)
    then show ?thesis using True by (auto simp: switched_off_def new_grant_def)
  next
    case (Some g)
    then have "get_grant (put_grant i u cap e k rg) i cap = Some (g\<lparr>cg_enabled := e, cg_config := k, cg_granted_by := u, cg_granted_at := rg_clock rg\<rparr>)"
      using row_update.tbl_get_upd_same [OF row_update.intro, of grant_key "\<lambda>g. g\<lparr>cg_enabled := e, cg_config := k, cg_granted_by := u, cg_granted_at := rg_clock rg\<rparr>" "(i, cap)" "rg_grants rg"]
      by (simp add: put_grant_def get_grant_def)
    then show ?thesis using True by (auto simp: switched_off_def)
  qed
next
  case False
  then show ?thesis using assms get_grant_put [OF False] by (simp add: switched_off_def)
qed

lemma set_grants_off:
  "set_grants before j u gs detail rg = Inr (d, rg') \<Longrightarrow> \<not> (j = i \<and> list_ex (\<lambda>(c, v). c = cap \<and> asks_enabled v) gs) \<Longrightarrow>
   switched_off rg i cap \<Longrightarrow> switched_off rg' i cap"
proof (induction before j u gs detail rg rule: set_grants.induct)
  case (2 before j u c v gs detail rg)
  then obtain e k where n: "normalize_grant c v (map_option cg_config (get_grant before j c)) = Inr (e, k)"
    and rest: "set_grants before j u gs (detail @ [(c, JObj [(''enabled'', JBool e), (''config'', JObj k)])]) (put_grant j u c e k rg) = Inr (d, rg')"
    by (auto split: sum.splits prod.splits)
  have "\<exists>supplied. grant_parts v = Inr (e, supplied)" using n by (auto simp: normalize_grant_def bind_sum_Inr split: option.splits)
  then have "asks_enabled v = e" by (cases e) (auto simp: asks_enabled_def)
  with 2(3) have "\<not> ((j, c) = (i, cap) \<and> e)" "\<not> (j = i \<and> list_ex (\<lambda>(c, v). c = cap \<and> asks_enabled v) gs)" by auto
  with 2(1) [OF n refl rest] put_grant_off [OF 2(4), of j u c e k] show ?case by blast
qed simp

lemma off_kept:
  assumes ok: "registry_ok rg" and n: "\<not> enables rg r i cap" and off: "switched_off rg i cap"
  shows "switched_off (registry_step env r rg) i cap"
proof (cases "decides rg r i cap")
  case False
  then show ?thesis using grant_kept [OF ok] off by (simp add: switched_off_def)
next
  case True
  show ?thesis
  proof (cases r)
    case (Put_capabilities j gs u)
    have "switched_off rg' i cap" if "set_capability_grants j gs u rg = Inr rg'" for rg'
    proof -
      obtain d rg1 where s: "set_grants rg j u gs [] rg = Inr (d, rg1)" "rg' = record_event j ''capability_changed'' u (Some d) rg1"
        using \<open>set_capability_grants j gs u rg = Inr rg'\<close> by (auto simp: set_capability_grants_def bind_sum_Inr)
      have "switched_off rg1 i cap" by (rule set_grants_off [OF s(1) _ off]) (use n Put_capabilities in auto)
      then show ?thesis using s(2) get_grant_same [OF record_event_frame(2)] by (simp add: switched_off_def)
    qed
    then show ?thesis using Put_capabilities off by (simp add: or_rollback_def split: sum.split)
  next
    case (Delete j a b)
    then have "j = i" using True by simp
    moreover have "tbl_get grant_key (i, cap) (filter (\<lambda>g. cg_agent g \<noteq> i) gs) = None" for gs by (simp add: tbl_get_None) auto
    ultimately show ?thesis using Delete off by (auto simp: delete_agent_def get_grant_def switched_off_def)
  qed (use n True in auto)
qed

lemma never_enabled_off:
  "registry_ok rg \<Longrightarrow> never_enabled env rs rg i cap \<Longrightarrow> switched_off rg i cap \<Longrightarrow> switched_off (fold (registry_step env) rs rg) i cap"
  by (induction rs arbitrary: rg) (simp_all add: registry_step_ok off_kept)

text \<open>
  C19. \<^bold>\<open>Capabilities change by explicit decisions only.\<close> In every reachable state, a request that changes the grant of one
  capability of one agent is an approval of that agent, an update that names that capability, its own enrollment by
  token, or its deletion. Links, hellos, heartbeats, key rotations, revocations, expiry and edits of other capabilities
  leave the grant as it was.
\<close>

theorem grants_change_by_decision:
  assumes "rg = fold (registry_step env) rs (empty_registry now)" "get_grant (registry_step env r rg) i cap \<noteq> get_grant rg i cap"
  shows "decides rg r i cap"
  using assms(2) grant_kept [of rg r i cap env] reachable_ok [of env rs now] unfolding assms(1) by blast

subsection \<open>Key rotation\<close>

lemma resolve_key:
  assumes "resolve_agent_for_handshake rg pk = Some a"
  shows "a \<in> set (rg_agents rg)"
    "pk = an_device_pk a \<or> an_pending_pk a = Some pk \<and> get_agent_by_device_pk rg pk = None \<and> (\<exists>e. an_pending_expiry a = Some e \<and> rg_clock rg \<le> e)"
  using assms by (auto simp: resolve_agent_for_handshake_def get_agent_by_device_pk_def device_identity_matches_def split: option.splits if_splits
      dest!: tbl_get_Some find_Some_conv)

lemma key_owner:
  assumes ok: "registry_ok rg" and r: "resolve_agent_for_handshake rg pk = Some a" and b: "b \<in> set (rg_agents rg)" "an_device_pk b = pk"
  shows "an_id b = an_id a"
proof -
  note k = resolve_key [OF r]
  have "core a \<in> set (cores rg)" "core b \<in> set (cores rg)" using k(1) b(1) by (simp_all add: cores_def)
  moreover have "pk = an_device_pk a"
    using k(2) b tbl_get_None [of an_device_pk pk "rg_agents rg"] by (auto simp: get_agent_by_device_pk_def)
  ultimately have "core b = core a" using core_unique [OF ok, of "core b" "core a"] b(2) by (simp add: core_def)
  from arg_cong [OF this, of co_id] show ?thesis by (simp add: core_def)
qed

lemma settle_total:
  assumes "registry_ok rg" "resolve_agent_for_handshake rg pk = Some a"
  obtains rg1 where "settle_device_key_rotation env a pk rg = Inr rg1"
proof -
  have "\<not> list_ex (\<lambda>b. an_device_pk b = pk \<and> an_id b \<noteq> an_id a) (rg_agents rg)"
    using key_owner [OF assms] by (auto simp: list_ex_iff)
  then have "\<exists>rg1. settle_device_key_rotation env a pk rg = Inr rg1"
    by (simp add: settle_device_key_rotation_def split: option.split)
  with that show ?thesis by blast
qed

lemma settled_core:
  assumes r: "resolve_agent_for_handshake rg pk = Some a" and s: "settle_device_key_rotation env a pk rg = Inr rg1"
  shows "\<exists>c\<in>set (cores rg1). co_id c = an_id a \<and> co_pk c = pk \<and> (pk \<noteq> an_device_pk a \<longrightarrow> co_pending c = None)"
proof (rule settle_cores [OF s])
  have a: "core a \<in> set (cores rg)" using resolve_key(1) [OF r] by (simp add: cores_def)
  note k = resolve_key(2) [OF r]
  {
    assume s1: "same_core rg rg1" "an_pending_pk a \<noteq> Some pk"
    with k a show ?thesis by (auto simp: same_core_def core_def intro!: bexI [of _ "core a"])
  next
    assume s1: "same_core (upd_agent (an_id a) (\<lambda>b. b\<lparr>an_pending_pk := None, an_pending_expiry := None\<rparr>) rg) rg1" "an_pending_pk a \<noteq> Some pk"
    have "cores rg1 = map (\<lambda>c. if co_id c = an_id a then c\<lparr>co_pending := None\<rparr> else c) (cores rg)"
      using s1(1) cores_upd [of "\<lambda>b. b\<lparr>an_pending_pk := None, an_pending_expiry := None\<rparr>" "\<lambda>c. c\<lparr>co_pending := None\<rparr>"]
      by (simp add: same_core_def core_def)
    then have "(core a)\<lparr>co_pending := None\<rparr> \<in> set (cores rg1)" using a by (force simp: core_def)
    with k s1(2) show ?thesis by (auto simp: core_def intro!: bexI [of _ "(core a)\<lparr>co_pending := None\<rparr>"])
  next
    assume s1: "same_core (upd_agent (an_id a) (\<lambda>b. b\<lparr>an_device_pk := pk, an_pending_pk := None, an_pending_expiry := None\<rparr>) rg) rg1"
    have "cores rg1 = map (\<lambda>c. if co_id c = an_id a then c\<lparr>co_pk := pk, co_pending := None\<rparr> else c) (cores rg)"
      using s1(1) cores_upd [of "\<lambda>b. b\<lparr>an_device_pk := pk, an_pending_pk := None, an_pending_expiry := None\<rparr>" "\<lambda>c. c\<lparr>co_pk := pk, co_pending := None\<rparr>"]
      by (simp add: same_core_def core_def)
    then have "(core a)\<lparr>co_pk := pk, co_pending := None\<rparr> \<in> set (cores rg1)" using a by (force simp: core_def)
    then show ?thesis by (auto simp: core_def intro!: bexI [of _ "(core a)\<lparr>co_pk := pk, co_pending := None\<rparr>"])
  }
qed

text \<open>
  C20. \<^bold>\<open>A key rotation ends with the new key alone.\<close> In every reachable state, a handshake is attributed to an agent only under its
  current key or under a pending key inside its window; for an active agent the link then opens (it never raises), the key
  it came with is the agent's key, and if that was the pending one the former key no longer authenticates the agent.
\<close>

theorem rotation_completes:
  assumes "rg = fold (registry_step env) rs (empty_registry now)" "resolve_agent_for_handshake rg pk = Some a" "an_status a = AS_active"
  shows "(pk = an_device_pk a \<or> an_pending_pk a = Some pk \<and> (\<exists>e. an_pending_expiry a = Some e \<and> rg_clock rg \<le> e)) \<and>
    (\<exists>rg'. link env pk hello kind rg = (Link_open (an_id a), rg') \<and>
       (\<exists>b\<in>set (rg_agents rg'). an_id b = an_id a \<and> an_device_pk b = pk) \<and>
       (pk \<noteq> an_device_pk a \<longrightarrow> (\<forall>b. resolve_agent_for_handshake rg' (an_device_pk a) = Some b \<longrightarrow> an_id b \<noteq> an_id a)))"
proof -
  have ok: "registry_ok rg" unfolding assms(1) by (rule reachable_ok)
  note r = resolve_key [OF assms(2)]
  from settle_total [OF ok assms(2)] obtain rg1 where s: "settle_device_key_rotation env a pk rg = Inr rg1" .
  define rg' where "rg' = linked env (an_id a) hello kind rg1"
  have link: "link env pk hello kind rg = (Link_open (an_id a), rg')" using assms(2,3) s by (simp add: link_def rg'_def)
  have ok': "registry_ok rg'" using link_ok [OF ok, of env pk hello kind] link by simp
  have same: "cores rg' = cores rg1" using same_core_linked [of rg1] by (simp add: same_core_def rg'_def)
  from settled_core [OF assms(2) s] obtain c where c: "c \<in> set (cores rg')" "co_id c = an_id a" "co_pk c = pk" "pk \<noteq> an_device_pk a \<longrightarrow> co_pending c = None"
    unfolding same by blast
  have "an_id b \<noteq> an_id a" if "pk \<noteq> an_device_pk a" "resolve_agent_for_handshake rg' (an_device_pk a) = Some b" for b
  proof
    assume "an_id b = an_id a"
    moreover have "core b \<in> set (cores rg')" using resolve_key(1) [OF that(2)] by (simp add: cores_def)
    ultimately have "core b = c" using core_unique [OF ok' _ c(1), of "core b"] c(2) by (simp add: core_def)
    then show False using resolve_key(2) [OF that(2)] that(1) c(3,4) by (auto simp: core_def)
  qed
  moreover have "\<exists>b\<in>set (rg_agents rg'). an_id b = an_id a \<and> an_device_pk b = pk" using c(1-3) by (auto simp: cores_def core_def)
  ultimately show ?thesis using link r(2) by blast
qed

subsection \<open>Witnesses\<close>

definition example_env :: registry_env where
  "example_env = \<lparr>re_fingerprint = id, re_isoformat = (\<lambda>_. []), re_token_hash = id\<rparr>"

definition example_facts :: device_facts where
  "example_facts = \<lparr>df_hostname = Some ''edge'', df_machine_id_hash = None, df_os = Some ''linux'', df_os_version = None, df_arch = None,
     df_agent_version = None, df_primary_macs = None\<rparr>"

definition example_run :: "agent_request list \<Rightarrow> registry" where
  "example_run rs = fold (registry_step example_env) rs (empty_registry 0)"

definition approved_then_revoked :: "agent_request list" where
  "approved_then_revoked = [Enroll ''aa'' example_facts None None True ''current'', Approve 1 (Some 7) None None None, Revoke 1 (Some 7) ''stolen'']"

lemma approved_then_revoked_state:
  "get_agent (example_run approved_then_revoked) 1 \<noteq> None \<and> an_approved_at (the (get_agent (example_run approved_then_revoked) 1)) \<noteq> None \<and>
   an_status (the (get_agent (example_run approved_then_revoked) 1)) = AS_revoked"
  by code_simp

theorem revoked_never_active_witness:
  "an_status (the (get_agent (example_run approved_then_revoked) 1)) = AS_revoked \<and>
   fst (link example_env ''aa'' None ''current''
     (fold (registry_step example_env) [Approve 1 (Some 7) None None None] (example_run approved_then_revoked))) \<noteq> Link_open 1"
proof -
  obtain a where a: "get_agent (example_run approved_then_revoked) 1 = Some a" "an_approved_at a \<noteq> None" "an_status a = AS_revoked"
    using approved_then_revoked_state by auto
  then have "an_status a \<noteq> AS_active" by simp
  from revoked_never_active [OF example_run_def a(1,2) this] a show ?thesis by (metis option.sel)
qed

definition token_minted :: "agent_request list" where
  "token_minted = [Mint_token ''tok'' ''https://cb'' [] 3600 1 (Some 7)]"

theorem fleet_bounded_witness:
  "agent_counts (example_run (token_minted @ [Enroll ''aa'' example_facts None (Some ''tok'') True ''current''])) 1 = 1 \<and>
   count_pending_agents (example_run (token_minted @ [Enroll ''aa'' example_facts None (Some ''tok'') True ''current''])) \<le> 100"
proof -
  have "agent_counts (example_run (token_minted @ [Enroll ''aa'' example_facts None (Some ''tok'') True ''current''])) 1 = 1" by code_simp
  then show ?thesis using fleet_bounded [OF example_run_def] by simp
qed

theorem token_enrollment_exact_witness:
  "map et_hash (rg_tokens (example_run token_minted)) = [''tok''] \<and>
   (\<exists>i rg'. enroll example_env ''aa'' example_facts None (Some ''tok'') True ''current'' (example_run token_minted) = (Enrolled_active i, rg'))"
proof -
  have "get_agent_by_device_pk (example_run token_minted) ''aa'' = None" by code_simp
  moreover have "live_token example_env ''tok'' (example_run token_minted)" by code_simp
  moreover have "map et_hash (rg_tokens (example_run token_minted)) = [''tok'']" by code_simp
  ultimately show ?thesis
    using token_enrollment_exact [OF example_run_def, of "''tok''" token_minted "''aa''" example_facts None True "''current''"]
    by auto
qed

definition enrolled_pending :: "agent_request list" where
  "enrolled_pending = [Enroll ''aa'' example_facts None None True ''current'']"

theorem grants_change_by_decision_witness:
  "get_grant (registry_step example_env (Approve 1 (Some 7) None None None) (example_run enrolled_pending)) 1 ''host_telemetry'' \<noteq>
     get_grant (example_run enrolled_pending) 1 ''host_telemetry'' \<and>
   decides (example_run enrolled_pending) (Approve 1 (Some 7) None None None) 1 ''host_telemetry''"
proof -
  have "get_grant (example_run enrolled_pending) 1 ''host_telemetry'' = None" by code_simp
  moreover have "map_option cg_enabled (get_grant (registry_step example_env (Approve 1 (Some 7) None None None) (example_run enrolled_pending)) 1 ''host_telemetry'') \<noteq> None"
    by code_simp
  ultimately have c: "get_grant (registry_step example_env (Approve 1 (Some 7) None None None) (example_run enrolled_pending)) 1 ''host_telemetry'' \<noteq>
     get_grant (example_run enrolled_pending) 1 ''host_telemetry''" by auto
  from c grants_change_by_decision [OF example_run_def c] show ?thesis ..
qed

definition rotating :: "agent_request list" where
  "rotating = [Enroll ''aa'' example_facts None None True ''current'', Approve 1 (Some 7) None None None, Rotate_key 1 (replicate 64 CHR ''b'')]"

theorem rotation_completes_witness:
  "(\<exists>rg'. link example_env (replicate 64 CHR ''b'') None ''current'' (example_run rotating) = (Link_open 1, rg')) \<and>
   map an_device_pk (rg_agents (example_run rotating)) = [''aa'']"
proof -
  have "map_option an_id (resolve_agent_for_handshake (example_run rotating) (replicate 64 CHR ''b'')) = Some 1 \<and>
      map_option an_status (resolve_agent_for_handshake (example_run rotating) (replicate 64 CHR ''b'')) = Some AS_active" by code_simp
  then obtain a where a: "resolve_agent_for_handshake (example_run rotating) (replicate 64 CHR ''b'') = Some a" "an_id a = 1" "an_status a = AS_active"
    by auto
  moreover have "map an_device_pk (rg_agents (example_run rotating)) = [''aa'']" by code_simp
  ultimately show ?thesis using rotation_completes [OF example_run_def a(1,3), of None "''current''"] by auto
qed

end
