(* ===== verification/Probe_Eligibility.thy ===== *)
theory Probe_Eligibility
  imports Probe_Runs Agent_Enrollment
begin

text \<open>
  \<open>services/monitoring/probe_eligibility.py\<close>: may this agent run this monitor's check now? The check reads the registry,
  the monitors and their runs, the readiness rows of the agents and the tenants of the targets; the answers of Redis
  (presence, ownership of the link) and of the resolver are functions of a vantage. A check that raises is None: a call to
  Redis may raise, and so may a resolution, by an error that is no \<open>OSError\<close> (\<open>getaddrinfo\<close> raises \<open>UnicodeError\<close> on a name
  that cannot be encoded).
\<close>

subsection \<open>What the check reads\<close>

record tenant_tables =
  tt_hardware :: "(int \<times> int option) list"
  tt_compute_units :: "(int \<times> int) list"
  tt_services :: "(int \<times> int option) list"
  tt_external_nodes :: "(int \<times> int option) list"

text \<open>What a resolution ends with: addresses, an \<open>OSError\<close> (which \<open>default_resolver\<close> catches), or another exception.\<close>

datatype lookup = Answers "string list" | Os_error | Lookup_raised

text \<open>
  \<open>is_agent_online\<close> and \<open>get_agent_connection_owner\<close> with what Redis says: None when the call raises. Without a connection
  to Redis they answer False and None.
\<close>

record vantage =
  vt_online :: "int \<Rightarrow> bool option"
  vt_owner :: "int \<Rightarrow> string option option"
  vt_readiness :: "readiness_row list"
  vt_tenants :: tenant_tables
  vt_getaddrinfo :: "string \<Rightarrow> lookup"
  vt_str :: "json \<Rightarrow> string"
  vt_sha :: "string \<Rightarrow> string"

fun status_text :: "agent_status \<Rightarrow> string" where
  "status_text AS_pending = ''pending''"
| "status_text AS_active = ''active''"
| "status_text AS_revoked = ''revoked''"
| "status_text AS_rejected = ''rejected''"

text \<open>\<open>dict.fromkeys\<close>: the first occurrence of every value.\<close>

fun from_keys :: "'a list \<Rightarrow> 'a list" where
  "from_keys [] = []"
| "from_keys (x # xs) = x # filter (\<lambda>y. y \<noteq> x) (from_keys xs)"

definition default_resolver :: "vantage \<Rightarrow> string \<Rightarrow> string list option" where
  "default_resolver vt host = (case vt_getaddrinfo vt host of Answers answers \<Rightarrow> Some (from_keys answers) | Os_error \<Rightarrow> Some [] | Lookup_raised \<Rightarrow> None)"

definition is_ip_literal :: "string \<Rightarrow> bool" where
  "is_ip_literal host = (ip_address (py_strip host) \<noteq> None)"

subsection \<open>The conditions\<close>

definition USABLE_READINESS_STATES :: "string list" where
  "USABLE_READINESS_STATES = [''ready'', ''degraded'']"

definition find_readiness :: "vantage \<Rightarrow> int \<Rightarrow> string \<Rightarrow> readiness_row option" where
  "find_readiness vt i collector = find (\<lambda>r. rd_agent r = i \<and> rd_collector r = collector) (vt_readiness vt)"

definition readiness_denial :: "vantage \<Rightarrow> instant \<Rightarrow> int \<Rightarrow> string \<Rightarrow> eligibility option" where
  "readiness_denial vt now i check_type =
     (case map_of READINESS_COLLECTORS check_type of
        None \<Rightarrow> None
      | Some collector \<Rightarrow>
          (case find_readiness vt i collector of
             None \<Rightarrow> Some (Denied (Some ''readiness_unknown'') (Some collector))
           | Some row \<Rightarrow>
               if (case rd_updated_at row of None \<Rightarrow> True | Some u \<Rightarrow> u < now - seconds READINESS_MAX_AGE_S)
               then Some (Denied (Some ''readiness_unknown'') (Some collector))
               else if rd_state row \<notin> set USABLE_READINESS_STATES
               then Some (Denied (Some ''readiness_unavailable'') (Some (collector @ '':'' @ rd_state row)))
               else None))"

definition target_tenant :: "tenant_tables \<Rightarrow> string \<Rightarrow> int \<Rightarrow> int option" where
  "target_tenant tt target_type i =
     Option.bind
       (if target_type = ''hardware'' then map_of (tt_hardware tt) i
        else if target_type = ''compute_unit'' then Option.bind (map_of (tt_compute_units tt) i) (map_of (tt_hardware tt))
        else if target_type = ''service'' then map_of (tt_services tt) i
        else if target_type = ''external_node'' then map_of (tt_external_nodes tt) i
        else None) (\<lambda>t. t)"

definition monitor_tenant_id :: "tenant_tables \<Rightarrow> monitor_item \<Rightarrow> int option" where
  "monitor_tenant_id tt m =
     (case (mi_target_type m, mi_target_id m) of (Some ty, Some i) \<Rightarrow> target_tenant tt ty i | _ \<Rightarrow> None)"

definition tenants_differ :: "int option \<Rightarrow> int option \<Rightarrow> bool" where
  "tenants_differ a b = (a \<noteq> None \<and> b \<noteq> None \<and> a \<noteq> b)"

definition active_run_exists :: "monitor_db \<Rightarrow> int \<Rightarrow> string option \<Rightarrow> bool" where
  "active_run_exists db i ignored =
     list_ex (\<lambda>r. pr_monitor_id r = i \<and> active_status (pr_status r) \<and> (case ignored of None \<Rightarrow> True | Some q \<Rightarrow> pr_run_id r \<noteq> q)) (mruns db)"

definition derive_agent_scope :: "vantage \<Rightarrow> registry \<Rightarrow> int \<Rightarrow> config option \<Rightarrow> effective_scope option" where
  "derive_agent_scope vt rg i c =
     (let cfg = (case c of Some c \<Rightarrow> Some c | None \<Rightarrow> map_option sg_config (map_of (structured_grants_dict rg i) ''remote_probe'')) in
      derive_scope (vt_str vt) (vt_sha vt) (agent_network_facts rg i) cfg)"

text \<open>The scope decision on the target, after resolving a name.\<close>

definition refusal_detail :: "decision \<Rightarrow> string \<Rightarrow> string" where
  "refusal_detail d fallback =
     de_reason d @ '':'' @ (case de_address d of None \<Rightarrow> fallback | Some a \<Rightarrow> if a = [] then fallback else a)"

definition scope_verdict :: "vantage \<Rightarrow> effective_scope \<Rightarrow> string \<Rightarrow> eligibility option" where
  "scope_verdict vt scope host =
     (case (if is_ip_literal host then Some None else map_option Some (default_resolver vt host)) of
        None \<Rightarrow> None
      | Some resolved \<Rightarrow>
      if resolved = Some [] then Some (Denied (Some ''unresolved_host'') (Some host))
      else case evaluate scope host resolved of
        None \<Rightarrow> None
      | Some d \<Rightarrow> if de_allowed d then Some Eligible else Some (Denied (Some ''out_of_scope'') (Some (refusal_detail d host))))"

text \<open>The two questions to Redis, with what follows them.\<close>

definition link_gate :: "vantage \<Rightarrow> int \<Rightarrow> eligibility option \<Rightarrow> eligibility option" where
  "link_gate vt i rest =
     (case vt_online vt i of
        None \<Rightarrow> None
      | Some False \<Rightarrow> Some (Denied (Some ''agent_offline'') None)
      | Some True \<Rightarrow>
          (case vt_owner vt i of
             None \<Rightarrow> None
           | Some None \<Rightarrow> Some (Denied (Some ''no_link_owner'') None)
           | Some (Some w) \<Rightarrow> rest))"

definition evaluate_agent :: "vantage \<Rightarrow> registry \<Rightarrow> monitor_db \<Rightarrow> int \<Rightarrow> monitor_item \<times> string option \<Rightarrow> eligibility option" where
  "evaluate_agent vt rg db i q =
     (case q of (m, ignored) \<Rightarrow>
      case get_agent rg i of
        None \<Rightarrow> Some (Denied (Some ''agent_missing'') None)
      | Some a \<Rightarrow>
          if an_status a \<noteq> AS_active then Some (Denied (Some ''agent_inactive'') (Some (status_text (an_status a))))
          else case map_of (structured_grants_dict rg i) ''remote_probe'' of
            None \<Rightarrow> Some (Denied (Some ''capability_disabled'') None)
          | Some g \<Rightarrow>
              if \<not> sg_enabled g then Some (Denied (Some ''capability_disabled'') None)
              else link_gate vt i
                (case readiness_denial vt (rg_clock rg) i (mi_check_type m) of
                   Some d \<Rightarrow> Some d
                 | None \<Rightarrow>
                     let tenant = monitor_tenant_id (vt_tenants vt) m in
                     if tenants_differ (an_tenant_id a) tenant
                     then Some (Denied (Some ''tenant_mismatch'') (Some (int_str (the tenant) @ ''!='' @ int_str (the (an_tenant_id a)))))
                     else case derive_agent_scope vt rg i (Some (sg_config g)) of
                       None \<Rightarrow> None
                     | Some scope \<Rightarrow>
                         (case scope_verdict vt scope (mi_host m) of
                            Some Eligible \<Rightarrow>
                              if active_run_exists db (mi_id m) ignored then Some (Denied (Some ''previous_run_in_flight'') None) else Some Eligible
                          | r \<Rightarrow> r)))"

definition evaluate_eligibility ::
  "vantage \<Rightarrow> registry \<Rightarrow> monitor_db \<Rightarrow> monitor_item \<Rightarrow> int option \<Rightarrow> string option \<Rightarrow> eligibility option" where
  "evaluate_eligibility vt rg db m agent_override ignored =
     (case (case agent_override of Some i \<Rightarrow> Some i | None \<Rightarrow> mi_probe_agent_id m) of
        None \<Rightarrow> Some (Denied (Some ''agent_missing'') None)
      | Some i \<Rightarrow> evaluate_agent vt rg db i (m, ignored))"
subsection \<open>Stored grants and reports always have a scope\<close>

lemma structured_lookup: "map_of (structured_grants_dict rg i) capability = map_option structured_grant_of (get_grant rg i capability)"
proof -
  have "map_of (map (\<lambda>g. (cg_capability g, structured_grant_of g)) (filter (\<lambda>g. cg_agent g = i) gs)) capability =
      map_option structured_grant_of (tbl_get grant_key (i, capability) gs)" for gs
    by (induction gs) (auto simp: tbl_get_Cons)
  then show ?thesis by (simp add: structured_grants_dict_def get_grant_def)
qed

lemma defaults_merged: "config_ok capability c \<Longrightarrow> dict_merge (default_config_for capability) c = c"
  unfolding config_ok_def
  by (elim disjE conjE) (simp_all add: default_config_for_def CAPABILITY_DEFINITIONS_def merge_defaults ok_keys defaults_distinct)

lemma granted_config:
  assumes "registry_ok rg" "get_grant rg i capability = Some g"
  shows "config_ok capability (cg_config g)" "structured_grant_of g = \<lparr>sg_enabled = cg_enabled g, sg_config = cg_config g\<rparr>"
proof -
  have g: "g \<in> set (rg_grants rg)" "cg_capability g = capability" using tbl_get_Some [of grant_key _ _ g] assms(2) by (auto simp: get_grant_def)
  then show ok: "config_ok capability (cg_config g)" using assms(1) by (auto simp: registry_ok_def grants_ok_def)
  show "structured_grant_of g = \<lparr>sg_enabled = cg_enabled g, sg_config = cg_config g\<rparr>"
    using defaults_merged [OF ok] g(2) by (simp add: structured_grant_of_def)
qed

lemma reported_networks_total: "\<exists>ns. direct_networks st (facts_json facts) = Some ns"
  by (induction facts) (auto simp: facts_json_def usable_interface_def json_get_def iter_or_empty_def)

lemma hostnames_iterable:
  assumes "config_ok capability c" "capability = ''remote_probe'' \<or> capability = ''local_discovery''"
  shows "\<exists>hs. iter_or_empty (json_get c ''additional_hostnames'' JNull) = Some hs"
proof (cases "capability = ''remote_probe''")
  case True
  then show ?thesis using assms(1) by (auto simp: config_ok_def remote_probe_ok_def canonical_hostnames_def iter_or_empty_def)
next
  case False
  then have "map fst c = map fst LOCAL_DISCOVERY_DEFAULT_CONFIG" using assms ok_keys(3) [of c] by (auto simp: config_ok_def)
  then have "''additional_hostnames'' \<notin> set (map fst c)" by (simp only:) (simp add: LOCAL_DISCOVERY_DEFAULT_CONFIG_def)
  then have "map_of c ''additional_hostnames'' = None" by (simp add: map_of_eq_None_iff)
  then show ?thesis by (simp add: json_get_def iter_or_empty_def)
qed

lemma scope_total:
  assumes "config_ok capability c" "capability = ''remote_probe'' \<or> capability = ''local_discovery''"
  obtains sc where "derive_scope st sha (agent_network_facts rg i) (Some c) = Some sc"
proof -
  obtain hs where "iter_or_empty (json_get c ''additional_hostnames'' JNull) = Some hs" using hostnames_iterable [OF assms] ..
  moreover obtain ns where "direct_networks st (case agent_network_facts rg i of None \<Rightarrow> [] | Some f \<Rightarrow> f) = Some ns"
    using reported_networks_total [of st] by (cases "tbl_get nw_agent i (rg_networks rg)") (auto simp: agent_network_facts_def)
  ultimately have "\<exists>sc. derive_scope st sha (agent_network_facts rg i) (Some c) = Some sc" by (simp add: derive_scope_def Let_def)
  with that show ?thesis by blast
qed

subsection \<open>The reference: where a check may run\<close>

definition collector_ready :: "vantage \<Rightarrow> instant \<Rightarrow> int \<Rightarrow> string \<Rightarrow> bool" where
  "collector_ready vt now i check_type =
     (\<forall>collector. map_of READINESS_COLLECTORS check_type = Some collector \<longrightarrow>
        (\<exists>row u. find_readiness vt i collector = Some row \<and> rd_updated_at row = Some u \<and> now - seconds 2700 \<le> u \<and>
           (rd_state row = ''ready'' \<or> rd_state row = ''degraded'')))"

definition decided_by :: "vantage \<Rightarrow> string \<Rightarrow> ip_addr option list" where
  "decided_by vt host =
     (if is_ip_literal host then judged host None
      else case default_resolver vt host of None \<Rightarrow> [] | Some answers \<Rightarrow> judged host (Some answers))"

definition linked_up :: "vantage \<Rightarrow> int \<Rightarrow> bool" where
  "linked_up vt i = (vt_online vt i = Some True \<and> (\<exists>w. vt_owner vt i = Some (Some w)))"

text \<open>The answers on which the check raises.\<close>

definition link_raises :: "vantage \<Rightarrow> int \<Rightarrow> bool" where
  "link_raises vt i = (vt_online vt i = None \<or> vt_online vt i = Some True \<and> vt_owner vt i = None)"

definition resolver_raises :: "vantage \<Rightarrow> string \<Rightarrow> bool" where
  "resolver_raises vt host = (\<not> is_ip_literal host \<and> vt_getaddrinfo vt host = Lookup_raised)"

lemma link_gate_cases:
  "linked_up vt i \<Longrightarrow> link_gate vt i rest = rest"
  "\<not> linked_up vt i \<Longrightarrow> link_gate vt i rest = None \<and> link_raises vt i \<or> (\<exists>reason detail. link_gate vt i rest = Some (Denied reason detail))"
  by (auto simp: linked_up_def link_gate_def link_raises_def split: option.splits bool.splits)

definition may_probe :: "vantage \<Rightarrow> registry \<Rightarrow> monitor_db \<Rightarrow> int \<Rightarrow> monitor_item \<Rightarrow> string option \<Rightarrow> bool" where
  "may_probe vt rg db i m ignored =
     (\<exists>a g. get_agent rg i = Some a \<and> an_status a = AS_active \<and> get_grant rg i ''remote_probe'' = Some g \<and> cg_enabled g \<and>
        linked_up vt i \<and> collector_ready vt (rg_clock rg) i (mi_check_type m) \<and>
        \<not> tenants_differ (an_tenant_id a) (monitor_tenant_id (vt_tenants vt) m) \<and>
        decided_by vt (mi_host m) \<noteq> [] \<and>
        (\<forall>x\<in>set (decided_by vt (mi_host m)). \<exists>ad. x = Some ad \<and> reachable (vt_str vt) (agent_network_facts rg i) (Some (cg_config g)) ad) \<and>
        \<not> (\<exists>r\<in>set (active_runs (mi_id m) db). ignored \<noteq> Some (pr_run_id r)))"

lemma readiness_denial_iff:
  "readiness_denial vt now i ty = None \<longleftrightarrow> collector_ready vt now i ty"
  "readiness_denial vt now i ty = Some d \<Longrightarrow> d \<noteq> Eligible"
  by (auto simp: readiness_denial_def collector_ready_def USABLE_READINESS_STATES_def READINESS_MAX_AGE_S_def split: option.splits if_splits)

lemma scope_verdict_exact:
  assumes "derive_scope (vt_str vt) (vt_sha vt) facts config = Some sc"
  shows "scope_verdict vt sc host = Some Eligible \<longleftrightarrow>
      decided_by vt host \<noteq> [] \<and> (\<forall>x\<in>set (decided_by vt host). \<exists>a. x = Some a \<and> reachable (vt_str vt) facts config a)"
    "scope_verdict vt sc host = None \<longleftrightarrow> resolver_raises vt host"
proof -
  have "(scope_verdict vt sc host = Some Eligible \<longleftrightarrow>
      decided_by vt host \<noteq> [] \<and> (\<forall>x\<in>set (decided_by vt host). \<exists>a. x = Some a \<and> reachable (vt_str vt) facts config a)) \<and>
      (scope_verdict vt sc host = None \<longleftrightarrow> resolver_raises vt host)"
  proof (cases "resolver_raises vt host")
    case True
    then show ?thesis by (auto simp: resolver_raises_def scope_verdict_def decided_by_def default_resolver_def)
  next
    case False
    then obtain res where res: "(if is_ip_literal host then Some None else map_option Some (default_resolver vt host)) = Some res"
      by (cases "is_ip_literal host"; cases "vt_getaddrinfo vt host") (auto simp: resolver_raises_def default_resolver_def)
    then have by_res: "decided_by vt host = judged host res" by (auto simp: decided_by_def split: if_splits)
    show ?thesis
    proof (cases "res = Some []")
      case True
      then have "ip_address (py_strip host) = None" using res by (auto simp: is_ip_literal_def split: if_splits)
      then have "parse_address (py_strip host) = None" by (simp add: parse_address_def py_strip_idem)
      with True have "judged host res = []" by (simp add: judged_def Let_def)
      then show ?thesis using False res True by_res by (simp add: scope_verdict_def)
    next
      case named: False
      obtain d where "evaluate sc host res = Some d" "de_allowed d \<longleftrightarrow> judged host res \<noteq> [] \<and>
          (\<forall>x\<in>set (judged host res). \<exists>a. x = Some a \<and> reachable (vt_str vt) facts config a)"
        using evaluate_decides [OF assms, of host res] by blast
      then show ?thesis using False named res by_res by (simp add: scope_verdict_def)
    qed
  qed
  then show "scope_verdict vt sc host = Some Eligible \<longleftrightarrow>
      decided_by vt host \<noteq> [] \<and> (\<forall>x\<in>set (decided_by vt host). \<exists>a. x = Some a \<and> reachable (vt_str vt) facts config a)"
    "scope_verdict vt sc host = None \<longleftrightarrow> resolver_raises vt host" by blast+
qed

lemma active_run_iff: "active_run_exists db i ignored \<longleftrightarrow> (\<exists>r\<in>set (active_runs i db). ignored \<noteq> Some (pr_run_id r))"
  by (auto simp: active_run_exists_def list_ex_iff active_runs_def split: option.splits)

definition may_ask :: "registry \<Rightarrow> int \<Rightarrow> string \<Rightarrow> bool" where
  "may_ask rg i capability = (\<exists>a g. get_agent rg i = Some a \<and> an_status a = AS_active \<and> get_grant rg i capability = Some g \<and> cg_enabled g)"

lemma evaluate_agent_bars:
  assumes "\<not> may_ask rg i ''remote_probe''"
  shows "\<exists>reason detail. evaluate_agent vt rg db i (m, ignored) = Some (Denied reason detail)"
  using assms by (auto simp: may_ask_def evaluate_agent_def structured_lookup structured_grant_of_def split: option.split)

lemma evaluate_agent_exact:
  assumes "registry_ok rg"
  shows "(evaluate_agent vt rg db i (m, ignored) = Some Eligible \<longleftrightarrow> may_probe vt rg db i m ignored) \<and>
    (evaluate_agent vt rg db i (m, ignored) = None \<longrightarrow> link_raises vt i \<or> resolver_raises vt (mi_host m))"
proof (cases "may_ask rg i ''remote_probe''")
  case False
  then have "\<not> may_probe vt rg db i m ignored" by (auto simp: may_ask_def may_probe_def)
  with evaluate_agent_bars [OF False, of vt db m ignored] show ?thesis by auto
next
  case True
  then obtain a g where c: "get_agent rg i = Some a" "an_status a = AS_active" "get_grant rg i ''remote_probe'' = Some g" "cg_enabled g"
    by (auto simp: may_ask_def)
  note g = granted_config [OF assms c(3)]
  obtain sc where sc: "derive_scope (vt_str vt) (vt_sha vt) (agent_network_facts rg i) (Some (cg_config g)) = Some sc"
    by (rule scope_total [OF g(1)]) simp
  define rest where "rest = (case readiness_denial vt (rg_clock rg) i (mi_check_type m) of
       Some d \<Rightarrow> Some d
     | None \<Rightarrow> let tenant = monitor_tenant_id (vt_tenants vt) m in
         if tenants_differ (an_tenant_id a) tenant
         then Some (Denied (Some ''tenant_mismatch'') (Some (int_str (the tenant) @ ''!='' @ int_str (the (an_tenant_id a)))))
         else (case scope_verdict vt sc (mi_host m) of
                 Some Eligible \<Rightarrow> if active_run_exists db (mi_id m) ignored then Some (Denied (Some ''previous_run_in_flight'') None) else Some Eligible
               | r \<Rightarrow> r))"
  have "derive_agent_scope vt rg i (Some (cg_config g)) = Some sc" using sc by (simp add: derive_agent_scope_def)
  then have ev: "evaluate_agent vt rg db i (m, ignored) = link_gate vt i rest"
    using c g(2) unfolding evaluate_agent_def rest_def Let_def by (simp add: structured_lookup cong: option.case_cong)
  have rest: "rest = Some Eligible \<longleftrightarrow> collector_ready vt (rg_clock rg) i (mi_check_type m) \<and> \<not> tenants_differ (an_tenant_id a) (monitor_tenant_id (vt_tenants vt) m) \<and>
      scope_verdict vt sc (mi_host m) = Some Eligible \<and> \<not> active_run_exists db (mi_id m) ignored"
    "rest = None \<Longrightarrow> scope_verdict vt sc (mi_host m) = None"
    using readiness_denial_iff [of vt "rg_clock rg" i "mi_check_type m"]
    by (auto simp: rest_def Let_def split: option.splits eligibility.splits if_splits)
  show ?thesis
  proof (cases "linked_up vt i")
    case True
    then have "evaluate_agent vt rg db i (m, ignored) = rest" using ev link_gate_cases(1) by simp
    with True rest c scope_verdict_exact [OF sc, of "mi_host m"] show ?thesis by (auto simp: may_probe_def active_run_iff)
  next
    case False
    then have "\<not> may_probe vt rg db i m ignored" by (auto simp: may_probe_def)
    with link_gate_cases(2) [OF False, of rest] ev show ?thesis by auto
  qed
qed

text \<open>
  C25. \<^bold>\<open>A check is eligible exactly where it may run.\<close> In every state of the registry that requests can reach, the eligibility
  check says yes exactly when the chosen agent is active, holds an enabled grant of remote probing, is
  online with an owned link, its collector reported ready or degraded within 45 minutes, the tenants do not conflict,
  the target has addresses and each of them is reachable under the agent's reported networks and stored grant, and no
  other run of the monitor is active. It raises only when a question to Redis raised, or when the host is a name whose
  resolution raised another error than an \<open>OSError\<close>; in particular an agent that may not be asked is refused without either.
\<close>

theorem probe_eligible_exact:
  assumes "rg = fold (registry_step env) rs (empty_registry now)"
  shows "let chosen = (case agent_override of Some j \<Rightarrow> Some j | None \<Rightarrow> mi_probe_agent_id m);
      answer = evaluate_eligibility vt rg db m agent_override ignored in
    (answer = Some Eligible \<longleftrightarrow> (\<exists>i. chosen = Some i \<and> may_probe vt rg db i m ignored)) \<and>
    (answer = None \<longrightarrow> (\<exists>i. chosen = Some i \<and> may_ask rg i ''remote_probe'' \<and> (link_raises vt i \<or> resolver_raises vt (mi_host m))))"
proof -
  have ok: "registry_ok rg" unfolding assms by (rule reachable_ok)
  show ?thesis
  proof (cases "case agent_override of Some j \<Rightarrow> Some j | None \<Rightarrow> mi_probe_agent_id m")
    case (Some i)
    with evaluate_agent_exact [OF ok, of vt db i m ignored] evaluate_agent_bars [of rg i vt db m ignored] show ?thesis
      by (cases "may_ask rg i ''remote_probe''") (auto simp: evaluate_eligibility_def Let_def)
  qed (simp add: evaluate_eligibility_def Let_def)
qed

subsection \<open>The interface of eligibility checks\<close>

text \<open>
  What the checks for probing and for discovery share: in every state that keeps the registry's invariant they answer with a
  refusal, without raising, unless the agent is active with an enabled grant of their capability. Then neither an agent that is
  out nor a capability that is switched off gets work again, whatever requests follow.
\<close>

locale vantage_gate =
  fixes check :: "registry \<Rightarrow> int \<Rightarrow> 'q \<Rightarrow> eligibility option" and capability :: string
  assumes bars: "registry_ok rg \<Longrightarrow> \<not> may_ask rg i capability \<Longrightarrow> \<exists>reason detail. check rg i q = Some (Denied reason detail)"
begin

lemma barred_refused:
  assumes "barred i rg"
  shows "\<exists>reason detail. check (fold (registry_step env) rs rg) i q = Some (Denied reason detail)"
proof -
  have b: "barred i (fold (registry_step env) rs rg)" using assms by (rule barring.run_inv)
  then have ok: "registry_ok (fold (registry_step env) rs rg)" by (simp add: barred_def)
  have "\<not> may_ask (fold (registry_step env) rs rg) i capability"
  proof
    assume "may_ask (fold (registry_step env) rs rg) i capability"
    then obtain a where "get_agent (fold (registry_step env) rs rg) i = Some a" "an_status a = AS_active" by (auto simp: may_ask_def)
    with b get_agent_core show False by (fastforce simp: barred_def core_def)
  qed
  with bars [OF ok] show ?thesis .
qed

lemma switched_off_refused:
  assumes "registry_ok rg" "never_enabled env rs rg i capability" "switched_off rg i capability"
  shows "\<exists>reason detail. check (fold (registry_step env) rs rg) i q = Some (Denied reason detail)"
proof -
  have ok: "registry_ok (fold (registry_step env) rs rg)" using assms(1) by (rule fleet.run_inv)
  have "switched_off (fold (registry_step env) rs rg) i capability" using assms by (rule never_enabled_off)
  then have "\<not> may_ask (fold (registry_step env) rs rg) i capability" by (auto simp: switched_off_def may_ask_def)
  with bars [OF ok] show ?thesis .
qed

end

text \<open>The probe check provides it, whatever the vantage, the monitor and the runs.\<close>

definition probe_check :: "registry \<Rightarrow> int \<Rightarrow> vantage \<times> monitor_db \<times> monitor_item \<times> string option \<Rightarrow> eligibility option" where
  "probe_check rg i q = (case q of (vt, db, m, ignored) \<Rightarrow> evaluate_agent vt rg db i (m, ignored))"

interpretation probing: vantage_gate probe_check "''remote_probe''"
  by unfold_locales (auto simp: probe_check_def dest: evaluate_agent_bars)

subsection \<open>Dispatch\<close>

text \<open>\<open>dispatch_run\<close> with its check.\<close>

definition dispatch_checked :: "vantage \<Rightarrow> registry \<Rightarrow> bool \<Rightarrow> string \<Rightarrow> monitor_db \<Rightarrow> (dispatch_result \<times> monitor_db) option" where
  "dispatch_checked vt rg delivered run_id db =
     (case dispatch_load run_id db of
        None \<Rightarrow> Some (Not_published, db)
      | Some (run, m) \<Rightarrow>
          map_option (\<lambda>decision. dispatch_write decision delivered run m db)
            (evaluate_eligibility vt rg db m (Some (pr_agent_id run)) (Some (pr_run_id run))))"

lemma dispatch_load_Some:
  "dispatch_load q db = Some (run, m) \<longleftrightarrow> get_run q db = Some run \<and> pr_status run = RS_queued \<and> get_item (pr_monitor_id run) db = Some m"
  by (auto simp: dispatch_load_def split: option.splits)

subsection \<open>Witnesses\<close>

definition hello_eth0 :: hello_payload where
  "hello_eth0 = \<lparr>hp_os = None, hp_os_version = None, hp_arch = None, hp_agent_version = None, hp_primary_macs = None,
     hp_networks = Some [\<lparr>nf_name = ''eth0'', nf_flags = [''up''], nf_addrs = [''10.0.0.5/24'']\<rparr>], hp_spool_depth = None,
     hp_spool_evicted = None, hp_tls_pin_kind = None, hp_tls_successor_ready = False, hp_tls_successor_fingerprint = None, hp_ack_data = False\<rparr>"

definition linked_run :: "agent_request list" where
  "linked_run = [Enroll ''aa'' example_facts None None True ''current'', Approve 1 (Some 7) None None None, Link ''aa'' (Some hello_eth0) ''current'']"

definition example_vantage :: vantage where
  "example_vantage = \<lparr>vt_online = (\<lambda>_. Some True), vt_owner = (\<lambda>_. Some (Some ''w1'')),
     vt_readiness = [\<lparr>rd_agent = 1, rd_collector = ''probe.icmp'', rd_state = ''ready'', rd_updated_at = Some 0\<rparr>,
       \<lparr>rd_agent = 1, rd_collector = ''discovery.tcp'', rd_state = ''ready'', rd_updated_at = Some 0\<rparr>],
     vt_tenants = \<lparr>tt_hardware = [], tt_compute_units = [], tt_services = [], tt_external_nodes = []\<rparr>,
     vt_getaddrinfo = (\<lambda>_. Os_error), vt_str = (\<lambda>_. []), vt_sha = id\<rparr>"

definition remote_monitor :: monitor_item where
  "remote_monitor = idle_monitor\<lparr>mi_host := ''10.0.0.7'', mi_probe_agent_id := Some 1\<rparr>"

definition queued_db :: monitor_db where
  "queued_db = idle_db\<lparr>mitems := [remote_monitor], mruns := [new_run ''r1'' 7 1 20 0]\<rparr>"

theorem probe_eligible_exact_witness:
  "evaluate_eligibility example_vantage (example_run linked_run) queued_db remote_monitor None (Some ''r1'') = Some Eligible \<and>
   may_probe example_vantage (example_run linked_run) queued_db 1 remote_monitor (Some ''r1'') \<and>
   \<not> may_probe example_vantage (example_run linked_run) queued_db 1 remote_monitor None"
proof -
  have "evaluate_eligibility example_vantage (example_run linked_run) queued_db remote_monitor None (Some ''r1'') = Some Eligible" by code_simp
  moreover have "evaluate_eligibility example_vantage (example_run linked_run) queued_db remote_monitor (Some 1) None =
      Some (Denied (Some ''previous_run_in_flight'') None)" by code_simp
  moreover have "mi_probe_agent_id remote_monitor = Some 1" by code_simp
  ultimately show ?thesis
    using probe_eligible_exact [OF example_run_def, of remote_monitor None example_vantage linked_run queued_db "Some ''r1''"]
      probe_eligible_exact [OF example_run_def, of remote_monitor "Some 1" example_vantage linked_run queued_db None]
    by (simp add: Let_def)
qed


end
