(* ===== verification/Discovery_Admission.thy ===== *)
theory Discovery_Admission
  imports Probe_Eligibility
begin

text \<open>
  \<open>services/discovery_eligibility.py\<close> and \<open>services/discovery_admission.py\<close>: may this agent run this discovery request? The
  first asks about the agent and the prefixes, the second about the ports and the size of the request, and about the
  holds that keep a profile from being scheduled. The answers of Redis are functions of the vantage; None stands for a
  check that would raise.
\<close>

subsection \<open>Eligibility for discovery\<close>

definition REQUIRED_READINESS_COLLECTORS :: "string list" where
  "REQUIRED_READINESS_COLLECTORS = [''discovery.tcp'']"

definition fresh_state :: "vantage \<Rightarrow> instant \<Rightarrow> int \<Rightarrow> string \<Rightarrow> string option" where
  "fresh_state vt now i collector =
     map_option rd_state (find (\<lambda>r. rd_agent r = i \<and> rd_collector r = collector \<and>
       (case rd_updated_at r of None \<Rightarrow> False | Some u \<Rightarrow> now - seconds READINESS_MAX_AGE_S \<le> u)) (vt_readiness vt))"

fun discovery_readiness :: "vantage \<Rightarrow> instant \<Rightarrow> int \<Rightarrow> string list \<Rightarrow> eligibility option" where
  "discovery_readiness vt now i [] = None"
| "discovery_readiness vt now i (c # cs) =
     (case fresh_state vt now i c of
        None \<Rightarrow> Some (Denied (Some ''readiness_unknown'') (Some c))
      | Some s \<Rightarrow>
          if s = ''ready'' then discovery_readiness vt now i cs
          else Some (Denied (Some (if s = ''degraded'' then ''readiness_degraded'' else ''readiness_unavailable'')) (Some (c @ '':'' @ s))))"

definition discovery_grant_config :: "registry \<Rightarrow> int \<Rightarrow> config" where
  "discovery_grant_config rg i = (case map_of (structured_grants_dict rg i) ''local_discovery'' of None \<Rightarrow> [] | Some g \<Rightarrow> sg_config g)"

definition derive_discovery_scope :: "vantage \<Rightarrow> registry \<Rightarrow> int \<Rightarrow> config option \<Rightarrow> effective_scope option" where
  "derive_discovery_scope vt rg i c =
     derive_agent_scope vt rg i (Some (case c of Some c \<Rightarrow> c | None \<Rightarrow> discovery_grant_config rg i))"

fun judge_targets :: "effective_scope \<Rightarrow> string list \<Rightarrow> eligibility option" where
  "judge_targets scope [] = Some Eligible"
| "judge_targets scope (cidr # cidrs) =
     (case network_in_scope scope cidr of
        None \<Rightarrow> None
      | Some d \<Rightarrow>
          if de_allowed d then judge_targets scope cidrs
          else Some (Denied (Some ''out_of_scope'') (Some (refusal_detail d cidr))))"

record discovery_question =
  dq_targets :: "string list"
  dq_tenant :: "int option"
  dq_require_online :: bool

definition evaluate_discovery :: "vantage \<Rightarrow> registry \<Rightarrow> int \<Rightarrow> discovery_question \<Rightarrow> eligibility option" where
  "evaluate_discovery vt rg i q =
     (case get_agent rg i of
        None \<Rightarrow> Some (Denied (Some ''agent_missing'') None)
      | Some a \<Rightarrow>
          if an_status a \<noteq> AS_active then Some (Denied (Some ''agent_inactive'') (Some (status_text (an_status a))))
          else case map_of (structured_grants_dict rg i) ''local_discovery'' of
            None \<Rightarrow> Some (Denied (Some ''capability_disabled'') None)
          | Some g \<Rightarrow>
              if \<not> sg_enabled g then Some (Denied (Some ''capability_disabled'') None)
              else (if dq_require_online q then link_gate vt i else (\<lambda>rest. rest))
                (case discovery_readiness vt (rg_clock rg) i REQUIRED_READINESS_COLLECTORS of
                   Some d \<Rightarrow> Some d
                 | None \<Rightarrow>
                     if tenants_differ (an_tenant_id a) (dq_tenant q)
                     then Some (Denied (Some ''tenant_mismatch'') (Some (int_str (the (dq_tenant q)) @ ''!='' @ int_str (the (an_tenant_id a)))))
                     else case derive_discovery_scope vt rg i (Some (sg_config g)) of
                       None \<Rightarrow> None
                     | Some scope \<Rightarrow> judge_targets scope (dq_targets q)))"

definition discovery_eligibility :: "vantage \<Rightarrow> registry \<Rightarrow> int option \<Rightarrow> discovery_question \<Rightarrow> eligibility option" where
  "discovery_eligibility vt rg agent q =
     (case agent of None \<Rightarrow> Some (Denied (Some ''agent_missing'') None) | Some i \<Rightarrow> evaluate_discovery vt rg i q)"

subsection \<open>Ports\<close>

text \<open>\<open>_PORT_SPEC_RE.search\<close>: the first \<open>-p\<close> followed by spaces and a port list.\<close>

definition port_char :: "char \<Rightarrow> bool" where
  "port_char c = (c \<in> set ''0123456789,-'')"

fun port_spec :: "string \<Rightarrow> string option" where
  "port_spec [] = None"
| "port_spec (c # s) =
     (let spec = takeWhile port_char (dropWhile py_space (drop 1 s)) in
      if c = CHR ''-'' \<and> take 1 s = ''p'' \<and> spec \<noteq> [] then Some spec else port_spec s)"

text \<open>\<open>int\<close> on a text of digits, with a sign when the part has two hyphens; it refuses more than 4300 digits.\<close>

definition decimal_int :: "string \<Rightarrow> int option" where
  "decimal_int s = (if s = [] \<or> \<not> list_all is_digit s \<or> 4300 < length s then None else Some (int (dec_val s)))"

definition signed_int :: "string \<Rightarrow> int option" where
  "signed_int s = (case s of CHR ''-'' # ds \<Rightarrow> map_option uminus (decimal_int ds) | _ \<Rightarrow> decimal_int s)"

definition part_range :: "string \<Rightarrow> int list" where
  "part_range part =
     (let low = takeWhile (\<lambda>c. c \<noteq> CHR ''-'') part; high = drop 1 (dropWhile (\<lambda>c. c \<noteq> CHR ''-'') part) in
      case decimal_int low of
        None \<Rightarrow> []
      | Some first \<Rightarrow>
          if high = [] then [first]
          else case signed_int high of None \<Rightarrow> [] | Some final \<Rightarrow> [first..final])"

definition iter_requested_tcp_ports :: "string option \<Rightarrow> int list" where
  "iter_requested_tcp_ports arguments =
     (case port_spec (case arguments of None \<Rightarrow> [] | Some a \<Rightarrow> a) of
        None \<Rightarrow> []
      | Some spec \<Rightarrow> concat (map part_range (py_split CHR '','' spec)))"

definition first_ungranted_tcp_port :: "string option \<Rightarrow> int list \<Rightarrow> int option" where
  "first_ungranted_tcp_port arguments allowed = find (\<lambda>p. p \<notin> set allowed) (iter_requested_tcp_ports arguments)"

definition requested_tcp_ports :: "string option \<Rightarrow> int list \<Rightarrow> int list" where
  "requested_tcp_ports arguments allowed = remdups (filter (\<lambda>p. p \<in> set allowed) (iter_requested_tcp_ports arguments))"

definition granted_tcp_ports :: "config \<Rightarrow> int list" where
  "granted_tcp_ports c =
     (case json_get c ''tcp_ports'' JNull of
        JList vs \<Rightarrow> List.map_filter (\<lambda>v. case v of JInt p \<Rightarrow> Some p | _ \<Rightarrow> None) vs
      | _ \<Rightarrow> [])"

subsection \<open>Size\<close>

definition DEFAULT_ADDRESS_CEILING :: int where "DEFAULT_ADDRESS_CEILING = 1024"
definition MAX_ADDRESS_CEILING :: int where "MAX_ADDRESS_CEILING = 4096"

definition granted_address_ceiling :: "config \<Rightarrow> int" where
  "granted_address_ceiling c =
     (case json_get c ''max_addresses_per_job'' JNull of
        JInt n \<Rightarrow> if n \<le> 0 then DEFAULT_ADDRESS_CEILING else min n MAX_ADDRESS_CEILING
      | _ \<Rightarrow> DEFAULT_ADDRESS_CEILING)"

subsection \<open>Admission\<close>

datatype admission = Admitted | Refused int string "string option"

record discovery_request =
  dr_agent :: "int option"
  dr_targets :: "string list"
  dr_arguments :: "string option"
  dr_tenant :: "int option"

definition validate_agent_execution_location :: "vantage \<Rightarrow> registry \<Rightarrow> discovery_request \<Rightarrow> admission option" where
  "validate_agent_execution_location vt rg r =
     (case dr_agent r of
        None \<Rightarrow> Some Admitted
      | Some i \<Rightarrow>
          (case discovery_eligibility vt rg (Some i) \<lparr>dq_targets = dr_targets r, dq_tenant = dr_tenant r, dq_require_online = False\<rparr> of
             None \<Rightarrow> None
           | Some (Denied reason detail) \<Rightarrow> Some (Refused i (case reason of None \<Rightarrow> [] | Some x \<Rightarrow> x) detail)
           | Some Eligible \<Rightarrow>
               (let c = discovery_grant_config rg i in
                case first_ungranted_tcp_port (dr_arguments r) (granted_tcp_ports c) of
                  Some p \<Rightarrow> Some (Refused i ''port_not_granted'' (Some (int_str p)))
                | None \<Rightarrow>
                    (let ceiling = granted_address_ceiling c; count = address_count (dr_targets r) in
                     if ceiling < count then Some (Refused i ''address_limit_exceeded'' (Some (int_str count @ ''>'' @ int_str ceiling)))
                     else Some Admitted))))"

subsection \<open>Holds\<close>

record discovery_profile =
  dp_id :: int
  dp_enabled :: int
  dp_schedule_cron :: "string option"
  dp_scan_agent_id :: "int option"
  dp_paused_at :: "instant option"
  dp_nmap_arguments :: "string option"

definition paused_agent_ids :: "registry \<Rightarrow> int list \<Rightarrow> int list" where
  "paused_agent_ids rg ids =
     map fst (filter (\<lambda>(i, caps). case map_of caps ''local_discovery'' of
         None \<Rightarrow> False
       | Some g \<Rightarrow> json_get (sg_config g) ''auto_discovery_paused'' JNull = JBool True)
       (bulk_structured_grants_dict rg (sort (remdups ids))))"

definition agent_scheduling_paused :: "registry \<Rightarrow> bool \<Rightarrow> int \<Rightarrow> bool" where
  "agent_scheduling_paused rg fleet_paused i = (fleet_paused \<or> i \<in> set (paused_agent_ids rg [i]))"

definition held_by_any_scope :: "discovery_profile \<Rightarrow> bool \<Rightarrow> int list \<Rightarrow> bool" where
  "held_by_any_scope p fleet_paused held =
     (if dp_paused_at p \<noteq> None then True
      else case dp_scan_agent_id p of None \<Rightarrow> False | Some i \<Rightarrow> fleet_paused \<or> i \<in> set held)"

definition schedulable :: "discovery_profile \<Rightarrow> bool" where
  "schedulable p = (dp_enabled p = 1 \<and> dp_schedule_cron p \<noteq> None \<and> dp_schedule_cron p \<noteq> Some [])"

definition profiles_due_for_scheduling :: "registry \<Rightarrow> bool \<Rightarrow> discovery_profile list \<Rightarrow> discovery_profile list" where
  "profiles_due_for_scheduling rg fleet_setting profiles =
     (let due = filter schedulable profiles; ids = List.map_filter dp_scan_agent_id due;
          fleet_paused = (ids \<noteq> [] \<and> fleet_setting); held = paused_agent_ids rg ids in
      filter (\<lambda>p. \<not> held_by_any_scope p fleet_paused held) due)"

definition profile_scheduling_held :: "registry \<Rightarrow> bool \<Rightarrow> discovery_profile \<Rightarrow> bool" where
  "profile_scheduling_held rg fleet_setting p =
     (case (dp_paused_at p, dp_scan_agent_id p) of
        (None, Some i) \<Rightarrow> held_by_any_scope p fleet_setting (paused_agent_ids rg [i])
      | _ \<Rightarrow> held_by_any_scope p False [])"

text \<open>A job's own arguments: the override in its label wins over the profile's.\<close>

definition NMAP_OVERRIDE_PREFIX :: string where "NMAP_OVERRIDE_PREFIX = ''__nmap_override__:''"

definition job_nmap_arguments :: "discovery_profile list \<Rightarrow> string option \<Rightarrow> int option \<Rightarrow> string option" where
  "job_nmap_arguments profiles label profile_id =
     (if label \<noteq> None \<and> py_startswith (the label) NMAP_OVERRIDE_PREFIX then Some (drop (length NMAP_OVERRIDE_PREFIX) (the label))
      else case profile_id of
        None \<Rightarrow> None
      | Some i \<Rightarrow>
          if i = 0 then None
          else case tbl_get dp_id i profiles of
            None \<Rightarrow> None
          | Some p \<Rightarrow> (case dp_nmap_arguments p of Some a \<Rightarrow> if a = [] then None else Some a | None \<Rightarrow> None))"
subsection \<open>The reference: what an agent may discover\<close>

definition prefix_permitted :: "(json \<Rightarrow> string) \<Rightarrow> json list option \<Rightarrow> config option \<Rightarrow> string \<Rightarrow> bool" where
  "prefix_permitted st facts c cidr =
     (\<exists>n. ip_network (py_strip cidr) False = Inr n \<and> (if in_version n = IPv4 then 16 else 48) \<le> in_prefixlen n \<and>
        (\<forall>b\<in>set BLOCKED_NETWORKS. \<not> overlaps b n) \<and> (\<forall>x. excluded_network c x \<longrightarrow> \<not> overlaps x n) \<and>
        (\<exists>m. permitted_network st facts c m \<and> contains_network m n))"

lemma network_in_scope_exact:
  assumes "derive_scope st sha facts c = Some sc"
  shows "\<exists>d. network_in_scope sc cidr = Some d \<and> (de_allowed d \<longleftrightarrow> prefix_permitted st facts c cidr)"
proof (cases "ip_network (py_strip cidr) False")
  case (Inl e)
  then show ?thesis by (simp add: network_in_scope_def prefix_permitted_def Decision_def)
next
  case n: (Inr n)
  obtain networks excludes where p: "parsed (es_networks sc) = Some networks" "parsed (es_excluded_networks sc) = Some excludes"
    "\<forall>n. n \<in> set networks \<longleftrightarrow> permitted_network st facts c n" "\<forall>n. n \<in> set excludes \<longleftrightarrow> excluded_network c n"
    by (rule derive_scope_networks [OF assms])
  have "\<exists>d. network_in_scope sc cidr = Some d \<and> (de_allowed d \<longleftrightarrow> (if in_version n = IPv4 then 16 else 48) \<le> in_prefixlen n \<and>
      (\<forall>b\<in>set BLOCKED_NETWORKS. \<not> overlaps b n) \<and> (\<forall>x\<in>set excludes. \<not> overlaps x n) \<and> (\<exists>m\<in>set networks. contains_network m n))"
    by (auto simp: network_in_scope_def n p(1,2) Let_def Decision_def MIN_SCOPE_PREFIX_V4_def MIN_SCOPE_PREFIX_V6_def list_ex_iff)
  with n p(3,4) show ?thesis by (auto simp: prefix_permitted_def)
qed

lemma judge_targets_exact:
  assumes "derive_scope st sha facts c = Some sc"
  shows "\<exists>e. judge_targets sc cidrs = Some e \<and> (e = Eligible \<longleftrightarrow> (\<forall>cidr\<in>set cidrs. prefix_permitted st facts c cidr))"
proof (induction cidrs)
  case (Cons cidr cidrs)
  obtain d where "network_in_scope sc cidr = Some d" "de_allowed d \<longleftrightarrow> prefix_permitted st facts c cidr"
    using network_in_scope_exact [OF assms] by blast
  with Cons show ?case by (cases "de_allowed d") auto
qed simp

definition may_discover :: "vantage \<Rightarrow> registry \<Rightarrow> int \<Rightarrow> discovery_question \<Rightarrow> bool" where
  "may_discover vt rg i q =
     (\<exists>a g. get_agent rg i = Some a \<and> an_status a = AS_active \<and> get_grant rg i ''local_discovery'' = Some g \<and> cg_enabled g \<and>
        (dq_require_online q \<longrightarrow> linked_up vt i) \<and> fresh_state vt (rg_clock rg) i ''discovery.tcp'' = Some ''ready'' \<and>
        \<not> tenants_differ (an_tenant_id a) (dq_tenant q) \<and>
        (\<forall>cidr\<in>set (dq_targets q). prefix_permitted (vt_str vt) (agent_network_facts rg i) (Some (cg_config g)) cidr))"

lemma discovery_readiness_iff:
  "discovery_readiness vt now i REQUIRED_READINESS_COLLECTORS = None \<longleftrightarrow> fresh_state vt now i ''discovery.tcp'' = Some ''ready''"
  "discovery_readiness vt now i cs = Some d \<Longrightarrow> d \<noteq> Eligible"
proof -
  show "discovery_readiness vt now i REQUIRED_READINESS_COLLECTORS = None \<longleftrightarrow> fresh_state vt now i ''discovery.tcp'' = Some ''ready''"
    by (auto simp: REQUIRED_READINESS_COLLECTORS_def split: option.split)
  show "discovery_readiness vt now i cs = Some d \<Longrightarrow> d \<noteq> Eligible"
    by (induction cs) (auto split: option.splits if_splits)
qed

lemma evaluate_discovery_bars:
  assumes "\<not> may_ask rg i ''local_discovery''"
  shows "\<exists>reason detail. evaluate_discovery vt rg i q = Some (Denied reason detail)"
  using assms by (auto simp: may_ask_def evaluate_discovery_def structured_lookup structured_grant_of_def split: option.split)

lemma evaluate_discovery_exact:
  assumes "registry_ok rg"
  shows "(evaluate_discovery vt rg i q = Some Eligible \<longleftrightarrow> may_discover vt rg i q) \<and>
    (evaluate_discovery vt rg i q = None \<longrightarrow> dq_require_online q \<and> link_raises vt i)"
proof (cases "may_ask rg i ''local_discovery''")
  case False
  then have "\<not> may_discover vt rg i q" by (auto simp: may_ask_def may_discover_def)
  with evaluate_discovery_bars [OF False, of vt q] show ?thesis by auto
next
  case True
  then obtain a g where c: "get_agent rg i = Some a" "an_status a = AS_active" "get_grant rg i ''local_discovery'' = Some g" "cg_enabled g"
    by (auto simp: may_ask_def)
  note g = granted_config [OF assms c(3)]
  obtain sc where sc: "derive_scope (vt_str vt) (vt_sha vt) (agent_network_facts rg i) (Some (cg_config g)) = Some sc"
    by (rule scope_total [OF g(1)]) simp
  define rest where "rest = (case discovery_readiness vt (rg_clock rg) i REQUIRED_READINESS_COLLECTORS of
       Some d \<Rightarrow> Some d
     | None \<Rightarrow> if tenants_differ (an_tenant_id a) (dq_tenant q)
         then Some (Denied (Some ''tenant_mismatch'') (Some (int_str (the (dq_tenant q)) @ ''!='' @ int_str (the (an_tenant_id a)))))
         else judge_targets sc (dq_targets q))"
  have "derive_discovery_scope vt rg i (Some (cg_config g)) = Some sc" using sc by (simp add: derive_discovery_scope_def derive_agent_scope_def)
  then have ev: "evaluate_discovery vt rg i q = (if dq_require_online q then link_gate vt i else (\<lambda>rest. rest)) rest"
    using c g(2) unfolding evaluate_discovery_def rest_def by (simp add: structured_lookup cong: option.case_cong)
  have rest: "rest = Some Eligible \<longleftrightarrow> fresh_state vt (rg_clock rg) i ''discovery.tcp'' = Some ''ready'' \<and> \<not> tenants_differ (an_tenant_id a) (dq_tenant q) \<and>
      (\<forall>cidr\<in>set (dq_targets q). prefix_permitted (vt_str vt) (agent_network_facts rg i) (Some (cg_config g)) cidr)" "rest \<noteq> None"
    using discovery_readiness_iff [of vt "rg_clock rg" i] judge_targets_exact [OF sc, of "dq_targets q"]
    by (auto simp: rest_def split: option.splits)
  show ?thesis
  proof (cases "dq_require_online q \<longrightarrow> linked_up vt i")
    case True
    then have "evaluate_discovery vt rg i q = rest" using ev link_gate_cases(1) by simp
    with True rest c show ?thesis by (auto simp: may_discover_def)
  next
    case False
    then have "\<not> may_discover vt rg i q" by (auto simp: may_discover_def)
    with False link_gate_cases(2) [of vt i rest] ev show ?thesis by auto
  qed
qed

definition discovery_check :: "registry \<Rightarrow> int \<Rightarrow> vantage \<times> discovery_question \<Rightarrow> eligibility option" where
  "discovery_check rg i q = (case q of (vt, q) \<Rightarrow> evaluate_discovery vt rg i q)"

interpretation discovering: vantage_gate discovery_check "''local_discovery''"
  by unfold_locales (auto simp: discovery_check_def dest: evaluate_discovery_bars)

text \<open>
  C23. \<^bold>\<open>What is withdrawn gets no work.\<close> In every reachable state: an agent that was approved and is out of the fleet is refused
  every check and every scan after any further requests. An agent whose capability is switched off (or was never granted) is
  refused the work of that capability after any further requests none of which may switch it on, that is, no approval of the
  agent, no enrollment that creates it and no update that names the capability as enabled; updates that disable or reconfigure
  it and updates of other capabilities are among those requests. The refusals are answers: the checks do not raise.
\<close>

theorem withdrawn_gets_no_work:
  assumes "rg = fold (registry_step env) rs (empty_registry now)"
  shows "(\<forall>a. get_agent rg i = Some a \<and> an_approved_at a \<noteq> None \<and> an_status a \<noteq> AS_active \<longrightarrow>
      (\<exists>reason detail. evaluate_agent vt (fold (registry_step env) rs' rg) db i q = Some (Denied reason detail)) \<and>
      (\<exists>reason detail. evaluate_discovery vt (fold (registry_step env) rs' rg) i dq = Some (Denied reason detail))) \<and>
    (switched_off rg i ''remote_probe'' \<and> never_enabled env rs' rg i ''remote_probe'' \<longrightarrow>
      (\<exists>reason detail. evaluate_agent vt (fold (registry_step env) rs' rg) db i q = Some (Denied reason detail))) \<and>
    (switched_off rg i ''local_discovery'' \<and> never_enabled env rs' rg i ''local_discovery'' \<longrightarrow>
      (\<exists>reason detail. evaluate_discovery vt (fold (registry_step env) rs' rg) i dq = Some (Denied reason detail)))"
proof -
  have ok: "registry_ok rg" unfolding assms by (rule reachable_ok)
  obtain m ignored where q: "q = (m, ignored)" by (cases q)
  show ?thesis
    using barredI [OF ok] probing.barred_refused [of i rg env rs' "(vt, db, m, ignored)"] discovering.barred_refused [of i rg env rs' "(vt, dq)"]
      probing.switched_off_refused [OF ok, of env rs' i "(vt, db, m, ignored)"] discovering.switched_off_refused [OF ok, of env rs' i "(vt, dq)"]
    by (simp add: probe_check_def discovery_check_def q)
qed

subsection \<open>Admission decides exactly\<close>

lemma granted_ports_stored:
  assumes "local_discovery_ok c"
  shows "json_get c ''tcp_ports'' JNull = JList (map JInt (granted_tcp_ports c))" "\<forall>p\<in>set (granted_tcp_ports c). 1 \<le> p \<and> p \<le> 65535"
    "length (granted_tcp_ports c) \<le> 32"
proof -
  obtain ports where p: "json_get c ''tcp_ports'' JNull = JList (map JInt ports)" "length ports \<le> 32" "\<forall>p\<in>set ports. 1 \<le> p \<and> p \<le> 65535"
    using assms by (auto simp: local_discovery_ok_def canonical_ports_def MAX_TCP_PORTS_def)
  moreover have "List.map_filter (\<lambda>v. case v of JInt p \<Rightarrow> Some p | _ \<Rightarrow> None) (map JInt ports) = ports"
    by (induction ports) (simp_all add: map_filter_def)
  ultimately show "json_get c ''tcp_ports'' JNull = JList (map JInt (granted_tcp_ports c))" "\<forall>p\<in>set (granted_tcp_ports c). 1 \<le> p \<and> p \<le> 65535"
    "length (granted_tcp_ports c) \<le> 32"
    by (simp_all add: granted_tcp_ports_def)
qed

lemma ceiling_bounds: "1 \<le> granted_address_ceiling c \<and> granted_address_ceiling c \<le> 4096"
  by (simp add: granted_address_ceiling_def DEFAULT_ADDRESS_CEILING_def MAX_ADDRESS_CEILING_def split: json.split)

lemma stored_config:
  assumes "registry_ok rg" "get_grant rg i ''local_discovery'' = Some g"
  shows "discovery_grant_config rg i = cg_config g" "local_discovery_ok (cg_config g)"
  using granted_config [OF assms] assms(2) by (simp_all add: discovery_grant_config_def structured_lookup config_ok_def)

definition admissible :: "vantage \<Rightarrow> registry \<Rightarrow> int \<Rightarrow> discovery_request \<Rightarrow> bool" where
  "admissible vt rg i r =
     (may_discover vt rg i \<lparr>dq_targets = dr_targets r, dq_tenant = dr_tenant r, dq_require_online = False\<rparr> \<and>
      set (iter_requested_tcp_ports (dr_arguments r)) \<subseteq> set (granted_tcp_ports (discovery_grant_config rg i)) \<and>
      int (card (target_addresses (dr_targets r))) \<le> granted_address_ceiling (discovery_grant_config rg i))"

lemma first_ungranted_None: "first_ungranted_tcp_port a allowed = None \<longleftrightarrow> set (iter_requested_tcp_ports a) \<subseteq> set allowed"
  by (auto simp: first_ungranted_tcp_port_def find_None_conv)

text \<open>What a port list says: a number is that port, and two numbers with a hyphen are the ports from the first to the second.\<close>

definition number :: "string \<Rightarrow> nat \<Rightarrow> bool" where
  "number s n = (s \<noteq> [] \<and> list_all is_digit s \<and> length s \<le> 4300 \<and> dec_val s = n)"

inductive names_port :: "string \<Rightarrow> int \<Rightarrow> bool" where
  single_port: "number s n \<Longrightarrow> names_port s (int n)"
| port_range: "number a m \<Longrightarrow> number b n \<Longrightarrow> int m \<le> p \<Longrightarrow> p \<le> int n \<Longrightarrow> names_port (a @ ''-'' @ b) p"

lemma number_int: "number s n \<Longrightarrow> decimal_int s = Some (int n)"
  by (simp add: number_def decimal_int_def)

lemma number_chars: "number s n \<Longrightarrow> CHR ''-'' \<notin> set s"
proof -
  have "\<not> is_digit CHR ''-''" by (simp add: is_digit_def)
  then show "number s n \<Longrightarrow> CHR ''-'' \<notin> set s" by (auto simp: number_def list_all_iff)
qed

lemma named_port_read: "names_port part p \<Longrightarrow> p \<in> set (part_range part)"
proof (induction rule: names_port.induct)
  case (single_port s n)
  have parts: "takeWhile (\<lambda>c. c \<noteq> CHR ''-'') s = s" "dropWhile (\<lambda>c. c \<noteq> CHR ''-'') s = []" using number_chars [OF single_port] by (auto simp: takeWhile_eq_all_conv)
  show ?case unfolding part_range_def Let_def parts number_int [OF single_port] by simp
next
  case (port_range a m b n p)
  have a: "CHR ''-'' \<notin> set a" using number_chars [OF port_range(1)] .
  have "takeWhile (\<lambda>c. c \<noteq> CHR ''-'') (a @ ''-'' @ b) = a" "dropWhile (\<lambda>c. c \<noteq> CHR ''-'') (a @ ''-'' @ b) = ''-'' @ b"
    using a by (simp_all add: takeWhile_append dropWhile_append)
  moreover obtain c cs where b: "b = c # cs" "c \<noteq> CHR ''-''" using port_range(2) number_chars [OF port_range(2)] by (cases b) (auto simp: number_def)
  have "signed_int b = decimal_int b" using b by (auto simp: signed_int_def split: char.splits bool.splits)
  ultimately show ?case using number_int [OF port_range(1)] number_int [OF port_range(2)] port_range(3,4) b(1) by (simp add: part_range_def Let_def)
qed

lemma admission_decides:
  assumes "registry_ok rg" "dr_agent r = Some i"
    "\<forall>c\<in>set (dr_targets r). \<forall>n. ip_network (py_strip c) False = Inr n \<longrightarrow> in_zone n = None"
  shows "\<exists>x. validate_agent_execution_location vt rg r = Some x \<and> (x = Admitted \<longleftrightarrow> admissible vt rg i r)"
proof -
  let ?q = "\<lparr>dq_targets = dr_targets r, dq_tenant = dr_tenant r, dq_require_online = False\<rparr>"
  obtain e where e: "evaluate_discovery vt rg i ?q = Some e" "e = Eligible \<longleftrightarrow> may_discover vt rg i ?q"
    using evaluate_discovery_exact [OF assms(1), of vt i ?q] by (cases "evaluate_discovery vt rg i ?q") auto
  have count: "address_count (dr_targets r) = int (card (target_addresses (dr_targets r)))"
    using assms(3) target_networks by (intro address_count_card) blast
  show ?thesis
    using e assms(2) first_ungranted_None [of "dr_arguments r" "granted_tcp_ports (discovery_grant_config rg i)"]
    by (cases e) (auto simp: validate_agent_execution_location_def discovery_eligibility_def admissible_def count Let_def split: option.split)
qed

lemma admissible_covers:
  assumes ok: "registry_ok rg" and a: "admissible vt rg i r"
  shows "card (target_addresses (dr_targets r)) \<le> 4096 \<and>
       (\<forall>p\<in>set (iter_requested_tcp_ports (dr_arguments r)). 1 \<le> p \<and> p \<le> 65535) \<and>
       (\<exists>g. get_grant rg i ''local_discovery'' = Some g \<and>
         (\<forall>c\<in>set (dr_targets r). \<exists>n. ip_network (py_strip c) False = Inr n \<and> (\<forall>ad. wf_address ad \<and> in_block n ad \<longrightarrow>
            reachable (vt_str vt) (agent_network_facts rg i) (Some (cg_config g)) ad \<or>
            (\<exists>m. permitted_network (vt_str vt) (agent_network_facts rg i) (Some (cg_config g)) m \<and> is_directed_broadcast m ad))))"
proof -
  from a obtain g where g: "get_grant rg i ''local_discovery'' = Some g"
    "\<forall>c\<in>set (dr_targets r). prefix_permitted (vt_str vt) (agent_network_facts rg i) (Some (cg_config g)) c"
    by (auto simp: admissible_def may_discover_def)
  note s = stored_config [OF ok g(1)]
  obtain sc where sc: "derive_scope (vt_str vt) (vt_sha vt) (agent_network_facts rg i) (Some (cg_config g)) = Some sc"
    by (rule scope_total [OF granted_config(1) [OF ok g(1)]]) simp
  have "\<exists>n. ip_network (py_strip c) False = Inr n \<and> (\<forall>ad. wf_address ad \<and> in_block n ad \<longrightarrow>
      reachable (vt_str vt) (agent_network_facts rg i) (Some (cg_config g)) ad \<or>
      (\<exists>m. permitted_network (vt_str vt) (agent_network_facts rg i) (Some (cg_config g)) m \<and> is_directed_broadcast m ad))"
    if "c \<in> set (dr_targets r)" for c
    using g(2) that network_in_scope_exact [OF sc, of c] prefix_reachable [OF sc, of c] by blast
  with a g(1) s granted_ports_stored(2) [OF s(2)] ceiling_bounds [of "cg_config g"] show ?thesis
    by (auto simp: admissible_def)
qed

text \<open>
  C26. \<^bold>\<open>A discovery request is admitted exactly within the grant.\<close> In every reachable state of the registry, a request for the
  server is admitted. For targets without IPv6 zones, admission of a request for an agent never raises and admits it exactly when
  the agent may discover the targets, every port that is read from the first \<open>-p\<close> list of the arguments is granted, and the distinct
  addresses of the targets do not exceed the granted ceiling. A number and a range with both ends are read in full, so every port
  they name is granted; a range that leaves an end open is not (\<open>-1024\<close> is skipped, and \<open>80-\<close> is read as port 80). An
  admitted request covers at most 4096 addresses, the ports that are read lie between 1 and 65535, and every
  address of its targets is reachable for the agent or the broadcast address of a permitted network.
\<close>

theorem admission_exact:
  assumes "rg = fold (registry_step env) rs (empty_registry now)"
    "\<forall>c\<in>set (dr_targets r). \<forall>n. ip_network (py_strip c) False = Inr n \<longrightarrow> in_zone n = None"
  shows "case dr_agent r of
      None \<Rightarrow> validate_agent_execution_location vt rg r = Some Admitted
    | Some i \<Rightarrow>
    \<exists>x. validate_agent_execution_location vt rg r = Some x \<and> (x = Admitted \<longleftrightarrow> admissible vt rg i r) \<and>
    (x = Admitted \<longrightarrow> card (target_addresses (dr_targets r)) \<le> 4096 \<and>
       (\<forall>p\<in>set (iter_requested_tcp_ports (dr_arguments r)). 1 \<le> p \<and> p \<le> 65535) \<and>
       (\<forall>a spec part p. dr_arguments r = Some a \<and> port_spec a = Some spec \<and> part \<in> set (py_split CHR '','' spec) \<and> names_port part p \<longrightarrow>
          p \<in> set (granted_tcp_ports (discovery_grant_config rg i))) \<and>
       (\<exists>g. get_grant rg i ''local_discovery'' = Some g \<and>
         (\<forall>c\<in>set (dr_targets r). \<exists>n. ip_network (py_strip c) False = Inr n \<and> (\<forall>ad. wf_address ad \<and> in_block n ad \<longrightarrow>
            reachable (vt_str vt) (agent_network_facts rg i) (Some (cg_config g)) ad \<or>
            (\<exists>m. permitted_network (vt_str vt) (agent_network_facts rg i) (Some (cg_config g)) m \<and> is_directed_broadcast m ad)))))"
proof (cases "dr_agent r")
  case (Some i)
  have ok: "registry_ok rg" unfolding assms(1) by (rule reachable_ok)
  from admission_decides [OF ok Some assms(2)] obtain x where x: "validate_agent_execution_location vt rg r = Some x" "x = Admitted \<longleftrightarrow> admissible vt rg i r" by blast
  have "p \<in> set (granted_tcp_ports (discovery_grant_config rg i))"
    if "admissible vt rg i r" "dr_arguments r = Some a" "port_spec a = Some spec" "part \<in> set (py_split CHR '','' spec)" "names_port part p" for a spec part p
  proof -
    have "p \<in> set (iter_requested_tcp_ports (dr_arguments r))" using that(2-4) named_port_read [OF that(5)] by (auto simp: iter_requested_tcp_ports_def)
    then show ?thesis using that(1) by (auto simp: admissible_def)
  qed
  with x admissible_covers [OF ok, of vt i r] Some show ?thesis by auto
qed (simp add: validate_agent_execution_location_def)

subsection \<open>Ports of a request\<close>

text \<open>After the check the ports a request names are sent as they are.\<close>

lemma requested_ports_verbatim:
  "first_ungranted_tcp_port a allowed = None \<Longrightarrow> set (requested_tcp_ports a allowed) = set (iter_requested_tcp_ports a)"
  "set (requested_tcp_ports a allowed) \<subseteq> set allowed"
  by (auto simp: requested_tcp_ports_def first_ungranted_None)

subsection \<open>Holds agree\<close>

lemma paused_iff:
  "i \<in> set (paused_agent_ids rg ids) \<longleftrightarrow> i \<in> set ids \<and>
     (\<exists>g. map_of (structured_grants_dict rg i) ''local_discovery'' = Some g \<and> json_get (sg_config g) ''auto_discovery_paused'' JNull = JBool True)"
  (is "_ \<longleftrightarrow> _ \<and> ?P i")
proof -
  have "set (paused_agent_ids rg ids) = {i \<in> set ids. ?P i}"
    unfolding paused_agent_ids_def bulk_structured_grants_dict_def by (force split: option.splits)
  then show ?thesis by simp
qed

text \<open>
  \<^bold>\<open>The two gates on scheduling agree.\<close> A profile gets a cron at registration exactly when it is enabled, has a schedule
  and the check at fire time would not hold it, so a hold by any of the three scopes keeps a profile from both, and
  neither gate lets a profile through that the other holds.
\<close>

theorem pause_gates_agree:
  "p \<in> set (profiles_due_for_scheduling rg fleet_setting profiles) \<longleftrightarrow>
     p \<in> set profiles \<and> schedulable p \<and> \<not> profile_scheduling_held rg fleet_setting p"
proof -
  let ?ids = "List.map_filter dp_scan_agent_id (filter schedulable profiles)"
  have "held_by_any_scope p (?ids \<noteq> [] \<and> fleet_setting) (paused_agent_ids rg ?ids) \<longleftrightarrow> profile_scheduling_held rg fleet_setting p"
    if "p \<in> set profiles" "schedulable p"
  proof (cases "dp_scan_agent_id p")
    case None
    then show ?thesis by (simp add: held_by_any_scope_def profile_scheduling_held_def split: option.split)
  next
    case (Some i)
    then have i: "i \<in> set ?ids" using that by (auto simp: map_filter_iff)
    then have "?ids \<noteq> []" by auto
    with i Some show ?thesis
      by (simp add: paused_iff held_by_any_scope_def profile_scheduling_held_def split: option.split)
  qed
  then show ?thesis by (auto simp: profiles_due_for_scheduling_def Let_def)
qed

lemma single_agent_hold: "dp_paused_at p = None \<Longrightarrow> dp_scan_agent_id p = Some i \<Longrightarrow>
    profile_scheduling_held rg fleet p \<longleftrightarrow> agent_scheduling_paused rg fleet i"
  by (simp add: profile_scheduling_held_def held_by_any_scope_def agent_scheduling_paused_def)
subsection \<open>Witnesses\<close>

definition scan_request :: discovery_request where
  "scan_request = \<lparr>dr_agent = Some 1, dr_targets = [''10.0.0.0/26'', ''10.0.0.32/27''], dr_arguments = Some ''-p 22,443'', dr_tenant = None\<rparr>"

theorem withdrawn_gets_no_work_witness:
  "(\<exists>reason detail. evaluate_agent example_vantage (fold (registry_step example_env) [Approve 1 (Some 7) None None None] (example_run approved_then_revoked))
      queued_db 1 (remote_monitor, None) = Some (Denied reason detail)) \<and>
   (\<exists>reason detail. evaluate_discovery example_vantage (fold (registry_step example_env) [Approve 1 (Some 7) None None None] (example_run approved_then_revoked))
      1 \<lparr>dq_targets = [], dq_tenant = None, dq_require_online = True\<rparr> = Some (Denied reason detail))"
proof -
  obtain a where a: "get_agent (example_run approved_then_revoked) 1 = Some a" "an_approved_at a \<noteq> None" "an_status a = AS_revoked"
    using approved_then_revoked_state by auto
  then have "an_status a \<noteq> AS_active" by simp
  with a withdrawn_gets_no_work [OF example_run_def, of approved_then_revoked 1 example_vantage "[Approve 1 (Some 7) None None None]" queued_db
      "(remote_monitor, None)" "\<lparr>dq_targets = [], dq_tenant = None, dq_require_online = True\<rparr>"]
  show ?thesis by blast
qed

theorem admission_exact_witness:
  "validate_agent_execution_location example_vantage (example_run linked_run) scan_request = Some Admitted \<and>
   admissible example_vantage (example_run linked_run) 1 scan_request"
proof -
  have "list_all (\<lambda>c. case ip_network (py_strip c) False of Inl _ \<Rightarrow> True | Inr n \<Rightarrow> in_zone n = None) (dr_targets scan_request)" by code_simp
  then have "\<forall>c\<in>set (dr_targets scan_request). \<forall>n. ip_network (py_strip c) False = Inr n \<longrightarrow> in_zone n = None"
    unfolding list_all_iff by (auto simp del: set_simps)
  moreover have "dr_agent scan_request = Some 1" by (simp add: scan_request_def)
  moreover have "validate_agent_execution_location example_vantage (example_run linked_run) scan_request = Some Admitted" by code_simp
  ultimately show ?thesis using admission_exact [OF example_run_def, of scan_request example_vantage linked_run] by simp
qed

end
