(* ===== verification/Scan_Results.thy ===== *)
theory Scan_Results
  imports Agent_Scope
begin

text \<open>
  \<open>services/discovery_result_service.py\<close> and \<open>discovery_enrich.py\<close>: a raw observation becomes a row of the review queue, is
  matched against the inventory, folded into the pending row of the same device, and, when it matches a known device,
  fills the gaps of that device. The inference of vendors from a finding and the lookup of the network of an address are functions
  of an environment; the texts of instants are opaque. The advisory lock on the queue makes each of these operations one step.
\<close>

subsection \<open>Tables\<close>

datatype job_status = JS_queued | JS_running | JS_completed | JS_failed | JS_cancelled

datatype dispatch_status = DS_queued | DS_dispatched | DS_running | DS_completed | DS_execution_error | DS_expired | DS_cancelled

record scan_job =
  sj_id :: int
  sj_profile_id :: "int option"
  sj_scan_agent_id :: "int option"
  sj_dispatch_id :: "string option"
  sj_dispatch_status :: "dispatch_status option"
  sj_dispatch_deadline_at :: "instant option"
  sj_last_finding_at :: "instant option"
  sj_finding_count :: int
  sj_scope_version :: "string option"
  sj_label :: "string option"
  sj_target_cidr :: "string option"
  sj_vlan_ids :: "int list"
  sj_network_ids :: "int list"
  sj_scan_types :: "string list"
  sj_status :: job_status
  sj_started_at :: "instant option"
  sj_completed_at :: "instant option"
  sj_hosts_found :: int
  sj_hosts_new :: int
  sj_hosts_updated :: int
  sj_hosts_conflict :: int
  sj_error_text :: "string option"
  sj_error_reason :: "string option"
  sj_triggered_by :: string
  sj_source_type :: string
  sj_progress_phase :: string
  sj_progress_message :: string
  sj_created_at :: instant
  sj_tenant_id :: "int option"

text \<open>The columns of a device that a finding can fill, under the names of the rule table.\<close>

datatype hw_column = Mac_address | Ip_address | Hostname | Vendor | Vendor_icon_slug | Os_version | Discovered_at

record hardware =
  hd_id :: int
  hd_name :: string
  hd_tenant_id :: "int option"
  hd_column :: "hw_column \<Rightarrow> string option"
  hd_source_scan_result_id :: "int option"
  hd_last_seen :: "string option"
  hd_status :: "string option"

record scan_result =
  sr_id :: int
  sr_scan_job_id :: int
  sr_discovery_agent_id :: "int option"
  sr_finding_id :: "string option"
  sr_tenant_id :: "int option"
  sr_ip_address :: string
  sr_mac_address :: "string option"
  sr_hostname :: "string option"
  sr_open_ports :: "json option"
  sr_os_family :: "string option"
  sr_os_vendor :: "string option"
  sr_os_accuracy :: "int option"
  sr_device_type :: "string option"
  sr_device_confidence :: "int option"
  sr_banner :: "string option"
  sr_source_type :: "string option"
  sr_snmp_sys_name :: "string option"
  sr_snmp_sys_descr :: "string option"
  sr_raw_nmap_xml :: string
  sr_network_id :: "int option"
  sr_vlan_id :: "int option"
  sr_lldp_neighbors :: "json option"
  sr_state :: string
  sr_conflicts :: "(string \<times> string \<times> string) list option"
  sr_matched_entity_type :: "string option"
  sr_matched_entity_id :: "int option"
  sr_merge_status :: string
  sr_enriched_fields :: "(hw_column \<times> string) list option"
  sr_enriched_at :: "string option"
  sr_created_at :: string

record discovery_env =
  dx_match_ip_to_network :: "string \<Rightarrow> int option \<times> int option"
  dx_annotate :: "scan_result \<Rightarrow> string option \<times> string option"
  dx_json_dumps :: "json \<Rightarrow> string"
  dx_now_iso :: string

subsection \<open>Identities\<close>

definition upper_char :: "char \<Rightarrow> char" where
  "upper_char c = (let n = (of_char c :: nat) in if 97 \<le> n \<and> n \<le> 122 then char_of (n - 32) else c)"

definition py_upper :: "string \<Rightarrow> string" where
  "py_upper = map upper_char"

text \<open>Python's truth of a nullable text column.\<close>

definition text_given :: "string option \<Rightarrow> bool" where
  "text_given t = (t \<noteq> None \<and> t \<noteq> Some [])"

fun pairs_of :: "string \<Rightarrow> string list" where
  "pairs_of (a # b # s) = [a, b] # pairs_of s"
| "pairs_of s = []"

definition norm_mac :: "string option \<Rightarrow> string option" where
  "norm_mac mac =
     (if \<not> text_given mac then None
      else let cleaned = filter is_hex (the mac) in
           Some (if length cleaned \<noteq> 12 then py_upper (py_strip (the mac)) else py_upper (py_join '':'' (pairs_of cleaned))))"

definition normalize_mac :: "string option \<Rightarrow> string option" where
  "normalize_mac mac = (if \<not> text_given mac then mac else norm_mac mac)"

definition normalize_ip :: "string option \<Rightarrow> string option" where
  "normalize_ip ip =
     (if \<not> text_given ip then ip
      else case ip_address (py_strip (the ip)) of None \<Rightarrow> ip | Some a \<Rightarrow> Some (address_str a))"

subsection \<open>Classification\<close>

definition match_hardware :: "hardware list \<Rightarrow> int option \<Rightarrow> string option \<Rightarrow> string option \<Rightarrow> bool \<Rightarrow> hardware option" where
  "match_hardware hws tenant ip mac from_agent =
     (let in_tenant = (\<lambda>h. from_agent \<longrightarrow> hd_tenant_id h = tenant);
          matched = (if text_given mac then find (\<lambda>h. hd_column h Mac_address = mac \<and> in_tenant h) hws else None) in
      if matched = None \<and> text_given ip then find (\<lambda>h. hd_column h Ip_address = ip \<and> in_tenant h) hws else matched)"

definition conflict_fields :: "hardware \<Rightarrow> string option \<Rightarrow> string option \<Rightarrow> (string \<times> string \<times> string) list" where
  "conflict_fields h mac name =
     (if text_given mac \<and> text_given (hd_column h Mac_address) \<and> py_upper (the mac) \<noteq> py_upper (the (hd_column h Mac_address))
      then [(''mac_address'', the (hd_column h Mac_address), the mac)] else []) @
     (if text_given name \<and> hd_name h \<noteq> [] \<and> py_lower (the name) \<noteq> py_lower (hd_name h)
      then [(''hostname'', hd_name h, the name)] else [])"

text \<open>\<open>a or b\<close> on nullable texts.\<close>

definition or_text :: "string option \<Rightarrow> string option \<Rightarrow> string option" where
  "or_text a b = (if text_given a then a else b)"

text \<open>\<open>classify_result\<close> with its job; the job is given by its tenant, None is a job that does not exist.\<close>

definition classify_result :: "hardware list \<Rightarrow> int option option \<Rightarrow> scan_result \<Rightarrow> scan_result \<times> string" where
  "classify_result hws job_tenant r =
     (case job_tenant of
        None \<Rightarrow> (r, sr_state r)
      | Some tenant \<Rightarrow>
          let ip = or_text (normalize_ip (Some (sr_ip_address r))) (Some (sr_ip_address r));
              mac = normalize_mac (sr_mac_address r);
              r1 = r\<lparr>sr_ip_address := the ip, sr_mac_address := mac, sr_state := ''new'', sr_matched_entity_type := None,
                     sr_matched_entity_id := None, sr_conflicts := None\<rparr> in
          case match_hardware hws tenant ip mac (sr_discovery_agent_id r \<noteq> None) of
            None \<Rightarrow> (r1, ''new'')
          | Some h \<Rightarrow>
              let r2 = r1\<lparr>sr_matched_entity_type := Some ''hardware'', sr_matched_entity_id := Some (hd_id h)\<rparr>;
                  cs = conflict_fields h mac (or_text (sr_hostname r) (sr_snmp_sys_name r)) in
              if cs \<noteq> [] then (r2\<lparr>sr_state := ''conflict'', sr_conflicts := Some cs\<rparr>, ''conflict'')
              else (r2\<lparr>sr_state := ''matched''\<rparr>, ''matched''))"

text \<open>A raw observation; None is an absent key. The two sources have defaults, so an absent key and a null differ there.\<close>

record raw_observation =
  ro_ip :: "string option"
  ro_mac_address :: "string option"
  ro_hostname :: "string option"
  ro_sys_name :: "string option"
  ro_sys_descr :: "string option"
  ro_source :: "string option option"
  ro_source_type :: "string option option"
  ro_network_id :: "int option"
  ro_vlan_id :: "int option"
  ro_open_ports :: "json option"
  ro_os_family :: "string option"
  ro_os_vendor :: "string option"
  ro_os_accuracy :: "int option"
  ro_device_type :: "string option"
  ro_device_confidence :: "int option"
  ro_banner :: "string option"
  ro_raw_nmap_xml :: "string option"
  ro_lldp_neighbors :: "json option"
  ro_os_vendor_override :: "string option"
  ro_os_family_override :: "string option"
  ro_hostname_override :: "string option"

definition the_or :: "'a \<Rightarrow> 'a option \<Rightarrow> 'a" where
  "the_or d x = (case x of None \<Rightarrow> d | Some v \<Rightarrow> v)"

text \<open>
  The row before it is classified. A row without an address violates the schema, which the callers of the agent path
  exclude; the model stores the empty text there.
\<close>

definition observed_row :: "discovery_env \<Rightarrow> int \<Rightarrow> int \<Rightarrow> int option \<Rightarrow> raw_observation \<Rightarrow> int option \<Rightarrow> string option \<Rightarrow> scan_result" where
  "observed_row env i job_id tenant raw agent_id finding_id =
     (let ip = normalize_ip (ro_ip raw);
          source = the_or (Some ''nmap'') (ro_source raw);
          (network_id, vlan_id) = (if source = Some ''docker'' \<and> ro_network_id raw = None \<and> text_given ip
             then dx_match_ip_to_network env (the ip) else (ro_network_id raw, ro_vlan_id raw)) in
      \<lparr>sr_id = i, sr_scan_job_id = job_id, sr_discovery_agent_id = agent_id, sr_finding_id = finding_id, sr_tenant_id = tenant,
       sr_ip_address = the_or [] ip, sr_mac_address = normalize_mac (ro_mac_address raw),
       sr_hostname = or_text (ro_hostname raw) (ro_sys_name raw), sr_open_ports = ro_open_ports raw,
       sr_os_family = (if text_given (ro_os_family_override raw) then ro_os_family_override raw else ro_os_family raw),
       sr_os_vendor = (if text_given (ro_os_vendor_override raw) then ro_os_vendor_override raw else ro_os_vendor raw),
       sr_os_accuracy = ro_os_accuracy raw, sr_device_type = ro_device_type raw, sr_device_confidence = ro_device_confidence raw,
       sr_banner = ro_banner raw, sr_source_type = the_or source (ro_source_type raw), sr_snmp_sys_name = ro_sys_name raw,
       sr_snmp_sys_descr = ro_sys_descr raw, sr_raw_nmap_xml = the_or [] (ro_raw_nmap_xml raw), sr_network_id = network_id,
       sr_vlan_id = vlan_id, sr_lldp_neighbors = ro_lldp_neighbors raw, sr_state = ''new'', sr_conflicts = None,
       sr_matched_entity_type = None, sr_matched_entity_id = None, sr_merge_status = ''pending'', sr_enriched_fields = None,
       sr_enriched_at = None, sr_created_at = dx_now_iso env\<rparr>)"

definition build_and_classify_result ::
  "discovery_env \<Rightarrow> hardware list \<Rightarrow> int \<Rightarrow> int \<Rightarrow> int option \<Rightarrow> raw_observation \<Rightarrow> int option \<Rightarrow> string option \<Rightarrow> scan_result \<times> string" where
  "build_and_classify_result env hws i job_id tenant raw agent_id finding_id =
     (let (r, classification) = classify_result hws (Some tenant) (observed_row env i job_id tenant raw agent_id finding_id) in
      (if text_given (ro_hostname_override raw) then r\<lparr>sr_hostname := ro_hostname_override raw\<rparr> else r, classification))"

subsection \<open>One pending row per device\<close>

definition int_given :: "int option \<Rightarrow> bool" where
  "int_given n = (n \<noteq> None \<and> n \<noteq> Some 0)"

definition json_given :: "json option \<Rightarrow> bool" where
  "json_given j = (case j of None \<Rightarrow> False | Some v \<Rightarrow> json_truthy v)"

definition filled :: "('a option \<Rightarrow> bool) \<Rightarrow> 'a option \<Rightarrow> 'a option \<Rightarrow> 'a option" where
  "filled given a b = (if \<not> given a \<and> given b then b else a)"

text \<open>The canonical row takes what it does not have from another row; names and banners only from the same executor.\<close>

definition absorb :: "scan_result \<Rightarrow> scan_result \<Rightarrow> scan_result" where
  "absorb row c =
     (let c1 = c\<lparr>sr_mac_address := filled text_given (sr_mac_address c) (sr_mac_address row),
                 sr_os_family := filled text_given (sr_os_family c) (sr_os_family row),
                 sr_os_vendor := filled text_given (sr_os_vendor c) (sr_os_vendor row),
                 sr_os_accuracy := filled int_given (sr_os_accuracy c) (sr_os_accuracy row),
                 sr_device_type := filled text_given (sr_device_type c) (sr_device_type row),
                 sr_device_confidence := filled int_given (sr_device_confidence c) (sr_device_confidence row),
                 sr_open_ports := filled json_given (sr_open_ports c) (sr_open_ports row),
                 sr_lldp_neighbors := filled json_given (sr_lldp_neighbors c) (sr_lldp_neighbors row)\<rparr> in
      if sr_discovery_agent_id c = sr_discovery_agent_id row
      then c1\<lparr>sr_hostname := filled text_given (sr_hostname c) (sr_hostname row),
              sr_snmp_sys_name := filled text_given (sr_snmp_sys_name c) (sr_snmp_sys_name row),
              sr_snmp_sys_descr := filled text_given (sr_snmp_sys_descr c) (sr_snmp_sys_descr row),
              sr_banner := filled text_given (sr_banner c) (sr_banner row)\<rparr>
      else c1)"

text \<open>The column is nullable; a null is not skipped.\<close>

definition SKIPPED_SOURCE_TYPES :: "string option list" where
  "SKIPPED_SOURCE_TYPES = [Some ''proxmox'', Some ''docker'']"

text \<open>The pending rows at the same place that share the address or the MAC, oldest first.\<close>

definition queue_candidates :: "scan_result \<Rightarrow> scan_result list \<Rightarrow> scan_result list" where
  "queue_candidates r rows =
     sort_key sr_id (filter (\<lambda>x. sr_merge_status x = ''pending'' \<and> sr_tenant_id x = sr_tenant_id r \<and> sr_network_id x = sr_network_id r \<and>
       sr_vlan_id x = sr_vlan_id r \<and> sr_source_type x \<notin> set SKIPPED_SOURCE_TYPES \<and>
       (sr_ip_address x = sr_ip_address r \<or>
        (text_given (sr_mac_address r) \<and> map_option py_upper (sr_mac_address x) = sr_mac_address r))) rows)"

definition macs_at_ip :: "scan_result \<Rightarrow> scan_result list \<Rightarrow> string option list" where
  "macs_at_ip r candidates =
     remdups (map (\<lambda>x. normalize_mac (sr_mac_address x))
       (filter (\<lambda>x. sr_ip_address x = sr_ip_address r \<and> text_given (sr_mac_address x)) candidates))"

definition compatible :: "scan_result \<Rightarrow> nat \<Rightarrow> scan_result \<Rightarrow> bool" where
  "compatible r macs x =
     (let mac = normalize_mac (sr_mac_address x) in
      \<not> (text_given mac \<and> text_given (sr_mac_address r) \<and> mac \<noteq> sr_mac_address r) \<and>
      \<not> ((\<not> text_given mac \<or> \<not> text_given (sr_mac_address r)) \<and> macs > 1) \<and>
      sr_state x = sr_state r \<and> sr_conflicts x = sr_conflicts r \<and> sr_matched_entity_id x = sr_matched_entity_id r)"

definition compatible_rows :: "scan_result \<Rightarrow> scan_result list \<Rightarrow> scan_result list" where
  "compatible_rows r rows =
     (let candidates = queue_candidates r rows in filter (compatible r (length (macs_at_ip r candidates))) candidates)"

definition merge_rows :: "scan_result \<Rightarrow> scan_result list \<Rightarrow> scan_result list \<Rightarrow> scan_result list" where
  "merge_rows c rest rows =
     map (\<lambda>x. if sr_id x = sr_id c then fold absorb rest c
              else if sr_id x \<in> sr_id ` set rest then x\<lparr>sr_merge_status := ''duplicate''\<rparr> else x) rows"

definition deduplicate_pending_result :: "scan_result \<Rightarrow> scan_result list \<Rightarrow> scan_result list" where
  "deduplicate_pending_result r rows =
     (if sr_merge_status r \<noteq> ''pending'' \<or> sr_state r = ''matched'' \<or> sr_source_type r \<in> set SKIPPED_SOURCE_TYPES then rows
      else case compatible_rows r rows of [] \<Rightarrow> rows | c # rest \<Rightarrow> merge_rows c rest rows)"

subsection \<open>Filling the gaps of a known device\<close>

fun extract_field :: "discovery_env \<Rightarrow> hardware list \<Rightarrow> scan_result \<Rightarrow> hardware \<Rightarrow> hw_column \<Rightarrow> string option" where
  "extract_field env hws r h Mac_address =
     (let mac = norm_mac (sr_mac_address r) in
      if \<not> text_given mac then None
      else if list_ex (\<lambda>x. hd_column x Mac_address = mac \<and> hd_id x \<noteq> hd_id h) hws then None else mac)"
| "extract_field env hws r h Ip_address = Some (sr_ip_address r)"
| "extract_field env hws r h Hostname =
     (if sr_discovery_agent_id r \<noteq> None then None else or_text (sr_hostname r) (sr_snmp_sys_name r))"
| "extract_field env hws r h Vendor = or_text (sr_os_vendor r) (fst (dx_annotate env r))"
| "extract_field env hws r h Vendor_icon_slug = snd (dx_annotate env r)"
| "extract_field env hws r h Os_version = sr_os_family r"
| "extract_field env hws r h Discovered_at = Some (dx_now_iso env)"

definition FIELD_RULES :: "hw_column list" where
  "FIELD_RULES = [Mac_address, Ip_address, Hostname, Vendor, Vendor_icon_slug, Os_version, Discovered_at]"

definition fill_field ::
  "discovery_env \<Rightarrow> hardware list \<Rightarrow> scan_result \<Rightarrow> hw_column \<Rightarrow> hardware \<times> (hw_column \<times> string) list \<Rightarrow> hardware \<times> (hw_column \<times> string) list" where
  "fill_field env hws r attr acc =
     (case acc of (h, written) \<Rightarrow>
        if text_given (hd_column h attr) then (h, written)
        else let v = extract_field env hws r h attr in
             if \<not> text_given v then (h, written)
             else (h\<lparr>hd_column := (hd_column h)(attr := v)\<rparr>, written @ [(attr, the v)]))"

definition is_candidate :: "hardware list \<Rightarrow> scan_result \<Rightarrow> hardware option" where
  "is_candidate hws r =
     (if sr_merge_status r \<noteq> ''pending'' \<or> sr_state r \<noteq> ''matched'' \<or> sr_matched_entity_type r \<noteq> Some ''hardware'' \<or>
         sr_source_type r \<in> set SKIPPED_SOURCE_TYPES then None
      else case sr_matched_entity_id r of
        None \<Rightarrow> None
      | Some i \<Rightarrow>
          (case tbl_get hd_id i hws of
             None \<Rightarrow> None
           | Some h \<Rightarrow> if sr_discovery_agent_id r \<noteq> None \<and> hd_tenant_id h \<noteq> sr_tenant_id r then None else Some h))"

definition ENRICHED_MERGE_STATUS :: string where "ENRICHED_MERGE_STATUS = ''auto_updated''"

record enrichment_outcome =
  eo_enriched :: bool
  eo_hardware_id :: "int option"
  eo_hardware_name :: "string option"
  eo_fields :: "(hw_column \<times> string) list"

definition enrich_matched_result ::
  "discovery_env \<Rightarrow> scan_result \<Rightarrow> hardware list \<Rightarrow> enrichment_outcome \<times> scan_result \<times> hardware list" where
  "enrich_matched_result env r hws =
     (case is_candidate hws r of
        None \<Rightarrow> (\<lparr>eo_enriched = False, eo_hardware_id = None, eo_hardware_name = None, eo_fields = []\<rparr>, r, hws)
      | Some h \<Rightarrow>
          let (h', written) = fold (fill_field env hws r) FIELD_RULES (h, []);
              h'' = h'\<lparr>hd_source_scan_result_id := Some (sr_id r), hd_last_seen := Some (dx_now_iso env), hd_status := Some ''online''\<rparr> in
          (\<lparr>eo_enriched = True, eo_hardware_id = Some (hd_id h), eo_hardware_name = Some (hd_name h), eo_fields = written\<rparr>,
           r\<lparr>sr_merge_status := ENRICHED_MERGE_STATUS, sr_enriched_fields := Some written, sr_enriched_at := Some (dx_now_iso env)\<rparr>,
           tbl_upd hd_id (hd_id h) (\<lambda>_. h'') hws))"

subsection \<open>Queue and inventory together\<close>

type_synonym review = "scan_result list \<times> hardware list"

text \<open>The row is read back before it is enriched: deduplication may have changed it.\<close>

definition enrich_row :: "discovery_env \<Rightarrow> int \<Rightarrow> review \<Rightarrow> bool \<times> review" where
  "enrich_row env i s =
     (case s of (rows, hws) \<Rightarrow>
        case tbl_get sr_id i rows of
          None \<Rightarrow> (False, s)
        | Some r \<Rightarrow>
            let (outcome, r', hws') = enrich_matched_result env r hws in
            (eo_enriched outcome, tbl_upd sr_id i (\<lambda>_. r') rows, hws'))"

definition queue_result :: "discovery_env \<Rightarrow> scan_result \<Rightarrow> review \<Rightarrow> review" where
  "queue_result env r s = (case s of (rows, hws) \<Rightarrow> snd (enrich_row env (sr_id r) (deduplicate_pending_result r (rows @ [r]), hws)))"

text \<open>One row of the startup repair: normalized, matched again when it was unknown, folded and enriched.\<close>

definition reexamined :: "hardware list \<Rightarrow> (int \<Rightarrow> int option option) \<Rightarrow> scan_result \<Rightarrow> scan_result" where
  "reexamined hws job_tenant r =
     (let r1 = r\<lparr>sr_ip_address := the (or_text (normalize_ip (Some (sr_ip_address r))) (Some (sr_ip_address r))),
                 sr_mac_address := normalize_mac (sr_mac_address r)\<rparr> in
      if sr_state r1 = ''new'' then fst (classify_result hws (job_tenant (sr_scan_job_id r1)) r1) else r1)"

definition backfill_row :: "discovery_env \<Rightarrow> (int \<Rightarrow> int option option) \<Rightarrow> int \<Rightarrow> review \<times> nat \<Rightarrow> review \<times> nat" where
  "backfill_row env job_tenant i acc =
     (case acc of ((rows, hws), enriched) \<Rightarrow>
        case tbl_get sr_id i rows of
          None \<Rightarrow> acc
        | Some r \<Rightarrow>
            if sr_merge_status r \<noteq> ''pending'' \<or> sr_source_type r \<in> set SKIPPED_SOURCE_TYPES then acc
            else let r' = reexamined hws job_tenant r;
                     (e, s') = enrich_row env i (deduplicate_pending_result r' (tbl_upd sr_id i (\<lambda>_. r') rows), hws) in
                 (s', if e then enriched + 1 else enriched))"

lemma ids_tbl_upd: "sr_id r = i \<Longrightarrow> map sr_id (tbl_upd sr_id i (\<lambda>_. r) rows) = map sr_id rows"
  by (auto simp: tbl_upd_def)

lemma absorb_id [simp]: "sr_id (absorb row c) = sr_id c"
  by (simp add: absorb_def Let_def)

lemma fold_absorb_id [simp]: "sr_id (fold absorb rest c) = sr_id c"
  by (rule fold_keeps) simp

lemma ids_merge_rows [simp]: "map sr_id (merge_rows c rest rows) = map sr_id rows"
  by (auto simp: merge_rows_def)

lemma ids_deduplicate [simp]: "map sr_id (deduplicate_pending_result r rows) = map sr_id rows"
  by (simp add: deduplicate_pending_result_def split: list.split)

lemma classify_keeps [simp]:
  "sr_id (fst (classify_result hws t r)) = sr_id r" "sr_merge_status (fst (classify_result hws t r)) = sr_merge_status r"
  "sr_source_type (fst (classify_result hws t r)) = sr_source_type r" "sr_tenant_id (fst (classify_result hws t r)) = sr_tenant_id r"
  "sr_discovery_agent_id (fst (classify_result hws t r)) = sr_discovery_agent_id r"
  "sr_scan_job_id (fst (classify_result hws t r)) = sr_scan_job_id r" "sr_finding_id (fst (classify_result hws t r)) = sr_finding_id r"
  "sr_network_id (fst (classify_result hws t r)) = sr_network_id r" "sr_vlan_id (fst (classify_result hws t r)) = sr_vlan_id r"
  by (simp_all add: classify_result_def Let_def split: option.split)

lemma enrich_result_id: "enrich_matched_result env r hws = (outcome, r', hws') \<Longrightarrow> sr_id r' = sr_id r"
  by (auto simp: enrich_matched_result_def Let_def split: option.splits prod.splits)

lemma ids_enrich_row [simp]: "map sr_id (fst (snd (enrich_row env i s))) = map sr_id (fst s)"
  by (auto simp: enrich_row_def Let_def dest!: enrich_result_id tbl_get_Some intro!: ids_tbl_upd split: prod.split option.split)

lemma reexamined_keeps [simp]:
  "sr_id (reexamined hws t r) = sr_id r" "sr_merge_status (reexamined hws t r) = sr_merge_status r"
  "sr_source_type (reexamined hws t r) = sr_source_type r" "sr_tenant_id (reexamined hws t r) = sr_tenant_id r"
  "sr_discovery_agent_id (reexamined hws t r) = sr_discovery_agent_id r" "sr_network_id (reexamined hws t r) = sr_network_id r"
  "sr_vlan_id (reexamined hws t r) = sr_vlan_id r" "sr_scan_job_id (reexamined hws t r) = sr_scan_job_id r"
  "sr_finding_id (reexamined hws t r) = sr_finding_id r"
  by (simp_all add: reexamined_def Let_def)

lemma ids_backfill_row: "map sr_id (fst (fst (backfill_row env job_tenant i acc))) = map sr_id (fst (fst acc))"
proof -
  obtain rows hws n where acc: "acc = ((rows, hws), n)" by (metis prod.collapse)
  show ?thesis
  proof (cases "tbl_get sr_id i rows")
    case (Some r)
    let ?r = "reexamined hws job_tenant r"
    let ?s = "(deduplicate_pending_result ?r (tbl_upd sr_id i (\<lambda>_. ?r) rows), hws)"
    have "sr_id ?r = i" using tbl_get_Some [OF Some] by simp
    then have "map sr_id (fst (snd (enrich_row env i ?s))) = map sr_id rows" by (simp add: ids_tbl_upd)
    then show ?thesis by (simp add: acc backfill_row_def Some Let_def split_beta)
  qed (simp add: acc backfill_row_def)
qed

lemma ids_backfill_rows: "map sr_id (fst (fst (fold (backfill_row env job_tenant) ids acc))) = map sr_id (fst (fst acc))"
  by (rule fold_keeps) (rule ids_backfill_row)

definition backfill_batch :: "nat \<Rightarrow> int \<Rightarrow> scan_result list \<Rightarrow> int list" where
  "backfill_batch limit last_id rows =
     take limit (sort (map sr_id (filter (\<lambda>r. last_id < sr_id r \<and> sr_merge_status r = ''pending'') rows)))"

lemma backfill_batch_progress:
  assumes "backfill_batch limit last_id rows \<noteq> []"
  shows "last (backfill_batch limit last_id rows) \<in> sr_id ` set rows \<and> last_id < last (backfill_batch limit last_id rows)"
proof -
  have "last (backfill_batch limit last_id rows) \<in> set (backfill_batch limit last_id rows)" using assms by simp
  then show ?thesis unfolding backfill_batch_def by (auto dest!: in_set_takeD)
qed

function backfill :: "discovery_env \<Rightarrow> (int \<Rightarrow> int option option) \<Rightarrow> nat \<Rightarrow> int \<Rightarrow> review \<times> nat \<Rightarrow> review \<times> nat" where
  "backfill env job_tenant limit last_id acc =
     (let ids = backfill_batch limit last_id (fst (fst acc)) in
      if ids = [] then acc else backfill env job_tenant limit (last ids) (fold (backfill_row env job_tenant) ids acc))"
  by auto
termination
proof (relation "measure (\<lambda>(env, job_tenant, limit, last_id, acc). length (filter (\<lambda>i. last_id < i) (map sr_id (fst (fst acc)))))", goal_cases)
  case (2 env job_tenant limit last_id acc ids)
  let ?x = "last ids"
  have "?x \<in> set (map sr_id (fst (fst acc)))" "last_id < ?x" using backfill_batch_progress [of limit last_id "fst (fst acc)"] 2 by auto
  then have "length (filter (\<lambda>i. ?x < i) (map sr_id (fst (fst acc)))) < length (filter (\<lambda>i. last_id < i) (map sr_id (fst (fst acc))))"
    by (intro length_filter_strict [of _ _ ?x]) auto
  then show ?case by (simp only: in_measure prod.case ids_backfill_rows)
qed simp

declare backfill.simps [simp del]

definition backfill_pending_matched :: "discovery_env \<Rightarrow> (int \<Rightarrow> int option option) \<Rightarrow> int \<Rightarrow> review \<Rightarrow> (review \<times> nat) option" where
  "backfill_pending_matched env job_tenant batch_limit s =
     (if batch_limit < 1 then None else Some (backfill env job_tenant (nat batch_limit) 0 (s, 0)))"

subsection \<open>Normal forms of identities\<close>

lemma of_char_upper: "(of_char (upper_char c) :: nat) = (let n = of_char c in if 97 \<le> n \<and> n \<le> 122 then n - 32 else n)"
  by (auto simp: upper_char_def Let_def)

lemma upper_char_idem [simp]: "upper_char (upper_char c) = upper_char c"
  unfolding upper_char_def [of "upper_char c"] of_char_upper by (auto simp: Let_def)

lemma upper_char_cases: "upper_char c = c \<or> (\<exists>i. c = char_of (97 + i) \<and> i < 26 \<and> upper_char c = char_of (65 + (i :: nat)))"
proof (cases "97 \<le> (of_char c :: nat) \<and> (of_char c :: nat) \<le> 122")
  case True
  let ?i = "of_char c - 97 :: nat"
  have "c = char_of (97 + ?i)" "?i < 26" "upper_char c = char_of (65 + ?i)" using True by (auto simp: upper_char_def Let_def)
  then show ?thesis by blast
qed (auto simp: upper_char_def Let_def)

lemma upper_char_kinds: "is_hex (upper_char c) = is_hex c" "py_space (upper_char c) = py_space c"
proof -
  have "is_hex (char_of (97 + i)) = is_hex (char_of (65 + i)) \<and> \<not> py_space (char_of (97 + i)) \<and> \<not> py_space (char_of (65 + i))"
    if "i < 26" for i :: nat
  proof -
    have "i \<in> set [0..<26]" using that by simp
    moreover have "\<forall>i\<in>set [0..<26]. is_hex (char_of (97 + i)) = is_hex (char_of (65 + i)) \<and> \<not> py_space (char_of (97 + i)) \<and> \<not> py_space (char_of (65 + i))"
      by code_simp
    ultimately show ?thesis by blast
  qed
  then show "is_hex (upper_char c) = is_hex c" "py_space (upper_char c) = py_space c" using upper_char_cases [of c] by auto
qed

lemma py_upper_idem [simp]: "py_upper (py_upper s) = py_upper s"
  by (simp add: py_upper_def)

lemma filter_hex_upper: "filter is_hex (py_upper s) = py_upper (filter is_hex s)"
  by (simp add: py_upper_def filter_map o_def upper_char_kinds)

lemma dropWhile_upper: "dropWhile py_space (py_upper s) = py_upper (dropWhile py_space s)"
  by (simp add: py_upper_def dropWhile_map o_def upper_char_kinds)

lemma strip_upper: "py_strip (py_upper s) = py_upper (py_strip s)"
proof -
  have "rev (py_upper t) = py_upper (rev t)" for t by (simp add: py_upper_def rev_map)
  then show ?thesis by (simp add: py_strip_def dropWhile_upper)
qed

lemma space_not_hex: "py_space c \<Longrightarrow> \<not> is_hex c"
  by (auto simp: py_space_def is_hex_def)

lemma filter_hex_dropWhile: "filter is_hex (dropWhile py_space s) = filter is_hex s"
  by (induction s) (auto simp: space_not_hex)

lemma filter_hex_strip: "filter is_hex (py_strip s) = filter is_hex s"
  unfolding py_strip_def by (metis filter_hex_dropWhile rev_filter rev_rev_ident)

lemma pairs_of_upper: "pairs_of (py_upper s) = map py_upper (pairs_of s)"
  by (induction s rule: pairs_of.induct) (simp_all add: py_upper_def)

lemma join_upper: "py_upper (py_join '':'' ws) = py_join '':'' (map py_upper ws)"
  by (induction "'':'' :: string" ws rule: py_join.induct) (simp_all add: py_upper_def upper_char_def)

lemma hex_of_joined: "even (length s) \<Longrightarrow> list_all is_hex s \<Longrightarrow> filter is_hex (py_join '':'' (pairs_of s)) = s"
proof (induction s rule: pairs_of.induct)
  case (1 a b s)
  have "\<not> is_hex CHR '':''" by (simp add: is_hex_def)
  with 1 show ?case by (cases "pairs_of s") auto
qed auto

text \<open>A normal form: normalizing it again changes nothing, and it is in upper case.\<close>

lemma normalize_mac_given: "text_given mac \<Longrightarrow> normalize_mac mac = norm_mac mac"
  by (simp add: normalize_mac_def)

lemma norm_mac_upper: "norm_mac mac = Some m \<Longrightarrow> py_upper m = m"
  by (auto simp: norm_mac_def Let_def split: if_splits)

lemma normalize_mac_idem [simp]: "normalize_mac (normalize_mac mac) = normalize_mac mac"
proof (cases "text_given mac")
  case True
  then obtain s where s: "mac = Some s" "s \<noteq> []" by (auto simp: text_given_def)
  let ?h = "filter is_hex s"
  have norm: "normalize_mac (Some t) = Some (if length (filter is_hex t) \<noteq> 12 then py_upper (py_strip t) else py_upper (py_join '':'' (pairs_of (filter is_hex t))))"
    if "t \<noteq> []" for t
    using that by (simp add: normalize_mac_def norm_mac_def text_given_def Let_def)
  show ?thesis
  proof (cases "length ?h = 12")
    case True
    let ?t = "py_upper (py_join '':'' (pairs_of ?h))"
    have h: "filter is_hex ?t = py_upper ?h"
      using True hex_of_joined [of ?h] by (simp add: filter_hex_upper list_all_iff)
    then have t: "?t \<noteq> []" using True by (auto simp: py_upper_def)
    have "length (py_upper ?h) = 12" using True by (simp add: py_upper_def)
    then have "normalize_mac (Some ?t) = Some ?t" using norm [OF t] h by (simp add: pairs_of_upper join_upper o_def)
    with norm [OF s(2)] True s(1) show ?thesis by simp
  next
    case False
    let ?t = "py_upper (py_strip s)"
    have "normalize_mac (Some ?t) = Some ?t"
    proof (cases "?t = []")
      case False
      have "length (filter is_hex ?t) = length ?h" by (simp add: filter_hex_upper filter_hex_strip) (simp add: py_upper_def)
      with norm [OF False] \<open>length ?h \<noteq> 12\<close> show ?thesis by (simp add: strip_upper py_strip_idem)
    qed (simp add: normalize_mac_def text_given_def)
    with norm [OF s(2)] False s(1) show ?thesis by simp
  qed
qed (simp add: normalize_mac_def)

lemma last_stripped: "py_strip s \<noteq> [] \<Longrightarrow> \<not> py_space (last (py_strip s))"
proof -
  assume "py_strip s \<noteq> []"
  then have "dropWhile py_space (rev (dropWhile py_space s)) \<noteq> []" by (simp add: py_strip_def)
  from hd_dropWhile [OF this] show ?thesis by (simp add: py_strip_def last_rev)
qed

lemma zone_of_text: "IPv6Address s = Some a \<Longrightarrow> ia_zone a = Some z \<Longrightarrow> s \<noteq> [] \<and> last s = last z"
proof -
  let ?d = "dropWhile (\<lambda>c. c \<noteq> CHR ''%'') s"
  assume "IPv6Address s = Some a" "ia_zone a = Some z"
  then have z: "z = tl ?d" "z \<noteq> []"
    by (auto simp: IPv6Address_def split_scope_id_def Let_def split: if_splits option.splits)
  then have d: "?d \<noteq> []" by (metis tl_Nil)
  have "last s = last ?d" using d by (metis last_appendR takeWhile_dropWhile_id)
  moreover have "s \<noteq> []" using d by (metis dropWhile.simps(1))
  ultimately show ?thesis using z by (metis last_tl)
qed

text \<open>The text of an address that was read is read as the same address, also when it is stripped first.\<close>

lemma address_text_stable:
  assumes "ip_address (py_strip s) = Some a"
  shows "address_str a \<noteq> [] \<and> ip_address (py_strip (address_str a)) = Some a"
proof -
  note wf = ip_address_wf [OF assms]
  note reads = address_round_trip [OF wf]
  have chars: "\<not> py_space c" if "c = CHR '':'' \<or> c = CHR ''.'' \<or> is_hex c" for c using that by (auto simp: py_space_def is_hex_def)
  have "address_str a \<noteq> [] \<and> ip_address (address_str a) = Some a \<and> \<not> py_space (hd (address_str a)) \<and> \<not> py_space (last (address_str a))"
  proof (cases "ia_version a")
    case IPv4
    with wf have n: "0 \<le> ia_int a" "ia_int a < 2 ^ 32" "address_str a = ip4_string (ia_int a)"
      by (auto simp: wf_address_def address_str_def elim: wf_zone.elims)
    have "\<not> py_space c" if "c \<in> set (address_str a)" for c
      using ip4_string_chars [OF n(1,2)] that chars digit_hex unfolding n(3) by blast
    moreover have "address_str a \<noteq> []" using n(3) by (simp add: ip4_string_def int_str_def nat_str_not_Nil)
    ultimately show ?thesis using reads(1) IPv4 by (simp add: ip_address_def)
  next
    case IPv6
    with wf have n: "0 \<le> ia_int a" "ia_int a < 2 ^ 128" by (auto simp: wf_address_def)
    have four: "IPv4Address (address_str a) = None" using reads(3) IPv6 IPv4_no_colon by (cases "IPv4Address (address_str a)") auto
    let ?t = "ip6_string (ia_int a)"
    have t: "?t \<noteq> []" "\<not> py_space (hd ?t)" "\<not> py_space (last ?t)"
    proof -
      show "?t \<noteq> []" using ip6_round_trip(3) [OF n] by (metis list.set(1) empty_iff)
      then show "\<not> py_space (hd ?t)" "\<not> py_space (last ?t)" using ip6_round_trip(2) [OF n] chars by (meson hd_in_set last_in_set)+
    qed
    have "\<not> py_space (last z)" if "ia_zone a = Some z" for z
    proof -
      have "IPv4Address (py_strip s) = None"
        using assms IPv6 by (auto simp: ip_address_def IPv4Address_def split: option.splits if_splits)
      then have "IPv6Address (py_strip s) = Some a" using assms by (simp add: ip_address_def)
      from zone_of_text [OF this that] last_stripped [of s] show ?thesis by simp
    qed
    moreover have "ia_zone a = Some z \<Longrightarrow> z \<noteq> []" for z using wf by (simp add: wf_address_def)
    moreover have "address_str a = ?t @ (case ia_zone a of None \<Rightarrow> [] | Some z \<Rightarrow> CHR ''%'' # z)"
      using IPv6 by (simp add: address_str_def split: option.split)
    ultimately show ?thesis using t four reads(1) IPv6 by (auto simp: ip_address_def split: option.split)
  qed
  then show ?thesis using py_strip_no_space [of "address_str a"] by simp
qed

lemma normalize_ip_idem: "normalize_ip ip = Some t \<Longrightarrow> normalize_ip (Some t) = Some t"
  using address_text_stable [of "the ip"] by (auto simp: normalize_ip_def text_given_def split: if_splits option.splits)

lemma normal_ip: "normalize_ip (Some (the (or_text (normalize_ip (Some t)) (Some t)))) = Some (the (or_text (normalize_ip (Some t)) (Some t)))"
proof -
  obtain u where "normalize_ip (Some t) = Some u" by (cases "normalize_ip (Some t)") (auto simp: normalize_ip_def split: if_splits option.splits)
  moreover have "u = [] \<Longrightarrow> t = []" using calculation address_text_stable [of t] by (auto simp: normalize_ip_def text_given_def split: if_splits option.splits)
  ultimately show ?thesis using normalize_ip_idem [of "Some t" u] by (auto simp: or_text_def text_given_def)
qed

subsection \<open>Enrichment only fills gaps\<close>

lemma list_all2_mapI: "(\<And>x. x \<in> set xs \<Longrightarrow> P x (f x)) \<Longrightarrow> list_all2 P xs (map f xs)"
  by (induction xs) auto

text \<open>
  What findings may do to a device: fill empty columns and note that the device was seen. The note is written over whatever the
  three columns of liveness and provenance held.
\<close>

definition noted :: "hardware \<Rightarrow> hardware \<Rightarrow> bool" where
  "noted h h' =
     ((hd_status h' = hd_status h \<and> hd_last_seen h' = hd_last_seen h \<and> hd_source_scan_result_id h' = hd_source_scan_result_id h) \<or>
      (hd_status h' = Some ''online'' \<and> hd_last_seen h' \<noteq> None \<and> hd_source_scan_result_id h' \<noteq> None))"

definition only_filled :: "int option \<Rightarrow> hardware \<Rightarrow> hardware \<Rightarrow> bool" where
  "only_filled agent h h' =
     (hd_id h' = hd_id h \<and> hd_name h' = hd_name h \<and> hd_tenant_id h' = hd_tenant_id h \<and> noted h h' \<and>
      (\<forall>c. text_given (hd_column h c) \<longrightarrow> hd_column h' c = hd_column h c) \<and>
      (agent \<noteq> None \<longrightarrow> hd_column h' Hostname = hd_column h Hostname))"

lemma only_filled_refl [simp]: "only_filled agent h h"
  by (simp add: only_filled_def noted_def)

lemma only_filled_trans: "only_filled a h h' \<Longrightarrow> only_filled a h' h'' \<Longrightarrow> only_filled a h h''"
  by (auto simp: only_filled_def noted_def)

lemma only_filled_weaken: "only_filled a h h' \<Longrightarrow> only_filled None h h'"
  by (simp add: only_filled_def)

lemma fill_field_only_fills: "only_filled (sr_discovery_agent_id r) (fst acc) (fst (fill_field env hws r attr acc))"
  by (cases attr) (auto simp: fill_field_def only_filled_def noted_def text_given_def Let_def split: prod.split)

lemma fill_fields_only_fill: "only_filled (sr_discovery_agent_id r) (fst acc) (fst (fold (fill_field env hws r) attrs acc))"
proof (induction attrs arbitrary: acc)
  case (Cons attr attrs)
  then show ?case using only_filled_trans [OF fill_field_only_fills Cons.IH] by simp
qed simp

text \<open>Which device an enrichment may touch.\<close>

definition touched :: "scan_result \<Rightarrow> hardware \<Rightarrow> bool" where
  "touched r h = (sr_state r = ''matched'' \<and> sr_matched_entity_id r = Some (hd_id h) \<and>
     (sr_discovery_agent_id r \<noteq> None \<longrightarrow> hd_tenant_id h = sr_tenant_id r))"

lemma is_candidate_touched:
  "is_candidate hws r = Some h \<Longrightarrow> h \<in> set hws \<and> touched r h \<and> sr_merge_status r = ''pending''"
  by (auto simp: is_candidate_def touched_def split: if_splits option.splits dest: tbl_get_Some)

lemma enriched_device:
  assumes "enrich_matched_result env r hws = (outcome, r', hws')" "is_candidate hws r = Some h"
  obtains k where "hws' = tbl_upd hd_id (hd_id h) (\<lambda>_. k) hws" "only_filled (sr_discovery_agent_id r) h k"
    "\<And>c. hd_column k c = hd_column (fst (fold (fill_field env hws r) FIELD_RULES (h, []))) c"
proof
  let ?f = "fst (fold (fill_field env hws r) FIELD_RULES (h, []))"
  let ?k = "?f\<lparr>hd_source_scan_result_id := Some (sr_id r), hd_last_seen := Some (dx_now_iso env), hd_status := Some ''online''\<rparr>"
  show "hws' = tbl_upd hd_id (hd_id h) (\<lambda>_. ?k) hws" using assms by (auto simp: enrich_matched_result_def split_beta)
  show "only_filled (sr_discovery_agent_id r) h ?k"
    using fill_fields_only_fill [of r "(h, [])" env hws FIELD_RULES] by (simp add: only_filled_def noted_def)
qed simp

lemma enrich_inventory:
  assumes "enrich_matched_result env r hws = (outcome, r', hws')" "distinct (map hd_id hws)"
  shows "list_all2 (\<lambda>h h'. only_filled (sr_discovery_agent_id r) h h' \<and> (h' \<noteq> h \<longrightarrow> touched r h)) hws hws'"
proof (cases "is_candidate hws r")
  case None
  with assms(1) show ?thesis by (auto simp: enrich_matched_result_def list_all2_same)
next
  case (Some h)
  from is_candidate_touched [OF Some] have h: "h \<in> set hws" "touched r h" by simp_all
  from enriched_device [OF assms(1) Some] obtain k where
    k: "hws' = tbl_upd hd_id (hd_id h) (\<lambda>_. k) hws" "only_filled (sr_discovery_agent_id r) h k" by metis
  show ?thesis unfolding k(1) tbl_upd_def
  proof (rule list_all2_mapI)
    fix x assume "x \<in> set hws"
    then show "only_filled (sr_discovery_agent_id r) x (if hd_id x = hd_id h then k else x) \<and>
      ((if hd_id x = hd_id h then k else x) \<noteq> x \<longrightarrow> touched r x)"
    proof (cases "hd_id x = hd_id h")
      case True
      with assms(2) h(1) \<open>x \<in> set hws\<close> have "x = h" by (auto simp: distinct_map inj_on_def)
      with k(2) h(2) show ?thesis by simp
    qed simp
  qed
qed

lemma enrich_row_inventory:
  assumes "enrich_row env i (rows, hws) = (e, rows', hws')" "distinct (map hd_id hws)"
  shows "list_all2 (\<lambda>h h'. only_filled None h h' \<and> (h' \<noteq> h \<longrightarrow> (\<exists>r\<in>set rows. sr_id r = i \<and> touched r h))) hws hws'"
proof (cases "tbl_get sr_id i rows")
  case None
  with assms(1) show ?thesis by (auto simp: enrich_row_def list_all2_same)
next
  case (Some r)
  obtain outcome r' hws2 where e: "enrich_matched_result env r hws = (outcome, r', hws2)" by (metis prod.exhaust)
  with assms(1) Some have "hws' = hws2" by (auto simp: enrich_row_def)
  with enrich_inventory [OF e assms(2)] tbl_get_Some [OF Some] show ?thesis
    by (auto elim!: list_all2_mono dest: only_filled_weaken)
qed

text \<open>No two devices hold one MAC.\<close>

definition macs_unique :: "hardware list \<Rightarrow> bool" where
  "macs_unique hws = (\<forall>h\<in>set hws. \<forall>k\<in>set hws. text_given (hd_column h Mac_address) \<and> hd_column h Mac_address = hd_column k Mac_address \<longrightarrow> hd_id h = hd_id k)"

lemma fill_field_other: "attr \<noteq> c \<Longrightarrow> hd_column (fst (fill_field env hws r attr acc)) c = hd_column (fst acc) c"
  by (auto simp: fill_field_def Let_def split: prod.split)

lemma fill_fields_mac: "Mac_address \<notin> set attrs \<Longrightarrow> hd_column (fst (fold (fill_field env hws r) attrs acc)) Mac_address = hd_column (fst acc) Mac_address"
  by (induction attrs arbitrary: acc) (auto simp: fill_field_other)

lemma fill_fields_mac_free:
  assumes "hd_column (fst (fold (fill_field env hws r) FIELD_RULES (h, []))) Mac_address = mac" "text_given mac"
    "k \<in> set hws" "hd_id k \<noteq> hd_id h" "hd_column k Mac_address = mac"
  shows "hd_column h Mac_address = mac"
proof -
  have "mac = hd_column (fst (fill_field env hws r Mac_address (h, []))) Mac_address"
    using fill_fields_mac [of "tl FIELD_RULES" env hws r "fill_field env hws r Mac_address (h, [])"] assms(1) by (simp add: FIELD_RULES_def)
  with assms(2-5) show ?thesis by (auto simp: fill_field_def Let_def list_ex_iff text_given_def split: if_splits)
qed

lemma enrich_macs_unique:
  assumes "enrich_matched_result env r hws = (outcome, r', hws')" "macs_unique hws"
  shows "macs_unique hws'"
proof (cases "is_candidate hws r")
  case None
  with assms show ?thesis by (auto simp: enrich_matched_result_def)
next
  case (Some h)
  have h: "h \<in> set hws" using is_candidate_touched [OF Some] by simp
  from enriched_device [OF assms(1) Some] obtain k where k: "hws' = tbl_upd hd_id (hd_id h) (\<lambda>_. k) hws" "only_filled (sr_discovery_agent_id r) h k"
    "hd_column (fst (fold (fill_field env hws r) FIELD_RULES (h, []))) Mac_address = hd_column k Mac_address" by metis
  then have id: "hd_id k = hd_id h" by (simp add: only_filled_def)
  have free: "hd_id y = hd_id h" if y: "y \<in> set hws" "hd_column y Mac_address = hd_column k Mac_address" "text_given (hd_column k Mac_address)" for y
  proof (rule ccontr)
    assume "hd_id y \<noteq> hd_id h"
    from fill_fields_mac_free [OF k(3) y(3,1) this y(2)] y assms(2) h have "hd_id h = hd_id y" unfolding macs_unique_def by metis
    with \<open>hd_id y \<noteq> hd_id h\<close> show False by simp
  qed
  have row: "x = k \<or> x \<in> set hws" if "x \<in> set hws'" for x using that by (auto simp: k(1) elim!: in_tbl_updE split: if_splits)
  show ?thesis unfolding macs_unique_def
  proof (intro ballI impI, elim conjE)
    fix x y assume xy: "x \<in> set hws'" "y \<in> set hws'" "text_given (hd_column x Mac_address)" "hd_column x Mac_address = hd_column y Mac_address"
    show "hd_id x = hd_id y"
      using row [OF xy(1)] row [OF xy(2)] xy(3,4) free [of x] free [of y] id assms(2) unfolding macs_unique_def by metis
  qed
qed

subsection \<open>One pending row per device\<close>

definition queued :: "scan_result \<Rightarrow> bool" where
  "queued x = (sr_merge_status x = ''pending'' \<and> sr_source_type x \<notin> set SKIPPED_SOURCE_TYPES \<and> sr_state x \<noteq> ''matched'')"

definition same_place :: "scan_result \<Rightarrow> scan_result \<Rightarrow> bool" where
  "same_place x y = (sr_tenant_id x = sr_tenant_id y \<and> sr_network_id x = sr_network_id y \<and> sr_vlan_id x = sr_vlan_id y)"

definition same_verdict :: "scan_result \<Rightarrow> scan_result \<Rightarrow> bool" where
  "same_verdict x y = (sr_state x = sr_state y \<and> sr_conflicts x = sr_conflicts y \<and> sr_matched_entity_id x = sr_matched_entity_id y)"

text \<open>
  Two pending rows ask the same question when they have the same verdict at the same place and either one MAC or one address; an
  address on which two MACs were seen does not tell devices apart.
\<close>

definition same_mac :: "scan_result \<Rightarrow> scan_result \<Rightarrow> bool" where
  "same_mac x y = (text_given (sr_mac_address x) \<and> sr_mac_address x = sr_mac_address y)"

definition same_spot :: "scan_result \<Rightarrow> scan_result \<Rightarrow> bool" where
  "same_spot x y = (same_place x y \<and> sr_ip_address x = sr_ip_address y)"

definition contested :: "scan_result list \<Rightarrow> scan_result \<Rightarrow> bool" where
  "contested rows x = (\<exists>a\<in>set rows. \<exists>b\<in>set rows. same_spot a x \<and> same_spot b x \<and>
     text_given (sr_mac_address a) \<and> text_given (sr_mac_address b) \<and> sr_mac_address a \<noteq> sr_mac_address b)"

definition asks_again :: "scan_result list \<Rightarrow> scan_result \<Rightarrow> scan_result \<Rightarrow> bool" where
  "asks_again rows x y = (same_place x y \<and> same_verdict x y \<and> (same_mac x y \<or> sr_ip_address x = sr_ip_address y \<and> \<not> contested rows x))"

definition normal_rows :: "scan_result list \<Rightarrow> bool" where
  "normal_rows rows = (\<forall>x\<in>set rows. normalize_mac (sr_mac_address x) = sr_mac_address x \<and>
     normalize_ip (Some (sr_ip_address x)) = Some (sr_ip_address x))"

definition queue_ok :: "scan_result list \<Rightarrow> bool" where
  "queue_ok rows = (distinct (map sr_id rows) \<and> normal_rows rows \<and>
     (\<forall>x\<in>set rows. \<forall>y\<in>set rows. queued x \<and> queued y \<and> asks_again rows x y \<longrightarrow> x = y))"

text \<open>The queue is in order but for one row that was added or examined again.\<close>

definition queue_ok_but :: "scan_result \<Rightarrow> scan_result list \<Rightarrow> bool" where
  "queue_ok_but r rows = (distinct (map sr_id rows) \<and> normal_rows rows \<and> r \<in> set rows \<and>
     (\<forall>x\<in>set rows. \<forall>y\<in>set rows. x \<noteq> r \<and> y \<noteq> r \<and> queued x \<and> queued y \<and> asks_again rows x y \<longrightarrow> x = y))"

lemmas place_defs = same_place_def same_verdict_def same_spot_def same_mac_def

lemma contested_spot: "same_spot x y \<Longrightarrow> contested rows x = contested rows y"
  unfolding contested_def same_spot_def same_place_def by auto

lemma asks_again_sym: "asks_again rows x y \<Longrightarrow> asks_again rows y x"
  using contested_spot [of x y rows] by (auto simp: asks_again_def place_defs)

text \<open>Addresses stay contested: rows keep their place, their address and a MAC that they have.\<close>

lemma contested_mono:
  assumes "contested rows x" "\<And>a. a \<in> set rows \<Longrightarrow> text_given (sr_mac_address a) \<Longrightarrow> \<exists>b\<in>set rows'. same_spot b a \<and> sr_mac_address b = sr_mac_address a"
  shows "contested rows' x"
proof -
  from assms(1) obtain a b where ab: "a \<in> set rows" "b \<in> set rows" "same_spot a x" "same_spot b x"
    "text_given (sr_mac_address a)" "text_given (sr_mac_address b)" "sr_mac_address a \<noteq> sr_mac_address b"
    unfolding contested_def by blast
  from assms(2) [OF ab(1,5)] assms(2) [OF ab(2,6)] obtain a' b' where
    "a' \<in> set rows'" "same_spot a' a" "sr_mac_address a' = sr_mac_address a" "b' \<in> set rows'" "same_spot b' b" "sr_mac_address b' = sr_mac_address b" by blast
  moreover from this ab(3,4) have "same_spot a' x" "same_spot b' x" by (simp_all add: place_defs)
  ultimately show ?thesis unfolding contested_def using ab(5-7) by metis
qed

lemma absorb_keeps [simp]:
  "sr_ip_address (absorb x c) = sr_ip_address c" "sr_tenant_id (absorb x c) = sr_tenant_id c" "sr_network_id (absorb x c) = sr_network_id c"
  "sr_vlan_id (absorb x c) = sr_vlan_id c" "sr_state (absorb x c) = sr_state c" "sr_conflicts (absorb x c) = sr_conflicts c"
  "sr_matched_entity_id (absorb x c) = sr_matched_entity_id c" "sr_merge_status (absorb x c) = sr_merge_status c"
  "sr_source_type (absorb x c) = sr_source_type c" "sr_discovery_agent_id (absorb x c) = sr_discovery_agent_id c"
  "sr_scan_job_id (absorb x c) = sr_scan_job_id c" "sr_finding_id (absorb x c) = sr_finding_id c"
  "sr_matched_entity_type (absorb x c) = sr_matched_entity_type c"
  "sr_mac_address (absorb x c) = filled text_given (sr_mac_address c) (sr_mac_address x)"
  by (simp_all add: absorb_def Let_def)

lemma fold_absorb_keeps [simp]:
  "sr_ip_address (fold absorb xs c) = sr_ip_address c" "sr_tenant_id (fold absorb xs c) = sr_tenant_id c"
  "sr_network_id (fold absorb xs c) = sr_network_id c" "sr_vlan_id (fold absorb xs c) = sr_vlan_id c"
  "sr_state (fold absorb xs c) = sr_state c" "sr_conflicts (fold absorb xs c) = sr_conflicts c"
  "sr_matched_entity_id (fold absorb xs c) = sr_matched_entity_id c" "sr_merge_status (fold absorb xs c) = sr_merge_status c"
  "sr_source_type (fold absorb xs c) = sr_source_type c" "sr_discovery_agent_id (fold absorb xs c) = sr_discovery_agent_id c"
  "sr_scan_job_id (fold absorb xs c) = sr_scan_job_id c" "sr_finding_id (fold absorb xs c) = sr_finding_id c"
  "sr_matched_entity_type (fold absorb xs c) = sr_matched_entity_type c"
  by (rule fold_keeps, simp)+

lemma fold_absorb_mac: "sr_mac_address (fold absorb xs c) \<in> sr_mac_address ` set (c # xs)"
proof (induction xs arbitrary: c)
  case (Cons x xs)
  from Cons [of "absorb x c"] show ?case by (auto simp: filled_def split: if_splits)
qed simp

lemma queue_candidates_iff:
  "x \<in> set (queue_candidates r rows) \<longleftrightarrow> x \<in> set rows \<and> sr_merge_status x = ''pending'' \<and> same_place x r \<and>
     sr_source_type x \<notin> set SKIPPED_SOURCE_TYPES \<and>
     (sr_ip_address x = sr_ip_address r \<or> text_given (sr_mac_address r) \<and> map_option py_upper (sr_mac_address x) = sr_mac_address r)"
  by (auto simp: queue_candidates_def same_place_def)

lemma compatible_rows_iff:
  "x \<in> set (compatible_rows r rows) \<longleftrightarrow> x \<in> set (queue_candidates r rows) \<and> compatible r (length (macs_at_ip r (queue_candidates r rows))) x"
  by (simp add: compatible_rows_def Let_def)

lemma compatible_iff:
  "normalize_mac (sr_mac_address x) = sr_mac_address x \<Longrightarrow>
   compatible r n x \<longleftrightarrow> same_verdict x r \<and>
     (if text_given (sr_mac_address x) \<and> text_given (sr_mac_address r) then sr_mac_address x = sr_mac_address r else n \<le> 1)"
  by (auto simp: compatible_def Let_def same_verdict_def)

lemma normal_mac_upper: "normalize_mac mac = mac \<Longrightarrow> text_given mac \<Longrightarrow> map_option py_upper mac = mac"
  using norm_mac_upper [of mac] by (cases mac) (auto simp: normalize_mac_given)

lemma candidates_contested:
  assumes "normal_rows rows" "1 < length (macs_at_ip r (queue_candidates r rows))"
  shows "contested rows r"
proof -
  let ?ms = "macs_at_ip r (queue_candidates r rows)"
  have "distinct ?ms" by (simp add: macs_at_ip_def)
  then have differ: "?ms ! 0 \<noteq> ?ms ! 1" using assms(2) by (metis less_trans nth_eq_iff_index_eq zero_less_one zero_neq_one)
  have seen_at: "\<exists>a\<in>set rows. same_spot a r \<and> text_given (sr_mac_address a) \<and> sr_mac_address a = m" if "m \<in> set ?ms" for m
    using that assms(1) by (auto simp: macs_at_ip_def queue_candidates_iff same_spot_def normal_rows_def)
  have "?ms ! 0 \<in> set ?ms" "?ms ! 1 \<in> set ?ms" using assms(2) by (auto intro: nth_mem)
  from this [THEN seen_at] differ show ?thesis unfolding contested_def by metis
qed

text \<open>A pending row at the address of the examined one that is not merged with it shows two MACs on that address.\<close>

lemma kept_contested:
  assumes "normal_rows rows" "r \<in> set rows" "y \<in> set rows" "queued y" "same_spot y r" "same_verdict y r" "y \<notin> set (compatible_rows r rows)"
  shows "contested rows r"
proof -
  have "y \<in> set (queue_candidates r rows)" using assms(3-5) by (simp add: queue_candidates_iff queued_def same_spot_def)
  with assms(1,3,6,7) have n: "if text_given (sr_mac_address y) \<and> text_given (sr_mac_address r) then sr_mac_address y \<noteq> sr_mac_address r
      else 1 < length (macs_at_ip r (queue_candidates r rows))"
    by (auto simp: compatible_rows_iff compatible_iff normal_rows_def)
  show ?thesis
  proof (cases "text_given (sr_mac_address y) \<and> text_given (sr_mac_address r)")
    case True
    have "same_spot r r" by (simp add: place_defs)
    with True n assms(2,3,5) show ?thesis unfolding contested_def by auto
  next
    case False
    with n have "1 < length (macs_at_ip r (queue_candidates r rows))" by (simp only: if_False)
    with candidates_contested [OF assms(1)] show ?thesis by blast
  qed
qed

lemma itself_kept:
  assumes "normal_rows rows" "r \<in> set rows" "queued r" "r \<notin> set (compatible_rows r rows)"
  shows "contested rows r" "\<not> text_given (sr_mac_address r)"
proof -
  show "contested rows r" using kept_contested [OF assms(1,2,2,3) _ _ assms(4)] by (simp add: place_defs)
  show "\<not> text_given (sr_mac_address r)"
    using assms unfolding compatible_rows_iff queue_candidates_iff
    by (auto simp: compatible_iff normal_rows_def queued_def place_defs)
qed

text \<open>No pending row that stays asks again what the canonical row asks.\<close>

lemma canonical_asks_once:
  assumes "queue_ok_but r rows" "queued r" "compatible_rows r rows = c # rest" "y \<in> set rows" "queued y" "y \<notin> set (c # rest)"
    "same_place (fold absorb rest c) y" "same_verdict (fold absorb rest c) y"
  shows "\<not> same_mac (fold absorb rest c) y" "sr_ip_address c = sr_ip_address y \<Longrightarrow> contested rows y"
proof -
  have nm: "normal_rows rows" and r: "r \<in> set rows" using assms(1) by (simp_all add: queue_ok_but_def)
  have ok: "x = z" if "x \<in> set rows" "z \<in> set rows" "x \<noteq> r" "z \<noteq> r" "queued x" "queued z" "asks_again rows x z" for x z
    using assms(1) that by (simp add: queue_ok_but_def)
  have C: "z \<in> set rows \<and> queued z \<and> same_place z r \<and> same_verdict z r \<and>
      (if text_given (sr_mac_address z) \<and> text_given (sr_mac_address r) then sr_mac_address z = sr_mac_address r
       else sr_ip_address z = sr_ip_address r)" if "z \<in> set (c # rest)" for z
  proof -
    have "z \<in> set (compatible_rows r rows)" using that assms(3) by simp
    then have z: "z \<in> set rows" "sr_merge_status z = ''pending''" "same_place z r" "sr_source_type z \<notin> set SKIPPED_SOURCE_TYPES"
      "sr_ip_address z = sr_ip_address r \<or> text_given (sr_mac_address r) \<and> map_option py_upper (sr_mac_address z) = sr_mac_address r"
      "same_verdict z r" "text_given (sr_mac_address z) \<and> text_given (sr_mac_address r) \<longrightarrow> sr_mac_address z = sr_mac_address r"
      using nm by (auto simp: compatible_rows_iff queue_candidates_iff compatible_iff normal_rows_def)
    moreover have "sr_ip_address z = sr_ip_address r" if "\<not> (text_given (sr_mac_address z) \<and> text_given (sr_mac_address r))"
      using z(5) that by (auto simp: text_given_def py_upper_def)
    ultimately show ?thesis using assms(2) by (auto simp: queued_def same_verdict_def)
  qed
  have y: "same_place y r" "same_verdict y r" using assms(7,8) C [of c] by (auto simp: place_defs)
  show "\<not> same_mac (fold absorb rest c) y"
  proof
    assume m: "same_mac (fold absorb rest c) y"
    then obtain z where z: "z \<in> set (c # rest)" "sr_mac_address z = sr_mac_address y" "text_given (sr_mac_address y)"
      using fold_absorb_mac [of rest c] unfolding same_mac_def by (metis imageE)
    show False
    proof (cases "text_given (sr_mac_address r)")
      case True
      then have mac: "sr_mac_address y = sr_mac_address r" using C [OF z(1)] z(2,3) by simp
      have normal: "normalize_mac (sr_mac_address y) = sr_mac_address y" using nm assms(4) by (simp add: normal_rows_def)
      then have "map_option py_upper (sr_mac_address y) = sr_mac_address r" using normal_mac_upper z(3) mac by simp
      then have "y \<in> set (compatible_rows r rows)"
        using assms(4,5) y mac z(3) normal by (simp add: compatible_rows_iff queue_candidates_iff compatible_iff queued_def)
      with assms(3,6) show False by simp
    next
      case False
      then have "z \<noteq> r" "y \<noteq> r" using z by auto
      moreover have "asks_again rows z y" using C [OF z(1)] y z by (auto simp: asks_again_def place_defs)
      ultimately have "z = y" using ok C [OF z(1)] assms(4,5) by blast
      with z(1) assms(6) show False by simp
    qed
  qed
  show "contested rows y" if ip: "sr_ip_address c = sr_ip_address y"
  proof (cases "sr_ip_address y = sr_ip_address r")
    case True
    then have "same_spot y r" using y by (simp add: same_spot_def)
    with kept_contested [OF nm r assms(4,5) _ y(2)] assms(3,6) contested_spot show ?thesis by auto
  next
    case False
    then have "c \<noteq> r" "y \<noteq> r" "c \<noteq> y" using ip assms(6) by auto
    then have "\<not> asks_again rows c y" using ok C [of c] assms(4,5) by auto
    then have "contested rows c" using C [of c] y ip by (auto simp: asks_again_def place_defs)
    with contested_spot [of c y rows] C [of c] y ip show ?thesis by (auto simp: place_defs)
  qed
qed

lemma fold_absorb_given: "text_given (sr_mac_address c) \<Longrightarrow> sr_mac_address (fold absorb xs c) = sr_mac_address c"
  by (induction xs arbitrary: c) (simp_all add: filled_def)

lemma merge_contested:
  assumes "contested rows x" "distinct (map sr_id rows)" "c \<in> set rows"
  shows "contested (merge_rows c rest rows) x"
proof (rule contested_mono [OF assms(1)])
  fix a assume a: "a \<in> set rows" "text_given (sr_mac_address a)"
  let ?b = "if sr_id a = sr_id c then fold absorb rest c else if sr_id a \<in> sr_id ` set rest then a\<lparr>sr_merge_status := ''duplicate''\<rparr> else a"
  have "sr_id a = sr_id c \<Longrightarrow> a = c" using a(1) assms(2,3) by (auto simp: distinct_map inj_on_def)
  then have "same_spot ?b a \<and> sr_mac_address ?b = sr_mac_address a" using a(2) fold_absorb_given [of c rest] by (auto simp: place_defs)
  moreover have "?b \<in> set (merge_rows c rest rows)" using a(1) unfolding merge_rows_def by (auto simp: image_iff)
  ultimately show "\<exists>b\<in>set (merge_rows c rest rows). same_spot b a \<and> sr_mac_address b = sr_mac_address a" by blast
qed

lemma contested_upd:
  assumes "contested rows x" "distinct (map sr_id rows)" "r \<in> set rows" "same_spot q r" "sr_mac_address q = sr_mac_address r"
  shows "contested (tbl_upd sr_id (sr_id r) (\<lambda>_. q) rows) x"
proof (rule contested_mono [OF assms(1)])
  fix a assume a: "a \<in> set rows"
  have "sr_id a = sr_id r \<Longrightarrow> a = r" using a assms(2,3) by (auto simp: distinct_map inj_on_def)
  then have "same_spot (if sr_id a = sr_id r then q else a) a" "sr_mac_address (if sr_id a = sr_id r then q else a) = sr_mac_address a"
    using assms(4,5) by (auto simp: place_defs)
  moreover have "(if sr_id a = sr_id r then q else a) \<in> set (tbl_upd sr_id (sr_id r) (\<lambda>_. q) rows)" using a by (simp add: tbl_upd_def)
  ultimately show "\<exists>b\<in>set (tbl_upd sr_id (sr_id r) (\<lambda>_. q) rows). same_spot b a \<and> sr_mac_address b = sr_mac_address a" by blast
qed

lemma asks_again_mono: "(\<And>z. contested rows z \<Longrightarrow> contested rows' z) \<Longrightarrow> asks_again rows' x y \<Longrightarrow> asks_again rows x y"
  by (auto simp: asks_again_def)

lemma queue_ok_deduplicate:
  assumes "queue_ok_but r rows"
  shows "queue_ok (deduplicate_pending_result r rows)"
proof (cases "queued r")
  case False
  with assms show ?thesis by (auto simp: deduplicate_pending_result_def queue_ok_def queue_ok_but_def queued_def)
next
  case True
  note ok = assms [unfolded queue_ok_but_def]
  have nm: "normal_rows rows" and r: "r \<in> set rows" using ok by simp_all
  have skip: "deduplicate_pending_result r rows = (case compatible_rows r rows of [] \<Rightarrow> rows | c # rest \<Rightarrow> merge_rows c rest rows)"
    using True by (simp add: deduplicate_pending_result_def queued_def)
  have alone: "z \<noteq> r" if "asks_again rows z w \<or> asks_again rows w z" "z \<notin> set (compatible_rows r rows)" for z w
  proof
    assume "z = r"
    with that have "asks_again rows r w" using asks_again_sym by blast
    with itself_kept [OF nm r True] that(2) \<open>z = r\<close> show False by (auto simp: asks_again_def same_mac_def)
  qed
  have old: "x = y" if "x \<in> set rows" "x \<notin> set (compatible_rows r rows)" "y \<in> set rows" "y \<notin> set (compatible_rows r rows)"
      "queued x" "queued y" "asks_again rows x y" for x y
    using ok that alone [of x y] alone [of y x] by blast
  show ?thesis
  proof (cases "compatible_rows r rows")
    case Nil
    with ok old show ?thesis by (simp add: skip queue_ok_def)
  next
    case (Cons c rest)
    let ?k = "fold absorb rest c" and ?rows = "merge_rows c rest rows"
    have c: "c \<in> set rows" using Cons compatible_rows_iff [of c r rows] queue_candidates_iff [of c r rows] by simp
    have rest: "set rest \<subseteq> set rows" using Cons compatible_rows_iff [of _ r rows] queue_candidates_iff [of _ r rows] by auto
    have row: "x = ?k \<or> (x \<in> set rows \<and> x \<notin> set (c # rest))" if "x \<in> set ?rows" "queued x" for x
      using that rest by (auto simp: merge_rows_def queued_def split: if_splits)
    have mono: "contested ?rows z" if "contested rows z" for z using merge_contested [OF that _ c] ok by blast
    have canon: "\<not> asks_again ?rows ?k y" if "y \<in> set rows" "y \<notin> set (c # rest)" "queued y" for y
      using canonical_asks_once [OF assms True Cons that(1,3,2)] mono [of y] contested_spot [of ?k y ?rows] by (auto simp: asks_again_def same_spot_def)
    have stay: "asks_again rows x y" if "asks_again ?rows x y" for x y using mono that by (rule asks_again_mono)
    have "x = y" if "x \<in> set ?rows" "y \<in> set ?rows" "queued x" "queued y" "asks_again ?rows x y" for x y
      using row [OF that(1,3)] row [OF that(2,4)] old [of x y] stay [OF that(5)] that(3-5) canon [of x] canon [of y] asks_again_sym [of ?rows x y] Cons
      by auto
    moreover have "normal_rows ?rows"
      using nm c rest fold_absorb_mac [of rest c] by (auto simp: normal_rows_def merge_rows_def)
    ultimately show ?thesis using ok by (simp add: skip Cons queue_ok_def)
  qed
qed

lemma queue_ok_enrich_row:
  assumes "queue_ok rows" "enrich_row env i (rows, hws) = (e, rows', hws')"
  shows "queue_ok rows'"
proof (cases "tbl_get sr_id i rows")
  case (Some r)
  obtain outcome q hws2 where q: "enrich_matched_result env r hws = (outcome, q, hws2)" by (metis prod.exhaust)
  have r: "r \<in> set rows" "sr_id r = i" using tbl_get_Some [OF Some] by simp_all
  have rows: "rows' = tbl_upd sr_id (sr_id r) (\<lambda>_. q) rows" using assms(2) Some q r(2) by (auto simp: enrich_row_def)
  have kept: "sr_mac_address q = sr_mac_address r" "sr_id q = sr_id r" "same_spot q r" "q = r \<or> \<not> queued q"
    using q by (auto simp: enrich_matched_result_def Let_def queued_def ENRICHED_MERGE_STATUS_def place_defs split: option.splits prod.splits)
  have row: "x \<in> set rows" if "x \<in> set rows'" "queued x" for x
    using that r(1) kept(4) unfolding rows by (auto elim!: in_tbl_updE split: if_splits)
  have "distinct (map sr_id rows')" using assms(1) ids_tbl_upd [OF kept(2)] unfolding rows by (simp add: queue_ok_def)
  moreover have "normal_rows rows'"
    using assms(1) r(1) kept(1,3) unfolding rows by (auto simp: queue_ok_def normal_rows_def same_spot_def elim!: in_tbl_updE)
  moreover have "contested rows z \<Longrightarrow> contested rows' z" for z using contested_upd [OF _ _ r(1) kept(3,1)] assms(1) unfolding rows queue_ok_def by blast
  then have "asks_again rows' x y \<Longrightarrow> asks_again rows x y" for x y by (rule asks_again_mono)
  ultimately show ?thesis using assms(1) row unfolding queue_ok_def by metis
qed (use assms in \<open>auto simp: enrich_row_def\<close>)

subsection \<open>The queue and the inventory over time\<close>

text \<open>
  The writers of the queue while \<open>discovery_auto_merge\<close> is off: an observation of a job, by the server or by an agent, which the
  unique index on job and finding makes idempotent, and the repair at startup. Jobs are given by their tenants. With the setting
  on, a scan by the server (never one by an agent) goes on to merge its pending rows into the inventory, which creates devices and
  renames known ones; that step and the decisions of operators are not events here.
\<close>

datatype review_event =
    Observed discovery_env int raw_observation "int option" "string option"
  | Backfilled discovery_env int

definition replayed :: "int \<Rightarrow> string option \<Rightarrow> scan_result list \<Rightarrow> bool" where
  "replayed job_id finding_id rows = (finding_id \<noteq> None \<and> list_ex (\<lambda>x. sr_scan_job_id x = job_id \<and> sr_finding_id x = finding_id) rows)"

fun review_step :: "(int \<Rightarrow> int option option) \<Rightarrow> review_event \<Rightarrow> int \<times> review \<Rightarrow> int \<times> review" where
  "review_step job_tenant (Observed env job_id raw agent_id finding_id) (next_id, rows, hws) =
     (case job_tenant job_id of
        None \<Rightarrow> (next_id, rows, hws)
      | Some tenant \<Rightarrow>
          if replayed job_id finding_id rows then (next_id, rows, hws)
          else (next_id + 1, queue_result env (fst (build_and_classify_result env hws next_id job_id tenant raw agent_id finding_id)) (rows, hws)))"
| "review_step job_tenant (Backfilled env batch_limit) (next_id, s) =
     (next_id, case backfill_pending_matched env job_tenant batch_limit s of None \<Rightarrow> s | Some (s', n) \<Rightarrow> s')"

definition review_ok :: "int \<times> review \<Rightarrow> bool" where
  "review_ok s = (case s of (next_id, rows, hws) \<Rightarrow> queue_ok rows \<and> (\<forall>x\<in>set rows. sr_id x < next_id) \<and> distinct (map hd_id hws))"

lemma built_row:
  "sr_id (fst (build_and_classify_result env hws i j t raw a f)) = i"
  "normalize_mac (sr_mac_address (fst (build_and_classify_result env hws i j t raw a f))) = sr_mac_address (fst (build_and_classify_result env hws i j t raw a f))"
  "normalize_ip (Some (sr_ip_address (fst (build_and_classify_result env hws i j t raw a f)))) = Some (sr_ip_address (fst (build_and_classify_result env hws i j t raw a f)))"
  "sr_discovery_agent_id (fst (build_and_classify_result env hws i j t raw a f)) = a"
  "sr_tenant_id (fst (build_and_classify_result env hws i j t raw a f)) = t"
  "sr_scan_job_id (fst (build_and_classify_result env hws i j t raw a f)) = j"
  "sr_finding_id (fst (build_and_classify_result env hws i j t raw a f)) = f"
  by (simp_all add: build_and_classify_result_def observed_row_def classify_result_def normal_ip Let_def split_beta split: option.split)

lemma ids_only_filled: "list_all2 (\<lambda>h h'. only_filled a h h' \<and> P h h') hws hws' \<Longrightarrow> map hd_id hws' = map hd_id hws"
  by (induction rule: list_all2_induct) (simp_all add: only_filled_def)

lemma enrich_row_only_fills:
  assumes "enrich_row env i (rows, hws) = (e, rows', hws')" "distinct (map hd_id hws)"
  shows "list_all2 (only_filled None) hws hws' \<and> map hd_id hws' = map hd_id hws \<and> (macs_unique hws \<longrightarrow> macs_unique hws')"
proof -
  note inv = enrich_row_inventory [OF assms]
  have "macs_unique hws'" if "macs_unique hws"
  proof (cases "tbl_get sr_id i rows")
    case (Some r)
    obtain outcome q hws2 where q: "enrich_matched_result env r hws = (outcome, q, hws2)" by (metis prod.exhaust)
    then show ?thesis using assms(1) enrich_macs_unique [OF q that] Some by (simp add: enrich_row_def)
  qed (use assms(1) that in \<open>simp add: enrich_row_def\<close>)
  with ids_only_filled [OF inv] inv show ?thesis by (auto elim!: list_all2_mono)
qed

text \<open>What folding one row into the queue, and enriching it, does to both tables.\<close>

lemma settle_row:
  assumes "queue_ok_but r rows" "distinct (map hd_id hws)"
    "enrich_row env (sr_id r) (deduplicate_pending_result r rows, hws) = (e, rows', hws')"
  shows "queue_ok rows' \<and> map sr_id rows' = map sr_id rows \<and> list_all2 (only_filled None) hws hws' \<and>
    map hd_id hws' = map hd_id hws \<and> (macs_unique hws \<longrightarrow> macs_unique hws')"
  using queue_ok_enrich_row [OF queue_ok_deduplicate [OF assms(1)] assms(3)] enrich_row_only_fills [OF assms(3,2)]
    ids_enrich_row [of env "sr_id r" "(deduplicate_pending_result r rows, hws)"] assms(3) by simp

definition evolved :: "int \<times> review \<Rightarrow> int \<times> review \<Rightarrow> bool" where
  "evolved s s' = (review_ok s' \<and> list_all2 (only_filled None) (snd (snd s)) (snd (snd s')) \<and>
     (macs_unique (snd (snd s)) \<longrightarrow> macs_unique (snd (snd s'))))"

lemma evolved_refl: "review_ok s \<Longrightarrow> evolved s s"
  by (simp add: evolved_def list_all2_same)

lemma evolved_trans: "evolved s s' \<Longrightarrow> evolved s' s'' \<Longrightarrow> evolved s s''"
  unfolding evolved_def using list_all2_trans [of "only_filled None" "only_filled None" "only_filled None"] only_filled_trans by blast

lemma evolved_observed:
  assumes "review_ok (n, rows, hws)"
  shows "evolved (n, rows, hws) (review_step job_tenant (Observed env j raw a f) (n, rows, hws))"
proof (cases "job_tenant j = None \<or> replayed j f rows")
  case True
  with assms show ?thesis using evolved_refl by (auto split: option.split)
next
  case False
  then obtain t where t: "job_tenant j = Some t" "\<not> replayed j f rows" by auto
  define r where "r = fst (build_and_classify_result env hws n j t raw a f)"
  have r: "sr_id r = n" "normalize_mac (sr_mac_address r) = sr_mac_address r" "normalize_ip (Some (sr_ip_address r)) = Some (sr_ip_address r)"
    unfolding r_def by (simp_all only: built_row)
  have "asks_again rows x y" if "asks_again (rows @ [r]) x y" for x y using that by (auto simp: asks_again_def contested_def)
  then have "queue_ok_but r (rows @ [r])"
    using assms r unfolding review_ok_def queue_ok_but_def queue_ok_def normal_rows_def by force
  moreover obtain e rows' hws' where e: "enrich_row env n (deduplicate_pending_result r (rows @ [r]), hws) = (e, rows', hws')" by (metis prod.exhaust)
  ultimately have s: "queue_ok rows'" "map sr_id rows' = map sr_id (rows @ [r])" "list_all2 (only_filled None) hws hws'"
    "map hd_id hws' = map hd_id hws" "macs_unique hws \<longrightarrow> macs_unique hws'"
    using settle_row [of r "rows @ [r]" hws env e rows' hws'] assms r(1) by (simp_all add: review_ok_def)
  have "sr_id ` set rows' = insert n (sr_id ` set rows)" using arg_cong [OF s(2), of set] r(1) by simp
  then have "\<forall>x\<in>set rows'. sr_id x < n + 1" using assms by (force simp: review_ok_def)
  moreover have "review_step job_tenant (Observed env j raw a f) (n, rows, hws) = (n + 1, rows', hws')"
    using t e r(1) by (simp add: queue_result_def flip: r_def)
  ultimately show ?thesis using s assms by (simp add: evolved_def review_ok_def)
qed

lemma reexamined_normal:
  assumes "normalize_mac (sr_mac_address r) = sr_mac_address r" "normalize_ip (Some (sr_ip_address r)) = Some (sr_ip_address r)"
  shows "same_spot (reexamined hws t r) r \<and> sr_mac_address (reexamined hws t r) = sr_mac_address r"
proof -
  have "the (or_text (normalize_ip (Some (sr_ip_address r))) (Some (sr_ip_address r))) = sr_ip_address r" using assms(2) by (simp add: or_text_def)
  then show ?thesis using assms by (simp add: reexamined_def classify_result_def place_defs Let_def split: option.split)
qed

lemma evolved_backfill_row:
  assumes "review_ok (n, fst acc)"
  shows "evolved (n, fst acc) (n, fst (backfill_row env job_tenant i acc))"
proof -
  obtain rows hws k where acc: "acc = ((rows, hws), k)" by (metis prod.collapse)
  show ?thesis
  proof (cases "\<exists>r. tbl_get sr_id i rows = Some r \<and> sr_merge_status r = ''pending'' \<and> sr_source_type r \<notin> set SKIPPED_SOURCE_TYPES")
    case False
    then have "backfill_row env job_tenant i acc = acc" by (auto simp: acc backfill_row_def split: option.split)
    with evolved_refl [OF assms] show ?thesis by simp
  next
    case True
    then obtain r where r: "tbl_get sr_id i rows = Some r" "sr_merge_status r = ''pending''" "sr_source_type r \<notin> set SKIPPED_SOURCE_TYPES" by blast
    define q where "q = reexamined hws job_tenant r"
    define rows1 where "rows1 = tbl_upd sr_id i (\<lambda>_. q) rows"
    have ok: "queue_ok rows" and mem: "r \<in> set rows" "sr_id r = i" using assms tbl_get_Some [OF r(1)] by (simp_all add: acc review_ok_def)
    then have norm: "normalize_mac (sr_mac_address r) = sr_mac_address r" "normalize_ip (Some (sr_ip_address r)) = Some (sr_ip_address r)"
      by (simp_all add: queue_ok_def normal_rows_def)
    have q: "sr_id q = i" "same_spot q r" "sr_mac_address q = sr_mac_address r" unfolding q_def using reexamined_normal [OF norm] mem by simp_all
    have ids: "map sr_id rows1 = map sr_id rows" unfolding rows1_def using q(1) by (rule ids_tbl_upd)
    have old: "x = q \<or> (x \<in> set rows \<and> sr_id x \<noteq> i)" if "x \<in> set rows1" for x using that unfolding rows1_def by (auto simp: tbl_upd_def)
    have "q \<in> set rows1" unfolding rows1_def using tbl_get_Some [OF r(1)] by (auto simp: tbl_upd_def image_iff)
    moreover have "contested rows z \<Longrightarrow> contested rows1 z" for z
      using contested_upd [OF _ _ mem(1) q(2,3)] ok unfolding rows1_def mem(2) [symmetric] queue_ok_def by blast
    then have "asks_again rows1 x y \<Longrightarrow> asks_again rows x y" for x y by (rule asks_again_mono)
    moreover have "normal_rows rows1" using norm q(2,3) ok by (auto simp: queue_ok_def normal_rows_def same_spot_def dest!: old)
    ultimately have but: "queue_ok_but q rows1" using ok ids old unfolding queue_ok_but_def queue_ok_def by metis
    obtain e rows' hws' where e: "enrich_row env i (deduplicate_pending_result q rows1, hws) = (e, rows', hws')" by (metis prod.exhaust)
    have s: "queue_ok rows'" "map sr_id rows' = map sr_id rows" "list_all2 (only_filled None) hws hws'"
      "map hd_id hws' = map hd_id hws" "macs_unique hws \<longrightarrow> macs_unique hws'"
      using settle_row [OF but, of hws env e rows' hws'] e q(1) ids assms by (simp_all add: acc review_ok_def)
    have "sr_id x < n" if "x \<in> set rows'" for x
    proof -
      have "sr_id x \<in> set (map sr_id rows)" unfolding s(2) [symmetric] using that by simp
      then show ?thesis using assms by (auto simp: acc review_ok_def)
    qed
    moreover have "fst (backfill_row env job_tenant i acc) = (rows', hws')"
      using r e by (simp add: acc backfill_row_def Let_def flip: q_def rows1_def)
    ultimately show ?thesis using s assms by (simp add: acc evolved_def review_ok_def)
  qed
qed

lemma evolved_backfill_rows:
  "review_ok (n, fst acc) \<Longrightarrow> evolved (n, fst acc) (n, fst (fold (backfill_row env job_tenant) ids acc))"
proof (induction ids arbitrary: acc)
  case (Cons i ids)
  note step = evolved_backfill_row [OF Cons.prems, of env job_tenant i]
  then have "review_ok (n, fst (backfill_row env job_tenant i acc))" by (simp add: evolved_def)
  from Cons.IH [OF this] step show ?case using evolved_trans by fastforce
qed (simp add: evolved_refl)

lemma evolved_backfill: "review_ok (n, fst acc) \<Longrightarrow> evolved (n, fst acc) (n, fst (backfill env job_tenant limit last_id acc))"
proof (induction env job_tenant limit last_id acc rule: backfill.induct)
  case (1 env job_tenant limit last_id acc)
  let ?ids = "backfill_batch limit last_id (fst (fst acc))"
  show ?case
  proof (cases "?ids = []")
    case False
    note step = evolved_backfill_rows [OF 1(2), of env job_tenant ?ids]
    then have "review_ok (n, fst (fold (backfill_row env job_tenant) ?ids acc))" by (simp add: evolved_def)
    from 1(1) [OF refl False this] step False show ?thesis by (subst backfill.simps) (simp add: Let_def evolved_trans)
  qed (use evolved_refl [OF 1(2)] in \<open>simp add: backfill.simps\<close>)
qed

lemma evolved_step:
  assumes "review_ok s"
  shows "evolved s (review_step job_tenant e s)"
proof -
  obtain n rows hws where s: "s = (n, rows, hws)" by (metis prod.exhaust)
  show ?thesis
  proof (cases e)
    case (Observed env j raw a f)
    with evolved_observed assms show ?thesis by (simp only: s)
  next
    case (Backfilled env limit)
    with evolved_backfill [of n "((rows, hws), 0)" env job_tenant "nat limit" 0] assms evolved_refl [OF assms] show ?thesis
      by (simp add: s backfill_pending_matched_def split_beta)
  qed
qed

interpretation reviewing: invariant_machine "review_step job_tenant" review_ok
  using evolved_step by unfold_locales (simp add: evolved_def)

lemma evolved_run: "review_ok s \<Longrightarrow> evolved s (fold (review_step job_tenant) es s)"
proof (induction es arbitrary: s)
  case (Cons e es)
  note step = evolved_step [OF Cons.prems, of job_tenant e]
  from evolved_trans [OF step Cons.IH] reviewing.step_inv [OF Cons.prems] show ?case by simp
qed (simp add: evolved_refl)

subsection \<open>Batches of the repair\<close>

definition pends :: "scan_result list \<Rightarrow> int \<Rightarrow> bool" where
  "pends rows i = (\<exists>x\<in>set rows. sr_id x = i \<and> sr_merge_status x = ''pending'')"

lemma pends_deduplicate: "pends (deduplicate_pending_result r rows) i \<Longrightarrow> pends rows i"
proof (cases "compatible_rows r rows")
  case (Cons c rest)
  have "c \<in> set rows \<and> sr_merge_status c = ''pending''"
    using compatible_rows_iff [of c r rows] queue_candidates_iff [of c r rows] by (simp add: Cons)
  moreover assume "pends (deduplicate_pending_result r rows) i"
  ultimately show "pends rows i"
    by (auto simp: deduplicate_pending_result_def Cons merge_rows_def pends_def split: if_splits)
qed (simp add: deduplicate_pending_result_def split: if_splits)

lemma pends_enrich_row: "pends (fst (snd (enrich_row env j s))) i \<Longrightarrow> pends (fst s) i"
  by (auto simp: enrich_row_def enrich_matched_result_def pends_def ENRICHED_MERGE_STATUS_def tbl_upd_def Let_def split: prod.splits option.splits if_splits
      dest: tbl_get_Some)

lemma backfill_row_only_pending: "\<not> pends (fst (fst acc)) i \<Longrightarrow> backfill_row env job_tenant i acc = acc"
  by (auto simp: backfill_row_def pends_def split: prod.split option.split dest!: tbl_get_Some)

lemma pends_backfill_row: "pends (fst (fst (backfill_row env job_tenant j acc))) i \<Longrightarrow> pends (fst (fst acc)) i"
proof -
  assume p: "pends (fst (fst (backfill_row env job_tenant j acc))) i"
  obtain rows hws k where acc: "acc = ((rows, hws), k)" by (metis prod.collapse)
  show ?thesis
  proof (cases "pends rows j")
    case False
    then show ?thesis using p backfill_row_only_pending [of acc j] by (simp add: acc)
  next
    case True
    show ?thesis
    proof (cases "tbl_get sr_id j rows")
      case (Some r)
      let ?q = "reexamined hws job_tenant r"
      have "pends rows i" if "pends (deduplicate_pending_result ?q (tbl_upd sr_id j (\<lambda>_. ?q) rows)) i" "sr_merge_status r = ''pending''"
        using pends_deduplicate [OF that(1)] tbl_get_Some [OF Some] that(2) by (auto simp: pends_def tbl_upd_def split: if_splits)
      with p show ?thesis by (auto simp: acc backfill_row_def Some Let_def split_beta split: if_splits dest!: pends_enrich_row)
    qed (use p in \<open>simp add: acc backfill_row_def\<close>)
  qed
qed

lemma fold_backfill_pending:
  assumes "\<And>i. pends (fst (fst acc)) i \<Longrightarrow> P i"
  shows "fold (backfill_row env job_tenant) (filter P ids) acc = fold (backfill_row env job_tenant) ids acc"
  using assms
proof (induction ids arbitrary: acc)
  case (Cons i ids)
  have "fold (backfill_row env job_tenant) (filter P ids) (backfill_row env job_tenant i acc) =
      fold (backfill_row env job_tenant) ids (backfill_row env job_tenant i acc)"
    using pends_backfill_row Cons.prems by (intro Cons.IH) blast
  moreover have "backfill_row env job_tenant i acc = acc" if "\<not> P i" using backfill_row_only_pending Cons.prems that by blast
  ultimately show ?case by auto
qed simp

definition pending_ids :: "int \<Rightarrow> scan_result list \<Rightarrow> int list" where
  "pending_ids last_id rows = sort (map sr_id (filter (\<lambda>r. last_id < sr_id r \<and> sr_merge_status r = ''pending'') rows))"

lemma pending_ids:
  assumes "distinct (map sr_id rows)"
  shows "set (pending_ids l rows) = {i. l < i \<and> pends rows i}" "sorted (pending_ids l rows)" "distinct (pending_ids l rows)"
  using assms by (auto simp: pending_ids_def pends_def distinct_map inj_on_def)

lemma sorted_take_last_drop:
  assumes "sorted xs" "distinct xs" "take n xs \<noteq> []"
  shows "set (drop n xs) = {x \<in> set xs. last (take n xs) < (x :: int)}"
proof -
  have xs: "xs = take n xs @ drop n xs" by simp
  have so: "sorted (take n xs @ drop n xs)" and di: "distinct (take n xs @ drop n xs)" using assms by simp_all
  then have "x \<le> last (take n xs)" if "x \<in> set (take n xs)" for x using that sorted_key_last_max [of "take n xs" "\<lambda>x. x"] assms(3) by (simp add: sorted_append)
  moreover have "last (take n xs) < x" if "x \<in> set (drop n xs)" for x
    using that so di last_in_set [OF assms(3)] unfolding sorted_append distinct_append by (metis Int_iff empty_iff order_le_less)
  ultimately show ?thesis by (subst xs, unfold set_append) (force dest: leD)
qed

lemma backfill_one_pass:
  assumes "0 < limit" "distinct (map sr_id (fst (fst acc)))"
  shows "backfill env job_tenant limit last_id acc = fold (backfill_row env job_tenant) (pending_ids last_id (fst (fst acc))) acc"
  using assms
proof (induction env job_tenant limit last_id acc rule: backfill.induct)
  case (1 env job_tenant limit last_id acc)
  let ?rows = "fst (fst acc)"
  let ?ids = "pending_ids last_id ?rows"
  let ?acc = "fold (backfill_row env job_tenant) (take limit ?ids) acc"
  have batch: "backfill_batch limit last_id ?rows = take limit ?ids" by (simp add: backfill_batch_def pending_ids_def)
  show ?case
  proof (cases "?ids = []")
    case True
    then show ?thesis by (simp add: backfill.simps batch)
  next
    case False
    then have ne: "take limit ?ids \<noteq> []" using 1(2) by simp
    have d: "distinct (map sr_id (fst (fst ?acc)))" using 1(3) by (simp only: ids_backfill_rows)
    note ids = pending_ids [OF 1(3), of last_id]
    have shrink: "pends ?rows i" if "pends (fst (fst ?acc)) i" for i
      using that by (rule rev_mp) (rule fold_invariant [where Q = "\<lambda>_. True" and P = "\<lambda>a. pends (fst (fst a)) i \<longrightarrow> pends ?rows i"], auto dest: pends_backfill_row)
    have "filter (pends (fst (fst ?acc))) (drop limit ?ids) = pending_ids (last (take limit ?ids)) (fst (fst ?acc))"
    proof (rule sorted_distinct_set_unique)
      have "last_id < last (take limit ?ids)" using in_set_takeD [OF last_in_set [OF ne]] ids(1) by auto
      then show "set (filter (pends (fst (fst ?acc))) (drop limit ?ids)) = set (pending_ids (last (take limit ?ids)) (fst (fst ?acc)))"
        using sorted_take_last_drop [OF ids(2,3) ne] ids(1) shrink pending_ids(1) [OF d] by auto
    qed (use ids pending_ids [OF d] in \<open>auto simp: sorted_wrt_drop intro: sorted_wrt_filter\<close>)
    then have "fold (backfill_row env job_tenant) (drop limit ?ids) ?acc =
        fold (backfill_row env job_tenant) (pending_ids (last (take limit ?ids)) (fst (fst ?acc))) ?acc"
      using fold_backfill_pending [of ?acc "pends (fst (fst ?acc))" env job_tenant "drop limit ?ids"] by simp
    also have "\<dots> = backfill env job_tenant limit (last (take limit ?ids)) ?acc"
      using 1(1) [OF refl _ 1(2), unfolded batch, OF ne d] by simp
    finally have "backfill env job_tenant limit (last (take limit ?ids)) ?acc = fold (backfill_row env job_tenant) (take limit ?ids @ drop limit ?ids) acc"
      by (simp only: fold_append o_apply)
    with ne show ?thesis by (subst backfill.simps) (simp add: batch Let_def)
  qed
qed

subsection \<open>What agents may change\<close>

text \<open>An observation by an agent for a job of one tenant.\<close>

fun remote_event :: "(int \<Rightarrow> int option option) \<Rightarrow> int option \<Rightarrow> review_event \<Rightarrow> bool" where
  "remote_event job_tenant t (Observed env j raw a f) = (a \<noteq> None \<and> job_tenant j \<in> {None, Some t})"
| "remote_event job_tenant t (Backfilled env l) = False"

definition within_tenant :: "int option \<Rightarrow> hardware \<Rightarrow> hardware \<Rightarrow> bool" where
  "within_tenant t h h' = (hd_tenant_id h' = hd_tenant_id h \<and> hd_column h' Hostname = hd_column h Hostname \<and> (hd_tenant_id h \<noteq> t \<longrightarrow> h' = h))"

lemma merged_row:
  assumes "x \<in> set (deduplicate_pending_result r rows)"
  shows "\<exists>y\<in>set rows. sr_id x = sr_id y \<and> sr_tenant_id x = sr_tenant_id y \<and> sr_discovery_agent_id x = sr_discovery_agent_id y"
proof (cases "compatible_rows r rows")
  case (Cons c rest)
  then have "c \<in> set rows" using compatible_rows_iff [of c r rows] queue_candidates_iff [of c r rows] by simp
  moreover have "x \<in> set rows \<or> x \<in> set (merge_rows c rest rows)" using assms Cons by (auto simp: deduplicate_pending_result_def split: if_splits)
  ultimately show ?thesis unfolding merge_rows_def by (auto intro: bexI [rotated])
qed (use assms in \<open>auto simp: deduplicate_pending_result_def split: if_splits\<close>)

lemma remote_step:
  assumes "review_ok (n, rows, hws)" "remote_event job_tenant t e"
  shows "list_all2 (within_tenant t) hws (snd (snd (review_step job_tenant e (n, rows, hws))))"
proof -
  obtain env j raw a f where e: "e = Observed env j raw a f" "a \<noteq> None" "job_tenant j \<in> {None, Some t}" using assms(2) by (cases e) auto
  have refl: "list_all2 (within_tenant t) hws hws" by (simp add: list_all2_same within_tenant_def)
  show ?thesis
  proof (cases "job_tenant j = None \<or> replayed j f rows")
    case False
    define r where "r = fst (build_and_classify_result env hws n j t raw a f)"
    have r: "sr_id r = n" "sr_tenant_id r = t" "sr_discovery_agent_id r = a" unfolding r_def by (simp_all only: built_row)
    let ?rows = "deduplicate_pending_result r (rows @ [r])"
    have step: "snd (snd (review_step job_tenant e (n, rows, hws))) = snd (snd (enrich_row env n (?rows, hws)))"
      unfolding e(1) using False e(3) by (auto simp: queue_result_def r(1) simp flip: r_def)
    show ?thesis unfolding step
    proof (cases "tbl_get sr_id n ?rows")
      case (Some q)
      have "sr_id q = n" "q \<in> set ?rows" using tbl_get_Some [OF Some] by simp_all
      then have q: "sr_tenant_id q = t" "sr_discovery_agent_id q = a"
        using merged_row [of q r "rows @ [r]"] assms(1) r by (auto simp: review_ok_def)
      obtain outcome q' hws' where en: "enrich_matched_result env q hws = (outcome, q', hws')" by (metis prod.exhaust)
      then have "snd (snd (enrich_row env n (?rows, hws))) = hws'" using Some by (simp add: enrich_row_def)
      with enrich_inventory [OF en] assms(1) q e(2) show "list_all2 (within_tenant t) hws (snd (snd (enrich_row env n (?rows, hws))))"
        by (auto simp: review_ok_def within_tenant_def only_filled_def touched_def elim!: list_all2_mono)
    qed (simp add: enrich_row_def refl)
  qed (use e refl in \<open>auto split: option.split\<close>)
qed

lemma remote_run:
  assumes "review_ok s" "\<forall>e\<in>set es. remote_event job_tenant t e"
  shows "list_all2 (within_tenant t) (snd (snd s)) (snd (snd (fold (review_step job_tenant) es s)))"
  using assms
proof (induction es arbitrary: s)
  case (Cons e es)
  obtain n rows hws where s: "s = (n, rows, hws)" by (metis prod.exhaust)
  have "list_all2 (within_tenant t) (snd (snd s)) (snd (snd (review_step job_tenant e s)))" using remote_step Cons.prems by (simp add: s)
  moreover have "list_all2 (within_tenant t) (snd (snd (review_step job_tenant e s))) (snd (snd (fold (review_step job_tenant) (e # es) s)))"
    using Cons.IH [OF reviewing.step_inv] Cons.prems by simp
  ultimately show ?case
    using list_all2_trans [of "within_tenant t" "within_tenant t" "within_tenant t"] unfolding within_tenant_def by (smt (verit, best))
qed (simp add: list_all2_same within_tenant_def)

subsection \<open>Properties\<close>



text \<open>
  C31. \<^bold>\<open>The repair does not depend on its batches.\<close> For every positive batch size the repair of the queue ends, and its result is
  that of one pass over the rows that were pending, in the order of their ids.
\<close>

theorem repair_batch_free:
  assumes "distinct (map sr_id rows)" "0 < batch_limit"
  shows "backfill_pending_matched env job_tenant batch_limit (rows, hws) =
    Some (fold (backfill_row env job_tenant) (pending_ids 0 rows) ((rows, hws), 0))"
  using backfill_one_pass [of "nat batch_limit" "((rows, hws), 0)" env job_tenant 0] assms by (simp add: backfill_pending_matched_def)

subsection \<open>Witnesses\<close>

definition quiet_discovery :: discovery_env where
  "quiet_discovery = \<lparr>dx_match_ip_to_network = (\<lambda>_. (None, None)), dx_annotate = (\<lambda>_. (None, None)), dx_json_dumps = (\<lambda>_. []), dx_now_iso = ''now''\<rparr>"

definition seen :: "string \<Rightarrow> string \<Rightarrow> raw_observation" where
  "seen ip mac = \<lparr>ro_ip = Some ip, ro_mac_address = Some mac, ro_hostname = None, ro_sys_name = None, ro_sys_descr = None,
     ro_source = Some (Some ''agent''), ro_source_type = Some (Some ''agent''), ro_network_id = None, ro_vlan_id = None, ro_open_ports = None,
     ro_os_family = None, ro_os_vendor = None, ro_os_accuracy = None, ro_device_type = None, ro_device_confidence = None,
     ro_banner = None, ro_raw_nmap_xml = None, ro_lldp_neighbors = None, ro_os_vendor_override = None, ro_os_family_override = None,
     ro_hostname_override = None\<rparr>"

definition known_device :: hardware where
  "known_device = \<lparr>hd_id = 1, hd_name = ''nas'', hd_tenant_id = Some 1, hd_column = (\<lambda>_. None)(Ip_address := Some ''10.0.0.9''),
     hd_source_scan_result_id = None, hd_last_seen = None, hd_status = None\<rparr>"

definition sightings :: "review_event list" where
  "sightings = [Observed quiet_discovery 7 (seen ''10.0.0.9'' ''aa-bb-cc-dd-ee-01'') (Some 3) (Some ''f1''),
     Observed quiet_discovery 7 (seen ''10.0.0.5'' ''aabb.ccdd.ee02'') (Some 3) (Some ''f2''),
     Observed quiet_discovery 7 (seen ''10.0.0.6'' ''AA:BB:CC:DD:EE:02'') (Some 3) (Some ''f3'')]"



definition stale_row :: "int \<Rightarrow> scan_result" where
  "stale_row i = fst (build_and_classify_result quiet_discovery [] i 7 (Some 1) (seen ''10.0.0.9'' ''aa-bb-cc-dd-ee-01'') (Some 3) None)"

theorem repair_batch_free_witness:
  "backfill_pending_matched quiet_discovery (\<lambda>_. Some (Some 1)) 1 ([stale_row 1, stale_row 2], [known_device]) =
     backfill_pending_matched quiet_discovery (\<lambda>_. Some (Some 1)) 1000 ([stale_row 1, stale_row 2], [known_device]) \<and>
   map_option snd (backfill_pending_matched quiet_discovery (\<lambda>_. Some (Some 1)) 1000 ([stale_row 1, stale_row 2], [known_device])) = Some 2"
proof
  have d: "distinct (map sr_id [stale_row 1, stale_row 2])" by (simp add: stale_row_def built_row)
  show "backfill_pending_matched quiet_discovery (\<lambda>_. Some (Some 1)) 1 ([stale_row 1, stale_row 2], [known_device]) =
     backfill_pending_matched quiet_discovery (\<lambda>_. Some (Some 1)) 1000 ([stale_row 1, stale_row 2], [known_device])"
    using repair_batch_free [OF d, of 1] repair_batch_free [OF d, of 1000] by simp
qed code_simp

end
