(* ===== verification/Network_Acl.thy ===== *)
theory Network_Acl
  imports Agent_Scope
begin

text \<open>
  \<open>core/network_acl.py\<close>: what the server's own scanners may touch. Decoding of JSON texts is a parameter (None for a text
  that does not decode). A target passes exactly when it is private and inside the configured networks.
\<close>

subsection \<open>Definitions\<close>

definition ACL_RFC1918_NETWORKS :: "ip_net list" where
  "ACL_RFC1918_NETWORKS = networks_of [''10.0.0.0/8'', ''172.16.0.0/12'', ''192.168.0.0/16'']"

definition is_rfc1918 :: "string \<Rightarrow> bool" where
  "is_rfc1918 cidr =
     (case ip_network cidr False of
        Inl _ \<Rightarrow> False
      | Inr n \<Rightarrow>
          in_version n = IPv4 \<and>
          list_ex (\<lambda>rfc. net_contains rfc (network_address n) \<and> net_contains rfc (broadcast_address n)) ACL_RFC1918_NETWORKS)"

text \<open>\<open>ip_network\<close> on a decoded JSON value: a text, or a number as a single address of the first family it fits.\<close>

definition number_network :: "int \<Rightarrow> ip_net option" where
  "number_network n =
     (if 0 \<le> n \<and> n < 2 ^ 32 then Some (plain_net IPv4 n 32)
      else if 0 \<le> n \<and> n < 2 ^ 128 then Some (plain_net IPv6 n 128) else None)"

definition entry_network :: "json \<Rightarrow> ip_net option" where
  "entry_network v =
     (case v of
        JStr s \<Rightarrow> network_opt s False
      | JInt n \<Rightarrow> number_network n
      | JBool b \<Rightarrow> number_network (if b then 1 else 0)
      | _ \<Rightarrow> None)"

definition is_cidr_allowed :: "string \<Rightarrow> json list \<Rightarrow> bool" where
  "is_cidr_allowed cidr allowed =
     (case ip_network cidr False of
        Inl _ \<Rightarrow> False
      | Inr target \<Rightarrow>
          list_ex (\<lambda>v. case entry_network v of None \<Rightarrow> False | Some parent \<Rightarrow> in_version target = in_version parent \<and> subnet_of target parent) allowed)"

definition parse_allowed_networks :: "(string \<Rightarrow> json option) \<Rightarrow> string option \<Rightarrow> json list" where
  "parse_allowed_networks decode raw =
     (case raw of
        None \<Rightarrow> []
      | Some t \<Rightarrow> if t = [] then [] else (case decode t of Some (JList vs) \<Rightarrow> vs | _ \<Rightarrow> []))"

datatype scan_refusal = Airgap | Not_allowed | Not_private

definition validate_scan_target :: "(string \<Rightarrow> json option) \<Rightarrow> string \<Rightarrow> bool \<Rightarrow> bool \<Rightarrow> string option \<Rightarrow> scan_refusal option" where
  "validate_scan_target decode cidr airgap_env airgap_db allowed_json =
     (if cidr = ''docker'' then None
      else if airgap_env \<or> airgap_db then Some Airgap
      else let allowed = parse_allowed_networks decode allowed_json in
        if allowed \<noteq> [] \<and> \<not> is_cidr_allowed cidr allowed then Some Not_allowed
        else if \<not> is_rfc1918 cidr then Some Not_private else None)"

subsection \<open>Targets that pass\<close>

lemma acl_ranges:
  "ACL_RFC1918_NETWORKS = [plain_net IPv4 (10 * 2 ^ 24) 8, plain_net IPv4 (172 * 2 ^ 24 + 16 * 2 ^ 16) 12, plain_net IPv4 (192 * 2 ^ 24 + 168 * 2 ^ 16) 16]"
  by code_simp

lemma acl_wf: "n \<in> set ACL_RFC1918_NETWORKS \<Longrightarrow> wf_network n \<and> in_version n = IPv4"
  unfolding acl_ranges by (auto simp: plain_net_def wf_network_def wf_address_def network_address_def net_size_def host_bits_def)

lemma number_network_wf: "number_network n = Some m \<Longrightarrow> wf_network m"
  by (auto simp: number_network_def plain_net_def wf_network_def wf_address_def network_address_def net_size_def host_bits_def split: if_splits)

lemma entry_network_wf: "entry_network v = Some n \<Longrightarrow> wf_network n"
  by (cases v) (auto simp: entry_network_def network_opt_Some intro: ip_network_wf number_network_wf)

lemma block_subset_iff: "block m \<subseteq> block n \<longleftrightarrow> in_int n \<le> in_int m \<and> in_int m + net_size m \<le> in_int n + net_size n"
  using net_size_pos [of m] net_size_pos [of n] by (auto simp: block_def)

lemma subnet_of_block:
  assumes "wf_network m" "wf_network n" "in_version m = IPv4" "in_version n = IPv4"
  shows "subnet_of m n \<longleftrightarrow> block m \<subseteq> block n"
proof -
  have "in_zone m = None" "in_zone n = None" using assms by (cases "in_zone m"; cases "in_zone n"; simp add: wf_network_def wf_address_def)+
  then have "network_address n = network_address m \<longleftrightarrow> in_int n = in_int m"
    "broadcast_address m = broadcast_address n \<longleftrightarrow> in_int m + net_size m = in_int n + net_size n"
    using assms broadcast_int [OF assms(1)] broadcast_int [OF assms(2)] by (auto simp: network_address_def broadcast_address_def)
  then show ?thesis
    using broadcast_int [OF assms(1)] broadcast_int [OF assms(2)]
    by (auto simp: subnet_of_def address_le_def block_subset_iff)
qed

lemma rfc1918_iff:
  assumes "ip_network cidr False = Inr n"
  shows "is_rfc1918 cidr \<longleftrightarrow> in_version n = IPv4 \<and> (\<exists>m\<in>set ACL_RFC1918_NETWORKS. block n \<subseteq> block m)"
proof -
  have n: "wf_network n" by (rule ip_network_wf [OF assms])
  have "net_contains m (network_address n) \<and> net_contains m (broadcast_address n) \<longleftrightarrow> block n \<subseteq> block m"
    if "m \<in> set ACL_RFC1918_NETWORKS" "in_version n = IPv4" for m
  proof -
    have m: "wf_network m" "in_version m = IPv4" using acl_wf [OF that(1)] by simp_all
    show ?thesis using n m that(2) net_size_pos [of n] by (auto simp: net_contains_iff broadcast_int block_subset_iff)
  qed
  then show ?thesis using assms by (auto simp: is_rfc1918_def list_ex_iff)
qed

text \<open>The reference: what the server may scan.\<close>

definition may_scan :: "(string \<Rightarrow> json option) \<Rightarrow> string \<Rightarrow> bool \<Rightarrow> bool \<Rightarrow> string option \<Rightarrow> bool" where
  "may_scan decode cidr airgap_env airgap_db raw =
    (cidr = ''docker'' \<or>
     \<not> airgap_env \<and> \<not> airgap_db \<and>
     (\<exists>n. ip_network cidr False = Inr n \<and> in_version n = IPv4 \<and> (\<exists>m\<in>set ACL_RFC1918_NETWORKS. block n \<subseteq> block m) \<and>
       (parse_allowed_networks decode raw = [] \<or>
        (\<exists>v\<in>set (parse_allowed_networks decode raw). \<exists>p. entry_network v = Some p \<and> in_version p = IPv4 \<and> block n \<subseteq> block p))))"

lemma scan_target_decides:
  "validate_scan_target decode cidr airgap_env airgap_db raw = None \<longleftrightarrow> may_scan decode cidr airgap_env airgap_db raw"
proof (cases "ip_network cidr False")
  case (Inl e)
  then show ?thesis by (simp add: validate_scan_target_def is_rfc1918_def may_scan_def Let_def)
next
  case (Inr n)
  have "is_cidr_allowed cidr vs \<longleftrightarrow> (\<exists>v\<in>set vs. \<exists>p. entry_network v = Some p \<and> in_version p = IPv4 \<and> block n \<subseteq> block p)"
    if "in_version n = IPv4" for vs
    using that subnet_of_block [OF ip_network_wf [OF Inr] entry_network_wf]
    by (fastforce simp: is_cidr_allowed_def Inr list_ex_iff split: option.splits)
  then show ?thesis using rfc1918_iff [OF Inr] Inr by (auto simp: validate_scan_target_def may_scan_def Let_def)
qed

text \<open>
  C32. \<^bold>\<open>Only private targets inside the configured networks are scanned.\<close> Apart from the word docker, a scan target passes exactly
  when the air gap is off, the target is an IPv4 network, it lies inside one of the three private ranges, and it lies
  inside one of the configured networks whenever the configuration names any.
\<close>

theorem scan_target_exact:
  "validate_scan_target decode cidr airgap_env airgap_db raw = None \<longleftrightarrow>
     cidr = ''docker'' \<or>
     \<not> airgap_env \<and> \<not> airgap_db \<and>
     (\<exists>n. ip_network cidr False = Inr n \<and> in_version n = IPv4 \<and> (\<exists>m\<in>set ACL_RFC1918_NETWORKS. block n \<subseteq> block m) \<and>
       (parse_allowed_networks decode raw = [] \<or>
        (\<exists>v\<in>set (parse_allowed_networks decode raw). \<exists>p. entry_network v = Some p \<and> in_version p = IPv4 \<and> block n \<subseteq> block p)))"
  unfolding scan_target_decides may_scan_def by (rule refl)

end
