(* ===== verification/Scan_Jobs.thy ===== *)
theory Scan_Jobs
  imports Discovery_Admission Scan_Results Network_Acl
begin

text \<open>
  The creation of scan jobs: the vocabulary of scan types (\<open>core/discovery_scan_types.py\<close>), the allow list of scanner
  arguments (\<open>core/nmap_args.py\<close>, with \<open>shlex.split\<close>), the validation of networks (\<open>services/discovery_network.py\<close>) and
  \<open>create_scan_job\<close> of \<open>services/discovery_service.py\<close>, which composes them with the access list of the server and the
  admission of agents.
\<close>

subsection \<open>Scan types\<close>

definition SERVER_SCAN_TYPES :: "string list" where
  "SERVER_SCAN_TYPES = [''nmap'', ''arp'', ''snmp'', ''http'', ''docker'', ''opnsense'', ''deep_dive'', ''proxmox'', ''lldp'']"

definition AGENT_SCAN_TYPES :: "string list" where
  "AGENT_SCAN_TYPES = [''agent_connect'']"

definition ALL_SCAN_TYPES :: "string list" where
  "ALL_SCAN_TYPES = SERVER_SCAN_TYPES @ AGENT_SCAN_TYPES"

datatype job_error =
    Unknown_scan_type string | Needs_agent "string list" | Not_for_agents "string list" | No_scan_type
  | Nmap_disabled | Bad_cidr string | Blocked_target string scan_refusal | No_target
  | Refused_location int string "string option" | Bad_nmap_arguments | Location_raised

definition validate_scan_types :: "string list option \<Rightarrow> int option \<Rightarrow> job_error + string list" where
  "validate_scan_types types scan_agent_id =
     (case types of
        None \<Rightarrow> Inr []
      | Some ts \<Rightarrow>
          (case find (\<lambda>t. t \<notin> set ALL_SCAN_TYPES) ts of
             Some t \<Rightarrow> Inl (Unknown_scan_type t)
           | None \<Rightarrow>
               let normalized = from_keys ts; agent_only = filter (\<lambda>t. t \<in> set AGENT_SCAN_TYPES) normalized;
                   server_only = filter (\<lambda>t. t \<in> set SERVER_SCAN_TYPES) normalized in
               if scan_agent_id = None then (if agent_only \<noteq> [] then Inl (Needs_agent agent_only) else Inr normalized)
               else if server_only \<noteq> [] then Inl (Not_for_agents server_only)
               else if normalized = [] then Inl No_scan_type else Inr normalized))"

subsection \<open>Scanner arguments\<close>

text \<open>\<open>shlex.split\<close>: between words, in a word, in a quotation, after a backslash in either.\<close>

datatype lex_mode = Between | Word | Quote char | Escape_word | Escape_quote char

definition lex_space :: "char \<Rightarrow> bool" where
  "lex_space c = (c \<in> {CHR '' '', CHR 0x09, CHR 0x0D, CHR 0x0A})"

definition lex_quote :: "char \<Rightarrow> bool" where
  "lex_quote c = (c = CHR 0x27 \<or> c = CHR 0x22)"

fun lex_split :: "lex_mode \<Rightarrow> string \<Rightarrow> string \<Rightarrow> string list option" where
  "lex_split Between token [] = Some []"
| "lex_split Word token [] = Some [token]"
| "lex_split mode token [] = None"
| "lex_split Between token (c # s) =
     (if lex_space c then lex_split Between [] s
      else if c = CHR 0x5C then lex_split Escape_word [] s
      else if lex_quote c then lex_split (Quote c) [] s else lex_split Word [c] s)"
| "lex_split Word token (c # s) =
     (if lex_space c then map_option (Cons token) (lex_split Between [] s)
      else if lex_quote c then lex_split (Quote c) token s
      else if c = CHR 0x5C then lex_split Escape_word token s else lex_split Word (token @ [c]) s)"
| "lex_split (Quote q) token (c # s) =
     (if c = q then lex_split Word token s
      else if c = CHR 0x5C \<and> q = CHR 0x22 then lex_split (Escape_quote q) token s else lex_split (Quote q) (token @ [c]) s)"
| "lex_split Escape_word token (c # s) = lex_split Word (token @ [c]) s"
| "lex_split (Escape_quote q) token (c # s) =
     lex_split (Quote q) (if c \<noteq> CHR 0x5C \<and> c \<noteq> q then token @ [CHR 0x5C, c] else token @ [c]) s"

definition shlex_split :: "string \<Rightarrow> string list option" where
  "shlex_split = lex_split Between []"

definition NMAP_ALLOWED_FLAGS :: "string list" where
  "NMAP_ALLOWED_FLAGS = [''-sT'', ''-sV'', ''-F'', ''--open'', ''-T0'', ''-T1'', ''-T2'', ''-T3'', ''-T4'', ''-T5'', ''-O'',
     ''--osscan-limit'', ''--osscan-guess'', ''-A'', ''-Pn'']"

definition FORBIDDEN_CHARS :: string where
  "FORBIDDEN_CHARS = '';|$`()><&'' @ [CHR 0x5C]"

definition forbidden_token :: "string \<Rightarrow> bool" where
  "forbidden_token tok = list_ex (\<lambda>c. c \<in> set FORBIDDEN_CHARS) tok"

text \<open>\<open>$\<close> also matches before a final newline.\<close>

definition port_list :: "string \<Rightarrow> bool" where
  "port_list tok = ((tok \<noteq> [] \<and> list_all port_char tok) \<or> (tok \<noteq> [] \<and> last tok = CHR 0x0A \<and> butlast tok \<noteq> [] \<and> list_all port_char (butlast tok)))"

fun consume_tokens :: "string list \<Rightarrow> string list option" where
  "consume_tokens [] = Some []"
| "consume_tokens [tok] = (if forbidden_token tok then None else if tok \<in> set NMAP_ALLOWED_FLAGS then Some [tok] else None)"
| "consume_tokens (tok # arg # tokens) =
     (if forbidden_token tok then None
      else if tok \<in> set NMAP_ALLOWED_FLAGS then map_option (Cons tok) (consume_tokens (arg # tokens))
      else if tok = ''-p'' \<and> \<not> forbidden_token arg \<and> port_list arg then map_option (\<lambda>out. ''-p'' # arg # out) (consume_tokens tokens)
      else None)"

definition validate_nmap_arguments :: "string option \<Rightarrow> string option" where
  "validate_nmap_arguments args =
     (let s = py_strip (the_or [] args) in
      if s = [] then Some ''-T4 -F''
      else if 256 < length s then None
      else map_option (py_join '' '') (Option.bind (shlex_split s) consume_tokens))"

subsection \<open>Targets\<close>

definition MAX_CIDR_PREFIXLEN :: nat where "MAX_CIDR_PREFIXLEN = 12"
definition MAX_CIDR_ADDRESSES :: int where "MAX_CIDR_ADDRESSES = 1048576"

definition validate_cidr :: "string \<Rightarrow> job_error + string" where
  "validate_cidr cidr =
     (if cidr = ''docker'' then Inr ''docker''
      else case ip_network cidr False of
        Inl _ \<Rightarrow> Inl (Bad_cidr cidr)
      | Inr n \<Rightarrow>
          if in_prefixlen n = 0 \<or> MAX_CIDR_ADDRESSES < num_addresses n \<or> (in_version n = IPv4 \<and> in_prefixlen n < MAX_CIDR_PREFIXLEN)
          then Inl (Bad_cidr cidr) else Inr (network_str n))"

record network_row =
  nr_id :: int
  nr_cidr :: "string option"
  nr_vlan_id :: "int option"

definition resolve_vlans_to_cidrs :: "network_row list \<Rightarrow> int list \<Rightarrow> string list \<times> int list" where
  "resolve_vlans_to_cidrs nets vlan_ids =
     (if vlan_ids = [] then ([], [])
      else let rows = filter (\<lambda>n. nr_vlan_id n \<in> Some ` set vlan_ids) nets in
           (sorted_names (List.map_filter (\<lambda>n. if text_given (nr_cidr n) then nr_cidr n else None) rows), map nr_id rows))"

subsection \<open>Jobs\<close>

record scan_settings =
  sc_nmap_enabled :: bool
  sc_airgap_env :: bool
  sc_airgap_db :: bool
  sc_allowed_networks :: "string option"
  sc_decode :: "string \<Rightarrow> json option"
  sc_networks :: "network_row list"

record job_request =
  jr_target_cidr :: "string option"
  jr_scan_types :: "string list option"
  jr_vlan_ids :: "int list"
  jr_profile_id :: "int option"
  jr_label :: "string option"
  jr_nmap_arguments :: "string option"
  jr_triggered_by :: string
  jr_scan_agent_id :: "int option"

text \<open>The targets of a request: the networks of its VLANs and its own network.\<close>

definition requested_cidrs :: "scan_settings \<Rightarrow> job_request \<Rightarrow> job_error + string list" where
  "requested_cidrs st q =
     (let vlan_cidrs = fst (resolve_vlans_to_cidrs (sc_networks st) (jr_vlan_ids q)) in
      if text_given (jr_target_cidr q)
      then bind_sum (validate_cidr (the (jr_target_cidr q))) (\<lambda>c. Inr (vlan_cidrs @ [c])) else Inr vlan_cidrs)"

definition first_blocked :: "scan_settings \<Rightarrow> string list \<Rightarrow> (string \<times> scan_refusal) option" where
  "first_blocked st cidrs =
     (case List.map_filter (\<lambda>c. map_option (Pair c) (validate_scan_target (sc_decode st) c (sc_airgap_env st) (sc_airgap_db st) (sc_allowed_networks st))) cidrs of
        [] \<Rightarrow> None | b # _ \<Rightarrow> Some b)"

definition requires_nmap :: "string list \<Rightarrow> bool" where
  "requires_nmap ts = (''nmap'' \<in> set ts \<or> ''deep_dive'' \<in> set ts)"

definition agent_tenant_id :: "registry \<Rightarrow> int option \<Rightarrow> int option" where
  "agent_tenant_id rg agent = (case agent of None \<Rightarrow> None | Some i \<Rightarrow> (case get_agent rg i of None \<Rightarrow> None | Some a \<Rightarrow> an_tenant_id a))"

definition new_job :: "registry \<Rightarrow> scan_settings \<Rightarrow> int \<Rightarrow> job_request \<Rightarrow> string list \<Rightarrow> string list \<Rightarrow> string option \<Rightarrow> scan_job" where
  "new_job rg st i q types cidrs label =
     \<lparr>sj_id = i, sj_profile_id = jr_profile_id q, sj_scan_agent_id = jr_scan_agent_id q, sj_dispatch_id = None, sj_dispatch_status = None,
      sj_dispatch_deadline_at = None, sj_last_finding_at = None, sj_finding_count = 0, sj_scope_version = None, sj_label = label,
      sj_target_cidr = (if cidrs = [] then None else Some (py_join '','' cidrs)), sj_vlan_ids = jr_vlan_ids q,
      sj_network_ids = snd (resolve_vlans_to_cidrs (sc_networks st) (jr_vlan_ids q)), sj_scan_types = types, sj_status = JS_queued, sj_started_at = None,
      sj_completed_at = None, sj_hosts_found = 0, sj_hosts_new = 0, sj_hosts_updated = 0, sj_hosts_conflict = 0, sj_error_text = None,
      sj_error_reason = None, sj_triggered_by = jr_triggered_by q, sj_source_type = (if jr_scan_agent_id q = None then ''manual'' else ''agent''),
      sj_progress_phase = ''queued'', sj_progress_message = [], sj_created_at = rg_clock rg, sj_tenant_id = agent_tenant_id rg (jr_scan_agent_id q)\<rparr>"

definition create_scan_job :: "vantage \<Rightarrow> scan_settings \<Rightarrow> registry \<Rightarrow> int \<Rightarrow> job_request \<Rightarrow> job_error + scan_job" where
  "create_scan_job vt st rg i q =
     bind_sum (validate_scan_types (jr_scan_types q) (jr_scan_agent_id q)) (\<lambda>types.
     if requires_nmap types \<and> \<not> sc_nmap_enabled st then Inl Nmap_disabled
     else bind_sum (requested_cidrs st q) (\<lambda>cidrs.
     case first_blocked st cidrs of
       Some (c, why) \<Rightarrow> Inl (Blocked_target c why)
     | None \<Rightarrow>
         if cidrs = [] \<and> types \<noteq> [''docker''] \<and> types \<noteq> [''opnsense''] then Inl No_target
         else let final = sorted_names cidrs in
           case validate_agent_execution_location vt rg
                  \<lparr>dr_agent = jr_scan_agent_id q, dr_targets = final, dr_arguments = jr_nmap_arguments q, dr_tenant = None\<rparr> of
             None \<Rightarrow> Inl Location_raised
           | Some (Refused a reason detail) \<Rightarrow> Inl (Refused_location a reason detail)
           | Some Admitted \<Rightarrow>
               if text_given (jr_nmap_arguments q)
               then (case validate_nmap_arguments (jr_nmap_arguments q) of
                       None \<Rightarrow> Inl Bad_nmap_arguments
                     | Some safe \<Rightarrow> Inr (new_job rg st i q types final (Some (NMAP_OVERRIDE_PREFIX @ safe))))
               else Inr (new_job rg st i q types final (jr_label q))))"

text \<open>\<open>_job_targets\<close> of \<open>services/agent_discovery.py\<close>: the networks of a job, read back.\<close>

definition job_targets :: "scan_job \<Rightarrow> string list" where
  "job_targets job = filter (\<lambda>t. t \<noteq> []) (map py_strip (py_split CHR '','' (the_or [] (sj_target_cidr job))))"

subsection \<open>Arguments that are accepted are safe\<close>

text \<open>A list of allowed flags and port lists.\<close>

inductive safe_arguments :: "string list \<Rightarrow> bool" where
  safe_nil: "safe_arguments []"
| safe_flag: "f \<in> set NMAP_ALLOWED_FLAGS \<Longrightarrow> safe_arguments out \<Longrightarrow> safe_arguments (f # out)"
| safe_ports: "port_list ports \<Longrightarrow> safe_arguments out \<Longrightarrow> safe_arguments (''-p'' # ports # out)"

lemma consume_tokens_safe: "consume_tokens tokens = Some out \<Longrightarrow> safe_arguments out \<and> out = tokens"
  by (induction tokens arbitrary: out rule: consume_tokens.induct) (auto split: if_splits intro: safe_arguments.intros)

definition plain_char :: "char \<Rightarrow> bool" where
  "plain_char c = (c \<in> set ''-,0123456789ABCDEFGHIJKLMNOPQRSTUVWXYZabcdefghijklmnopqrstuvwxyz'')"

lemma flags_plain: "list_all (\<lambda>f. f \<noteq> [] \<and> list_all plain_char f) NMAP_ALLOWED_FLAGS"
  by code_simp

lemma port_char_plain: "port_char c \<Longrightarrow> plain_char c"
  by (auto simp: port_char_def plain_char_def)

lemma plain_char_harmless: "plain_char c \<Longrightarrow> c \<notin> set FORBIDDEN_CHARS \<and> \<not> lex_space c \<and> \<not> lex_quote c \<and> c \<noteq> CHR 0x5C \<and> \<not> py_space c"
  by (auto simp: plain_char_def FORBIDDEN_CHARS_def lex_space_def lex_quote_def py_space_def)

lemma safe_argument_word:
  assumes "safe_arguments out" "w \<in> set out" "CHR 0x0A \<notin> set w"
  shows "w \<noteq> [] \<and> list_all plain_char w"
  using assms
proof (induction rule: safe_arguments.induct)
  case (safe_flag f out)
  then show ?case using flags_plain by (auto simp: list_all_iff)
next
  case (safe_ports ports out)
  have "list_all plain_char ports" "ports \<noteq> []" if "CHR 0x0A \<notin> set ports"
    using safe_ports(1) that last_in_set [of ports] by (auto simp: port_list_def list_all_iff intro: port_char_plain dest!: sym [of "last ports"])
  moreover have "list_all plain_char ''-p''" by (simp add: plain_char_def)
  ultimately show ?case using safe_ports by auto
qed simp

lemma safe_argument_chars:
  assumes "safe_arguments out" "w \<in> set out"
  shows "\<forall>c\<in>set w. plain_char c \<or> c = CHR 0x0A"
  using assms
proof (induction rule: safe_arguments.induct)
  case (safe_flag f out)
  then show ?case using flags_plain by (auto simp: list_all_iff)
next
  case (safe_ports ports out)
  have "plain_char c \<or> c = CHR 0x0A" if "c \<in> set ports" for c
  proof (cases "last ports = CHR 0x0A \<and> c \<notin> set (butlast ports)")
    case True
    have "ports \<noteq> []" using that by auto
    then have "set ports = insert (last ports) (set (butlast ports))" by (metis append_butlast_last_id insert_is_Un list.simps(15) set_append sup_commute list.set(1))
    with True that show ?thesis by auto
  next
    case False
    with safe_ports(1) that show ?thesis by (auto simp: port_list_def list_all_iff intro: port_char_plain)
  qed
  moreover have "list_all plain_char ''-p''" by (simp add: plain_char_def)
  ultimately show ?case using safe_ports by (auto simp: list_all_iff)
qed simp

text \<open>Splitting the joined words gives the words back.\<close>

lemma lex_word: "list_all plain_char w \<Longrightarrow> lex_split Word token (w @ s) = lex_split Word (token @ w) s"
  by (induction w arbitrary: token) (auto dest: plain_char_harmless)

lemma lex_between: "w \<noteq> [] \<Longrightarrow> list_all plain_char w \<Longrightarrow> lex_split Between [] (w @ s) = lex_split Word w s"
  by (cases w) (auto simp: lex_word dest: plain_char_harmless)

lemma shlex_join: "\<forall>w\<in>set ws. w \<noteq> [] \<and> list_all plain_char w \<Longrightarrow> shlex_split (py_join '' '' ws) = Some ws"
proof (induction "'' '' :: string" ws rule: py_join.induct)
  case (2 w)
  then show ?case using lex_between [of w "[]"] by (simp add: shlex_split_def)
next
  case (3 w v vs)
  then show ?case using lex_between [of w "'' '' @ py_join '' '' (v # vs)"] by (simp add: shlex_split_def lex_space_def)
qed (simp add: shlex_split_def)

lemma strip_join:
  assumes "\<forall>w\<in>set ws. w \<noteq> [] \<and> list_all plain_char w"
  shows "py_strip (py_join '' '' ws) = py_join '' '' ws"
proof (rule py_strip_no_space)
  have first: "ws \<noteq> [] \<Longrightarrow> hd (py_join '' '' ws) = hd (hd ws) \<and> py_join '' '' ws \<noteq> []"
    using assms by (cases "('' '' :: string, ws)" rule: py_join.cases) auto
  have final: "ws \<noteq> [] \<Longrightarrow> last (py_join '' '' ws) = last (last ws)"
    using assms
  proof (induction "'' '' :: string" ws rule: py_join.induct)
    case (3 w v vs)
    then have "py_join '' '' (v # vs) \<noteq> []" by (cases vs) auto
    with 3 show ?case by simp
  qed simp_all
  show "py_join '' '' ws = [] \<or> (\<not> py_space (hd (py_join '' '' ws)) \<and> \<not> py_space (last (py_join '' '' ws)))"
  proof (cases "ws = []")
    case False
    then have "hd ws \<in> set ws" "last ws \<in> set ws" by simp_all
    with assms have "hd (hd ws) \<in> set (hd ws)" "last (last ws) \<in> set (last ws)" "list_all plain_char (hd ws)" "list_all plain_char (last ws)" by simp_all
    then show ?thesis using first [OF False] final [OF False] plain_char_harmless by (auto simp: list_all_iff)
  qed simp
qed

lemma consume_safe: "safe_arguments out \<Longrightarrow> \<forall>w\<in>set out. list_all plain_char w \<Longrightarrow> consume_tokens out = Some out"
proof (induction rule: safe_arguments.induct)
  case (safe_flag f out)
  have "\<not> forbidden_token f" using safe_flag.prems plain_char_harmless by (auto simp: forbidden_token_def list_ex_iff list_all_iff)
  with safe_flag show ?case by (cases out) auto
next
  case (safe_ports ports out)
  have "\<not> forbidden_token ports" using safe_ports.prems plain_char_harmless by (auto simp: forbidden_token_def list_ex_iff list_all_iff)
  moreover have "\<not> forbidden_token ''-p''" "''-p'' \<notin> set NMAP_ALLOWED_FLAGS" by (simp_all add: forbidden_token_def FORBIDDEN_CHARS_def NMAP_ALLOWED_FLAGS_def)
  ultimately show ?case using safe_ports by simp
qed simp

text \<open>Some word is always there.\<close>

lemma lex_split_word: "mode \<noteq> Between \<Longrightarrow> lex_split mode token s \<noteq> Some []"
  by (induction mode token s rule: lex_split.induct) auto

lemma strip_head:
  assumes "py_strip t \<noteq> []"
  shows "\<not> py_space (hd (py_strip t))"
proof -
  let ?u = "dropWhile py_space t"
  obtain w where w: "?u = py_strip t @ w" unfolding py_strip_def by (metis rev_append rev_rev_ident takeWhile_dropWhile_id)
  then have "?u \<noteq> []" "hd ?u = hd (py_strip t)" using assms by simp_all
  then show ?thesis using hd_dropWhile by metis
qed

lemma stripped_words:
  assumes "py_strip t \<noteq> []" "shlex_split (py_strip t) = Some ws"
  shows "ws \<noteq> []"
proof -
  obtain c s where c: "py_strip t = c # s" using assms(1) by (cases "py_strip t") auto
  have "\<not> lex_space c" using strip_head [OF assms(1)] by (auto simp: c lex_space_def py_space_def)
  then show ?thesis using assms(2) lex_split_word by (auto simp: c shlex_split_def split: if_splits)
qed

text \<open>The words, joined by single spaces, are no longer than the text they were split from.\<close>

fun lex_room :: "lex_mode \<Rightarrow> string \<Rightarrow> string \<Rightarrow> nat" where
  "lex_room Between token s = length s"
| "lex_room (Escape_quote q) token s = length token + length s + 1"
| "lex_room mode token s = length token + length s"

lemma join_Cons_length: "length (py_join '' '' (w # ws)) \<le> length w + 1 + length (py_join '' '' ws)"
  by (cases ws) simp_all

lemma lex_split_length: "lex_split mode token s = Some ws \<Longrightarrow> length (py_join '' '' ws) \<le> lex_room mode token s"
proof (induction mode token s arbitrary: ws rule: lex_split.induct)
  case (5 token c s)
  show ?case
  proof (cases "lex_space c")
    case True
    then obtain vs where vs: "lex_split Between [] s = Some vs" "ws = token # vs" using "5.prems" by auto
    have "length (py_join '' '' vs) \<le> length s" using "5.IH"(1) [OF True vs(1)] by simp
    then show ?thesis using join_Cons_length [of token vs] vs(2) by simp
  next
    case False
    then show ?thesis using 5 by (fastforce split: if_splits)
  qed
qed (fastforce split: if_splits)+

lemma validated_arguments:
  assumes "validate_nmap_arguments args = Some s"
  obtains out where "s = py_join '' '' out" "safe_arguments out" "out \<noteq> []" "length s \<le> 256"
proof (cases "py_strip (the_or [] args) = []")
  case True
  have "safe_arguments [''-T4'', ''-F'']" by (intro safe_arguments.intros) (simp_all add: NMAP_ALLOWED_FLAGS_def)
  moreover have "s = py_join '' '' [''-T4'', ''-F'']" using assms True by (simp add: validate_nmap_arguments_def)
  ultimately show thesis using that [of "[''-T4'', ''-F'']"] by simp
next
  case False
  then obtain ws out where ws: "shlex_split (py_strip (the_or [] args)) = Some ws" "consume_tokens ws = Some out" "s = py_join '' '' out"
    using assms by (auto simp: validate_nmap_arguments_def Let_def bind_eq_Some_conv split: if_splits)
  have "length (py_strip (the_or [] args)) \<le> 256" using assms False by (simp add: validate_nmap_arguments_def Let_def split: if_splits)
  moreover have "length s \<le> length (py_strip (the_or [] args))"
    using lex_split_length [OF ws(1) [unfolded shlex_split_def]] consume_tokens_safe [OF ws(2)] ws(3) by simp
  ultimately have "length s \<le> 256" by simp
  with consume_tokens_safe [OF ws(2)] stripped_words [OF False ws(1)] that [OF ws(3)] show thesis by blast
qed

text \<open>
  C28. \<^bold>\<open>Accepted scanner arguments are harmless.\<close> Whatever text is given, the arguments that are stored are a list of allowed
  flags and port lists, at most 256 characters long: they have none of the forbidden metacharacters, no quotation mark and no
  backslash. A port list is digits, commas and hyphens, but one that was quoted may end in a newline. Unless that happened,
  validating the stored arguments again gives the same arguments.
\<close>

theorem nmap_arguments_safe:
  assumes "validate_nmap_arguments args = Some s"
  shows "(\<exists>out. s = py_join '' '' out \<and> safe_arguments out) \<and> length s \<le> 256 \<and>
    (\<forall>c\<in>set s. c \<notin> set FORBIDDEN_CHARS \<and> \<not> lex_quote c) \<and>
    (CHR 0x0A \<notin> set s \<longrightarrow> validate_nmap_arguments (Some s) = Some s)"
proof -
  obtain out where out: "s = py_join '' '' out" "safe_arguments out" "out \<noteq> []" "length s \<le> 256" using validated_arguments [OF assms] .
  have chars: "c = CHR '' '' \<or> (\<exists>w\<in>set ws. c \<in> set w)" if "c \<in> set (py_join '' '' ws)" for c ws
    using that by (induction "'' '' :: string" ws rule: py_join.induct) auto
  have words: "set w \<subseteq> set (py_join '' '' ws)" if "w \<in> set ws" for w ws
    using that by (induction "'' '' :: string" ws rule: py_join.induct) auto
  have "c \<notin> set FORBIDDEN_CHARS \<and> \<not> lex_quote c" if "c \<in> set s" for c
  proof -
    have "c = CHR '' '' \<or> plain_char c \<or> c = CHR 0x0A" using chars [of c out] that safe_argument_chars [OF out(2)] unfolding out(1) by blast
    moreover have "CHR '' '' \<notin> set FORBIDDEN_CHARS" "\<not> lex_quote CHR '' ''" "CHR 0x0A \<notin> set FORBIDDEN_CHARS" "\<not> lex_quote CHR 0x0A"
      by (simp_all add: FORBIDDEN_CHARS_def lex_quote_def)
    ultimately show ?thesis using plain_char_harmless by metis
  qed
  moreover have "validate_nmap_arguments (Some s) = Some s" if "CHR 0x0A \<notin> set s"
  proof -
    have ws: "\<forall>w\<in>set out. w \<noteq> [] \<and> list_all plain_char w" using safe_argument_word [OF out(2)] words [of _ out] that out(1) by blast
    then have "py_join '' '' out \<noteq> []" using out(3) by (cases "('' '' :: string, out)" rule: py_join.cases) auto
    moreover have "consume_tokens out = Some out" using consume_safe [OF out(2)] ws by blast
    ultimately show ?thesis using out(4)
      unfolding out(1) validate_nmap_arguments_def the_or_def option.case strip_join [OF ws] Let_def shlex_join [OF ws] by simp
  qed
  ultimately show ?thesis using out by blast
qed

subsection \<open>Targets survive their storage\<close>

definition net_char :: "char \<Rightarrow> bool" where
  "net_char c = (is_digit c \<or> c = CHR ''.'' \<or> c = CHR ''/'')"

lemma ip4_net_chars: "ip4_int_from_string s = Some n \<Longrightarrow> list_all net_char s"
  using ip4_chars(1) by (fastforce simp: list_all_iff net_char_def)

lemma ip4_int_from_empty: "ip4_int_from_string [] = None"
  by (simp add: ip4_int_from_string_def)

lemma netmask_chars: "make_netmask IPv4 s = Some p \<Longrightarrow> list_all net_char s"
  by (auto simp: prefix_from_prefix_string_def prefix_from_ip_string_def list_all_iff net_char_def split: option.splits if_splits dest!: ip4_net_chars)

lemma ipv4_network_parse:
  assumes "ip_network s False = Inr n" "in_version n = IPv4"
  shows "list_all net_char s \<and> s \<noteq> [] \<and> in_zone n = None"
proof -
  have "in_version m = v" if "IPNetwork v s False = Inr m" for v m
    using that by (auto simp: IPNetwork_def Let_def split: if_splits option.splits)
  then have net: "IPNetwork IPv4 s False = Inr n"
    using assms by (fastforce simp: ip_network_def split: sum.splits network_error.splits)
  let ?parts = "py_split CHR ''/'' s"
  obtain a p where a: "IPv4Address (hd ?parts) = Some a" "length ?parts \<le> 2"
    "(if length ?parts > 1 then make_netmask IPv4 (?parts ! 1) else Some (max_prefixlen IPv4)) = Some p" "in_zone n = None \<or> in_zone n = ia_zone a"
    using net by (auto simp: IPNetwork_def Let_def split: if_splits option.splits)
  then have "list_all net_char (hd ?parts)" "hd ?parts \<noteq> []" "ia_zone a = None"
    by (auto simp: IPv4Address_def ip4_int_from_empty split: if_splits option.splits dest: ip4_net_chars)
  moreover have "list_all net_char w" if "w \<in> set ?parts" for w
  proof (cases "length ?parts > 1")
    case True
    then obtain u v where "?parts = [u, v]" using a(2) by (cases ?parts; cases "tl ?parts") auto
    with that a(3) calculation netmask_chars show ?thesis by auto
  next
    case False
    then have "?parts = [hd ?parts]" by (cases ?parts) auto
    with that calculation show ?thesis by (metis empty_iff list.set(1) set_ConsD)
  qed
  ultimately have "list_all net_char s" "s \<noteq> []" using set_py_split [of s "CHR ''/''"] by (fastforce simp: list_all_iff net_char_def)+
  with a(4) \<open>ia_zone a = None\<close> show ?thesis by auto
qed

lemma net_char_plain: "net_char c \<Longrightarrow> c \<noteq> CHR '','' \<and> \<not> py_space c"
  by (auto simp: net_char_def is_digit_def py_space_def)

lemma net_text_stripped:
  assumes "list_all net_char s"
  shows "py_strip s = s"
proof (rule py_strip_no_space)
  show "s = [] \<or> (\<not> py_space (hd s) \<and> \<not> py_space (last s))"
    using assms net_char_plain hd_in_set last_in_set unfolding list_all_iff by metis
qed

lemma targets_stored:
  assumes "\<forall>t\<in>set ts. t \<noteq> [] \<and> py_strip t = t \<and> CHR '','' \<notin> set t"
  shows "job_targets (new_job rg st i q types ts label) = ts"
proof (cases "ts = []")
  case False
  then have "py_split CHR '','' (py_join [CHR '',''] ts) = ts" using assms by (intro py_split_join) auto
  moreover have "map py_strip ts = ts" "filter (\<lambda>t. t \<noteq> []) ts = ts" using assms by (simp_all add: map_idI)
  ultimately show ?thesis using False by (simp add: job_targets_def new_job_def the_or_def)
qed (simp add: job_targets_def new_job_def the_or_def py_strip_def)

subsection \<open>What a job is created with\<close>

lemma first_blocked_None: "first_blocked st cidrs = None \<longleftrightarrow>
    (\<forall>c\<in>set cidrs. may_scan (sc_decode st) c (sc_airgap_env st) (sc_airgap_db st) (sc_allowed_networks st))"
  unfolding scan_target_decides [symmetric] first_blocked_def by (induction cidrs) (auto simp: List.map_filter_simps split: option.splits)

text \<open>What a request asks for: the networks of its VLANs as they are stored, and its own target, docker or a network in canonical form.\<close>

definition asked_targets :: "scan_settings \<Rightarrow> job_request \<Rightarrow> string set" where
  "asked_targets st q =
     {c. \<exists>n\<in>set (sc_networks st). \<exists>v\<in>set (jr_vlan_ids q). nr_vlan_id n = Some v \<and> nr_cidr n = Some c \<and> c \<noteq> []} \<union>
     {c. \<exists>t. jr_target_cidr q = Some t \<and> t \<noteq> [] \<and> (t = ''docker'' \<and> c = ''docker'' \<or> t \<noteq> ''docker'' \<and> (\<exists>n. ip_network t False = Inr n \<and> c = network_str n))}"

lemma vlan_targets:
  "set (fst (resolve_vlans_to_cidrs nets vlans)) = {c. \<exists>n\<in>set nets. \<exists>v\<in>set vlans. nr_vlan_id n = Some v \<and> nr_cidr n = Some c \<and> c \<noteq> []}"
proof -
  have mem: "c \<in> set (List.map_filter (\<lambda>n. if text_given (nr_cidr n) then nr_cidr n else None) rows) \<longleftrightarrow> (\<exists>n\<in>set rows. nr_cidr n = Some c \<and> c \<noteq> [])" for c and rows :: "network_row list"
    by (auto simp: map_filter_iff text_given_def)
  have "c \<in> set (fst (resolve_vlans_to_cidrs nets vlans)) \<longleftrightarrow> (\<exists>n\<in>set (filter (\<lambda>n. nr_vlan_id n \<in> Some ` set vlans) nets). nr_cidr n = Some c \<and> c \<noteq> [])" for c
    by (simp add: resolve_vlans_to_cidrs_def Let_def sorted_names_def mem)
  moreover have "nr_vlan_id n \<in> Some ` set vlans \<longleftrightarrow> (\<exists>v\<in>set vlans. nr_vlan_id n = Some v)" for n by blast
  ultimately show ?thesis by (intro set_eqI) (simp only: mem_Collect_eq set_filter, blast)
qed

lemma requested_targets:
  assumes "requested_cidrs st q = Inr cidrs"
  shows "set cidrs = asked_targets st q"
proof (cases "text_given (jr_target_cidr q)")
  case True
  then obtain t where t: "jr_target_cidr q = Some t" "t \<noteq> []" by (auto simp: text_given_def)
  from assms True t(1) obtain c where c: "validate_cidr t = Inr c" "cidrs = fst (resolve_vlans_to_cidrs (sc_networks st) (jr_vlan_ids q)) @ [c]"
    by (auto simp: requested_cidrs_def Let_def bind_sum_Inr)
  have "t = ''docker'' \<and> c = ''docker'' \<or> t \<noteq> ''docker'' \<and> (\<exists>n. ip_network t False = Inr n \<and> c = network_str n)"
    using c(1) by (auto simp: validate_cidr_def split: if_splits sum.splits)
  then have "{d. t = ''docker'' \<and> d = ''docker'' \<or> t \<noteq> ''docker'' \<and> (\<exists>n. ip_network t False = Inr n \<and> d = network_str n)} = {c}" by auto
  then show ?thesis using t unfolding c(2) asked_targets_def by (simp add: vlan_targets)
next
  case False
  then have "cidrs = fst (resolve_vlans_to_cidrs (sc_networks st) (jr_vlan_ids q))" using assms by (simp add: requested_cidrs_def Let_def)
  moreover have "jr_target_cidr q = None \<or> jr_target_cidr q = Some []" using False by (auto simp: text_given_def)
  ultimately show ?thesis by (auto simp: asked_targets_def vlan_targets)
qed

lemma created_job:
  assumes "create_scan_job vt st rg i q = Inr job"
  obtains types ts label where "job = new_job rg st i q types ts label"
    "\<forall>c\<in>set ts. may_scan (sc_decode st) c (sc_airgap_env st) (sc_airgap_db st) (sc_allowed_networks st)"
    "validate_agent_execution_location vt rg \<lparr>dr_agent = jr_scan_agent_id q, dr_targets = ts, dr_arguments = jr_nmap_arguments q, dr_tenant = None\<rparr> = Some Admitted"
    "text_given (jr_nmap_arguments q) \<longrightarrow> (\<exists>safe. validate_nmap_arguments (jr_nmap_arguments q) = Some safe \<and> label = Some (NMAP_OVERRIDE_PREFIX @ safe))"
    "distinct ts" "set ts = asked_targets st q"
proof -
  obtain types cidrs where c: "validate_scan_types (jr_scan_types q) (jr_scan_agent_id q) = Inr types" "requested_cidrs st q = Inr cidrs" "first_blocked st cidrs = None"
    using assms by (auto simp: create_scan_job_def bind_sum_def Let_def split: sum.splits if_splits option.splits)
  let ?r = "\<lparr>dr_agent = jr_scan_agent_id q, dr_targets = sorted_names cidrs, dr_arguments = jr_nmap_arguments q, dr_tenant = None\<rparr>"
  have v: "validate_agent_execution_location vt rg ?r = Some Admitted"
    using assms c by (auto simp: create_scan_job_def bind_sum_def Let_def split: if_splits option.splits admission.splits)
  have "set (sorted_names cidrs) = set cidrs" "distinct (sorted_names cidrs)" by (simp_all add: sorted_names_def)
  moreover note requested_targets [OF c(2)]
  ultimately have asked: "distinct (sorted_names cidrs)" "set (sorted_names cidrs) = asked_targets st q" by simp_all
  have "set (sorted_names cidrs) = set cidrs" by (simp add: sorted_names_def)
  with c(3) have scan: "\<forall>c\<in>set (sorted_names cidrs). may_scan (sc_decode st) c (sc_airgap_env st) (sc_airgap_db st) (sc_allowed_networks st)"
    by (simp add: first_blocked_None)
  show thesis
  proof (cases "text_given (jr_nmap_arguments q)")
    case True
    then obtain safe where "validate_nmap_arguments (jr_nmap_arguments q) = Some safe" "job = new_job rg st i q types (sorted_names cidrs) (Some (NMAP_OVERRIDE_PREFIX @ safe))"
      using assms c v by (auto simp: create_scan_job_def bind_sum_def Let_def split: if_splits option.splits)
    with that [OF _ scan v] asked show ?thesis by blast
  next
    case False
    then have "job = new_job rg st i q types (sorted_names cidrs) (jr_label q)"
      using assms c v by (auto simp: create_scan_job_def bind_sum_def Let_def split: if_splits)
    with that [OF _ scan v] asked False show ?thesis by blast
  qed
qed

lemma docker_no_network: "ip_network ''docker'' False = Inl Malformed"
  by code_simp

lemma scan_target_text:
  assumes "may_scan decode c airgap_env airgap_db raw"
  shows "c \<noteq> [] \<and> py_strip c = c \<and> CHR '','' \<notin> set c \<and> (\<forall>n. ip_network c False = Inr n \<longrightarrow> in_zone n = None)"
proof (cases "c = ''docker''")
  case True
  moreover have "py_strip ''docker'' = ''docker''" by code_simp
  ultimately show ?thesis by (simp add: docker_no_network)
next
  case False
  then obtain n where n: "ip_network c False = Inr n" "in_version n = IPv4" using assms by (auto simp: may_scan_def)
  from ipv4_network_parse [OF n] show ?thesis using net_text_stripped n(1) net_char_plain by (auto simp: list_all_iff)
qed


text \<open>What an agent may be sent to: by its grant, each address of a target is one it reaches, or a broadcast address.\<close>

definition agent_may_scan :: "vantage \<Rightarrow> registry \<Rightarrow> int \<Rightarrow> string list \<Rightarrow> bool" where
  "agent_may_scan vt rg a ts =
     (\<exists>ag g. get_agent rg a = Some ag \<and> an_status ag = AS_active \<and> get_grant rg a ''local_discovery'' = Some g \<and> cg_enabled g \<and>
        (\<forall>c\<in>set ts. \<exists>n. ip_network (py_strip c) False = Inr n \<and> (\<forall>ad. wf_address ad \<and> in_block n ad \<longrightarrow>
            reachable (vt_str vt) (agent_network_facts rg a) (Some (cg_config g)) ad \<or>
            (\<exists>m. permitted_network (vt_str vt) (agent_network_facts rg a) (Some (cg_config g)) m \<and> is_directed_broadcast m ad))))"

lemma admitted_may_scan:
  assumes ok: "registry_ok rg" and "validate_agent_execution_location vt rg r = Some Admitted" "dr_agent r = Some a"
    "\<forall>c\<in>set (dr_targets r). \<forall>n. ip_network (py_strip c) False = Inr n \<longrightarrow> in_zone n = None"
  shows "card (target_addresses (dr_targets r)) \<le> 4096" "agent_may_scan vt rg a (dr_targets r)"
proof -
  have adm: "admissible vt rg a r" using admission_decides [OF ok assms(3,4), of vt] assms(2) by auto
  obtain ag g where g: "get_agent rg a = Some ag" "an_status ag = AS_active" "get_grant rg a ''local_discovery'' = Some g" "cg_enabled g"
    using adm by (auto simp: admissible_def may_discover_def)
  note cov = admissible_covers [OF ok adm]
  show "card (target_addresses (dr_targets r)) \<le> 4096" using cov by (rule conjunct1)
  have "\<forall>c\<in>set (dr_targets r). \<exists>n. ip_network (py_strip c) False = Inr n \<and> (\<forall>ad. wf_address ad \<and> in_block n ad \<longrightarrow>
            reachable (vt_str vt) (agent_network_facts rg a) (Some (cg_config g)) ad \<or>
            (\<exists>m. permitted_network (vt_str vt) (agent_network_facts rg a) (Some (cg_config g)) m \<and> is_directed_broadcast m ad))"
    using conjunct2 [OF conjunct2 [OF cov]] unfolding g(3) option.inject by blast
  then show "agent_may_scan vt rg a (dr_targets r)" unfolding agent_may_scan_def using g by blast
qed

text \<open>
  C27. \<^bold>\<open>A job is created only for targets that may be scanned, and is read back with exactly the targets asked for.\<close> In every
  reachable state of the registry: the targets a created job is read back with are, without repetition, exactly the networks of the
  requested VLANs and the requested target in canonical form. Each of them is the word docker, or a private
  IPv4 network inside the configured networks while no air gap is set. A job for an agent has no docker target, at most 4096
  addresses, each one the agent reaches under its grant or the broadcast address of a network it was granted (which its scope
  refuses as a single address), carries the tenant of the agent and waits without a lease. Arguments for the scanner are read
  back in their validated form.
\<close>

theorem created_job_within_limits:
  assumes "rg = fold (registry_step env) rs (empty_registry now)" "create_scan_job vt st rg i q = Inr job"
  shows "distinct (job_targets job) \<and> set (job_targets job) = asked_targets st q \<and>
    (\<forall>c\<in>set (job_targets job). may_scan (sc_decode st) c (sc_airgap_env st) (sc_airgap_db st) (sc_allowed_networks st)) \<and>
    sj_status job = JS_queued \<and> sj_dispatch_id job = None \<and> sj_scan_agent_id job = jr_scan_agent_id q \<and>
    (text_given (jr_nmap_arguments q) \<longrightarrow> job_nmap_arguments profiles (sj_label job) (sj_profile_id job) = validate_nmap_arguments (jr_nmap_arguments q)) \<and>
    (\<forall>a. jr_scan_agent_id q = Some a \<longrightarrow>
       ''docker'' \<notin> set (job_targets job) \<and> card (target_addresses (job_targets job)) \<le> 4096 \<and>
       sj_tenant_id job = agent_tenant_id rg (Some a) \<and> agent_may_scan vt rg a (job_targets job))"
proof -
  have ok: "registry_ok rg" unfolding assms(1) by (rule reachable_ok)
  obtain types ts label where job: "job = new_job rg st i q types ts label"
    and scan: "\<forall>c\<in>set ts. may_scan (sc_decode st) c (sc_airgap_env st) (sc_airgap_db st) (sc_allowed_networks st)"
    and v: "validate_agent_execution_location vt rg \<lparr>dr_agent = jr_scan_agent_id q, dr_targets = ts, dr_arguments = jr_nmap_arguments q, dr_tenant = None\<rparr> = Some Admitted"
    and args: "text_given (jr_nmap_arguments q) \<longrightarrow> (\<exists>safe. validate_nmap_arguments (jr_nmap_arguments q) = Some safe \<and> label = Some (NMAP_OVERRIDE_PREFIX @ safe))"
    and asked: "distinct ts" "set ts = asked_targets st q"
    by (rule created_job [OF assms(2)])
  have written: "\<forall>c\<in>set ts. c \<noteq> [] \<and> py_strip c = c \<and> CHR '','' \<notin> set c \<and> (\<forall>n. ip_network (py_strip c) False = Inr n \<longrightarrow> in_zone n = None)"
    using scan scan_target_text by metis
  have ts: "job_targets job = ts" unfolding job using written by (intro targets_stored) blast
  have "job_nmap_arguments profiles (sj_label job) (sj_profile_id job) = validate_nmap_arguments (jr_nmap_arguments q)" if "text_given (jr_nmap_arguments q)"
    using args that by (auto simp: job new_job_def job_nmap_arguments_def py_startswith_def)
  moreover have "''docker'' \<notin> set ts \<and> card (target_addresses ts) \<le> 4096 \<and> agent_may_scan vt rg a ts" if a: "jr_scan_agent_id q = Some a" for a
  proof -
    note m = admitted_may_scan [OF ok v, of a, unfolded discovery_request.simps, OF a]
    have may: "agent_may_scan vt rg a ts" "card (target_addresses ts) \<le> 4096" using written by (intro m; blast)+
    have "\<exists>n. ip_network (py_strip c) False = Inr n" if "c \<in> set ts" for c using may(1) that unfolding agent_may_scan_def by blast
    then have "''docker'' \<notin> set ts" using written docker_no_network by (metis sum.distinct(1))
    with may show ?thesis by blast
  qed
  moreover have "sj_status job = JS_queued" "sj_dispatch_id job = None" "sj_scan_agent_id job = jr_scan_agent_id q"
    "sj_tenant_id job = agent_tenant_id rg (jr_scan_agent_id q)" by (simp_all add: job new_job_def)
  ultimately show ?thesis unfolding ts using scan asked by simp
qed

subsection \<open>Witnesses\<close>

definition quoted_arguments :: string where
  "quoted_arguments = ''  -sT  -p '' @ [CHR 0x22] @ ''22,443'' @ [CHR 0x22] @ '' -T3''"

theorem nmap_arguments_safe_witness:
  "validate_nmap_arguments (Some quoted_arguments) = Some ''-sT -p 22,443 -T3'' \<and>
   validate_nmap_arguments (Some ''-sT -p 22,443 -T3'') = Some ''-sT -p 22,443 -T3''"
proof -
  have v: "validate_nmap_arguments (Some quoted_arguments) = Some ''-sT -p 22,443 -T3''" by code_simp
  from nmap_arguments_safe [OF v] have "validate_nmap_arguments (Some ''-sT -p 22,443 -T3'') = Some ''-sT -p 22,443 -T3''" by simp
  with v show ?thesis by blast
qed

definition scan_settings_example :: scan_settings where
  "scan_settings_example =
     \<lparr>sc_nmap_enabled = True, sc_airgap_env = False, sc_airgap_db = False, sc_allowed_networks = None, sc_decode = (\<lambda>_. None),
      sc_networks = [\<lparr>nr_id = 1, nr_cidr = Some ''10.0.0.0/26'', nr_vlan_id = Some 20\<rparr>, \<lparr>nr_id = 2, nr_cidr = None, nr_vlan_id = Some 20\<rparr>]\<rparr>"

definition vlan_request :: job_request where
  "vlan_request =
     \<lparr>jr_target_cidr = Some ''10.0.0.40/27'', jr_scan_types = Some [''agent_connect''], jr_vlan_ids = [20], jr_profile_id = None, jr_label = None,
      jr_nmap_arguments = Some ''-p 22,443'', jr_triggered_by = ''api'', jr_scan_agent_id = Some 1\<rparr>"

definition vlan_job :: scan_job where
  "vlan_job = new_job (example_run linked_run) scan_settings_example 5 vlan_request [''agent_connect''] [''10.0.0.0/26'', ''10.0.0.32/27''] (Some (NMAP_OVERRIDE_PREFIX @ ''-p 22,443''))"

theorem created_job_within_limits_witness:
  "create_scan_job example_vantage scan_settings_example (example_run linked_run) 5 vlan_request = Inr vlan_job \<and>
   agent_may_scan example_vantage (example_run linked_run) 1 (job_targets vlan_job)"
proof -
  have j: "create_scan_job example_vantage scan_settings_example (example_run linked_run) 5 vlan_request = Inr vlan_job" by code_simp
  have "jr_scan_agent_id vlan_request = Some 1" by (simp add: vlan_request_def)
  with j created_job_within_limits [OF example_run_def j, of "[]"] show ?thesis by blast
qed

end
