(* ===== verification/Spec2Isabelle.thy ===== *)
theory Spec2Isabelle
  imports Circuit_Breaker Probe_Runs Metric_Rules Audit_Log Lifecycle_Properties
    Scan_Jobs
begin

text \<open>
  CircuitBreaker is a self-hosted inventory and monitoring system: a Python backend
  (\<open>apps/backend/src/app\<close>) that schedules checks, runs them itself or hands them to remote agents,
  turns the answers into the state of monitors, evaluates metric alerts and keeps a tamper-evident audit
  log; a Go agent; a web client; and the tools that install and update it on a host
  (\<open>deploy/scripts\<close>). This development models parts of the Python code and proves what makes
  them correct. File names below are relative to \<open>apps/backend/src/app\<close> unless they
  start with \<open>deploy\<close>.

  \<^bold>\<open>Shared theories.\<close> \<open>Prelude\<close>: instants in microseconds, Python's floats as far as comparisons see them,
  string methods, tables as lists of rows with a primary key, and two interfaces: \<open>row_update\<close> (an update
  that keeps the primary key, with the lemmas on looking rows up after it) and \<open>invariant_machine\<close> (a step
  function with an invariant it keeps, and what follows for every run). \<open>Text_Redaction\<close>: substring
  replacement and the interface \<open>marker\<close> of a bracketed word that replaces secrets. \<open>Canonical_Json\<close>: the text
  of \<open>json.dumps\<close> on flat objects, and that it determines the object. \<open>Contract_Text\<close>: texts as lists
  of code points, regular expressions with Python's \<open>search\<close>, \<open>fullmatch\<close> and \<open>sub\<close>, and the redaction of
  the lifecycle tools. \<open>Ip_Address\<close>: the addresses and networks of Python's \<open>ipaddress\<close> module, their texts and their order.
  \<open>Ip_Collapse\<close>: its \<open>collapse_addresses\<close>, and that the result covers exactly the addresses of its argument.

  \<^bold>\<open>Circuit breaker\<close> (\<open>Circuit_Breaker\<close>; \<open>core/circuit_breaker.py\<close>). The breaker object as a record, its three
  operations, the registry behind \<open>get_breaker\<close> and the guarded call. The TTL cache of the registry
  is third-party code and a parameter (\<open>ttl_cache\<close>). The breaker opens at its threshold and refuses callers for its
  duration whatever happens meanwhile, and how the failure window is anchored.

  \<^bold>\<open>Monitoring.\<close> \<open>Monitor_Db\<close>: the tables of monitors, their events, probe runs, samples
  (\<open>db/models/monitors.py\<close>). \<open>Monitor_State\<close> (\<open>services/monitoring/state.py\<close>): the decision a check's answer
  leads to and its application; alerts alternate, the retry budget is exact, the event history links
  statuses. \<open>Proxmox_Override\<close> and \<open>Result_Service\<close> (\<open>proxmox_override.py\<close>, \<open>result_service.py\<close>,
  \<open>writer.py\<close>): the transaction that persists a batch of results; results that only say that a check
  could not run change nothing of the target. \<open>Probe_Scheduler\<close> (\<open>scheduler.py\<close>): lease deadlines, the
  claim query with its limits and its fairness, the opening of runs. \<open>Agent_Probe\<close> (\<open>services/agent_probe.py\<close>): what an
  agent's result must satisfy before it is believed, and its redaction. \<open>Probe_Runs\<close>
  (\<open>workers/monitor_probe_dispatch.py\<close>, \<open>probe_reconcile.py\<close>, \<open>monitor_service.py\<close>): dispatch, expiry, staleness,
  cancellation and retention interleaved with scheduling and ingest: one active run per monitor,
  closed runs stay closed, overdue runs are closed. The eligibility decision, the broker's answers and the
  clock are parameters of the steps. \<open>Probe_Eligibility\<close> (\<open>probe_eligibility.py\<close>) models that decision on the registry of
  agents below and composes it with the dispatch: a check is eligible exactly where it may run, and only then assigned. The
  questions to Redis and the resolver may raise there, and then the check raises.

  \<^bold>\<open>Metric alerts.\<close> \<open>Metric_Evaluator\<close> (\<open>metric_evaluator.py\<close>): events exactly for a sustained breach or
  recovery. \<open>Metric_Rules\<close> (\<open>metric_rules.py\<close>, \<open>metric_catalog.py\<close>, \<open>workers/metric_alert_worker.py\<close>): rule editing,
  evaluation passes and the event outbox; the open incident is what the event history replays to.

  \<^bold>\<open>Audit log.\<close> \<open>Audit_Chain\<close> (\<open>core/audit_chain.py\<close>): rows, canonical text, hashes, verification and
  repair. \<open>Log_Redaction\<close> and \<open>Audit_Log\<close> (\<open>services/log_service.py\<close>, \<open>audit_spool.py\<close>, \<open>log_purge.py\<close>): the
  writers, the spool, the retention purge; over every interleaving of them the chain verifies in full.
  SHA-256 is a parameter; the theorems about detected tampering state what a collision would excuse.

  \<^bold>\<open>Host lifecycle\<close> (\<open>deploy/scripts/lifecycle-state.py\<close>). \<open>Lifecycle_Journal\<close>: the journal of an operation and
  the rules of its records, the validator's machine (\<open>lc_step\<close>) and the contract's (\<open>contract_step\<close>) as step relations; the
  validator accepts exactly the runs of the contract's machine and those with one lenient closing record, which J6 of the
  contract forbids. A journal has at most 23 records and every transaction can be finished.
  \<open>Lifecycle_Schema\<close>: the canonical text, the journal's schema and that its size limit never refuses a legal
  journal. \<open>Lifecycle_Store\<close>: the state tree, counters, index, retention and the five requests, with every
  write failing before or after its rename (\<open>env\<close>). \<open>Lifecycle_Safety\<close> and \<open>Lifecycle_Properties\<close>: journals
  only grow, one unfinished transaction, checkpoints are all or nothing, identifiers and sequences are never
  reused, listing settles dead operations, retention releases nothing that is needed.

  \<^bold>\<open>Agents.\<close> \<open>Agent_Scope\<close> (\<open>core/agent_scope.py\<close>): the scope derived from the networks an agent reports and the grant of
  its capability, its version, and the judgement of addresses, hostnames and prefixes; an address is allowed exactly when
  it is in a permitted network, in no excluded one and in no blocked block. \<open>Agent_Capabilities\<close>
  (\<open>services/agent_capabilities.py\<close>): the normalizers of capability grants; what is stored is within bounds, stable, and is
  evaluated as it was written. \<open>Agent_Registry\<close> (\<open>services/agent_registry.py\<close>, \<open>agent_enrollment_tokens.py\<close>,
  \<open>db/models/agents.py\<close>): agents, grants, networks, tokens and the timeline with their operations.
  \<open>Agent_Enrollment\<close> (\<open>api/ws_agents.py\<close>, \<open>api/agents.py\<close>, \<open>services/agent_link.py\<close>): the requests that change them as
  one machine. Its invariant (unique keys, canonical grants, every approved agent fully granted, tokens within their
  uses, pending agents within the cap) holds after every sequence of requests; revocation is final, enrollment by token
  is exact, grants change by decisions only, and a key rotation ends with the new key alone. The interface \<open>vantage_gate\<close> (in
  \<open>Probe_Eligibility\<close>) is what the eligibility checks for probing and for discovery share; from it follows that an agent
  that was revoked gets no work again, nor one whose capability was switched off until a request may switch it on.

  \<^bold>\<open>Discovery.\<close> \<open>Discovery_Admission\<close> (\<open>services/discovery_eligibility.py\<close>, \<open>discovery_admission.py\<close>): which agent may scan which
  networks, the admission of requests by ports and number of addresses, and the three pauses of scheduled scans.
  \<open>Network_Acl\<close> (\<open>core/network_acl.py\<close>): which networks the server itself may scan. \<open>Scan_Jobs\<close> (\<open>core/discovery_scan_types.py\<close>,
  \<open>core/nmap_args.py\<close>, \<open>services/discovery_network.py\<close>, \<open>create_scan_job\<close> of \<open>services/discovery_service.py\<close>): a job is created only
  for targets that may be scanned and is read back with exactly those asked for; scanner arguments that are accepted are harmless.
  \<open>Scan_Results\<close> (\<open>services/discovery_result_service.py\<close>, \<open>discovery_enrich.py\<close>): findings as rows of the review queue and as
  values for known devices while \<open>discovery_auto_merge\<close> is off; the inventory is only filled but for liveness and provenance, the
  queue asks once per device, and the repair at startup does not depend on its batches.

  \<^bold>\<open>Parameters and bounds.\<close> Functions that stand for code outside the repository (the hash, the TTL
  cache, the JSON codec, presence in Redis, the resolver, the outcome of writes) are arguments, and the hypotheses on them are
  stated in the theorems that need them. Recursion is structural or has a measure: the retention purge and the
  repair loop consume rows, the redaction rounds are the source's four, and the matcher of regular
  expressions recurses on the expression and on the text left. There is no fuel.

  \<^bold>\<open>Where the model is narrower than the code.\<close> Outside the lifecycle tools, texts are lists of 8-bit characters, and changes of case
  touch ASCII letters only. The dispatch of a run is one step of the machine of \<open>Probe_Runs\<close>; the race between its load and its
  write is shown by a theorem of its own. The push of live statuses has no failure of single entries. Networks that differ only
  in an IPv6 zone are sorted in one fixed order, which Python leaves open. Pausing and resuming discovery is an instance of the
  request that updates capabilities. The clock stands still during a retention purge. With \<open>discovery_auto_merge\<close> on, a scan by
  the server goes on to merge its rows into the inventory; that merge is not modelled.

  \<^bold>\<open>Not modelled.\<close> HTTP routers, command line tools and the schema interpreter around the modelled
  schemas; network clients, scanners, collectors and delivery of notifications, which are I/O; what lives in Redis (presence,
  ownership of connections, pairing codes, attempt limits) and the Noise handshake; the scans themselves and the merging of results by operators, inventory, access control,
  the vault and backups; SQL isolation beyond the locks and the interleavings named above.
\<close>

end
